(* ===== verification/Prelude.thy ===== *)
theory Prelude
  imports Main "HOL-Library.Word"
begin

text \<open>
  Shared vocabulary of the development: the names of Rust's integer types, the checked,
  saturating and rounding operations of the Rust standard library on them, the \<open>?\<close> operator on
  results, and the array loops (shift down, shift up) that the fixed-storage tables of the kernel
  use. Every operation comes with the fact that reads it as a natural number (\<open>unat\<close>); these
  facts form the collection \<open>rust_arith\<close>, which the component theories pass to the simplifier.
  Plain \<open>+\<close>, \<open>-\<close> and \<open>*\<close> on words wrap around, as the release profile of the kernel does.
\<close>

unbundle bit_operations_syntax

named_theorems rust_arith \<open>Rust integer operations read as operations on natural numbers\<close>

type_synonym u8 = "8 word"
type_synonym u16 = "16 word"
type_synonym u32 = "32 word"
type_synonym u64 = "64 word"
type_synonym usize = "64 word"

text \<open>\<open>Result<T, E>\<close>: the left summand is the error.\<close>

type_synonym ('e, 'a) result = "'e + 'a"

text \<open>A \<open>&str\<close> or \<open>String\<close> is the list of its characters, a character its Unicode scalar value.\<close>

type_synonym str = "nat list"

definition lit :: "string \<Rightarrow> str" where
  "lit s = map of_char s"

section \<open>Results\<close>

definition and_then :: "('e, 'a) result \<Rightarrow> ('a \<Rightarrow> ('e, 'b) result) \<Rightarrow> ('e, 'b) result" where
  "and_then r f = (case r of Inl e \<Rightarrow> Inl e | Inr x \<Rightarrow> f x)"

definition map_err :: "('e \<Rightarrow> 'f) \<Rightarrow> ('e, 'a) result \<Rightarrow> ('f, 'a) result" where
  "map_err g r = (case r of Inl e \<Rightarrow> Inl (g e) | Inr x \<Rightarrow> Inr x)"

definition ok_or :: "'a option \<Rightarrow> 'e \<Rightarrow> ('e, 'a) result" where
  "ok_or m e = (case m of None \<Rightarrow> Inl e | Some x \<Rightarrow> Inr x)"

lemma and_then_simps [simp]:
  "and_then (Inl e) f = Inl e"
  "and_then (Inr x) f = f x"
  by (simp_all add: and_then_def)

lemma map_err_simps [simp]:
  "map_err g (Inl e) = Inl (g e)"
  "map_err g (Inr x) = Inr x"
  by (simp_all add: map_err_def)

lemma ok_or_simps [simp]:
  "ok_or None e = Inl e"
  "ok_or (Some x) e = Inr x"
  by (simp_all add: ok_or_def)

lemma and_then_eq_Inr_iff: "and_then r f = Inr y \<longleftrightarrow> (\<exists>x. r = Inr x \<and> f x = Inr y)"
  by (cases r) auto

section \<open>Checked and saturating arithmetic\<close>

definition checked_add :: "'l::len word \<Rightarrow> 'l word \<Rightarrow> 'l word option" where
  "checked_add a b = (if unat a + unat b < 2 ^ LENGTH('l) then Some (a + b) else None)"

definition checked_sub :: "'l::len word \<Rightarrow> 'l word \<Rightarrow> 'l word option" where
  "checked_sub a b = (if b \<le> a then Some (a - b) else None)"

definition checked_mul :: "'l::len word \<Rightarrow> 'l word \<Rightarrow> 'l word option" where
  "checked_mul a b = (if unat a * unat b < 2 ^ LENGTH('l) then Some (a * b) else None)"

definition saturating_add :: "'l::len word \<Rightarrow> 'l word \<Rightarrow> 'l word" where
  "saturating_add a b = (case checked_add a b of Some c \<Rightarrow> c | None \<Rightarrow> - 1)"

definition saturating_sub :: "'l::len word \<Rightarrow> 'l word \<Rightarrow> 'l word" where
  "saturating_sub a b = (case checked_sub a b of Some c \<Rightarrow> c | None \<Rightarrow> 0)"

definition saturating_mul :: "'l::len word \<Rightarrow> 'l word \<Rightarrow> 'l word" where
  "saturating_mul a b = (case checked_mul a b of Some c \<Rightarrow> c | None \<Rightarrow> - 1)"

definition is_multiple_of :: "'l::len word \<Rightarrow> 'l word \<Rightarrow> bool" where
  "is_multiple_of a b = (if b = 0 then a = 0 else a mod b = 0)"

lemma unat_add_exact:
  fixes a b :: "'l::len word"
  assumes "unat a + unat b < 2 ^ LENGTH('l)"
  shows "unat (a + b) = unat a + unat b"
  using assms by (simp add: unat_word_ariths)

lemma unat_mult_exact:
  fixes a b :: "'l::len word"
  assumes "unat a * unat b < 2 ^ LENGTH('l)"
  shows "unat (a * b) = unat a * unat b"
  using assms by (simp add: unat_word_ariths)

lemma unat_sub_exact:
  fixes a b :: "'l::len word"
  assumes "b \<le> a"
  shows "unat (a - b) = unat a - unat b"
  using assms by (simp add: unat_sub)

lemma unat_bound: "unat (a :: 'l::len word) < 2 ^ LENGTH('l)"
  by (rule unsigned_less)

lemma unat_max_word: "unat (- 1 :: 'l::len word) = 2 ^ LENGTH('l) - 1"
  by (simp add: unsigned_minus_1_eq_mask mask_eq_exp_minus_1)

lemma checked_add_Some_iff [rust_arith]:
  fixes a b c :: "'l::len word"
  shows "checked_add a b = Some c \<longleftrightarrow> unat a + unat b < 2 ^ LENGTH('l) \<and> unat c = unat a + unat b"
  by (auto simp: checked_add_def unat_add_exact word_unat_eq_iff)

lemma checked_add_None_iff [rust_arith]:
  fixes a b :: "'l::len word"
  shows "checked_add a b = None \<longleftrightarrow> 2 ^ LENGTH('l) \<le> unat a + unat b"
  by (auto simp: checked_add_def not_less)

lemma checked_mul_Some_iff [rust_arith]:
  fixes a b c :: "'l::len word"
  shows "checked_mul a b = Some c \<longleftrightarrow> unat a * unat b < 2 ^ LENGTH('l) \<and> unat c = unat a * unat b"
  by (auto simp: checked_mul_def unat_mult_exact word_unat_eq_iff)

lemma checked_mul_None_iff [rust_arith]:
  fixes a b :: "'l::len word"
  shows "checked_mul a b = None \<longleftrightarrow> 2 ^ LENGTH('l) \<le> unat a * unat b"
  by (auto simp: checked_mul_def not_less)

lemma checked_sub_Some_iff [rust_arith]:
  fixes a b c :: "'l::len word"
  shows "checked_sub a b = Some c \<longleftrightarrow> unat b \<le> unat a \<and> unat c = unat a - unat b"
  by (auto simp: checked_sub_def unat_sub_exact word_unat_eq_iff word_le_nat_alt)

lemma unat_saturating_add [rust_arith]:
  fixes a b :: "'l::len word"
  shows "unat (saturating_add a b) = min (unat a + unat b) (2 ^ LENGTH('l) - 1)"
  by (auto simp: saturating_add_def checked_add_def unat_add_exact unat_max_word
      split: option.splits)

lemma unat_saturating_sub [rust_arith]:
  fixes a b :: "'l::len word"
  shows "unat (saturating_sub a b) = unat a - unat b"
  by (auto simp: saturating_sub_def checked_sub_def unat_sub_exact word_le_nat_alt
      split: option.splits)

lemma unat_saturating_mul [rust_arith]:
  fixes a b :: "'l::len word"
  shows "unat (saturating_mul a b) = min (unat a * unat b) (2 ^ LENGTH('l) - 1)"
  by (auto simp: saturating_mul_def checked_mul_def unat_mult_exact unat_max_word
      split: option.splits)

text \<open>Equations that evaluate on concrete words without unary numbers.\<close>

lemma checked_add_code [code]:
  fixes a b :: "'l::len word"
  shows "checked_add a b = (if uint a + uint b < 2 ^ LENGTH('l) then Some (a + b) else None)"
proof -
  have "uint a + uint b < 2 ^ LENGTH('l) \<longleftrightarrow> unat a + unat b < 2 ^ LENGTH('l)"
    using of_nat_less_iff [of "unat a + unat b" "2 ^ LENGTH('l)", where 'a = int] by simp
  then show ?thesis by (simp add: checked_add_def)
qed

lemma checked_mul_code [code]:
  fixes a b :: "'l::len word"
  shows "checked_mul a b = (if uint a * uint b < 2 ^ LENGTH('l) then Some (a * b) else None)"
proof -
  have "uint a * uint b < 2 ^ LENGTH('l) \<longleftrightarrow> unat a * unat b < 2 ^ LENGTH('l)"
    using of_nat_less_iff [of "unat a * unat b" "2 ^ LENGTH('l)", where 'a = int] by simp
  then show ?thesis by (simp add: checked_mul_def)
qed

lemma is_multiple_of_iff [rust_arith]:
  fixes a b :: "'l::len word"
  shows "is_multiple_of a b \<longleftrightarrow> unat b dvd unat a"
proof (cases "b = 0")
  case True
  then show ?thesis by (simp add: is_multiple_of_def unat_eq_zero)
next
  case False
  have "a mod b = 0 \<longleftrightarrow> unat (a mod b) = 0"
    by (simp add: unat_eq_zero)
  then show ?thesis
    using False by (simp add: is_multiple_of_def unat_mod mod_eq_0_iff_dvd)
qed

lemma saturating_add_diff [simp]:
  fixes a b :: "'l::len word"
  assumes "a \<le> b"
  shows "saturating_add a (b - a) = b"
proof -
  have "unat (saturating_add a (b - a)) = min (unat b) (2 ^ LENGTH('l) - 1)"
    using assms by (simp add: unat_saturating_add unat_sub_exact word_le_nat_alt)
  also have "\<dots> = unat b"
    using unat_bound [of b] by (intro min.absorb1) linarith
  finally show ?thesis by (simp add: word_unat_eq_iff)
qed

text \<open>Clearing the low bits rounds down to a multiple of a power of two.\<close>

lemma round_down_mask:
  fixes a :: "'l::len word"
  shows "a AND NOT (mask n) = push_bit n (drop_bit n a)"
  by (rule bit_word_eqI) (auto simp: bit_simps)

section \<open>Lists\<close>

lemma find_append:
  "find P (xs @ ys) = (case find P xs of None \<Rightarrow> find P ys | Some x \<Rightarrow> Some x)"
  by (induction xs) auto

lemma find_None_all: "find P xs = None \<longleftrightarrow> (\<forall>x \<in> set xs. \<not> P x)"
  by (auto simp: find_None_iff)

lemma find_filter_implied: "(\<And>x. P x \<Longrightarrow> Q x) \<Longrightarrow> find P (filter Q xs) = find P xs"
  by (induction xs) auto

lemma sorted_wrt_concat_map:
  assumes "sorted_wrt R xs" and "\<And>x. x \<in> set xs \<Longrightarrow> sorted_wrt R (f x)"
    and "\<And>x y a b. R x y \<Longrightarrow> a \<in> set (f x) \<Longrightarrow> b \<in> set (f y) \<Longrightarrow> R a b"
  shows "sorted_wrt R (concat (map f xs))"
  using assms(1,2) by (induction xs) (auto simp: sorted_wrt_append intro: assms(3))

section \<open>Loops over fixed arrays\<close>

text \<open>
  \<open>shift_down xs i n\<close> is the loop \<^verbatim>\<open>for c in i..n { xs[c] = xs[c + 1] }\<close>;
  \<open>shift_up xs i m\<close> is the loop \<^verbatim>\<open>while m > i { xs[m] = xs[m - 1]; m -= 1 }\<close>.
\<close>

function shift_down :: "'a list \<Rightarrow> nat \<Rightarrow> nat \<Rightarrow> 'a list" where
  "shift_down xs c n = (if c < n then shift_down (xs[c := xs ! Suc c]) (Suc c) n else xs)"
  by pat_completeness auto
termination
  by (relation "measure (\<lambda>(xs, c, n). n - c)") auto

fun shift_up :: "'a list \<Rightarrow> nat \<Rightarrow> nat \<Rightarrow> 'a list" where
  "shift_up xs i 0 = xs"
| "shift_up xs i (Suc m) = (if i < Suc m then shift_up (xs[Suc m := xs ! m]) i m else xs)"

declare shift_down.simps [simp del]

lemma length_shift_down [simp]: "length (shift_down xs c n) = length xs"
proof (induction xs c n rule: shift_down.induct)
  case (1 xs c n)
  then show ?case by (subst shift_down.simps) auto
qed

lemma length_shift_up [simp]: "length (shift_up xs i m) = length xs"
  by (induction xs i m rule: shift_up.induct) auto

lemma nth_shift_down:
  "n < length xs \<Longrightarrow> shift_down xs c n ! k = (if c \<le> k \<and> k < n then xs ! Suc k else xs ! k)"
proof (induction xs c n rule: shift_down.induct)
  case (1 xs c n)
  show ?case
  proof (cases "c < n")
    case True
    with "1.IH" "1.prems"
    have "shift_down (xs[c := xs ! Suc c]) (Suc c) n ! k =
        (if Suc c \<le> k \<and> k < n then xs[c := xs ! Suc c] ! Suc k else xs[c := xs ! Suc c] ! k)"
      by simp
    with True "1.prems" show ?thesis
      by (subst shift_down.simps) (auto simp: nth_list_update)
  next
    case False
    then show ?thesis by (subst shift_down.simps) auto
  qed
qed

lemma nth_shift_up:
  "m < length xs \<Longrightarrow> shift_up xs i m ! k = (if i < k \<and> k \<le> m then xs ! (k - 1) else xs ! k)"
  by (induction xs i m rule: shift_up.induct) (auto simp: nth_list_update le_Suc_eq)

text \<open>Closing the gap at index \<open>i\<close> of the first \<open>Suc n\<close> cells removes that element.\<close>

lemma take_shift_down:
  assumes "n < length xs" and "i \<le> n"
  shows "take n (shift_down xs i n) = take i xs @ drop (Suc i) (take (Suc n) xs)"
  using assms by (intro nth_equalityI) (auto simp: nth_shift_down nth_append)

text \<open>Opening a gap at index \<open>i\<close> and storing \<open>v\<close> there inserts \<open>v\<close>.\<close>

lemma take_shift_up:
  assumes "n < length xs" and "i \<le> n"
  shows "take (Suc n) ((shift_up xs i n)[i := v]) = take i xs @ v # drop i (take n xs)"
  using assms
  by (intro nth_equalityI) (auto simp: nth_shift_up nth_append nth_list_update nth_Cons')

lemma take_Suc_update_end: "n < length xs \<Longrightarrow> take (Suc n) (xs[n := v]) = take n xs @ [v]"
  by (simp add: take_Suc_conv_app_nth)

end
