(* ===== verification/Globals.thy ===== *)
theory Globals
  imports Prelude
begin

text \<open>
  The kernel-wide constants of \<^verbatim>\<open>src/src/globals.rs\<close> that the modelled components share. Sizes of
  fixed tables are natural numbers (they bound array indices); addresses and byte counts are
  words of the width the source gives them.
\<close>

definition MAX_INPUT_CHARS :: nat where "MAX_INPUT_CHARS = 512"

definition COMMAND_NAMES :: "string list" where
  "COMMAND_NAMES = [''about'', ''clear'', ''echo'', ''font'', ''help'', ''history'', ''meminfo'',
     ''shutdown'', ''taskinfo'', ''uptime'']"

definition PROMPT :: string where "PROMPT = ''> ''"

definition MAX_MEMORY_RANGES :: nat where "MAX_MEMORY_RANGES = 256"

definition PAGE_SIZE :: u64 where "PAGE_SIZE = 4096"

definition KERNEL_BASE :: u64 where "KERNEL_BASE = 0xffff800000000000"
definition HEAP_BASE :: u64 where "HEAP_BASE = 0xffff900000000000"
definition FRAMEBUFFER_BASE :: u64 where "FRAMEBUFFER_BASE = 0xffffa00000000000"
definition MMIO_BASE :: u64 where "MMIO_BASE = 0xffffb00000000000"
definition STACK_BASE :: u64 where "STACK_BASE = 0xffffc00000000000"
definition LOW_CANONICAL_MAX :: u64 where "LOW_CANONICAL_MAX = 0x00007fffffffffff"
definition HIGH_CANONICAL_MIN :: u64 where "HIGH_CANONICAL_MIN = 0xffff800000000000"
definition MAX_PAGE_TABLE_FRAMES :: nat where "MAX_PAGE_TABLE_FRAMES = 512"
definition RECURSIVE_INDEX :: u16 where "RECURSIVE_INDEX = 510"

definition TASK_STACK_SIZE :: usize where "TASK_STACK_SIZE = 4 * 1024"
definition STACK_FRAME_WORDS :: nat where "STACK_FRAME_WORDS = 7"
definition MAX_TASKS :: nat where "MAX_TASKS = 64"
definition TASK_BUDGET :: nat where "TASK_BUDGET = 8"

definition PIT_FREQUENCY :: u64 where "PIT_FREQUENCY = 1193182"
definition TIMER_FREQUENCY :: u64 where "TIMER_FREQUENCY = 1000"
definition PIT_DIVISOR :: u64 where "PIT_DIVISOR = PIT_FREQUENCY div TIMER_FREQUENCY"

lemma unat_PAGE_SIZE [simp]: "unat PAGE_SIZE = 4096"
  by (simp add: PAGE_SIZE_def)

lemma PAGE_SIZE_pos [simp]: "PAGE_SIZE \<noteq> 0"
  by (simp add: PAGE_SIZE_def)

end
