(* ===== verification/Memory.thy ===== *)
theory Memory
  imports Globals
begin

text \<open>
  The kernel-owned physical memory map, \<^verbatim>\<open>src/src/memory.rs\<close>: classification of UEFI memory
  types, the fixed table of ranges (\<open>MemoryMapSnapshot\<close>), its construction from the firmware map,
  reservations that split the ranges they overlap, and the per-kind byte totals. The central facts:
  a reservation changes the classification of exactly the addresses it covers and loses no byte,
  and every failure leaves the table as it was.
\<close>

section \<open>Types\<close>

datatype MemoryKind = Usable | Kernel | Firmware | Acpi | Device | Runtime | Unusable | Reserved

text \<open>
  \<open>uefi::MemoryType\<close> is an open enumeration of the firmware interface; the constructors are the
  named constants the kernel distinguishes, and \<open>OTHER_TYPE\<close> stands for every other value.
\<close>

datatype MemoryType =
    RESERVED | LOADER_CODE | LOADER_DATA | BOOT_SERVICES_CODE | BOOT_SERVICES_DATA
  | RUNTIME_SERVICES_CODE | RUNTIME_SERVICES_DATA | CONVENTIONAL | UNUSABLE
  | ACPI_RECLAIM | ACPI_NON_VOLATILE | MMIO | MMIO_PORT_SPACE | OTHER_TYPE u32

fun from_uefi_type :: "MemoryType \<Rightarrow> MemoryKind" where
  "from_uefi_type CONVENTIONAL = Usable"
| "from_uefi_type LOADER_CODE = Kernel"
| "from_uefi_type LOADER_DATA = Kernel"
| "from_uefi_type BOOT_SERVICES_CODE = Firmware"
| "from_uefi_type BOOT_SERVICES_DATA = Firmware"
| "from_uefi_type ACPI_RECLAIM = Acpi"
| "from_uefi_type ACPI_NON_VOLATILE = Acpi"
| "from_uefi_type MMIO = Device"
| "from_uefi_type MMIO_PORT_SPACE = Device"
| "from_uefi_type RUNTIME_SERVICES_CODE = Runtime"
| "from_uefi_type RUNTIME_SERVICES_DATA = Runtime"
| "from_uefi_type UNUSABLE = Unusable"
| "from_uefi_type _ = Reserved"

record MemoryRange =
  mr_start :: u64
  mr_length :: u64
  mr_uefi_type :: MemoryType
  mr_kind :: MemoryKind

definition mr_end :: "MemoryRange \<Rightarrow> u64" where
  "mr_end r = saturating_add (mr_start r) (mr_length r)"

definition mr_contains :: "MemoryRange \<Rightarrow> u64 \<Rightarrow> bool" where
  "mr_contains r address \<longleftrightarrow> address \<ge> mr_start r \<and> address < mr_end r"

record MemoryMapSnapshot =
  ms_ranges :: "MemoryRange list"
  ms_count :: nat

datatype MemoryMapError =
    MapAlreadyInitialized | MapEmpty | InvalidRange | RangeNotFound | TooManyRanges
  | MapNotInitialized

text \<open>The fields of a UEFI memory descriptor that the kernel reads.\<close>

record MemoryDescriptor =
  md_ty :: MemoryType
  md_phys_start :: u64
  md_page_count :: u64

definition empty_range :: MemoryRange where
  "empty_range = \<lparr>mr_start = 0, mr_length = 0, mr_uefi_type = RESERVED, mr_kind = Reserved\<rparr>"

section \<open>Operations\<close>

definition snapshot_ranges :: "MemoryMapSnapshot \<Rightarrow> MemoryRange list" where
  "snapshot_ranges s = take (ms_count s) (ms_ranges s)"

definition snapshot_is_empty :: "MemoryMapSnapshot \<Rightarrow> bool" where
  "snapshot_is_empty s \<longleftrightarrow> ms_count s = 0"

definition snapshot_kind_at :: "MemoryMapSnapshot \<Rightarrow> u64 \<Rightarrow> MemoryKind option" where
  "snapshot_kind_at s address =
     map_option mr_kind (find (\<lambda>r. mr_contains r address) (snapshot_ranges s))"

text \<open>The body of the loop of \<open>copy_from\<close>, for one descriptor.\<close>

definition copy_descriptor ::
  "MemoryMapSnapshot \<Rightarrow> MemoryDescriptor \<Rightarrow> (MemoryMapError, MemoryMapSnapshot) result" where
  "copy_descriptor s d =
     (if ms_count s = MAX_MEMORY_RANGES then Inl TooManyRanges
      else case checked_mul (md_page_count d) PAGE_SIZE of
        None \<Rightarrow> Inl InvalidRange
      | Some len \<Rightarrow>
         (case checked_add (md_phys_start d) len of
            None \<Rightarrow> Inl InvalidRange
          | Some e \<Rightarrow>
             if len = 0 \<or> e \<le> md_phys_start d then Inl InvalidRange
             else Inr (s\<lparr>ms_ranges := (ms_ranges s)[ms_count s :=
                        \<lparr>mr_start = md_phys_start d, mr_length = len, mr_uefi_type = md_ty d,
                         mr_kind = from_uefi_type (md_ty d)\<rparr>],
                       ms_count := ms_count s + 1\<rparr>)))"

fun copy_loop ::
  "MemoryMapSnapshot \<Rightarrow> MemoryDescriptor list \<Rightarrow> (MemoryMapError, MemoryMapSnapshot) result" where
  "copy_loop s [] = Inr s"
| "copy_loop s (d # ds) = and_then (copy_descriptor s d) (\<lambda>s'. copy_loop s' ds)"

definition empty_snapshot :: MemoryMapSnapshot where
  "empty_snapshot = \<lparr>ms_ranges = replicate MAX_MEMORY_RANGES empty_range, ms_count = 0\<rparr>"

definition copy_from :: "MemoryDescriptor list \<Rightarrow> (MemoryMapError, MemoryMapSnapshot) result" where
  "copy_from entries =
     and_then (copy_loop empty_snapshot entries)
       (\<lambda>s. if snapshot_is_empty s then Inl MapEmpty else Inr s)"

text \<open>The closure \<open>push\<close> of \<open>reserve_range\<close>; the pair is the replacement table and its count.\<close>

definition reserve_push ::
  "MemoryRange list \<times> nat \<Rightarrow> MemoryRange \<Rightarrow> (MemoryMapError, MemoryRange list \<times> nat) result" where
  "reserve_push rep value =
     (if mr_length value = 0 \<or> snd rep = MAX_MEMORY_RANGES
      then (if mr_length value = 0 then Inr rep else Inl TooManyRanges)
      else Inr ((fst rep)[snd rep := value], snd rep + 1))"

text \<open>One round of the loop: the replacement table, its count and the flag \<open>overlapped\<close>.\<close>

definition reserve_step ::
  "u64 \<Rightarrow> u64 \<Rightarrow> MemoryKind \<Rightarrow> MemoryRange \<Rightarrow> (MemoryRange list \<times> nat) \<times> bool \<Rightarrow>
   (MemoryMapError, (MemoryRange list \<times> nat) \<times> bool) result" where
  "reserve_step start e kind r acc =
     (let rep = fst acc;
          overlap_start = max start (mr_start r);
          overlap_end = min e (mr_end r)
      in if overlap_start \<ge> overlap_end
         then (if snd rep = MAX_MEMORY_RANGES then Inl TooManyRanges
               else Inr (((fst rep)[snd rep := r], snd rep + 1), snd acc))
         else and_then (reserve_push rep
                 (r\<lparr>mr_length := overlap_start - mr_start r\<rparr>)) (\<lambda>rep1.
              and_then (reserve_push rep1
                 (r\<lparr>mr_start := overlap_start, mr_length := overlap_end - overlap_start,
                    mr_kind := kind\<rparr>)) (\<lambda>rep2.
              and_then (reserve_push rep2
                 (r\<lparr>mr_start := overlap_end, mr_length := mr_end r - overlap_end\<rparr>)) (\<lambda>rep3.
              Inr (rep3, True)))))"

fun reserve_loop ::
  "u64 \<Rightarrow> u64 \<Rightarrow> MemoryKind \<Rightarrow> MemoryRange list \<Rightarrow> (MemoryRange list \<times> nat) \<times> bool \<Rightarrow>
   (MemoryMapError, (MemoryRange list \<times> nat) \<times> bool) result" where
  "reserve_loop start e kind [] acc = Inr acc"
| "reserve_loop start e kind (r # rs) acc =
     and_then (reserve_step start e kind r acc) (reserve_loop start e kind rs)"

definition reserve_range ::
  "MemoryMapSnapshot \<Rightarrow> u64 \<Rightarrow> u64 \<Rightarrow> MemoryKind \<Rightarrow>
   (MemoryMapError, unit) result \<times> MemoryMapSnapshot" where
  "reserve_range s start len kind =
     (case checked_add start len of
        None \<Rightarrow> (Inl InvalidRange, s)
      | Some e \<Rightarrow>
         if len = 0 \<or> e \<le> start then (Inl InvalidRange, s)
         else case reserve_loop start e kind (take (ms_count s) (ms_ranges s))
                     ((replicate MAX_MEMORY_RANGES empty_range, 0), False) of
                Inl err \<Rightarrow> (Inl err, s)
              | Inr (rep, overlapped) \<Rightarrow>
                  if \<not> overlapped then (Inl RangeNotFound, s)
                  else (Inr (), \<lparr>ms_ranges = fst rep, ms_count = snd rep\<rparr>))"

definition add_external_range ::
  "MemoryMapSnapshot \<Rightarrow> u64 \<Rightarrow> u64 \<Rightarrow> MemoryKind \<Rightarrow>
   (MemoryMapError, unit) result \<times> MemoryMapSnapshot" where
  "add_external_range s start len kind =
     (case checked_add start len of
        None \<Rightarrow> (Inl InvalidRange, s)
      | Some e \<Rightarrow>
         if len = 0 \<or> e \<le> start \<or> ms_count s = MAX_MEMORY_RANGES then (Inl InvalidRange, s)
         else (Inr (), s\<lparr>ms_ranges := (ms_ranges s)[ms_count s :=
                  \<lparr>mr_start = start, mr_length = len, mr_uefi_type = MMIO, mr_kind = kind\<rparr>],
                ms_count := ms_count s + 1\<rparr>))"

text \<open>
  The global \<open>MEMORY_MAP\<close> is \<open>None\<close> until \<open>initialize\<close> succeeds. The operations take its value and
  return the result with its new value.
\<close>

definition memory_initialize ::
  "MemoryMapSnapshot option \<Rightarrow> MemoryDescriptor list \<Rightarrow> (usize \<times> usize) option \<Rightarrow>
   (MemoryMapError, unit) result \<times> MemoryMapSnapshot option" where
  "memory_initialize g entries framebuffer =
     (if g \<noteq> None then (Inl MapAlreadyInitialized, g)
      else case copy_from entries of
        Inl e \<Rightarrow> (Inl e, g)
      | Inr s \<Rightarrow>
         (case framebuffer of
            None \<Rightarrow> (Inr (), Some s)
          | Some (start, len) \<Rightarrow>
             (case reserve_range s start len Device of
                (Inr _, s') \<Rightarrow> (Inr (), Some s')
              | (Inl RangeNotFound, s') \<Rightarrow>
                 (case add_external_range s' start len Device of
                    (Inl e, _) \<Rightarrow> (Inl e, g)
                  | (Inr _, s'') \<Rightarrow> (Inr (), Some s''))
              | (Inl e, _) \<Rightarrow> (Inl e, g))))"

definition memory_reserve ::
  "MemoryMapSnapshot option \<Rightarrow> usize \<Rightarrow> usize \<Rightarrow> MemoryKind \<Rightarrow>
   (MemoryMapError, unit) result \<times> MemoryMapSnapshot option" where
  "memory_reserve g start len kind =
     (case g of
        None \<Rightarrow> (Inl MapNotInitialized, g)
      | Some s \<Rightarrow> (case reserve_range s start len kind of (r, s') \<Rightarrow> (r, Some s')))"

definition memory_kind_at :: "MemoryMapSnapshot option \<Rightarrow> u64 \<Rightarrow> MemoryKind option" where
  "memory_kind_at g address = Option.bind g (\<lambda>s. snapshot_kind_at s address)"

record MemorySummary =
  sum_ranges :: nat
  usable_bytes :: u64
  kernel_bytes :: u64
  firmware_bytes :: u64
  acpi_bytes :: u64
  device_bytes :: u64
  runtime_bytes :: u64
  reserved_bytes :: u64
  unusable_bytes :: u64

fun summary_add :: "MemoryRange \<Rightarrow> MemorySummary \<Rightarrow> MemorySummary" where
  "summary_add r s =
     (case mr_kind r of
        Usable \<Rightarrow> s\<lparr>usable_bytes := saturating_add (usable_bytes s) (mr_length r)\<rparr>
      | Kernel \<Rightarrow> s\<lparr>kernel_bytes := saturating_add (kernel_bytes s) (mr_length r)\<rparr>
      | Firmware \<Rightarrow> s\<lparr>firmware_bytes := saturating_add (firmware_bytes s) (mr_length r)\<rparr>
      | Acpi \<Rightarrow> s\<lparr>acpi_bytes := saturating_add (acpi_bytes s) (mr_length r)\<rparr>
      | Device \<Rightarrow> s\<lparr>device_bytes := saturating_add (device_bytes s) (mr_length r)\<rparr>
      | Runtime \<Rightarrow> s\<lparr>runtime_bytes := saturating_add (runtime_bytes s) (mr_length r)\<rparr>
      | Unusable \<Rightarrow> s\<lparr>unusable_bytes := saturating_add (unusable_bytes s) (mr_length r)\<rparr>
      | Reserved \<Rightarrow> s\<lparr>reserved_bytes := saturating_add (reserved_bytes s) (mr_length r)\<rparr>)"

definition snapshot_summary :: "MemoryMapSnapshot \<Rightarrow> MemorySummary" where
  "snapshot_summary s =
     fold summary_add (snapshot_ranges s)
       \<lparr>sum_ranges = ms_count s, usable_bytes = 0, kernel_bytes = 0, firmware_bytes = 0,
        acpi_bytes = 0, device_bytes = 0, runtime_bytes = 0, reserved_bytes = 0,
        unusable_bytes = 0\<rparr>"

section \<open>Reservations as list operations\<close>

definition overlaps_range :: "u64 \<Rightarrow> u64 \<Rightarrow> MemoryRange \<Rightarrow> bool" where
  "overlaps_range start e r \<longleftrightarrow> max start (mr_start r) < min e (mr_end r)"

definition range_pieces :: "u64 \<Rightarrow> u64 \<Rightarrow> MemoryKind \<Rightarrow> MemoryRange \<Rightarrow> MemoryRange list" where
  "range_pieces start e kind r =
     (let os = max start (mr_start r); oe = min e (mr_end r)
      in if \<not> overlaps_range start e r then [r]
         else filter (\<lambda>p. mr_length p \<noteq> 0)
           [r\<lparr>mr_length := os - mr_start r\<rparr>,
            r\<lparr>mr_start := os, mr_length := oe - os, mr_kind := kind\<rparr>,
            r\<lparr>mr_start := oe, mr_length := mr_end r - oe\<rparr>])"

definition reserve_pieces :: "u64 \<Rightarrow> u64 \<Rightarrow> MemoryKind \<Rightarrow> MemoryRange list \<Rightarrow> MemoryRange list" where
  "reserve_pieces start e kind rs = concat (map (range_pieces start e kind) rs)"

definition table_ok :: "MemoryRange list \<times> nat \<Rightarrow> bool" where
  "table_ok t \<longleftrightarrow> length (fst t) = MAX_MEMORY_RANGES \<and> snd t \<le> MAX_MEMORY_RANGES"

definition table_items :: "MemoryRange list \<times> nat \<Rightarrow> MemoryRange list" where
  "table_items t = take (snd t) (fst t)"

fun table_append :: "MemoryRange list \<times> nat \<Rightarrow> MemoryRange list \<Rightarrow> MemoryRange list \<times> nat" where
  "table_append t [] = t"
| "table_append t (v # vs) = table_append ((fst t)[snd t := v], snd t + 1) vs"

lemma table_append_append: "table_append t (vs @ ws) = table_append (table_append t vs) ws"
  by (induction t vs rule: table_append.induct) auto

lemma table_append_facts:
  assumes "table_ok t" and "snd t + length vs \<le> MAX_MEMORY_RANGES"
  shows "table_ok (table_append t vs) \<and> snd (table_append t vs) = snd t + length vs \<and>
    table_items (table_append t vs) = table_items t @ vs"
  using assms
  by (induction t vs rule: table_append.induct)
    (auto simp: table_ok_def table_items_def take_Suc_update_end)

lemma reserve_push_eq:
  assumes "table_ok t"
  shows "reserve_push t v =
    (if snd t + length (filter (\<lambda>p. mr_length p \<noteq> 0) [v]) \<le> MAX_MEMORY_RANGES
     then Inr (table_append t (filter (\<lambda>p. mr_length p \<noteq> 0) [v])) else Inl TooManyRanges)"
  using assms by (auto simp: reserve_push_def table_ok_def)

lemma reserve_pushes_eq:
  assumes "table_ok t"
  shows "and_then (reserve_push t a) (\<lambda>t1. and_then (reserve_push t1 b) (\<lambda>t2.
      and_then (reserve_push t2 c) f)) =
    (let ps = filter (\<lambda>p. mr_length p \<noteq> 0) [a, b, c]
     in if snd t + length ps \<le> MAX_MEMORY_RANGES then f (table_append t ps) else Inl TooManyRanges)"
proof -
  define nz where "nz = filter (\<lambda>p :: MemoryRange. mr_length p \<noteq> 0)"
  have split: "nz [a, b, c] = nz [a] @ nz [b] @ nz [c]" by (simp add: nz_def)
  have push: "reserve_push u v = (if snd u + length (nz [v]) \<le> MAX_MEMORY_RANGES
      then Inr (table_append u (nz [v])) else Inl TooManyRanges)" if "table_ok u" for u v
    using reserve_push_eq [OF that, of v] by (simp only: nz_def)
  note facts = table_append_facts [of _ "nz [_]"]
  show ?thesis
    unfolding nz_def [symmetric] split
    by (simp add: push assms facts table_append_append Let_def add.assoc)
qed

lemma reserve_step_eq:
  assumes "table_ok t"
  shows "reserve_step start e kind r (t, ov) =
    (if snd t + length (range_pieces start e kind r) \<le> MAX_MEMORY_RANGES
     then Inr (table_append t (range_pieces start e kind r), ov \<or> overlaps_range start e r)
     else Inl TooManyRanges)"
proof (cases "overlaps_range start e r")
  case True
  then have "\<not> min e (mr_end r) \<le> max start (mr_start r)"
    by (simp only: overlaps_range_def not_le)
  with True show ?thesis
    unfolding reserve_step_def Let_def fst_conv reserve_pushes_eq [OF assms] range_pieces_def
    by (simp only: if_False if_True simp_thms)
next
  case False
  then have "min e (mr_end r) \<le> max start (mr_start r)"
    by (simp only: overlaps_range_def not_less)
  moreover have "snd t = MAX_MEMORY_RANGES \<longleftrightarrow> \<not> snd t + 1 \<le> MAX_MEMORY_RANGES"
    using assms by (auto simp: table_ok_def)
  ultimately show ?thesis
    using False unfolding reserve_step_def Let_def fst_conv range_pieces_def by simp
qed

lemma reserve_loop_eq:
  assumes "table_ok t"
  shows "reserve_loop start e kind rs (t, ov) =
    (if snd t + length (reserve_pieces start e kind rs) \<le> MAX_MEMORY_RANGES
     then Inr (table_append t (reserve_pieces start e kind rs), ov \<or> (\<exists>r \<in> set rs. overlaps_range start e r))
     else Inl TooManyRanges)"
  using assms
proof (induction rs arbitrary: t ov)
  case Nil
  then show ?case by (simp add: reserve_pieces_def table_ok_def)
next
  case (Cons r rs)
  let ?ps = "range_pieces start e kind r"
  have split: "reserve_pieces start e kind (r # rs) = ?ps @ reserve_pieces start e kind rs"
    by (simp add: reserve_pieces_def)
  show ?case
  proof (cases "snd t + length ?ps \<le> MAX_MEMORY_RANGES")
    case True
    with Cons.prems have "table_ok (table_append t ?ps)" "snd (table_append t ?ps) = snd t + length ?ps"
      by (simp_all add: table_append_facts)
    with True Cons show ?thesis
      by (auto simp: reserve_step_eq split table_append_append add.assoc)
  next
    case False
    with Cons.prems show ?thesis by (simp add: reserve_step_eq split)
  qed
qed

definition snapshot_ok :: "MemoryMapSnapshot \<Rightarrow> bool" where
  "snapshot_ok s \<longleftrightarrow> length (ms_ranges s) = MAX_MEMORY_RANGES \<and> ms_count s \<le> MAX_MEMORY_RANGES"

lemma table_of_pieces:
  assumes "length ps \<le> MAX_MEMORY_RANGES"
  shows "table_ok (table_append (replicate MAX_MEMORY_RANGES empty_range, 0) ps)"
    and "table_items (table_append (replicate MAX_MEMORY_RANGES empty_range, 0) ps) = ps"
    and "snd (table_append (replicate MAX_MEMORY_RANGES empty_range, 0) ps) = length ps"
proof -
  have "table_ok (replicate MAX_MEMORY_RANGES empty_range, 0)" by (simp add: table_ok_def)
  from table_append_facts [OF this, of ps] assms
  show "table_ok (table_append (replicate MAX_MEMORY_RANGES empty_range, 0) ps)"
    and "table_items (table_append (replicate MAX_MEMORY_RANGES empty_range, 0) ps) = ps"
    and "snd (table_append (replicate MAX_MEMORY_RANGES empty_range, 0) ps) = length ps"
    by (auto simp: table_items_def)
qed

lemma reserve_pieces_untouched:
  "\<not> (\<exists>r \<in> set rs. overlaps_range start e r) \<Longrightarrow> reserve_pieces start e kind rs = rs"
  by (induction rs) (auto simp: reserve_pieces_def range_pieces_def Let_def)

lemma end_after_start:
  assumes "checked_add start len = Some e" and "len \<noteq> 0"
  shows "start < e"
  using assms by (simp add: rust_arith word_less_nat_alt unat_gt_0)

lemma reserve_range_eq:
  assumes "snapshot_ok s"
  shows "reserve_range s start len kind =
    (let e = start + len; ps = reserve_pieces start e kind (snapshot_ranges s);
         t = table_append (replicate MAX_MEMORY_RANGES empty_range, 0) ps
     in if len = 0 \<or> 2 ^ 64 \<le> unat start + unat len then (Inl InvalidRange, s)
        else if \<not> (\<exists>r \<in> set (snapshot_ranges s). overlaps_range start e r) then (Inl RangeNotFound, s)
        else if MAX_MEMORY_RANGES < length ps then (Inl TooManyRanges, s)
        else (Inr (), \<lparr>ms_ranges = fst t, ms_count = snd t\<rparr>))"
proof (cases "len = 0 \<or> 2 ^ 64 \<le> unat start + unat len")
  case True
  then show ?thesis by (auto simp: reserve_range_def checked_add_def split: option.splits)
next
  case False
  then have e: "checked_add start len = Some (start + len)" by (simp add: checked_add_def)
  with False end_after_start [OF e] have lt: "\<not> start + len \<le> start" by (simp add: not_le)
  have ok: "table_ok (replicate MAX_MEMORY_RANGES empty_range, 0)" by (simp add: table_ok_def)
  have few: "length (snapshot_ranges s) \<le> MAX_MEMORY_RANGES"
    using assms by (simp add: snapshot_ok_def snapshot_ranges_def)
  show ?thesis
    using False few
    by (auto simp: reserve_range_def e lt reserve_loop_eq [OF ok] Let_def reserve_pieces_untouched
        snapshot_ranges_def [symmetric])
qed

lemma mr_contains_nonempty: "mr_contains p a \<Longrightarrow> mr_length p \<noteq> 0"
  using saturating_add_diff [of "mr_start p" "mr_start p"]
  by (auto simp: mr_contains_def mr_end_def)

lemma mr_contains_between:
  assumes "lo \<le> hi"
  shows "mr_contains (p\<lparr>mr_start := lo, mr_length := hi - lo\<rparr>) a \<longleftrightarrow> lo \<le> a \<and> a < hi"
    and "mr_start p = lo \<Longrightarrow> mr_contains (p\<lparr>mr_length := hi - lo\<rparr>) a \<longleftrightarrow> lo \<le> a \<and> a < hi"
    and "mr_contains (p\<lparr>mr_start := lo, mr_length := hi - lo, mr_kind := k\<rparr>) a \<longleftrightarrow> lo \<le> a \<and> a < hi"
  using assms by (auto simp: mr_contains_def mr_end_def)

lemma range_pieces_kind:
  "map_option mr_kind (find (\<lambda>p. mr_contains p a) (range_pieces start e kind r)) =
    (if mr_contains r a then Some (if start \<le> a \<and> a < e then kind else mr_kind r) else None)"
proof (cases "overlaps_range start e r")
  case True
  define os oe where "os = max start (mr_start r)" and "oe = min e (mr_end r)"
  have bounds: "mr_start r \<le> os" "os < oe" "oe \<le> mr_end r"
    using True by (simp_all add: overlaps_range_def os_def oe_def)
  have inside: "start \<le> a \<and> a < e \<longleftrightarrow> os \<le> a \<and> a < oe" if "mr_contains r a"
    using that by (auto simp: os_def oe_def mr_contains_def)
  show ?thesis
    using bounds True inside
    by (auto simp: range_pieces_def Let_def os_def [symmetric] oe_def [symmetric]
        find_filter_implied mr_contains_nonempty mr_contains_between mr_contains_def [of r]
        simp del: filter.simps)
next
  case False
  then show ?thesis
    by (auto simp: range_pieces_def overlaps_range_def Let_def mr_contains_def not_less)
qed

section \<open>Invariants of the table\<close>

definition mr_valid :: "MemoryRange \<Rightarrow> bool" where
  "mr_valid r \<longleftrightarrow> mr_length r \<noteq> 0 \<and> unat (mr_start r) + unat (mr_length r) < 2 ^ 64"

definition total_bytes :: "MemoryRange list \<Rightarrow> nat" where
  "total_bytes rs = sum_list (map (\<lambda>r. unat (mr_length r)) rs)"

definition usable_ranges :: "MemoryRange list \<Rightarrow> MemoryRange list" where
  "usable_ranges rs = filter (\<lambda>r. mr_kind r = Usable) rs"

definition ranges_sorted :: "MemoryRange list \<Rightarrow> bool" where
  "ranges_sorted rs \<longleftrightarrow> sorted_wrt (\<lambda>a b. mr_end a \<le> mr_start b) rs"

lemma unat_mr_end: "mr_valid r \<Longrightarrow> unat (mr_end r) = unat (mr_start r) + unat (mr_length r)"
  by (simp add: mr_valid_def mr_end_def unat_saturating_add)

lemma mr_valid_start_lt_end: "mr_valid r \<Longrightarrow> mr_start r < mr_end r"
  by (simp add: word_less_nat_alt unat_mr_end) (simp add: mr_valid_def unat_gt_0)

lemma piece_valid:
  assumes "lo < hi"
  shows "mr_valid (p\<lparr>mr_start := lo, mr_length := hi - lo\<rparr>)"
    and "mr_start p = lo \<Longrightarrow> mr_valid (p\<lparr>mr_length := hi - lo\<rparr>)"
    and "mr_valid (p\<lparr>mr_start := lo, mr_length := hi - lo, mr_kind := k\<rparr>)"
proof -
  have "hi - lo \<noteq> 0" "unat lo + unat (hi - lo) < 2 ^ 64"
    using assms unat_bound [of hi] by (auto simp: unat_sub_exact word_less_nat_alt word_le_nat_alt)
  then show "mr_valid (p\<lparr>mr_start := lo, mr_length := hi - lo\<rparr>)"
    and "mr_start p = lo \<Longrightarrow> mr_valid (p\<lparr>mr_length := hi - lo\<rparr>)"
    and "mr_valid (p\<lparr>mr_start := lo, mr_length := hi - lo, mr_kind := k\<rparr>)"
    by (simp_all add: mr_valid_def)
qed

lemma piece_end:
  assumes "lo \<le> hi"
  shows "mr_end (p\<lparr>mr_start := lo, mr_length := hi - lo\<rparr>) = hi"
    and "mr_start p = lo \<Longrightarrow> mr_end (p\<lparr>mr_length := hi - lo\<rparr>) = hi"
    and "mr_end (p\<lparr>mr_start := lo, mr_length := hi - lo, mr_kind := k\<rparr>) = hi"
  using assms by (auto simp: mr_end_def)

text \<open>The up to three pieces of a range that an overlap \<open>[os, oe)\<close> cuts.\<close>

definition cut_range :: "MemoryRange \<Rightarrow> u64 \<Rightarrow> u64 \<Rightarrow> MemoryKind \<Rightarrow> MemoryRange list" where
  "cut_range r os oe kind =
     (if mr_start r < os then [r\<lparr>mr_length := os - mr_start r\<rparr>] else []) @
     [r\<lparr>mr_start := os, mr_length := oe - os, mr_kind := kind\<rparr>] @
     (if oe < mr_end r then [r\<lparr>mr_start := oe, mr_length := mr_end r - oe\<rparr>] else [])"

lemma range_pieces_rule:
  assumes "P [r]"
    and "\<And>os oe. mr_start r \<le> os \<Longrightarrow> os < oe \<Longrightarrow> oe \<le> mr_end r \<Longrightarrow>
      os = start \<or> os = mr_start r \<Longrightarrow> oe = e \<or> oe = mr_end r \<Longrightarrow> P (cut_range r os oe kind)"
  shows "P (range_pieces start e kind r)"
proof (cases "overlaps_range start e r")
  case True
  define os oe where "os = max start (mr_start r)" and "oe = min e (mr_end r)"
  have bounds: "mr_start r \<le> os" "os < oe" "oe \<le> mr_end r"
    using True by (simp_all add: overlaps_range_def os_def oe_def)
  then have "os - mr_start r \<noteq> 0 \<longleftrightarrow> mr_start r < os" "oe - os \<noteq> 0" "mr_end r - oe \<noteq> 0 \<longleftrightarrow> oe < mr_end r"
    by auto
  with bounds True have "range_pieces start e kind r = cut_range r os oe kind"
    by (simp add: range_pieces_def cut_range_def Let_def os_def [symmetric] oe_def [symmetric])
  moreover have "os = start \<or> os = mr_start r" "oe = e \<or> oe = mr_end r"
    by (auto simp: os_def oe_def max_def min_def)
  ultimately show ?thesis using assms(2) [OF bounds] by simp
next
  case False
  with assms(1) show ?thesis by (simp add: range_pieces_def Let_def)
qed

lemma range_pieces_valid:
  "mr_valid r \<Longrightarrow> \<forall>p \<in> set (range_pieces start e kind r). mr_valid p"
  by (rule range_pieces_rule [where r = r]) (auto simp: cut_range_def intro: piece_valid)

lemma range_pieces_within:
  "\<forall>p \<in> set (range_pieces start e kind r). mr_start r \<le> mr_start p \<and> mr_end p \<le> mr_end r"
  by (rule range_pieces_rule [where r = r]) (auto simp: cut_range_def piece_end)

lemma range_pieces_sorted: "ranges_sorted (range_pieces start e kind r)"
  by (rule range_pieces_rule [where r = r]) (auto simp: cut_range_def ranges_sorted_def piece_end)

lemma range_pieces_usable:
  assumes "kind \<noteq> Usable"
  shows "\<forall>p \<in> set (range_pieces start e kind r). mr_kind p = Usable \<longrightarrow> mr_kind r = Usable"
  by (rule range_pieces_rule [where r = r]) (use assms in \<open>auto simp: cut_range_def\<close>)

lemma range_pieces_bytes:
  assumes "mr_valid r"
  shows "total_bytes (range_pieces start e kind r) = unat (mr_length r)"
proof (rule range_pieces_rule [where r = r])
  show "total_bytes [r] = unat (mr_length r)" by (simp add: total_bytes_def)
next
  fix os oe
  assume b: "mr_start r \<le> os" "os < oe" "oe \<le> mr_end r"
  have "total_bytes (cut_range r os oe kind) =
      unat (os - mr_start r) + unat (oe - os) + unat (mr_end r - oe)"
    using b by (auto simp: cut_range_def total_bytes_def)
  also have "\<dots> = unat (mr_end r) - unat (mr_start r)"
    using b by (simp add: unat_sub_exact word_le_nat_alt word_less_nat_alt)
  finally show "total_bytes (cut_range r os oe kind) = unat (mr_length r)"
    using assms by (simp add: unat_mr_end)
qed

lemma reserve_pieces_valid:
  "\<forall>r \<in> set rs. mr_valid r \<Longrightarrow> \<forall>p \<in> set (reserve_pieces start e kind rs). mr_valid p"
  using range_pieces_valid by (fastforce simp: reserve_pieces_def)

lemma reserve_pieces_bytes:
  "\<forall>r \<in> set rs. mr_valid r \<Longrightarrow> total_bytes (reserve_pieces start e kind rs) = total_bytes rs"
  by (induction rs) (auto simp: reserve_pieces_def range_pieces_bytes, simp_all add: total_bytes_def range_pieces_bytes [unfolded total_bytes_def])

lemma usable_reserve_pieces:
  "usable_ranges (reserve_pieces start e kind rs) =
   concat (map (\<lambda>r. usable_ranges (range_pieces start e kind r)) rs)"
  by (simp add: usable_ranges_def reserve_pieces_def filter_concat comp_def)

lemma reserve_pieces_usable_sorted:
  assumes "kind \<noteq> Usable" and "ranges_sorted (usable_ranges rs)"
  shows "ranges_sorted (usable_ranges (reserve_pieces start e kind rs))"
proof -
  let ?f = "\<lambda>r. usable_ranges (range_pieces start e kind r)"
  have skip: "?f r = []" if "mr_kind r \<noteq> Usable" for r
    using range_pieces_usable [OF assms(1)] that by (auto simp: usable_ranges_def filter_empty_conv)
  have "concat (map ?f rs) = concat (map ?f (usable_ranges rs))"
    by (induction rs) (auto simp: usable_ranges_def skip [unfolded usable_ranges_def])
  moreover have "sorted_wrt (\<lambda>a b. mr_end a \<le> mr_start b) (concat (map ?f (usable_ranges rs)))"
  proof (rule sorted_wrt_concat_map)
    show "sorted_wrt (\<lambda>a b. mr_end a \<le> mr_start b) (usable_ranges rs)"
      using assms(2) by (simp add: ranges_sorted_def)
    show "sorted_wrt (\<lambda>a b. mr_end a \<le> mr_start b) (?f r)" for r
      using range_pieces_sorted [of start e kind r]
      by (simp add: ranges_sorted_def usable_ranges_def sorted_wrt_filter)
    show "mr_end a \<le> mr_start b" if "mr_end x \<le> mr_start y" "a \<in> set (?f x)" "b \<in> set (?f y)" for x y a b
      using that range_pieces_within [of start e kind x] range_pieces_within [of start e kind y]
      by (fastforce simp: usable_ranges_def)
  qed
  ultimately show ?thesis by (simp add: ranges_sorted_def usable_reserve_pieces)
qed

definition page_aligned :: "MemoryRange \<Rightarrow> bool" where
  "page_aligned r \<longleftrightarrow> 4096 dvd unat (mr_start r) \<and> 4096 dvd unat (mr_length r)"

lemma range_pieces_aligned:
  assumes "mr_valid r" and "page_aligned r" and "4096 dvd unat start" and "4096 dvd unat e"
  shows "\<forall>p \<in> set (range_pieces start e kind r). page_aligned p"
proof (rule range_pieces_rule [where r = r])
  show "\<forall>p \<in> set [r]. page_aligned p" using assms(2) by simp
next
  fix os oe
  assume b: "mr_start r \<le> os" "os < oe" "oe \<le> mr_end r"
    and c: "os = start \<or> os = mr_start r" "oe = e \<or> oe = mr_end r"
  have "4096 dvd unat (mr_end r)" "4096 dvd unat (mr_start r)"
    using assms(1,2) by (auto simp: page_aligned_def unat_mr_end)
  moreover from this c have "4096 dvd unat os" "4096 dvd unat oe"
    using assms(3,4) by auto
  ultimately show "\<forall>p \<in> set (cut_range r os oe kind). page_aligned p"
    using b by (auto simp: cut_range_def page_aligned_def unat_sub_exact dvd_diff_nat)
qed

text \<open>What the rest of the kernel relies on: nonempty ranges inside the address space, and usable
  ranges in ascending order without overlap.\<close>

definition map_inv :: "MemoryMapSnapshot \<Rightarrow> bool" where
  "map_inv s \<longleftrightarrow> snapshot_ok s \<and> (\<forall>r \<in> set (snapshot_ranges s). mr_valid r) \<and>
     ranges_sorted (usable_ranges (snapshot_ranges s))"

lemma map_inv_ok: "map_inv s \<Longrightarrow> snapshot_ok s"
  by (simp add: map_inv_def)

lemma reserve_range_Inr:
  assumes "snapshot_ok s" and "reserve_range s start len kind = (Inr (), s')"
  shows "snapshot_ranges s' = reserve_pieces start (start + len) kind (snapshot_ranges s)"
    and "snapshot_ok s'" and "len \<noteq> 0" and "unat start + unat len < 2 ^ 64"
    and "\<exists>r \<in> set (snapshot_ranges s). overlaps_range start (start + len) r"
proof -
  let ?ps = "reserve_pieces start (start + len) kind (snapshot_ranges s)"
  let ?t = "table_append (replicate MAX_MEMORY_RANGES empty_range, 0) ?ps"
  from assms have few: "length ?ps \<le> MAX_MEMORY_RANGES"
    and s': "s' = \<lparr>ms_ranges = fst ?t, ms_count = snd ?t\<rparr>"
    by (auto simp: reserve_range_eq Let_def split: if_splits)
  from table_of_pieces [OF few] s'
  show "snapshot_ranges s' = ?ps" and "snapshot_ok s'"
    by (simp_all add: snapshot_ranges_def table_items_def snapshot_ok_def table_ok_def)
  from assms show "len \<noteq> 0" and "unat start + unat len < 2 ^ 64"
    and "\<exists>r \<in> set (snapshot_ranges s). overlaps_range start (start + len) r"
    by (auto simp: reserve_range_eq Let_def split: if_splits)
qed

lemma reserve_range_Inl: "reserve_range s start len kind = (Inl err, s') \<Longrightarrow> s' = s"
  by (auto simp: reserve_range_def split: option.splits if_splits sum.splits prod.splits)

lemma reserve_pieces_kind:
  "map_option mr_kind (find (\<lambda>p. mr_contains p a) (reserve_pieces start e kind rs)) =
   map_option (\<lambda>k. if start \<le> a \<and> a < e then kind else k)
     (map_option mr_kind (find (\<lambda>p. mr_contains p a) rs))"
proof (induction rs)
  case Nil
  then show ?case by (simp add: reserve_pieces_def)
next
  case (Cons r rs)
  have "reserve_pieces start e kind (r # rs) = range_pieces start e kind r @ reserve_pieces start e kind rs"
    by (simp add: reserve_pieces_def)
  with Cons range_pieces_kind [of a start e kind r] show ?case
    by (auto simp: find_append split: option.splits if_splits)
qed

lemma reserve_range_kind:
  assumes "snapshot_ok s" and "reserve_range s start len kind = (Inr (), s')"
  shows "snapshot_kind_at s' a =
    map_option (\<lambda>k. if start \<le> a \<and> a < start + len then kind else k) (snapshot_kind_at s a)"
  by (simp add: snapshot_kind_at_def reserve_range_Inr(1) [OF assms] reserve_pieces_kind)

lemma reserve_range_inv:
  assumes "map_inv s" and "kind \<noteq> Usable" and "reserve_range s start len kind = (r, s')"
  shows "map_inv s'"
proof (cases r)
  case (Inl err)
  with assms reserve_range_Inl show ?thesis by blast
next
  case (Inr u)
  with assms have eq: "reserve_range s start len kind = (Inr (), s')" by simp
  note facts = reserve_range_Inr [OF map_inv_ok [OF assms(1)] eq]
  show ?thesis
    using assms(1,2) facts(2) reserve_pieces_valid [of "snapshot_ranges s"]
    by (simp add: map_inv_def facts(1) reserve_pieces_usable_sorted)
qed

section \<open>Building the map\<close>

definition descriptor_ok :: "MemoryDescriptor \<Rightarrow> bool" where
  "descriptor_ok d \<longleftrightarrow> md_page_count d \<noteq> 0 \<and>
     unat (md_phys_start d) + 4096 * unat (md_page_count d) < 2 ^ 64"

definition descriptor_range :: "MemoryDescriptor \<Rightarrow> MemoryRange" where
  "descriptor_range d = \<lparr>mr_start = md_phys_start d, mr_length = md_page_count d * PAGE_SIZE,
     mr_uefi_type = md_ty d, mr_kind = from_uefi_type (md_ty d)\<rparr>"

lemma descriptor_length:
  assumes "descriptor_ok d"
  shows "checked_mul (md_page_count d) PAGE_SIZE = Some (md_page_count d * PAGE_SIZE)"
    and "unat (md_page_count d * PAGE_SIZE) = 4096 * unat (md_page_count d)"
proof -
  have "unat (md_page_count d) * 4096 < 2 ^ 64" using assms by (simp add: descriptor_ok_def)
  then show "checked_mul (md_page_count d) PAGE_SIZE = Some (md_page_count d * PAGE_SIZE)"
    and "unat (md_page_count d * PAGE_SIZE) = 4096 * unat (md_page_count d)"
    by (simp_all add: checked_mul_def unat_mult_exact)
qed

lemma copy_descriptor_eq:
  assumes "snapshot_ok s"
  shows "copy_descriptor s d =
    (if ms_count s = MAX_MEMORY_RANGES then Inl TooManyRanges
     else if descriptor_ok d
     then Inr (s\<lparr>ms_ranges := (ms_ranges s)[ms_count s := descriptor_range d], ms_count := ms_count s + 1\<rparr>)
     else Inl InvalidRange)"
proof (cases "descriptor_ok d")
  case True
  note len = descriptor_length [OF True]
  have sum: "unat (md_phys_start d) + unat (md_page_count d * PAGE_SIZE) < 2 ^ 64"
    using True by (simp add: len(2) descriptor_ok_def)
  have "unat (md_page_count d * PAGE_SIZE) \<noteq> 0"
    unfolding len(2) using True by (simp add: descriptor_ok_def unat_eq_zero)
  then have nz: "md_page_count d * PAGE_SIZE \<noteq> 0" by auto
  have add: "checked_add (md_phys_start d) (md_page_count d * PAGE_SIZE) =
      Some (md_phys_start d + md_page_count d * PAGE_SIZE)"
    using sum by (simp add: checked_add_def)
  from end_after_start [OF add nz]
  have "\<not> md_phys_start d + md_page_count d * PAGE_SIZE \<le> md_phys_start d" by (simp add: not_le)
  with True nz add show ?thesis
    by (simp add: copy_descriptor_def len(1) descriptor_range_def)
next
  case False
  show ?thesis
  proof (cases "checked_mul (md_page_count d) PAGE_SIZE")
    case None
    with False show ?thesis by (simp add: copy_descriptor_def)
  next
    case (Some len)
    then have len: "unat len = unat (md_page_count d) * 4096" by (simp add: rust_arith)
    have "len = 0" if "checked_add (md_phys_start d) len \<noteq> None"
    proof -
      from that have "unat (md_phys_start d) + unat len < 2 ^ 64" by (simp add: rust_arith)
      with False len have "md_page_count d = 0" by (auto simp: descriptor_ok_def)
      with len show ?thesis by (simp flip: unat_eq_zero)
    qed
    with False Some show ?thesis
      by (cases "checked_add (md_phys_start d) len") (simp_all add: copy_descriptor_def)
  qed
qed

lemma copy_loop_eq:
  assumes "snapshot_ok s"
  shows "copy_loop s ds = Inr s' \<longleftrightarrow> (\<forall>d \<in> set ds. descriptor_ok d) \<and>
    ms_count s + length ds \<le> MAX_MEMORY_RANGES \<and>
    s' = s\<lparr>ms_ranges := fst (table_append (ms_ranges s, ms_count s) (map descriptor_range ds)),
           ms_count := ms_count s + length ds\<rparr>"
  using assms
proof (induction ds arbitrary: s)
  case Nil
  then show ?case by (auto simp: snapshot_ok_def)
next
  case (Cons d ds)
  let ?s = "s\<lparr>ms_ranges := (ms_ranges s)[ms_count s := descriptor_range d], ms_count := ms_count s + 1\<rparr>"
  show ?case
  proof (cases "ms_count s = MAX_MEMORY_RANGES \<or> \<not> descriptor_ok d")
    case True
    with Cons.prems show ?thesis by (auto simp: copy_descriptor_eq)
  next
    case False
    with Cons.prems have "snapshot_ok ?s" by (simp add: snapshot_ok_def)
    from Cons.IH [OF this] False Cons.prems show ?thesis
      by (auto simp: copy_descriptor_eq)
  qed
qed

lemma copy_from_Inr_iff:
  "copy_from ds = Inr s \<longleftrightarrow> ds \<noteq> [] \<and> (\<forall>d \<in> set ds. descriptor_ok d) \<and>
     length ds \<le> MAX_MEMORY_RANGES \<and>
     s = \<lparr>ms_ranges = fst (table_append (replicate MAX_MEMORY_RANGES empty_range, 0) (map descriptor_range ds)),
          ms_count = length ds\<rparr>"
proof -
  have ok: "snapshot_ok empty_snapshot" by (simp add: snapshot_ok_def empty_snapshot_def)
  have loop: "copy_loop empty_snapshot ds = Inr t \<longleftrightarrow> (\<forall>d \<in> set ds. descriptor_ok d) \<and>
      length ds \<le> MAX_MEMORY_RANGES \<and>
      t = \<lparr>ms_ranges = fst (table_append (replicate MAX_MEMORY_RANGES empty_range, 0) (map descriptor_range ds)),
           ms_count = length ds\<rparr>" for t
    using copy_loop_eq [OF ok, of ds t] by (simp add: empty_snapshot_def)
  show ?thesis
    unfolding copy_from_def and_then_eq_Inr_iff loop snapshot_is_empty_def
    by (auto split: if_splits)
qed

lemma descriptor_range_valid: "descriptor_ok d \<Longrightarrow> mr_valid (descriptor_range d)"
  using descriptor_length(2) [of d]
  by (auto simp: mr_valid_def descriptor_range_def descriptor_ok_def simp flip: unat_eq_zero)

lemma copy_from_ranges:
  assumes "copy_from ds = Inr s"
  shows "snapshot_ok s" and "snapshot_ranges s = map descriptor_range ds"
    and "\<forall>r \<in> set (snapshot_ranges s). mr_valid r"
proof -
  let ?t = "table_append (replicate MAX_MEMORY_RANGES empty_range, 0) (map descriptor_range ds)"
  from assms have len: "length (map descriptor_range ds) \<le> MAX_MEMORY_RANGES"
    and ok: "\<forall>d \<in> set ds. descriptor_ok d"
    and s: "s = \<lparr>ms_ranges = fst ?t, ms_count = length ds\<rparr>"
    by (simp_all add: copy_from_Inr_iff)
  note t = table_of_pieces [OF len]
  from t s len show "snapshot_ok s" and rs: "snapshot_ranges s = map descriptor_range ds"
    by (simp_all add: snapshot_ok_def snapshot_ranges_def table_ok_def table_items_def)
  with ok show "\<forall>r \<in> set (snapshot_ranges s). mr_valid r"
    by (simp add: descriptor_range_valid)
qed

lemma add_external_range_Inr:
  assumes "snapshot_ok s" and "add_external_range s start len kind = (Inr (), s')"
  shows "snapshot_ok s'" and "len \<noteq> 0" and "unat start + unat len < 2 ^ 64"
    and "snapshot_ranges s' = snapshot_ranges s @
      [\<lparr>mr_start = start, mr_length = len, mr_uefi_type = MMIO, mr_kind = kind\<rparr>]"
  using assms
  by (auto simp: add_external_range_def snapshot_ok_def snapshot_ranges_def take_Suc_update_end
      rust_arith split: option.splits if_splits)

lemma add_external_range_inv:
  assumes "map_inv s" and "kind \<noteq> Usable" and "add_external_range s start len kind = (Inr (), s')"
  shows "map_inv s'"
  using assms add_external_range_Inr [OF map_inv_ok [OF assms(1)] assms(3)]
  by (auto simp: map_inv_def mr_valid_def usable_ranges_def)

section \<open>The interface of a classified memory map\<close>

text \<open>
  What the callers of the map rely on: a successful reservation reclassifies exactly the described
  addresses it covers, a failed one changes nothing, and the invariant survives.
\<close>

locale classified_map =
  fixes kind_of :: "'m \<Rightarrow> u64 \<Rightarrow> MemoryKind option"
    and reserve :: "'m \<Rightarrow> u64 \<Rightarrow> u64 \<Rightarrow> MemoryKind \<Rightarrow> (MemoryMapError, unit) result \<times> 'm"
    and inv :: "'m \<Rightarrow> bool"
  assumes reserve_kind: "inv m \<Longrightarrow> reserve m start len kind = (Inr (), m') \<Longrightarrow>
      kind_of m' a = map_option (\<lambda>k. if start \<le> a \<and> a < start + len then kind else k) (kind_of m a)"
    and reserve_failed: "reserve m start len kind = (Inl e, m') \<Longrightarrow> m' = m"
    and reserve_inv: "inv m \<Longrightarrow> kind \<noteq> Usable \<Longrightarrow> reserve m start len kind = (r, m') \<Longrightarrow> inv m'"
begin

lemma described_iff:
  assumes "inv m" and "reserve m start len kind = (r, m')"
  shows "kind_of m' a = None \<longleftrightarrow> kind_of m a = None"
proof (cases r)
  case (Inl e)
  with assms reserve_failed show ?thesis by blast
next
  case (Inr u)
  with assms reserve_kind [of m start len kind m' a] show ?thesis by simp
qed

lemma usable_only_shrinks:
  assumes "inv m" and "kind \<noteq> Usable" and "reserve m start len kind = (r, m')"
    and "kind_of m' a = Some Usable"
  shows "kind_of m a = Some Usable"
proof (cases r)
  case (Inl e)
  with assms reserve_failed show ?thesis by blast
next
  case (Inr u)
  with assms reserve_kind [of m start len kind m' a] show ?thesis by (auto split: if_splits)
qed

lemma claimed:
  assumes "inv m" and "reserve m start len kind = (Inr (), m')" and "start \<le> a" and "a < start + len"
    and "kind_of m a \<noteq> None"
  shows "kind_of m' a = Some kind"
  using assms(3-5) reserve_kind [OF assms(1,2), of a] by auto

lemma claimed_not_usable:
  assumes "inv m" and "reserve m start len kind = (Inr (), m')" and "kind \<noteq> Usable"
    and "start \<le> a" and "a < start + len"
  shows "kind_of m' a \<noteq> Some Usable"
  using assms(3-5) reserve_kind [OF assms(1,2), of a] by auto

end

interpretation snapshot_map: classified_map snapshot_kind_at reserve_range map_inv
  by unfold_locales (auto simp: reserve_range_kind map_inv_ok reserve_range_inv dest: reserve_range_Inl)

definition global_map_inv :: "MemoryMapSnapshot option \<Rightarrow> bool" where
  "global_map_inv g \<longleftrightarrow> (\<forall>s. g = Some s \<longrightarrow> map_inv s)"

interpretation global_map: classified_map memory_kind_at memory_reserve global_map_inv
proof unfold_locales
  show "memory_kind_at m' a =
      map_option (\<lambda>k. if start \<le> a \<and> a < start + len then kind else k) (memory_kind_at m a)"
    if "global_map_inv m" "memory_reserve m start len kind = (Inr (), m')" for m start len kind m' a
    using that by (auto simp: memory_reserve_def memory_kind_at_def global_map_inv_def
        snapshot_map.reserve_kind split: option.splits prod.splits)
  show "m' = m" if "memory_reserve m start len kind = (Inl e, m')" for m start len kind e m'
    using that by (auto simp: memory_reserve_def split: option.splits prod.splits dest: reserve_range_Inl)
  show "global_map_inv m'"
    if "global_map_inv m" "kind \<noteq> Usable" "memory_reserve m start len kind = (r, m')" for m start len kind r m'
    using that by (auto simp: memory_reserve_def global_map_inv_def
        split: option.splits prod.splits dest: reserve_range_inv)
qed

section \<open>Initialisation and totals\<close>

lemma memory_initialize_cases:
  assumes "memory_initialize g entries (Some (start, len)) = (Inr (), g')"
  obtains s s' where "g = None" "copy_from entries = Inr s" "g' = Some s'"
    "reserve_range s start len Device = (Inr (), s') \<or>
     reserve_range s start len Device = (Inl RangeNotFound, s) \<and>
     add_external_range s start len Device = (Inr (), s')"
  using assms
  by (auto simp: memory_initialize_def split: sum.splits prod.splits if_splits MemoryMapError.splits
      dest: reserve_range_Inl)

definition summary_bytes :: "MemorySummary \<Rightarrow> MemoryKind \<Rightarrow> u64" where
  "summary_bytes s k = (case k of Usable \<Rightarrow> usable_bytes s | Kernel \<Rightarrow> kernel_bytes s
     | Firmware \<Rightarrow> firmware_bytes s | Acpi \<Rightarrow> acpi_bytes s | Device \<Rightarrow> device_bytes s
     | Runtime \<Rightarrow> runtime_bytes s | Unusable \<Rightarrow> unusable_bytes s | Reserved \<Rightarrow> reserved_bytes s)"

lemma summary_add_bytes:
  "summary_bytes (summary_add r s) k =
     (if mr_kind r = k then saturating_add (summary_bytes s k) (mr_length r) else summary_bytes s k)"
  by (cases "mr_kind r"; cases k) (simp_all add: summary_bytes_def)

declare summary_add.simps [simp del]

lemma fold_summary_bytes:
  "unat (summary_bytes (fold summary_add rs s) k) =
     min (unat (summary_bytes s k) + total_bytes (filter (\<lambda>r. mr_kind r = k) rs)) (2 ^ 64 - 1)"
proof (induction rs arbitrary: s)
  case Nil
  then show ?case using unat_bound [of "summary_bytes s k"] by (simp add: total_bytes_def)
next
  case (Cons r rs)
  then show ?case
    by (auto simp: summary_add_bytes unat_saturating_add total_bytes_def)
qed

lemma fold_summary_ranges: "sum_ranges (fold summary_add rs s) = sum_ranges s"
proof (induction rs arbitrary: s)
  case (Cons r rs)
  have "sum_ranges (summary_add r s) = sum_ranges s"
    by (cases "mr_kind r") (simp_all add: summary_add.simps)
  with Cons show ?case by simp
qed simp

lemma copy_loop_error:
  assumes "snapshot_ok s"
  shows "copy_loop s ds = Inl e \<longleftrightarrow>
    (let room = take (MAX_MEMORY_RANGES - ms_count s) ds
     in if list_all descriptor_ok room
        then MAX_MEMORY_RANGES - ms_count s < length ds \<and> e = TooManyRanges
        else e = InvalidRange)"
  using assms
proof (induction ds arbitrary: s)
  case Nil
  then show ?case by simp
next
  case (Cons d ds)
  let ?s = "s\<lparr>ms_ranges := (ms_ranges s)[ms_count s := descriptor_range d], ms_count := ms_count s + 1\<rparr>"
  show ?case
  proof (cases "ms_count s = MAX_MEMORY_RANGES")
    case True
    with Cons.prems show ?thesis by (auto simp: copy_descriptor_eq Let_def)
  next
    case False
    with Cons.prems have room: "MAX_MEMORY_RANGES - ms_count s = Suc (MAX_MEMORY_RANGES - ms_count ?s)"
      by (simp add: snapshot_ok_def Suc_diff_Suc)
    show ?thesis
    proof (cases "descriptor_ok d")
      case True
      from False Cons.prems have "snapshot_ok ?s" by (simp add: snapshot_ok_def)
      from Cons.IH [OF this] True False Cons.prems show ?thesis
        unfolding room by (simp add: copy_descriptor_eq Let_def)
    next
      case notok: False
      with False Cons.prems show ?thesis
        unfolding room by (auto simp: copy_descriptor_eq Let_def)
    qed
  qed
qed

lemma not_found_not_described:
  assumes "snapshot_ok s" and "reserve_range s start len kind = (Inl RangeNotFound, s')"
    and "start \<le> a" and "a < start + len"
  shows "find (\<lambda>p. mr_contains p a) (snapshot_ranges s) = None"
proof -
  have "\<not> (\<exists>r \<in> set (snapshot_ranges s). overlaps_range start (start + len) r)"
    using assms(1,2) by (auto simp: reserve_range_eq Let_def split: if_splits)
  with assms(3,4) show ?thesis
    by (fastforce simp: find_None_all overlaps_range_def mr_contains_def)
qed

section \<open>Properties\<close>

text \<open>C1: reserving a range in the fixed table behaves as the list operation that cuts every
  overlapped range into its up to three pieces, with exactly the error of the first failing
  check; a failed reservation leaves the ranges as they were.\<close>

theorem reserve_range_refines_pieces:
  assumes "snapshot_ok s" and "reserve_range s start len kind = (r, s')"
  shows "snapshot_ok s' \<and> (r, snapshot_ranges s') =
    (let ps = reserve_pieces start (start + len) kind (snapshot_ranges s)
     in if len = 0 \<or> 2 ^ 64 \<le> unat start + unat len then (Inl InvalidRange, snapshot_ranges s)
        else if \<not> list_ex (overlaps_range start (start + len)) (snapshot_ranges s)
        then (Inl RangeNotFound, snapshot_ranges s)
        else if MAX_MEMORY_RANGES < length ps then (Inl TooManyRanges, snapshot_ranges s)
        else (Inr (), ps))"
proof (cases r)
  case (Inl err)
  with assms reserve_range_Inl have "s' = s" by blast
  with assms Inl show ?thesis
    by (auto simp: reserve_range_eq Let_def list_ex_iff split: if_splits)
next
  case (Inr u)
  with assms(2) have eq: "reserve_range s start len kind = (Inr (), s')" by simp
  from assms Inr have "length (reserve_pieces start (start + len) kind (snapshot_ranges s)) \<le> MAX_MEMORY_RANGES"
    by (auto simp: reserve_range_eq Let_def split: if_splits)
  with reserve_range_Inr [OF assms(1) eq] Inr show ?thesis
    by (auto simp: Let_def list_ex_iff)
qed

text \<open>C2: a successful reservation changes the classification of exactly the described addresses it
  covers, to the requested kind, and every failure keeps the classification of every address.\<close>

theorem reserve_reclassifies_exactly:
  assumes "map_inv s" and "reserve_range s start len kind = (r, s')"
  shows "snapshot_kind_at s' a =
    (if r = Inr () \<and> start \<le> a \<and> a < start + len
     then map_option (\<lambda>_. kind) (snapshot_kind_at s a) else snapshot_kind_at s a)"
proof (cases r)
  case (Inl err)
  with assms(2) have "s' = s" using snapshot_map.reserve_failed by blast
  with Inl show ?thesis by simp
next
  case (Inr u)
  with assms snapshot_map.reserve_kind [of s start len kind s' a] show ?thesis
    by (cases "snapshot_kind_at s a") auto
qed

text \<open>A reservation to a kind other than usable keeps the table's invariant (nonempty ranges
  inside the address space, usable ranges sorted and disjoint) and neither gains nor loses a byte.\<close>

theorem reserve_conserves_memory:
  assumes "map_inv s" and "kind \<noteq> Usable" and "reserve_range s start len kind = (r, s')"
  shows "map_inv s' \<and> total_bytes (snapshot_ranges s') = total_bytes (snapshot_ranges s)"
proof (cases r)
  case (Inl err)
  with assms reserve_range_Inl show ?thesis by blast
next
  case (Inr u)
  with assms(3) have eq: "reserve_range s start len kind = (Inr (), s')" by simp
  from assms(1) show ?thesis
    using snapshot_map.reserve_inv [OF assms]
    by (simp add: reserve_range_Inr(1) [OF map_inv_ok [OF assms(1)] eq] reserve_pieces_bytes map_inv_def)
qed

text \<open>Copying the firmware map succeeds exactly when it is not empty, fits the table and every
  descriptor is a nonempty range inside the 64-bit address space; then every descriptor is one
  range, in order. Otherwise the error is that of the first check that fails.\<close>

theorem copy_from_exact:
  "map_sum id snapshot_ranges (copy_from ds) =
    (if ds = [] then Inl MapEmpty
     else if \<not> list_all descriptor_ok (take MAX_MEMORY_RANGES ds) then Inl InvalidRange
     else if MAX_MEMORY_RANGES < length ds then Inl TooManyRanges
     else Inr (map descriptor_range ds))"
proof (cases "copy_from ds")
  case (Inr s)
  then have "ds \<noteq> []" "list_all descriptor_ok (take MAX_MEMORY_RANGES ds)" "length ds \<le> MAX_MEMORY_RANGES"
    by (auto simp: copy_from_Inr_iff list_all_iff dest: in_set_takeD)
  with Inr copy_from_ranges(2) [OF Inr] show ?thesis by simp
next
  case (Inl e)
  have ok: "snapshot_ok empty_snapshot" "ms_count empty_snapshot = 0"
    by (simp_all add: snapshot_ok_def empty_snapshot_def)
  show ?thesis
  proof (cases "copy_loop empty_snapshot ds")
    case (Inl e')
    with \<open>copy_from ds = Inl e\<close> have "e' = e" by (simp add: copy_from_def)
    with Inl \<open>copy_from ds = Inl e\<close> copy_loop_error [OF ok(1), of ds e] ok(2) show ?thesis
      by (auto simp: Let_def split: if_splits)
  next
    case (Inr s)
    with copy_loop_eq [OF ok(1), of ds s] ok(2) \<open>copy_from ds = Inl e\<close> show ?thesis
      by (auto simp: copy_from_def snapshot_is_empty_def split: if_splits)
  qed
qed

text \<open>After a successful initialisation with a framebuffer, no address of the framebuffer is
  usable memory, whatever the firmware reported about it, and the table's invariant holds when the
  firmware reported its usable ranges in order.\<close>

theorem framebuffer_never_usable:
  assumes "memory_initialize g entries (Some (start, len)) = (Inr (), g')"
    and "ranges_sorted (usable_ranges (map descriptor_range entries))"
  shows "global_map_inv g' \<and>
    (start \<le> a \<and> a < start + len \<longrightarrow> memory_kind_at g' a \<noteq> Some Usable)"
proof -
  from assms(1) obtain s s' where s: "copy_from entries = Inr s" "g' = Some s'"
    and r: "reserve_range s start len Device = (Inr (), s') \<or>
      reserve_range s start len Device = (Inl RangeNotFound, s) \<and>
      add_external_range s start len Device = (Inr (), s')"
    by (rule memory_initialize_cases)
  from copy_from_ranges [OF s(1)] assms(2) have inv: "map_inv s"
    by (simp add: map_inv_def)
  from r show ?thesis
  proof
    assume ok: "reserve_range s start len Device = (Inr (), s')"
    show ?thesis
      using snapshot_map.reserve_inv [OF inv _ ok] snapshot_map.claimed_not_usable [OF inv ok, of a]
      by (simp add: s(2) global_map_inv_def memory_kind_at_def)
  next
    assume "reserve_range s start len Device = (Inl RangeNotFound, s) \<and>
      add_external_range s start len Device = (Inr (), s')"
    then have nf: "reserve_range s start len Device = (Inl RangeNotFound, s)"
      and ext: "add_external_range s start len Device = (Inr (), s')" by simp_all
    have clear: "find (\<lambda>p. mr_contains p a) (snapshot_ranges s) = None"
      if "start \<le> a" "a < start + len"
      using nf that by (rule not_found_not_described [OF map_inv_ok [OF inv]])
    show ?thesis
      using add_external_range_inv [OF inv _ ext] clear
        add_external_range_Inr(4) [OF map_inv_ok [OF inv] ext]
      by (auto simp: s(2) global_map_inv_def memory_kind_at_def snapshot_kind_at_def find_append
          split: if_splits)
  qed
qed

text \<open>The byte total the summary reports for a kind is the sum of the lengths of the ranges of
  that kind, cut off at the largest 64-bit value.\<close>

theorem summary_exact:
  "sum_ranges (snapshot_summary s) = ms_count s \<and>
   unat (summary_bytes (snapshot_summary s) k) =
     min (total_bytes (filter (\<lambda>r. mr_kind r = k) (snapshot_ranges s))) (2 ^ 64 - 1)"
proof -
  have "summary_bytes \<lparr>sum_ranges = ms_count s, usable_bytes = 0, kernel_bytes = 0,
      firmware_bytes = 0, acpi_bytes = 0, device_bytes = 0, runtime_bytes = 0,
      reserved_bytes = 0, unusable_bytes = 0\<rparr> k = 0"
    by (cases k) (simp_all add: summary_bytes_def)
  then show ?thesis
    by (simp add: snapshot_summary_def fold_summary_bytes fold_summary_ranges)
qed

section \<open>Concrete instances\<close>

text \<open>A firmware map with 32 KiB of usable memory, the loader image and a device range.\<close>

definition sample_entries :: "MemoryDescriptor list" where
  "sample_entries =
    [\<lparr>md_ty = CONVENTIONAL, md_phys_start = 0x1000, md_page_count = 8\<rparr>,
     \<lparr>md_ty = LOADER_CODE, md_phys_start = 0x9000, md_page_count = 1\<rparr>,
     \<lparr>md_ty = MMIO, md_phys_start = 0xFEC00000, md_page_count = 1\<rparr>]"

definition sample_map :: MemoryMapSnapshot where
  "sample_map = (case copy_from sample_entries of Inr s \<Rightarrow> s | Inl _ \<Rightarrow> empty_snapshot)"

lemma sample_map_copied: "copy_from sample_entries = Inr sample_map"
proof -
  have "\<exists>s. copy_from sample_entries = Inr s"
    unfolding copy_from_Inr_iff by (simp add: sample_entries_def descriptor_ok_def MAX_MEMORY_RANGES_def)
  then show ?thesis by (auto simp: sample_map_def)
qed

lemma sample_map_inv: "map_inv sample_map"
  using copy_from_ranges [OF sample_map_copied]
  by (auto simp: map_inv_def usable_ranges_def ranges_sorted_def sample_entries_def descriptor_range_def)

lemma sample_map_ranges:
  "snapshot_ranges sample_map =
    [\<lparr>mr_start = 0x1000, mr_length = 0x8000, mr_uefi_type = CONVENTIONAL, mr_kind = Usable\<rparr>,
     \<lparr>mr_start = 0x9000, mr_length = 0x1000, mr_uefi_type = LOADER_CODE, mr_kind = Kernel\<rparr>,
     \<lparr>mr_start = 0xFEC00000, mr_length = 0x1000, mr_uefi_type = MMIO, mr_kind = Device\<rparr>]"
  using copy_from_ranges(2) [OF sample_map_copied]
  by (simp add: sample_entries_def descriptor_range_def PAGE_SIZE_def)

lemma sample_overlaps:
  "list_ex (overlaps_range 0x3000 0x4000) (snapshot_ranges sample_map)"
  unfolding sample_map_ranges by code_simp

lemma sample_pieces:
  "reserve_pieces 0x3000 0x4000 Kernel (snapshot_ranges sample_map) =
    [\<lparr>mr_start = 0x1000, mr_length = 0x2000, mr_uefi_type = CONVENTIONAL, mr_kind = Usable\<rparr>,
     \<lparr>mr_start = 0x3000, mr_length = 0x1000, mr_uefi_type = CONVENTIONAL, mr_kind = Kernel\<rparr>,
     \<lparr>mr_start = 0x4000, mr_length = 0x5000, mr_uefi_type = CONVENTIONAL, mr_kind = Usable\<rparr>,
     \<lparr>mr_start = 0x9000, mr_length = 0x1000, mr_uefi_type = LOADER_CODE, mr_kind = Kernel\<rparr>,
     \<lparr>mr_start = 0xFEC00000, mr_length = 0x1000, mr_uefi_type = MMIO, mr_kind = Device\<rparr>]"
  unfolding sample_map_ranges by code_simp

lemma reserve_range_refines_pieces_witness:
  "\<exists>s'. reserve_range sample_map 0x3000 0x1000 Kernel = (Inr (), s') \<and> length (snapshot_ranges s') = 5"
proof -
  obtain r s' where eq: "reserve_range sample_map 0x3000 0x1000 Kernel = (r, s')" by fastforce
  from reserve_range_refines_pieces [OF map_inv_ok [OF sample_map_inv] eq] show ?thesis
    by (simp add: eq sample_overlaps sample_pieces MAX_MEMORY_RANGES_def)
qed

lemma reserve_reclassifies_exactly_witness:
  "snapshot_kind_at (snd (reserve_range sample_map 0x3000 0x1000 Kernel)) 0x4000 = Some Usable"
proof -
  obtain r s' where eq: "reserve_range sample_map 0x3000 0x1000 Kernel = (r, s')" by fastforce
  have "snapshot_kind_at sample_map 0x4000 = Some Usable"
    unfolding snapshot_kind_at_def sample_map_ranges by code_simp
  with reserve_reclassifies_exactly [OF sample_map_inv eq, of "0x4000"] eq show ?thesis by simp
qed

lemma reserve_conserves_memory_witness:
  "total_bytes (snapshot_ranges (snd (reserve_range sample_map 0x3000 0x1000 Kernel))) = 0xA000"
proof -
  obtain r s' where eq: "reserve_range sample_map 0x3000 0x1000 Kernel = (r, s')" by fastforce
  from reserve_conserves_memory [OF sample_map_inv _ eq] eq show ?thesis
    by (simp add: sample_map_ranges total_bytes_def)
qed

lemma framebuffer_never_usable_witness:
  "memory_kind_at (snd (memory_initialize None sample_entries (Some (0x2000, 0x1000)))) 0x2800 \<noteq> Some Usable"
proof -
  have "fst (reserve_range sample_map 0x2000 0x1000 Device) = Inr ()"
  proof -
    have "length (reserve_pieces 0x2000 0x3000 Device (snapshot_ranges sample_map)) = 5"
      "list_ex (overlaps_range 0x2000 0x3000) (snapshot_ranges sample_map)"
      unfolding sample_map_ranges by code_simp+
    then show ?thesis
      by (simp add: reserve_range_eq [OF map_inv_ok [OF sample_map_inv]] Let_def list_ex_iff
          MAX_MEMORY_RANGES_def)
  qed
  then have "fst (memory_initialize None sample_entries (Some (0x2000, 0x1000))) = Inr ()"
    by (auto simp: memory_initialize_def sample_map_copied split: prod.splits)
  then have "memory_initialize None sample_entries (Some (0x2000, 0x1000)) =
      (Inr (), snd (memory_initialize None sample_entries (Some (0x2000, 0x1000))))"
    by (simp add: prod_eq_iff)
  from framebuffer_never_usable [OF this, of "0x2800"] show ?thesis
    by (simp add: usable_ranges_def ranges_sorted_def sample_entries_def descriptor_range_def)
qed

end
