(* ===== verification/Frame.thy ===== *)
theory Frame
  imports Memory
begin

text \<open>
  The physical frame allocator, \<^verbatim>\<open>src/src/frame.rs\<close>: a first-fit free list of page runs in
  a fixed table, built from the usable ranges of the memory map. The model keeps the two tables,
  their counts and the two 64-bit counters; the lemmas read the table as a set of free pages and
  show that the allocator is a partial inverse pair on that set: a page is handed out only while it
  is free, and a release is accepted exactly for a managed page that is not free.
\<close>

section \<open>Types\<close>

text \<open>\<open>FrameAddress\<close> wraps the physical address of a frame; its constructor \<open>new\<close> checks alignment.\<close>

datatype FrameAddress = FrameAddress (frame_address: u64)

definition FrameAddress_new :: "u64 \<Rightarrow> FrameAddress option" where
  "FrameAddress_new addr =
     (if is_multiple_of addr PAGE_SIZE then Some (FrameAddress addr) else None)"

datatype FrameOwner = OwnHeap | OwnPageTable | OwnKernelStack | OwnKernel

record OwnedFrame =
  of_frame :: FrameAddress
  of_owner :: FrameOwner

definition OwnedFrame_from_reserved :: "u64 \<Rightarrow> FrameOwner \<Rightarrow> OwnedFrame option" where
  "OwnedFrame_from_reserved addr owner =
     (case FrameAddress_new addr of
        None \<Rightarrow> None
      | Some frame \<Rightarrow> Some \<lparr>of_frame = frame, of_owner = owner\<rparr>)"

record PhysicalRange =
  pr_start :: u64
  pr_length :: u64

record OwnedPhysicalRange =
  opr_range :: PhysicalRange
  opr_owner :: FrameOwner

record FreeRange =
  fr_start :: u64
  fr_frames :: u64

definition fr_end :: "FreeRange \<Rightarrow> u64" where
  "fr_end r = saturating_add (fr_start r) (saturating_mul (fr_frames r) PAGE_SIZE)"

record FrameStats =
  st_total_frames :: u64
  st_free_frames :: u64
  st_free_ranges :: nat

datatype FrameError =
    FrameAlreadyInitialized | MemoryMapUnavailable | OutOfMemory | InvalidAddress
  | FreeRangeStorageFull

record FrameAllocator =
  fa_ranges :: "FreeRange list"
  fa_range_count :: nat
  fa_managed :: "FreeRange list"
  fa_managed_count :: nat
  fa_total_frames :: u64
  fa_free_frames :: u64

section \<open>Operations\<close>

definition MAX_FREE_RANGES :: nat where
  "MAX_FREE_RANGES = MAX_MEMORY_RANGES"

definition empty_free_range :: FreeRange where
  "empty_free_range = \<lparr>fr_start = 0, fr_frames = 0\<rparr>"

text \<open>The body of the loop of \<open>new\<close>.\<close>

definition allocator_add :: "MemoryRange \<Rightarrow> FrameAllocator \<Rightarrow> FrameAllocator" where
  "allocator_add r a =
     (if mr_kind r \<noteq> Usable \<or> fa_range_count a = MAX_FREE_RANGES \<or>
         fa_managed_count a = MAX_FREE_RANGES
      then a
      else let frames = mr_length r div PAGE_SIZE
           in if frames = 0 then a
              else let run = \<lparr>fr_start = mr_start r, fr_frames = frames\<rparr>
                   in a\<lparr>fa_ranges := (fa_ranges a)[fa_range_count a := run],
                        fa_range_count := fa_range_count a + 1,
                        fa_managed := (fa_managed a)[fa_managed_count a := run],
                        fa_managed_count := fa_managed_count a + 1,
                        fa_total_frames := saturating_add (fa_total_frames a) frames,
                        fa_free_frames := saturating_add (fa_free_frames a) frames\<rparr>)"

definition empty_allocator :: FrameAllocator where
  "empty_allocator =
     \<lparr>fa_ranges = replicate MAX_FREE_RANGES empty_free_range, fa_range_count = 0,
      fa_managed = replicate MAX_FREE_RANGES empty_free_range, fa_managed_count = 0,
      fa_total_frames = 0, fa_free_frames = 0\<rparr>"

definition allocator_new :: "MemoryRange list \<Rightarrow> FrameAllocator" where
  "allocator_new ranges = fold allocator_add ranges empty_allocator"

definition remove_range :: "FrameAllocator \<Rightarrow> nat \<Rightarrow> FrameAllocator" where
  "remove_range a index =
     a\<lparr>fa_ranges := shift_down (fa_ranges a) index (fa_range_count a - 1),
       fa_range_count := fa_range_count a - 1\<rparr>"

definition frame_allocate ::
  "FrameAllocator \<Rightarrow> (FrameError, FrameAddress) result \<times> FrameAllocator" where
  "frame_allocate a =
     (if fa_range_count a = 0 then (Inl OutOfMemory, a)
      else let run = fa_ranges a ! 0;
               addr = fr_start run;
               run' = run\<lparr>fr_start := saturating_add (fr_start run) PAGE_SIZE,
                              fr_frames := fr_frames run - 1\<rparr>;
               a1 = a\<lparr>fa_ranges := (fa_ranges a)[0 := run']\<rparr>;
               a2 = (if fr_frames run' = 0 then remove_range a1 0 else a1)
           in (Inr (FrameAddress addr), a2\<lparr>fa_free_frames := fa_free_frames a2 - 1\<rparr>))"

text \<open>\<open>Iterator::max_by_key\<close>: of equal maxima the last one is returned.\<close>

fun max_by_key :: "('a \<Rightarrow> 'k::linorder) \<Rightarrow> 'a list \<Rightarrow> 'a option" where
  "max_by_key f [] = None"
| "max_by_key f (x # xs) =
     (case max_by_key f xs of
        None \<Rightarrow> Some x
      | Some y \<Rightarrow> if f x > f y then Some x else Some y)"

definition frame_allocate_contiguous ::
  "FrameAllocator \<Rightarrow> u64 \<Rightarrow> (FrameError, PhysicalRange) result \<times> FrameAllocator" where
  "frame_allocate_contiguous a frames =
     (if frames = 0 then (Inl OutOfMemory, a)
      else case max_by_key (\<lambda>index. fr_frames (fa_ranges a ! index))
                  (filter (\<lambda>index. fr_frames (fa_ranges a ! index) \<ge> frames) [0..<fa_range_count a]) of
        None \<Rightarrow> (Inl OutOfMemory, a)
      | Some index \<Rightarrow>
         (let run = fa_ranges a ! index
          in case checked_mul frames PAGE_SIZE of
               None \<Rightarrow> (Inl OutOfMemory, a)
             | Some len \<Rightarrow>
                (case checked_add (fr_start run) len of
                   None \<Rightarrow> (Inl OutOfMemory, a)
                 | Some start \<Rightarrow>
                    (let run' = run\<lparr>fr_start := start, fr_frames := fr_frames run - frames\<rparr>;
                         a1 = a\<lparr>fa_ranges := (fa_ranges a)[index := run']\<rparr>;
                         a2 = (if fr_frames run' = 0 then remove_range a1 index else a1)
                     in (Inr \<lparr>pr_start = fr_start run, pr_length = len\<rparr>,
                         a2\<lparr>fa_free_frames := fa_free_frames a2 - frames\<rparr>)))))"

definition frame_largest_free_frames :: "FrameAllocator \<Rightarrow> u64" where
  "frame_largest_free_frames a =
     (case map fr_frames (take (fa_range_count a) (fa_ranges a)) of
        [] \<Rightarrow> 0
      | n # ns \<Rightarrow> fold max ns n)"

text \<open>The scan \<^verbatim>\<open>while index < range_count && ranges[index].start < address\<close>.\<close>

function find_slot :: "FrameAllocator \<Rightarrow> u64 \<Rightarrow> nat \<Rightarrow> nat" where
  "find_slot a addr index =
     (if index < fa_range_count a \<and> fr_start (fa_ranges a ! index) < addr
      then find_slot a addr (index + 1) else index)"
  by pat_completeness auto
termination
  by (relation "measure (\<lambda>(a, addr, index). fa_range_count a - index)") auto

declare find_slot.simps [simp del]

text \<open>The three ways the list absorbs the released page, once \<open>release\<close> has found its slot.\<close>

definition release_insert ::
  "FrameAllocator \<Rightarrow> u64 \<Rightarrow> nat \<Rightarrow> (FrameError, FrameAllocator) result" where
  "release_insert a addr index =
     (let rs = fa_ranges a; n = fa_range_count a
      in if index > 0 \<and> fr_end (rs ! (index - 1)) = addr
         then (let prev = (rs ! (index - 1))\<lparr>fr_frames := fr_frames (rs ! (index - 1)) + 1\<rparr>;
                   rs1 = rs[index - 1 := prev];
                   a1 = a\<lparr>fa_ranges := rs1\<rparr>
               in if index < n \<and> fr_end prev = fr_start (rs1 ! index)
                  then Inr (remove_range
                         (a1\<lparr>fa_ranges := rs1[index - 1 :=
                            prev\<lparr>fr_frames := fr_frames prev + fr_frames (rs1 ! index)\<rparr>]\<rparr>) index)
                  else Inr a1)
         else if index < n \<and> saturating_add addr PAGE_SIZE = fr_start (rs ! index)
         then Inr (a\<lparr>fa_ranges := rs[index :=
                     \<lparr>fr_start = addr, fr_frames = fr_frames (rs ! index) + 1\<rparr>]\<rparr>)
         else if n = MAX_FREE_RANGES then Inl FreeRangeStorageFull
         else Inr (a\<lparr>fa_ranges := (shift_up rs index n)[index := \<lparr>fr_start = addr, fr_frames = 1\<rparr>],
                     fa_range_count := n + 1\<rparr>))"

definition frame_release ::
  "FrameAllocator \<Rightarrow> FrameAddress \<Rightarrow> (FrameError, unit) result \<times> FrameAllocator" where
  "frame_release a frame =
     (let addr = frame_address frame; rs = fa_ranges a; n = fa_range_count a
      in if \<not> is_multiple_of addr PAGE_SIZE then (Inl InvalidAddress, a)
         else if \<not> list_ex (\<lambda>r. addr \<ge> fr_start r \<and> saturating_add addr PAGE_SIZE \<le> fr_end r)
                    (take (fa_managed_count a) (fa_managed a))
         then (Inl InvalidAddress, a)
         else let index = find_slot a addr 0
              in if index > 0 \<and> fr_end (rs ! (index - 1)) > addr then (Inl InvalidAddress, a)
                 else if index < n \<and> saturating_add addr PAGE_SIZE > fr_start (rs ! index)
                 then (Inl InvalidAddress, a)
                 else case release_insert a addr index of
                        Inl e \<Rightarrow> (Inl e, a)
                      | Inr a' \<Rightarrow>
                          (Inr (), a'\<lparr>fa_free_frames := saturating_add (fa_free_frames a') 1\<rparr>))"

definition frame_stats :: "FrameAllocator \<Rightarrow> FrameStats" where
  "frame_stats a = \<lparr>st_total_frames = fa_total_frames a, st_free_frames = fa_free_frames a,
     st_free_ranges = fa_range_count a\<rparr>"

text \<open>The global allocator is \<open>None\<close> before \<open>initialize\<close>.\<close>

definition frame_initialize ::
  "FrameAllocator option \<Rightarrow> MemoryMapSnapshot option \<Rightarrow>
   (FrameError, unit) result \<times> FrameAllocator option" where
  "frame_initialize g snapshot =
     (if g \<noteq> None then (Inl FrameAlreadyInitialized, g)
      else case snapshot of
        None \<Rightarrow> (Inl MemoryMapUnavailable, g)
      | Some s \<Rightarrow> (Inr (), Some (allocator_new (snapshot_ranges s))))"

text \<open>\<open>with_allocator\<close> is the guard every global operation starts with.\<close>

definition with_allocator ::
  "FrameAllocator option \<Rightarrow> (FrameAllocator \<Rightarrow> (FrameError, 'a) result \<times> FrameAllocator) \<Rightarrow>
   (FrameError, 'a) result \<times> FrameAllocator option" where
  "with_allocator g f =
     (case g of
        None \<Rightarrow> (Inl MemoryMapUnavailable, g)
      | Some a \<Rightarrow> (case f a of (r, a') \<Rightarrow> (r, Some a')))"

definition global_allocate ::
  "FrameAllocator option \<Rightarrow> (FrameError, FrameAddress) result \<times> FrameAllocator option" where
  "global_allocate g = with_allocator g frame_allocate"

definition allocate_owned ::
  "FrameAllocator option \<Rightarrow> FrameOwner \<Rightarrow> (FrameError, OwnedFrame) result \<times> FrameAllocator option" where
  "allocate_owned g owner =
     (case global_allocate g of
        (Inl e, g') \<Rightarrow> (Inl e, g')
      | (Inr frame, g') \<Rightarrow> (Inr \<lparr>of_frame = frame, of_owner = owner\<rparr>, g'))"

definition global_allocate_contiguous ::
  "FrameAllocator option \<Rightarrow> u64 \<Rightarrow>
   (FrameError, PhysicalRange) result \<times> FrameAllocator option" where
  "global_allocate_contiguous g frames =
     with_allocator g (\<lambda>a. frame_allocate_contiguous a frames)"

definition allocate_contiguous_owned ::
  "FrameAllocator option \<Rightarrow> u64 \<Rightarrow> FrameOwner \<Rightarrow>
   (FrameError, OwnedPhysicalRange) result \<times> FrameAllocator option" where
  "allocate_contiguous_owned g frames owner =
     (case global_allocate_contiguous g frames of
        (Inl e, g') \<Rightarrow> (Inl e, g')
      | (Inr run, g') \<Rightarrow> (Inr \<lparr>opr_range = run, opr_owner = owner\<rparr>, g'))"

definition global_largest_free_frames :: "FrameAllocator option \<Rightarrow> (FrameError, u64) result" where
  "global_largest_free_frames g =
     (case g of None \<Rightarrow> Inl MemoryMapUnavailable | Some a \<Rightarrow> Inr (frame_largest_free_frames a))"

definition global_release ::
  "FrameAllocator option \<Rightarrow> FrameAddress \<Rightarrow>
   (FrameError, unit) result \<times> FrameAllocator option" where
  "global_release g frame = with_allocator g (\<lambda>a. frame_release a frame)"

definition OwnedFrame_release ::
  "FrameAllocator option \<Rightarrow> OwnedFrame \<Rightarrow> (FrameError, unit) result \<times> FrameAllocator option" where
  "OwnedFrame_release g f = global_release g (of_frame f)"

definition global_stats :: "FrameAllocator option \<Rightarrow> FrameStats option" where
  "global_stats g = map_option frame_stats g"

section \<open>Runs of pages\<close>

text \<open>A run is read as the set of the addresses of its pages.\<close>

definition block :: "nat \<Rightarrow> nat \<Rightarrow> nat set" where
  "block s n = {q. 4096 dvd q \<and> s \<le> q \<and> q < s + 4096 * n}"

definition run_end :: "FreeRange \<Rightarrow> nat" where
  "run_end r = unat (fr_start r) + 4096 * unat (fr_frames r)"

definition run_ok :: "FreeRange \<Rightarrow> bool" where
  "run_ok r \<longleftrightarrow> fr_frames r \<noteq> 0 \<and> 4096 dvd unat (fr_start r) \<and> run_end r < 2 ^ 64"

definition run_pages :: "FreeRange \<Rightarrow> nat set" where
  "run_pages r = block (unat (fr_start r)) (unat (fr_frames r))"

definition runs_ok :: "FreeRange list \<Rightarrow> bool" where
  "runs_ok rs \<longleftrightarrow> list_all run_ok rs \<and> sorted_wrt (\<lambda>r s. run_end r \<le> unat (fr_start s)) rs"

definition pages :: "FreeRange list \<Rightarrow> nat set" where
  "pages rs = (\<Union>r \<in> set rs. run_pages r)"

definition frames_sum :: "FreeRange list \<Rightarrow> nat" where
  "frames_sum rs = sum_list (map (\<lambda>r. unat (fr_frames r)) rs)"

lemma pages_simps [simp]:
  "pages [] = {}" "pages (r # rs) = run_pages r \<union> pages rs" "pages (xs @ ys) = pages xs \<union> pages ys"
  by (auto simp: pages_def)

lemma frames_sum_simps [simp]:
  "frames_sum [] = 0" "frames_sum (r # rs) = unat (fr_frames r) + frames_sum rs"
  "frames_sum (xs @ ys) = frames_sum xs + frames_sum ys"
  by (simp_all add: frames_sum_def)

lemma runs_ok_simps [simp]:
  "runs_ok []"
  "runs_ok (r # rs) \<longleftrightarrow> run_ok r \<and> (\<forall>s \<in> set rs. run_end r \<le> unat (fr_start s)) \<and> runs_ok rs"
  "runs_ok (xs @ ys) \<longleftrightarrow> runs_ok xs \<and> runs_ok ys \<and>
     (\<forall>x \<in> set xs. \<forall>y \<in> set ys. run_end x \<le> unat (fr_start y))"
  by (auto simp: runs_ok_def sorted_wrt_append)

lemma run_ok_start_lt_end: "run_ok r \<Longrightarrow> unat (fr_start r) < run_end r"
  by (simp add: run_ok_def run_end_def unat_gt_0)

lemma unat_fr_end: "run_ok r \<Longrightarrow> unat (fr_end r) = run_end r"
  by (simp add: run_ok_def run_end_def fr_end_def rust_arith mult.commute)

lemma block_0 [simp]: "block s 0 = {}"
  by (simp add: block_def)

lemma block_add: "block s (m + n) = block s m \<union> block (s + 4096 * m) n"
  by (auto simp: block_def)

lemma block_disjoint: "s + 4096 * m \<le> t \<Longrightarrow> block s m \<inter> block t n = {}"
  by (auto simp: block_def)

lemma same_page:
  fixes p q :: nat
  assumes "4096 dvd p" and "4096 dvd q" and "p \<le> q" and "q < p + 4096"
  shows "q = p"
proof -
  obtain a b where "p = 4096 * a" "q = 4096 * b" using assms(1,2) by (auto elim!: dvdE)
  with assms(3,4) have "a \<le> b" "b < a + 1" by simp_all
  with \<open>p = 4096 * a\<close> \<open>q = 4096 * b\<close> show ?thesis by simp
qed

lemma block_1 [simp]: "4096 dvd p \<Longrightarrow> block p (Suc 0) = {p}"
proof -
  assume p: "4096 dvd p"
  have "q = p" if "q \<in> block p (Suc 0)" for q
    using that by (intro same_page [OF p]) (simp_all add: block_def)
  moreover have "p \<in> block p (Suc 0)" using p by (simp add: block_def)
  ultimately show ?thesis by blast
qed

lemma block_finite [simp]: "finite (block s n)"
  by (rule finite_subset [of _ "{..<s + 4096 * n}"]) (auto simp: block_def)

lemma card_block: "4096 dvd s \<Longrightarrow> card (block s n) = n"
proof (induction n)
  case (Suc n)
  have "4096 dvd s + 4096 * n" using Suc.prems by simp
  then have "block s (Suc n) = insert (s + 4096 * n) (block s n)"
    using block_add [of s n 1] by simp
  moreover have "s + 4096 * n \<notin> block s n" by (simp add: block_def)
  ultimately show ?case using Suc by simp
qed simp

lemma run_pages_disjoint: "run_end r \<le> unat (fr_start s) \<Longrightarrow> run_pages r \<inter> run_pages s = {}"
  by (simp add: run_pages_def run_end_def block_disjoint)

lemma run_pages_pages_disjoint:
  "\<forall>s \<in> set rs. run_end r \<le> unat (fr_start s) \<Longrightarrow> run_pages r \<inter> pages rs = {}"
  using run_pages_disjoint by (fastforce simp: pages_def)

lemma pages_run_pages_disjoint:
  "\<forall>s \<in> set rs. run_end s \<le> unat (fr_start r) \<Longrightarrow> pages rs \<inter> run_pages r = {}"
  using run_pages_disjoint by (fastforce simp: pages_def)

lemma finite_pages [simp]: "finite (pages rs)"
  by (simp add: pages_def run_pages_def)

lemma card_pages: "runs_ok rs \<Longrightarrow> card (pages rs) = frames_sum rs"
proof (induction rs)
  case (Cons r rs)
  then have "run_pages r \<inter> pages rs = {}" by (intro run_pages_pages_disjoint) simp
  moreover have "card (run_pages r) = unat (fr_frames r)"
    using Cons.prems by (simp add: run_pages_def card_block run_ok_def)
  moreover note calculation
  with Cons show ?case by (simp add: card_Un_disjoint run_pages_def)
qed simp

lemma frames_sum_bound_aux:
  "runs_ok (r # rs) \<Longrightarrow> unat (fr_start r) + 4096 * frames_sum (r # rs) < 2 ^ 64"
proof (induction rs arbitrary: r)
  case Nil
  then show ?case by (simp add: run_ok_def run_end_def)
next
  case (Cons s rs)
  then have "unat (fr_start s) + 4096 * frames_sum (s # rs) < 2 ^ 64" by simp
  moreover have "unat (fr_start r) + 4096 * unat (fr_frames r) \<le> unat (fr_start s)"
    using Cons.prems by (simp add: run_end_def)
  ultimately show ?case by simp
qed

lemma frames_sum_bound: "runs_ok rs \<Longrightarrow> 4096 * frames_sum rs < 2 ^ 64"
  using frames_sum_bound_aux [of "hd rs" "tl rs"]
  by (cases "rs = []") (simp_all del: runs_ok_simps(2) frames_sum_simps(2))

text \<open>Taking pages from the front of one run.\<close>

lemma front_taken:
  assumes "runs_ok (xs @ r # ys)" and "0 < n" and "n \<le> unat (fr_frames r)"
    and "unat (fr_start v) = unat (fr_start r) + 4096 * n" and "unat (fr_frames v) = unat (fr_frames r) - n"
    and "vs = (if fr_frames v = 0 then [] else [v])"
  shows "runs_ok (xs @ vs @ ys)"
    and "pages (xs @ vs @ ys) = pages (xs @ r # ys) - block (unat (fr_start r)) n"
    and "frames_sum (xs @ vs @ ys) = frames_sum (xs @ r # ys) - n"
    and "block (unat (fr_start r)) n \<subseteq> pages (xs @ r # ys)"
proof -
  have ok: "run_ok r" "\<forall>x \<in> set xs. run_end x \<le> unat (fr_start r)"
    "\<forall>y \<in> set ys. run_end r \<le> unat (fr_start y)"
    using assms(1) by auto
  have ends: "run_end v = run_end r" using assms(3-5) by (simp add: run_end_def)
  show "runs_ok (xs @ vs @ ys)"
    using assms ok ends by (auto simp: run_ok_def)
  let ?b = "block (unat (fr_start r)) n"
  have "run_pages r = ?b \<union> run_pages v"
    using block_add [of "unat (fr_start r)" n "unat (fr_frames r) - n"] assms(3-5)
    by (simp add: run_pages_def)
  moreover have pv: "pages vs = run_pages v"
    using assms(6) by (simp add: run_pages_def)
  moreover have "?b \<inter> run_pages v = {}"
    using assms(4) by (simp add: run_pages_def block_disjoint)
  moreover have "pages xs \<inter> run_pages r = {}" "run_pages r \<inter> pages ys = {}"
    using ok by (simp_all add: pages_run_pages_disjoint run_pages_pages_disjoint)
  ultimately show "pages (xs @ vs @ ys) = pages (xs @ r # ys) - ?b" "?b \<subseteq> pages (xs @ r # ys)"
    by auto
  have "frames_sum vs = unat (fr_frames v)" using assms(6) by simp
  then show "frames_sum (xs @ vs @ ys) = frames_sum (xs @ r # ys) - n"
    using assms(3,5) by simp
qed

text \<open>Adding one page between two runs, and joining two runs that touch.\<close>

lemma page_inserted:
  assumes "runs_ok (xs @ ys)" and "4096 dvd unat p" and "unat p + 4096 < 2 ^ 64"
    and "\<forall>x \<in> set xs. run_end x \<le> unat p" and "\<forall>y \<in> set ys. unat p + 4096 \<le> unat (fr_start y)"
  shows "runs_ok (xs @ \<lparr>fr_start = p, fr_frames = 1\<rparr> # ys)"
    and "pages (xs @ \<lparr>fr_start = p, fr_frames = 1\<rparr> # ys) = insert (unat p) (pages (xs @ ys))"
    and "frames_sum (xs @ \<lparr>fr_start = p, fr_frames = 1\<rparr> # ys) = frames_sum (xs @ ys) + 1"
  using assms by (auto simp: run_ok_def run_end_def run_pages_def)

definition joined :: "FreeRange \<Rightarrow> FreeRange \<Rightarrow> FreeRange" where
  "joined r s = \<lparr>fr_start = fr_start r, fr_frames = fr_frames r + fr_frames s\<rparr>"

lemma runs_joined:
  assumes "runs_ok (xs @ r # s # ys)" and "run_end r = unat (fr_start s)"
  shows "runs_ok (xs @ joined r s # ys)"
    and "pages (xs @ joined r s # ys) = pages (xs @ r # s # ys)"
    and "frames_sum (xs @ joined r s # ys) = frames_sum (xs @ r # s # ys)"
    and "run_end (joined r s) = run_end s"
proof -
  have rs: "run_ok r" "run_ok s" using assms(1) by auto
  have fits: "unat (fr_frames r) + unat (fr_frames s) < 2 ^ LENGTH(64)"
    using rs assms(2) by (simp add: run_ok_def run_end_def)
  then have frames: "unat (fr_frames (joined r s)) = unat (fr_frames r) + unat (fr_frames s)"
    by (simp add: joined_def unat_add_exact)
  have start: "fr_start (joined r s) = fr_start r" by (simp add: joined_def)
  show e: "run_end (joined r s) = run_end s"
    using assms(2) by (simp add: run_end_def frames start)
  have "0 < unat (fr_frames r)" using rs(1) by (simp add: run_ok_def unat_gt_0)
  with frames have "fr_frames (joined r s) \<noteq> 0" by auto
  with rs e have "run_ok (joined r s)" by (simp add: run_ok_def start)
  with assms(1) e start show "runs_ok (xs @ joined r s # ys)" by auto
  have "run_pages (joined r s) = run_pages r \<union> run_pages s"
    using block_add [of "unat (fr_start r)" "unat (fr_frames r)" "unat (fr_frames s)"] assms(2)
    by (simp add: run_pages_def frames start run_end_def)
  then show "pages (xs @ joined r s # ys) = pages (xs @ r # s # ys)" by auto
  show "frames_sum (xs @ joined r s # ys) = frames_sum (xs @ r # s # ys)"
    by (simp add: frames)
qed

text \<open>Where a page lies relative to the slot that the scan finds.\<close>

lemma slot_free_iff:
  assumes "runs_ok (xs @ ys)" and "4096 dvd p"
    and "\<forall>x \<in> set xs. unat (fr_start x) < p" and "\<forall>y \<in> set ys. p \<le> unat (fr_start y)"
  shows "p \<in> pages (xs @ ys) \<longleftrightarrow>
    (xs \<noteq> [] \<and> p < run_end (last xs)) \<or> (ys \<noteq> [] \<and> unat (fr_start (hd ys)) < p + 4096)"
proof
  assume "p \<in> pages (xs @ ys)"
  then obtain r where r: "r \<in> set xs \<union> set ys" "unat (fr_start r) \<le> p" "p < run_end r"
    by (auto simp: pages_def run_pages_def block_def run_end_def)
  show "(xs \<noteq> [] \<and> p < run_end (last xs)) \<or> (ys \<noteq> [] \<and> unat (fr_start (hd ys)) < p + 4096)"
  proof (cases "r \<in> set xs")
    case True
    then have "xs \<noteq> []" by auto
    then obtain zs x where xs: "xs = zs @ [x]" by (metis rev_exhaust)
    have "run_end r \<le> run_end x"
    proof (cases "r = x")
      case False
      with True xs assms(1) have "run_end r \<le> unat (fr_start x)" "run_ok x" by auto
      with run_ok_start_lt_end [of x] show ?thesis by simp
    qed simp
    with r xs show ?thesis by simp
  next
    case False
    with r have ry: "r \<in> set ys" by simp
    then obtain y zs where ys: "ys = y # zs" by (cases ys) auto
    have "unat (fr_start y) \<le> unat (fr_start r)"
    proof (cases "r = y")
      case False
      with ry ys assms(1) have "run_end y \<le> unat (fr_start r)" "run_ok y" by auto
      with run_ok_start_lt_end [of y] show ?thesis by simp
    qed simp
    with r ys show ?thesis by simp
  qed
next
  assume "(xs \<noteq> [] \<and> p < run_end (last xs)) \<or> (ys \<noteq> [] \<and> unat (fr_start (hd ys)) < p + 4096)"
  then show "p \<in> pages (xs @ ys)"
  proof
    assume x: "xs \<noteq> [] \<and> p < run_end (last xs)"
    then have "p \<in> run_pages (last xs)"
      using assms(2,3) by (simp add: run_pages_def block_def run_end_def less_imp_le)
    moreover have "last xs \<in> set (xs @ ys)" using x by simp
    ultimately show ?thesis unfolding pages_def by blast
  next
    assume y: "ys \<noteq> [] \<and> unat (fr_start (hd ys)) < p + 4096"
    then have h: "hd ys \<in> set ys" by simp
    then have "run_ok (hd ys)" "p \<le> unat (fr_start (hd ys))"
      using assms(1,4) by (auto simp: runs_ok_def list_all_iff)
    then have "4096 dvd unat (fr_start (hd ys))" "unat (fr_start (hd ys)) < run_end (hd ys)"
      by (simp_all add: run_ok_def run_ok_start_lt_end)
    moreover have "unat (fr_start (hd ys)) = p"
      using same_page [OF assms(2)] calculation(1) y \<open>p \<le> unat (fr_start (hd ys))\<close> by blast
    ultimately have "p \<in> run_pages (hd ys)"
      using assms(2) by (simp add: run_pages_def block_def run_end_def)
    with h show ?thesis unfolding pages_def by auto
  qed
qed

section \<open>The allocator's tables as lists of runs\<close>

definition free_runs :: "FrameAllocator \<Rightarrow> FreeRange list" where
  "free_runs a = take (fa_range_count a) (fa_ranges a)"

definition managed_runs :: "FrameAllocator \<Rightarrow> FreeRange list" where
  "managed_runs a = take (fa_managed_count a) (fa_managed a)"

definition free_pages :: "FrameAllocator \<Rightarrow> nat set" where
  "free_pages a = pages (free_runs a)"

definition managed_pages :: "FrameAllocator \<Rightarrow> nat set" where
  "managed_pages a = pages (managed_runs a)"

definition tables_ok :: "FrameAllocator \<Rightarrow> bool" where
  "tables_ok a \<longleftrightarrow> length (fa_ranges a) = MAX_FREE_RANGES \<and> length (fa_managed a) = MAX_FREE_RANGES \<and>
     fa_range_count a \<le> MAX_FREE_RANGES \<and> fa_managed_count a \<le> MAX_FREE_RANGES"

definition allocator_inv :: "FrameAllocator \<Rightarrow> bool" where
  "allocator_inv a \<longleftrightarrow> tables_ok a \<and> runs_ok (free_runs a) \<and> runs_ok (managed_runs a) \<and>
     free_pages a \<subseteq> managed_pages a \<and> unat (fa_free_frames a) = frames_sum (free_runs a) \<and>
     unat (fa_total_frames a) = frames_sum (managed_runs a)"

lemma length_free_runs: "tables_ok a \<Longrightarrow> length (free_runs a) = fa_range_count a"
  by (simp add: tables_ok_def free_runs_def)

lemma nth_free_runs: "i < fa_range_count a \<Longrightarrow> free_runs a ! i = fa_ranges a ! i"
  by (simp add: free_runs_def)

lemma free_runs_split:
  assumes "tables_ok a" and "i < fa_range_count a"
  shows "free_runs a = take i (free_runs a) @ fa_ranges a ! i # drop (Suc i) (free_runs a)"
  using id_take_nth_drop [of i "free_runs a"] assms by (simp add: length_free_runs nth_free_runs)

lemma free_runs_update:
  assumes "tables_ok a" and "i < fa_range_count a"
  shows "free_runs (a\<lparr>fa_ranges := (fa_ranges a)[i := v]\<rparr>) =
    take i (free_runs a) @ v # drop (Suc i) (free_runs a)"
  using assms upd_conv_take_nth_drop [of i "free_runs a" v]
  by (simp add: free_runs_def tables_ok_def take_update_swap)

lemma free_runs_remove:
  assumes "tables_ok a" and "i < fa_range_count a"
  shows "free_runs (remove_range a i) = take i (free_runs a) @ drop (Suc i) (free_runs a)"
    and "tables_ok (remove_range a i)"
    and "fa_managed (remove_range a i) = fa_managed a"
    and "fa_managed_count (remove_range a i) = fa_managed_count a"
    and "fa_free_frames (remove_range a i) = fa_free_frames a"
    and "fa_total_frames (remove_range a i) = fa_total_frames a"
proof -
  have "fa_range_count a - 1 < length (fa_ranges a)" "i \<le> fa_range_count a - 1"
    "Suc (fa_range_count a - 1) = fa_range_count a"
    using assms by (auto simp: tables_ok_def)
  with take_shift_down [of "fa_range_count a - 1" "fa_ranges a" i] assms
  show "free_runs (remove_range a i) = take i (free_runs a) @ drop (Suc i) (free_runs a)"
    by (simp add: free_runs_def remove_range_def)
  show "tables_ok (remove_range a i)"
    using assms by (auto simp: tables_ok_def remove_range_def)
qed (simp_all add: remove_range_def)

text \<open>Shrinking a run in place, and dropping it when nothing is left: the common end of both
  allocations.\<close>

definition shrink_run :: "FrameAllocator \<Rightarrow> nat \<Rightarrow> FreeRange \<Rightarrow> FrameAllocator" where
  "shrink_run a i v =
     (let a1 = a\<lparr>fa_ranges := (fa_ranges a)[i := v]\<rparr>
      in if fr_frames v = 0 then remove_range a1 i else a1)"

lemma shrink_run_facts:
  assumes "tables_ok a" and "i < fa_range_count a"
  shows "free_runs (shrink_run a i v) =
      take i (free_runs a) @ (if fr_frames v = 0 then [] else [v]) @ drop (Suc i) (free_runs a)"
    and "tables_ok (shrink_run a i v)"
    and "managed_runs (shrink_run a i v) = managed_runs a"
    and "fa_free_frames (shrink_run a i v) = fa_free_frames a"
    and "fa_total_frames (shrink_run a i v) = fa_total_frames a"
proof -
  let ?a = "a\<lparr>fa_ranges := (fa_ranges a)[i := v]\<rparr>"
  have ok: "tables_ok ?a" "i < fa_range_count ?a" using assms by (simp_all add: tables_ok_def)
  note upd = free_runs_update [OF assms, of v]
  have "length (take i (free_runs a)) = i" using assms by (simp add: length_free_runs)
  then have "take i (free_runs ?a) = take i (free_runs a)"
    "drop (Suc i) (free_runs ?a) = drop (Suc i) (free_runs a)"
    by (simp_all add: upd)
  with ok upd show "free_runs (shrink_run a i v) =
      take i (free_runs a) @ (if fr_frames v = 0 then [] else [v]) @ drop (Suc i) (free_runs a)"
    by (simp add: shrink_run_def Let_def free_runs_remove)
  show "tables_ok (shrink_run a i v)"
    using ok by (simp add: shrink_run_def Let_def free_runs_remove)
  show "managed_runs (shrink_run a i v) = managed_runs a"
    "fa_free_frames (shrink_run a i v) = fa_free_frames a"
    "fa_total_frames (shrink_run a i v) = fa_total_frames a"
    using ok by (simp_all add: shrink_run_def Let_def free_runs_remove managed_runs_def)
qed

text \<open>Taking \<open>n\<close> pages from the front of run \<open>i\<close> and counting them off.\<close>

lemma take_pages_facts:
  assumes inv: "allocator_inv a" and i: "i < fa_range_count a" and n: "n \<noteq> 0"
    and le: "n \<le> fr_frames (fa_ranges a ! i)"
    and start: "unat (fr_start v) = unat (fr_start (fa_ranges a ! i)) + 4096 * unat n"
    and frames: "fr_frames v = fr_frames (fa_ranges a ! i) - n"
    and a': "a' = shrink_run a i v\<lparr>fa_free_frames := fa_free_frames (shrink_run a i v) - n\<rparr>"
  shows "allocator_inv a'"
    and "free_pages a' = free_pages a - block (unat (fr_start (fa_ranges a ! i))) (unat n)"
    and "block (unat (fr_start (fa_ranges a ! i))) (unat n) \<subseteq> free_pages a"
    and "managed_runs a' = managed_runs a"
    and "fa_total_frames a' = fa_total_frames a"
    and "unat (fa_free_frames a') = unat (fa_free_frames a) - unat n"
proof -
  let ?r = "fa_ranges a ! i"
  let ?xs = "take i (free_runs a)" and ?ys = "drop (Suc i) (free_runs a)"
  let ?vs = "if fr_frames v = 0 then [] else [v]"
  have ok: "tables_ok a" "runs_ok (free_runs a)" using inv by (simp_all add: allocator_inv_def)
  note split = free_runs_split [OF ok(1) i]
  have runs: "runs_ok (?xs @ ?r # ?ys)" using ok(2) split by simp
  have fr: "unat (fr_frames v) = unat (fr_frames ?r) - unat n"
    using le by (simp add: frames unat_sub_exact)
  have n0: "0 < unat n" "unat n \<le> unat (fr_frames ?r)"
    using n le by (simp_all add: unat_gt_0 word_le_nat_alt)
  note taken = front_taken [OF runs n0 start fr refl]
  note shrunk = shrink_run_facts [OF ok(1) i, of v]
  have new: "free_runs a' = ?xs @ ?vs @ ?ys" "managed_runs a' = managed_runs a"
    "tables_ok a'" "fa_total_frames a' = fa_total_frames a" "fa_free_frames a' = fa_free_frames a - n"
    using shrunk by (simp_all add: a' free_runs_def managed_runs_def tables_ok_def)
  have sums: "frames_sum (free_runs a') = frames_sum (free_runs a) - unat n"
    unfolding new(1) taken(3) split [symmetric] ..
  have "unat n \<le> frames_sum (free_runs a)"
    using n0(2) by (subst split) simp
  with inv have "n \<le> fa_free_frames a" by (simp add: allocator_inv_def word_le_nat_alt)
  then have free: "unat (fa_free_frames a') = unat (fa_free_frames a) - unat n"
    by (simp add: new(5) unat_sub_exact)
  have pg: "free_pages a' = free_pages a - block (unat (fr_start ?r)) (unat n)"
    unfolding free_pages_def new(1) taken(2) split [symmetric] ..
  show "allocator_inv a'"
    using inv new pg taken(1) sums free
    by (auto simp: allocator_inv_def managed_pages_def)
  show "block (unat (fr_start ?r)) (unat n) \<subseteq> free_pages a"
    using taken(4) unfolding free_pages_def split [symmetric] .
  from pg free new show "free_pages a' = free_pages a - block (unat (fr_start ?r)) (unat n)"
    "managed_runs a' = managed_runs a" "fa_total_frames a' = fa_total_frames a"
    "unat (fa_free_frames a') = unat (fa_free_frames a) - unat n"
    by simp_all
qed

lemma free_pages_empty_iff:
  assumes "allocator_inv a"
  shows "free_pages a = {} \<longleftrightarrow> fa_range_count a = 0"
proof
  assume "free_pages a = {}"
  then have "frames_sum (free_runs a) = 0"
    using assms card_pages [of "free_runs a"] by (simp add: allocator_inv_def free_pages_def)
  moreover have "0 < frames_sum (free_runs a)" if "fa_range_count a \<noteq> 0"
  proof -
    have "fa_ranges a ! 0 \<in> set (free_runs a)"
      using that assms nth_mem [of 0 "free_runs a"]
      by (simp add: allocator_inv_def length_free_runs nth_free_runs)
    moreover have "run_ok r" if "r \<in> set (free_runs a)" for r
      using assms that by (simp add: allocator_inv_def runs_ok_def list_all_iff)
    ultimately show ?thesis
      by (auto simp: frames_sum_def run_ok_def unat_gt_0 sum_list_eq_0_iff neq0_conv [symmetric] unat_eq_zero
          simp del: neq0_conv)
  qed
  ultimately show "fa_range_count a = 0" by auto
next
  assume "fa_range_count a = 0"
  then show "free_pages a = {}" by (simp add: free_pages_def free_runs_def)
qed

lemma free_run_ok:
  assumes "allocator_inv a" and "i < fa_range_count a"
  shows "run_ok (fa_ranges a ! i)"
proof -
  have "free_runs a ! i \<in> set (free_runs a)"
    using assms by (simp add: allocator_inv_def length_free_runs)
  with assms show ?thesis by (simp add: allocator_inv_def runs_ok_def list_all_iff nth_free_runs)
qed

lemma first_run_first:
  assumes "allocator_inv a" and "q \<in> free_pages a"
  shows "unat (fr_start (fa_ranges a ! 0)) \<le> q"
proof -
  have pos: "0 < fa_range_count a"
    using assms free_pages_empty_iff [OF assms(1)] by auto
  obtain r where r: "r \<in> set (free_runs a)" "unat (fr_start r) \<le> q"
    using assms(2) by (auto simp: free_pages_def pages_def run_pages_def block_def)
  have "free_runs a = fa_ranges a ! 0 # drop 1 (free_runs a)" "runs_ok (free_runs a)"
    using assms(1) free_runs_split [of a 0] pos by (simp_all add: allocator_inv_def)
  then have "unat (fr_start (fa_ranges a ! 0)) \<le> unat (fr_start r)"
    using r(1) run_ok_start_lt_end [OF free_run_ok [OF assms(1) pos]]
    by (metis (no_types, lifting) le_trans less_imp_le order_refl runs_ok_simps(2) set_ConsD)
  with r(2) show ?thesis by simp
qed

lemma frame_allocate_Inr:
  assumes inv: "allocator_inv a" and alloc: "frame_allocate a = (Inr f, a')"
  shows "allocator_inv a'" and "free_pages a' = free_pages a - {unat (frame_address f)}"
    and "unat (frame_address f) \<in> free_pages a" and "managed_runs a' = managed_runs a"
    and "fa_total_frames a' = fa_total_frames a"
    and "unat (fa_free_frames a') = unat (fa_free_frames a) - 1"
    and "\<forall>q \<in> free_pages a. unat (frame_address f) \<le> q"
proof -
  let ?r = "fa_ranges a ! 0"
  let ?v = "?r\<lparr>fr_start := saturating_add (fr_start ?r) PAGE_SIZE, fr_frames := fr_frames ?r - 1\<rparr>"
  from alloc have pos: "0 < fa_range_count a" and f: "f = FrameAddress (fr_start ?r)"
    and a': "a' = shrink_run a 0 ?v\<lparr>fa_free_frames := fa_free_frames (shrink_run a 0 ?v) - 1\<rparr>"
    by (auto simp: frame_allocate_def shrink_run_def Let_def split: if_splits)
  note ok = free_run_ok [OF inv pos]
  then have fr: "0 < unat (fr_frames ?r)" by (simp add: run_ok_def unat_gt_0)
  then have le: "(1 :: u64) \<le> fr_frames ?r" by (simp add: word_le_nat_alt)
  have "unat (fr_start ?r) + 4096 < 2 ^ 64"
    using ok fr by (simp add: run_ok_def run_end_def)
  then have start: "unat (fr_start ?v) = unat (fr_start ?r) + 4096 * unat (1 :: u64)"
    by (simp add: unat_saturating_add)
  have "4096 dvd unat (fr_start ?r)" using ok by (simp add: run_ok_def)
  then have blk: "block (unat (fr_start ?r)) (unat (1 :: u64)) = {unat (frame_address f)}" by (simp add: f)
  note facts = take_pages_facts [OF inv pos _ le start _ a', simplified blk]
  show "allocator_inv a'" "free_pages a' = free_pages a - {unat (frame_address f)}"
    "unat (frame_address f) \<in> free_pages a" "managed_runs a' = managed_runs a"
    "fa_total_frames a' = fa_total_frames a" "unat (fa_free_frames a') = unat (fa_free_frames a) - 1"
    using facts by simp_all
  show "\<forall>q \<in> free_pages a. unat (frame_address f) \<le> q"
    using first_run_first [OF inv] by (simp add: f)
qed

lemma frame_allocate_Inl:
  assumes "allocator_inv a" and "frame_allocate a = (Inl e, a')"
  shows "a' = a" and "e = OutOfMemory" and "free_pages a = {}"
  using assms free_pages_empty_iff [OF assms(1)]
  by (auto simp: frame_allocate_def Let_def split: if_splits)

text \<open>Contiguous allocation.\<close>

lemma max_by_key_None_iff: "max_by_key f xs = None \<longleftrightarrow> xs = []"
  by (cases xs) (auto split: option.splits)

lemma max_by_key_Some: "max_by_key f xs = Some y \<Longrightarrow> y \<in> set xs \<and> (\<forall>x \<in> set xs. f x \<le> f y)"
  by (induction xs arbitrary: y) (fastforce split: option.splits if_splits simp: max_by_key_None_iff)+

lemma frame_allocate_contiguous_Inr:
  assumes inv: "allocator_inv a" and alloc: "frame_allocate_contiguous a n = (Inr p, a')"
  shows "allocator_inv a'" and "free_pages a' = free_pages a - block (unat (pr_start p)) (unat n)"
    and "block (unat (pr_start p)) (unat n) \<subseteq> free_pages a" and "managed_runs a' = managed_runs a"
    and "fa_total_frames a' = fa_total_frames a"
    and "unat (fa_free_frames a') = unat (fa_free_frames a) - unat n"
    and "n \<noteq> 0" and "unat (pr_length p) = 4096 * unat n"
    and "4096 dvd unat (pr_start p)" and "unat (pr_start p) + unat (pr_length p) < 2 ^ 64"
proof -
  from alloc obtain i len start where i: "max_by_key (\<lambda>index. fr_frames (fa_ranges a ! index))
        (filter (\<lambda>index. fr_frames (fa_ranges a ! index) \<ge> n) [0..<fa_range_count a]) = Some i"
    and n: "n \<noteq> 0" and len: "checked_mul n PAGE_SIZE = Some len"
    and start: "checked_add (fr_start (fa_ranges a ! i)) len = Some start"
    and p: "p = \<lparr>pr_start = fr_start (fa_ranges a ! i), pr_length = len\<rparr>"
    and a': "a' = shrink_run a i ((fa_ranges a ! i)\<lparr>fr_start := start, fr_frames := fr_frames (fa_ranges a ! i) - n\<rparr>)
        \<lparr>fa_free_frames := fa_free_frames (shrink_run a i ((fa_ranges a ! i)\<lparr>fr_start := start,
           fr_frames := fr_frames (fa_ranges a ! i) - n\<rparr>)) - n\<rparr>"
    by (auto simp: frame_allocate_contiguous_def shrink_run_def Let_def split: if_splits option.splits)
  let ?r = "fa_ranges a ! i"
  let ?v = "?r\<lparr>fr_start := start, fr_frames := fr_frames ?r - n\<rparr>"
  from max_by_key_Some [OF i] have ic: "i < fa_range_count a" and le: "n \<le> fr_frames ?r" by auto
  from len have l: "unat len = 4096 * unat n" by (simp add: rust_arith)
  from start l have "unat (fr_start ?v) = unat (fr_start ?r) + 4096 * unat n"
    and fits: "unat (fr_start ?r) + unat len < 2 ^ 64" by (simp_all add: rust_arith)
  note facts = take_pages_facts [OF inv ic n le this(1) _ a']
  show "allocator_inv a'" "free_pages a' = free_pages a - block (unat (pr_start p)) (unat n)"
    "block (unat (pr_start p)) (unat n) \<subseteq> free_pages a" "managed_runs a' = managed_runs a"
    "fa_total_frames a' = fa_total_frames a"
    "unat (fa_free_frames a') = unat (fa_free_frames a) - unat n"
    using facts by (simp_all add: p)
  show "n \<noteq> 0" "unat (pr_length p) = 4096 * unat n" "unat (pr_start p) + unat (pr_length p) < 2 ^ 64"
    using n l fits by (simp_all add: p)
  show "4096 dvd unat (pr_start p)"
    using free_run_ok [OF inv ic] by (simp add: p run_ok_def)
qed

lemma frame_allocate_contiguous_Inl:
  assumes inv: "allocator_inv a" and alloc: "frame_allocate_contiguous a n = (Inl e, a')"
  shows "a' = a" and "e = OutOfMemory"
    and "n = 0 \<or> (\<forall>r \<in> set (free_runs a). fr_frames r < n)"
proof -
  show "a' = a" "e = OutOfMemory"
    using alloc by (auto simp: frame_allocate_contiguous_def Let_def split: if_splits option.splits)
  let ?cands = "filter (\<lambda>index. fr_frames (fa_ranges a ! index) \<ge> n) [0..<fa_range_count a]"
  have "\<forall>r \<in> set (free_runs a). fr_frames r < n" if n: "n \<noteq> 0"
    proof (cases "max_by_key (\<lambda>index. fr_frames (fa_ranges a ! index)) ?cands")
      case None
      then have "\<forall>i < fa_range_count a. fr_frames (free_runs a ! i) < n"
        by (auto simp: max_by_key_None_iff filter_empty_conv nth_free_runs not_le)
      then show ?thesis
        using inv by (auto simp: in_set_conv_nth length_free_runs allocator_inv_def)
    next
      case (Some i)
      then have i: "i < fa_range_count a" "unat n \<le> unat (fr_frames (fa_ranges a ! i))"
        using max_by_key_Some [OF Some] by (auto simp: word_le_nat_alt)
      have "unat (fr_start (fa_ranges a ! i)) + 4096 * unat n < 2 ^ 64"
        using free_run_ok [OF inv i(1)] i(2) by (simp add: run_ok_def run_end_def)
      then have "checked_mul n PAGE_SIZE \<noteq> None"
        "\<And>len. checked_mul n PAGE_SIZE = Some len \<Longrightarrow> checked_add (fr_start (fa_ranges a ! i)) len \<noteq> None"
        by (auto simp: rust_arith)
      with alloc n Some show ?thesis
        by (auto simp: frame_allocate_contiguous_def Let_def split: option.splits)
    qed
  then show "n = 0 \<or> (\<forall>r \<in> set (free_runs a). fr_frames r < n)" by blast
qed

lemma fold_max_greatest:
  "fold max ns (n :: 'a::linorder) \<in> set (n # ns) \<and> (\<forall>m \<in> set (n # ns). m \<le> fold max ns n)"
proof (induction ns arbitrary: n)
  case (Cons m ns)
  from Cons [of "max m n"] show ?case by (auto simp: max_def split: if_splits intro: order_trans)
qed simp

lemma largest_free_frames_less_iff:
  "frame_largest_free_frames a < n \<longleftrightarrow> n \<noteq> 0 \<and> (\<forall>r \<in> set (free_runs a). fr_frames r < n)"
proof (cases "free_runs a")
  case Nil
  then show ?thesis
    by (simp add: frame_largest_free_frames_def free_runs_def [symmetric] word_gt_0)
next
  case (Cons r rs)
  note g = fold_max_greatest [where ns = "map fr_frames rs" and n = "fr_frames r"]
  from Cons have l: "frame_largest_free_frames a = fold max (map fr_frames rs) (fr_frames r)"
    by (simp add: frame_largest_free_frames_def free_runs_def [symmetric])
  show ?thesis
  proof
    assume "frame_largest_free_frames a < n"
    then show "n \<noteq> 0 \<and> (\<forall>r \<in> set (free_runs a). fr_frames r < n)"
      using g Cons by (auto simp: l intro: le_less_trans)
  next
    assume "n \<noteq> 0 \<and> (\<forall>r \<in> set (free_runs a). fr_frames r < n)"
    then show "frame_largest_free_frames a < n"
      using g Cons by (auto simp: l)
  qed
qed

section \<open>Release\<close>

lemma find_slot_spec:
  assumes "i \<le> fa_range_count a"
  shows "i \<le> find_slot a p i \<and> find_slot a p i \<le> fa_range_count a \<and>
    (\<forall>k. i \<le> k \<and> k < find_slot a p i \<longrightarrow> fr_start (fa_ranges a ! k) < p) \<and>
    (find_slot a p i < fa_range_count a \<longrightarrow> \<not> fr_start (fa_ranges a ! find_slot a p i) < p)"
  using assms
proof (induction a p i rule: find_slot.induct)
  case (1 a p i)
  show ?case
  proof (cases "i < fa_range_count a \<and> fr_start (fa_ranges a ! i) < p")
    case True
    then have eq: "find_slot a p i = find_slot a p (i + 1)" by (subst find_slot.simps) simp
    from 1 True have IH: "i + 1 \<le> find_slot a p (i + 1) \<and> find_slot a p (i + 1) \<le> fa_range_count a \<and>
      (\<forall>k. i + 1 \<le> k \<and> k < find_slot a p (i + 1) \<longrightarrow> fr_start (fa_ranges a ! k) < p) \<and>
      (find_slot a p (i + 1) < fa_range_count a \<longrightarrow> \<not> fr_start (fa_ranges a ! find_slot a p (i + 1)) < p)"
      by simp
    have "fr_start (fa_ranges a ! k) < p" if "i \<le> k" "k < find_slot a p (i + 1)" for k
      using that IH True by (cases "k = i") auto
    with IH show ?thesis unfolding eq by auto
  next
    case False
    then have "find_slot a p i = i" by (subst find_slot.simps) auto
    with False "1.prems" show ?thesis by auto
  qed
qed

lemma slot_split:
  assumes inv: "allocator_inv a" and j: "j = find_slot a p 0"
  shows "j \<le> fa_range_count a"
    and "\<forall>x \<in> set (take j (free_runs a)). unat (fr_start x) < unat p"
    and "\<forall>y \<in> set (drop j (free_runs a)). unat p \<le> unat (fr_start y)"
proof -
  have ok: "tables_ok a" "runs_ok (free_runs a)" using inv by (simp_all add: allocator_inv_def)
  note spec = find_slot_spec [of 0 a p, folded j, simplified]
  show jc: "j \<le> fa_range_count a" using spec by simp
  show "\<forall>x \<in> set (take j (free_runs a)). unat (fr_start x) < unat p"
    using spec ok by (auto simp: in_set_conv_nth length_free_runs nth_free_runs word_less_nat_alt)
  show "\<forall>y \<in> set (drop j (free_runs a)). unat p \<le> unat (fr_start y)"
  proof (cases "j < fa_range_count a")
    case True
    have h: "unat p \<le> unat (fr_start (fa_ranges a ! j))"
      using spec True by (simp add: word_less_nat_alt not_less)
    have d: "drop j (free_runs a) = fa_ranges a ! j # drop (Suc j) (free_runs a)"
      using True ok(1) by (simp add: Cons_nth_drop_Suc [symmetric] length_free_runs nth_free_runs)
    have "runs_ok (drop j (free_runs a))"
      using ok(2) append_take_drop_id [of j "free_runs a"] runs_ok_simps(3) by metis
    then have "run_end (fa_ranges a ! j) \<le> unat (fr_start y)" if "y \<in> set (drop (Suc j) (free_runs a))" for y
      using that unfolding d by simp
    then show ?thesis
      unfolding d using h run_ok_start_lt_end [OF free_run_ok [OF inv True]] by fastforce
  next
    case False
    then show ?thesis using ok(1) by (simp add: length_free_runs)
  qed
qed

lemma managed_check_iff:
  assumes inv: "allocator_inv a" and p: "4096 dvd unat p"
  shows "list_ex (\<lambda>r. p \<ge> fr_start r \<and> saturating_add p PAGE_SIZE \<le> fr_end r) (managed_runs a)
    \<longleftrightarrow> unat p \<in> managed_pages a"
proof -
  have "p \<ge> fr_start r \<and> saturating_add p PAGE_SIZE \<le> fr_end r \<longleftrightarrow> unat p \<in> run_pages r"
    if "r \<in> set (managed_runs a)" for r
  proof -
    have ok: "run_ok r" using inv that by (simp add: allocator_inv_def runs_ok_def list_all_iff)
    obtain k where k: "unat p = 4096 * k" using p by (auto elim: dvdE)
    obtain m where m: "run_end r = 4096 * m"
      using ok by (auto simp: run_ok_def run_end_def elim!: dvdE) (metis distrib_left)
    have e: "run_end r < 2 ^ 64" using ok by (simp add: run_ok_def)
    with m have "m < 2 ^ 52" by simp
    then have "run_end r + 1 < 2 ^ 64" using m by simp
    then have "saturating_add p PAGE_SIZE \<le> fr_end r \<longleftrightarrow> unat p + 4096 \<le> run_end r"
      by (auto simp: word_le_nat_alt unat_saturating_add unat_fr_end [OF ok])
    also have "\<dots> \<longleftrightarrow> unat p < run_end r" by (simp add: k m) linarith
    finally show ?thesis
      using p by (simp add: run_pages_def block_def run_end_def word_le_nat_alt)
  qed
  then show ?thesis
    by (auto simp: list_ex_iff managed_pages_def pages_def)
qed

lemma managed_page_bound:
  assumes "allocator_inv a" and "q \<in> managed_pages a"
  shows "q + 4096 < 2 ^ 64"
proof -
  obtain r where r: "r \<in> set (managed_runs a)" "4096 dvd q" "q < run_end r"
    using assms(2) by (auto simp: managed_pages_def pages_def run_pages_def block_def run_end_def)
  with assms(1) have e: "4096 dvd run_end r" "run_end r < 2 ^ 64"
    by (auto simp: allocator_inv_def runs_ok_def list_all_iff run_ok_def run_end_def)
  obtain k m where "q = 4096 * k" "run_end r = 4096 * m"
    using r(2) e(1) by (auto elim!: dvdE)
  then have "q + 4096 \<le> run_end r" using r(3) by simp
  with e(2) show ?thesis by simp
qed

text \<open>The slot test of \<open>release\<close>: the page is free exactly when one of its two checks fails.\<close>

lemma slot_check_iff:
  assumes inv: "allocator_inv a" and p: "4096 dvd unat p" and fits: "unat p + 4096 < 2 ^ 64"
    and j: "j = find_slot a p 0"
  shows "(j > 0 \<and> fr_end (fa_ranges a ! (j - 1)) > p) \<or>
      (j < fa_range_count a \<and> saturating_add p PAGE_SIZE > fr_start (fa_ranges a ! j))
    \<longleftrightarrow> unat p \<in> free_pages a"
proof -
  let ?xs = "take j (free_runs a)" and ?ys = "drop j (free_runs a)"
  note split = slot_split [OF inv j]
  have ok: "tables_ok a" "runs_ok (?xs @ ?ys)" using inv by (simp_all add: allocator_inv_def)
  have len: "length (free_runs a) = fa_range_count a" using ok(1) by (simp add: length_free_runs)
  have x: "(?xs \<noteq> [] \<and> unat p < run_end (last ?xs)) \<longleftrightarrow> j > 0 \<and> fr_end (fa_ranges a ! (j - 1)) > p"
  proof (cases "j = 0")
    case False
    then obtain i where i: "j = Suc i" by (cases j) auto
    with split(1) have "last ?xs = fa_ranges a ! (j - 1)" "run_ok (fa_ranges a ! (j - 1))"
      by (simp_all add: take_Suc_conv_app_nth len nth_free_runs free_run_ok [OF inv])
    with False split(1) len show ?thesis
      by (auto simp: word_less_nat_alt unat_fr_end)
  qed simp
  have y: "(?ys \<noteq> [] \<and> unat (fr_start (hd ?ys)) < unat p + 4096) \<longleftrightarrow>
      j < fa_range_count a \<and> saturating_add p PAGE_SIZE > fr_start (fa_ranges a ! j)"
    using fits by (auto simp: hd_drop_conv_nth len nth_free_runs word_less_nat_alt unat_saturating_add)
  show ?thesis
    using slot_free_iff [OF ok(2) p split(2,3)] x y by (simp add: free_pages_def)
qed

lemma free_runs_insert:
  assumes "tables_ok a" and "j \<le> fa_range_count a" and "fa_range_count a < MAX_FREE_RANGES"
  shows "free_runs (a\<lparr>fa_ranges := (shift_up (fa_ranges a) j (fa_range_count a))[j := v],
      fa_range_count := fa_range_count a + 1\<rparr>) = take j (free_runs a) @ v # drop j (free_runs a)"
  using assms take_shift_up [of "fa_range_count a" "fa_ranges a" j v]
  by (simp add: free_runs_def tables_ok_def min_def)

text \<open>The outcome of \<open>release_insert\<close> as a list of runs around the slot.\<close>

definition release_runs :: "FreeRange list \<Rightarrow> u64 \<Rightarrow> FreeRange list \<Rightarrow> FreeRange list" where
  "release_runs xs p ys =
     (let page = \<lparr>fr_start = p, fr_frames = 1\<rparr>
      in if xs \<noteq> [] \<and> run_end (last xs) = unat p
         then (let x = joined (last xs) page
               in if ys \<noteq> [] \<and> run_end x = unat (fr_start (hd ys))
                  then butlast xs @ joined x (hd ys) # tl ys else butlast xs @ x # ys)
         else if ys \<noteq> [] \<and> unat p + 4096 = unat (fr_start (hd ys))
         then xs @ joined page (hd ys) # tl ys
         else xs @ page # ys)"

lemma release_runs_facts:
  assumes "runs_ok (xs @ ys)" and "4096 dvd unat p" and "unat p + 4096 < 2 ^ 64"
    and "\<forall>x \<in> set xs. run_end x \<le> unat p" and "\<forall>y \<in> set ys. unat p + 4096 \<le> unat (fr_start y)"
  shows "runs_ok (release_runs xs p ys)" and "pages (release_runs xs p ys) = insert (unat p) (pages (xs @ ys))"
    and "frames_sum (release_runs xs p ys) = frames_sum (xs @ ys) + 1"
proof -
  let ?page = "\<lparr>fr_start = p, fr_frames = 1 :: u64\<rparr>"
  note page = page_inserted [OF assms]
  have pe: "run_end ?page = unat p + 4096" by (simp add: run_end_def)
  define good where "good rs \<longleftrightarrow> runs_ok rs \<and> pages rs = insert (unat p) (pages (xs @ ys)) \<and>
    frames_sum rs = frames_sum (xs @ ys) + 1" for rs
  have base: "good (xs @ ?page # ys)" using page by (simp add: good_def del: runs_ok_simps pages_simps frames_sum_simps)
  have join: "good (us @ joined r s # vs)" if "good (us @ r # s # vs)" "run_end r = unat (fr_start s)" for us r s vs
    using that runs_joined [of us r s vs] by (simp add: good_def del: runs_ok_simps pages_simps frames_sum_simps)
  have "good (release_runs xs p ys)"
  proof (cases "xs \<noteq> [] \<and> run_end (last xs) = unat p")
    case True
    then obtain us x where xs: "xs = us @ [x]" "run_end x = unat p" by (cases xs rule: rev_cases) auto
    from base xs have one: "good (us @ joined x ?page # ys)" by (intro join) simp_all
    show ?thesis
    proof (cases "ys \<noteq> [] \<and> run_end (joined x ?page) = unat (fr_start (hd ys))")
      case t: True
      then obtain y vs where "ys = y # vs" by (cases ys) auto
      with t one True xs show ?thesis by (simp add: release_runs_def Let_def join)
    next
      case False
      with one True xs show ?thesis by (auto simp: release_runs_def Let_def)
    qed
  next
    case no_x: False
    show ?thesis
    proof (cases "ys \<noteq> [] \<and> unat p + 4096 = unat (fr_start (hd ys))")
      case True
      then obtain y vs where "ys = y # vs" by (cases ys) auto
      with True base no_x pe show ?thesis by (auto simp: release_runs_def Let_def intro: join)
    next
      case False
      show ?thesis
        unfolding release_runs_def Let_def if_not_P [OF no_x] if_not_P [OF False] by (rule base)
    qed
  qed
  then show "runs_ok (release_runs xs p ys)" "pages (release_runs xs p ys) = insert (unat p) (pages (xs @ ys))"
    "frames_sum (release_runs xs p ys) = frames_sum (xs @ ys) + 1"
    by (simp_all add: good_def)
qed

definition touches_left :: "FreeRange list \<Rightarrow> nat \<Rightarrow> bool" where
  "touches_left xs p \<longleftrightarrow> xs \<noteq> [] \<and> run_end (last xs) = p"

definition touches_right :: "FreeRange list \<Rightarrow> nat \<Rightarrow> bool" where
  "touches_right ys p \<longleftrightarrow> ys \<noteq> [] \<and> p + 4096 = unat (fr_start (hd ys))"

lemma touches_right_iff:
  assumes "tables_ok a" and "unat p + 4096 < 2 ^ 64"
  shows "touches_right (drop j (free_runs a)) (unat p) \<longleftrightarrow>
    j < fa_range_count a \<and> saturating_add p PAGE_SIZE = fr_start (fa_ranges a ! j)"
  using assms
  by (auto simp: touches_right_def hd_drop_conv_nth length_free_runs nth_free_runs word_unat_eq_iff
      unat_saturating_add)

lemma touches_left_iff:
  assumes "tables_ok a" and "j \<le> fa_range_count a" and "runs_ok (free_runs a)"
  shows "touches_left (take j (free_runs a)) (unat p) \<longleftrightarrow> j > 0 \<and> fr_end (fa_ranges a ! (j - 1)) = p"
proof (cases j)
  case (Suc i)
  with assms have last: "last (take j (free_runs a)) = fa_ranges a ! i" "fa_ranges a ! i \<in> set (free_runs a)"
    using nth_mem [of i "free_runs a"]
    by (auto simp: take_Suc_conv_app_nth length_free_runs nth_free_runs)
  with assms(3) have "run_ok (fa_ranges a ! i)" by (simp add: runs_ok_def list_all_iff)
  with Suc assms last show ?thesis
    by (auto simp: touches_left_def word_unat_eq_iff unat_fr_end length_free_runs)
qed (simp add: touches_left_def)

text \<open>The released page extends the run on its left, which may then join the run on its right.\<close>

lemma release_insert_left:
  assumes ok: "tables_ok a" and j: "j \<le> fa_range_count a" and runs: "runs_ok (free_runs a)"
    and p: "4096 dvd unat p" and fits: "unat p + 4096 < 2 ^ 64"
    and gap: "\<forall>x \<in> set (take j (free_runs a)). run_end x \<le> unat p"
      "\<forall>y \<in> set (drop j (free_runs a)). unat p + 4096 \<le> unat (fr_start y)"
    and left: "touches_left (take j (free_runs a)) (unat p)"
  obtains a' where "release_insert a p j = Inr a'" "tables_ok a'"
    "free_runs a' = release_runs (take j (free_runs a)) p (drop j (free_runs a))"
    "managed_runs a' = managed_runs a" "fa_free_frames a' = fa_free_frames a"
    "fa_total_frames a' = fa_total_frames a"
proof -
  let ?xs = "take j (free_runs a)" and ?ys = "drop j (free_runs a)"
  let ?page = "\<lparr>fr_start = p, fr_frames = 1 :: u64\<rparr>"
  let ?rs = "fa_ranges a" and ?n = "fa_range_count a"
  have len: "length (free_runs a) = ?n" using ok by (rule length_free_runs)
  obtain i where i: "j = Suc i" using left by (cases j) (auto simp: touches_left_def)
  have li: "i < ?n" using i j by simp
  have lx: "?xs = take i (free_runs a) @ [?rs ! i]"
    using li by (simp add: i take_Suc_conv_app_nth len nth_free_runs)
  let ?prev = "(?rs ! i)\<lparr>fr_frames := fr_frames (?rs ! i) + 1\<rparr>"
  let ?w = "?prev\<lparr>fr_frames := fr_frames ?prev + fr_frames (?rs ! j)\<rparr>"
  let ?a1 = "a\<lparr>fa_ranges := ?rs[i := ?prev]\<rparr>" and ?a2 = "a\<lparr>fa_ranges := ?rs[i := ?w]\<rparr>"
  have jx: "joined (last ?xs) ?page = ?prev" by (simp add: lx joined_def)
  have "runs_ok (take i (free_runs a) @ ?rs ! i # ?page # ?ys)" "run_end (?rs ! i) = unat p"
    using page_inserted(1) [of ?xs ?ys, unfolded append_take_drop_id, OF runs p fits gap] left
    by (simp_all add: lx touches_left_def del: runs_ok_simps)
  from runs_joined(1,4) [OF this(1)] this(2)
  have ok2: "run_ok ?prev" "run_end ?prev = unat p + 4096"
    using jx by (simp_all add: lx) (simp add: run_end_def)
  have t: "touches_right ?ys (unat p) \<longleftrightarrow> j < ?n \<and> fr_end ?prev = fr_start (?rs ! j)"
    using ok2 by (auto simp: touches_right_def hd_drop_conv_nth len nth_free_runs word_unat_eq_iff unat_fr_end)
  have ins: "release_insert a p j = (if touches_right ?ys (unat p) then Inr (remove_range ?a2 j) else Inr ?a1)"
    using left unfolding t touches_left_iff [OF ok j runs] by (simp add: release_insert_def Let_def i)
  have rel: "release_runs ?xs p ?ys = (if touches_right ?ys (unat p)
      then take i (free_runs a) @ joined ?prev (hd ?ys) # tl ?ys else take i (free_runs a) @ ?prev # ?ys)"
    using left jx ok2 by (auto simp: release_runs_def Let_def touches_left_def touches_right_def lx)
  show thesis
  proof (cases "touches_right ?ys (unat p)")
    case False
    with ins rel free_runs_update [OF ok li, of ?prev] ok i show thesis
      by (intro that [of ?a1]) (auto simp: managed_runs_def tables_ok_def)
  next
    case True
    then have jn: "j < ?n" using t by simp
    have ok3: "tables_ok ?a2" "j < fa_range_count ?a2" using ok jn by (simp_all add: tables_ok_def)
    have "joined ?prev (hd ?ys) = ?w"
      using jn by (simp add: joined_def hd_drop_conv_nth len nth_free_runs)
    moreover have "take j (free_runs ?a2) = take i (free_runs a) @ [?w]"
      "drop (Suc j) (free_runs ?a2) = tl ?ys"
      using free_runs_update [OF ok li, of ?w] li by (simp_all add: i len drop_Suc tl_drop)
    ultimately show thesis
      using True ins rel free_runs_remove [OF ok3]
      by (intro that [of "remove_range ?a2 j"]) (auto simp: managed_runs_def)
  qed
qed

text \<open>\<open>release_insert\<close> in full: it fails only when the table is full and the page touches no run.\<close>

lemma release_insert_facts:
  assumes ok: "tables_ok a" and j: "j \<le> fa_range_count a" and runs: "runs_ok (free_runs a)"
    and p: "4096 dvd unat p" and fits: "unat p + 4096 < 2 ^ 64"
    and gap: "\<forall>x \<in> set (take j (free_runs a)). run_end x \<le> unat p"
      "\<forall>y \<in> set (drop j (free_runs a)). unat p + 4096 \<le> unat (fr_start y)"
    and blocked: "blocked \<longleftrightarrow> fa_range_count a = MAX_FREE_RANGES \<and>
      \<not> touches_left (take j (free_runs a)) (unat p) \<and> \<not> touches_right (drop j (free_runs a)) (unat p)"
  obtains (full) "blocked" "release_insert a p j = Inl FreeRangeStorageFull"
  | (released) a' where "\<not> blocked" "release_insert a p j = Inr a'" "tables_ok a'"
    "free_runs a' = release_runs (take j (free_runs a)) p (drop j (free_runs a))"
    "managed_runs a' = managed_runs a" "fa_free_frames a' = fa_free_frames a"
    "fa_total_frames a' = fa_total_frames a"
proof -
  let ?xs = "take j (free_runs a)" and ?ys = "drop j (free_runs a)"
  let ?page = "\<lparr>fr_start = p, fr_frames = 1 :: u64\<rparr>"
  let ?rs = "fa_ranges a" and ?n = "fa_range_count a"
  note r = touches_right_iff [OF ok fits, of j] and l = touches_left_iff [OF ok j runs, of p]
  consider (left) "touches_left ?xs (unat p)" | (right) "\<not> touches_left ?xs (unat p)" "touches_right ?ys (unat p)"
    | (none) "\<not> touches_left ?xs (unat p)" "\<not> touches_right ?ys (unat p)"
    by blast
  then show thesis
  proof cases
    case left
    obtain a' where f: "release_insert a p j = Inr a'" "tables_ok a'"
      "free_runs a' = release_runs ?xs p ?ys" "managed_runs a' = managed_runs a"
      "fa_free_frames a' = fa_free_frames a" "fa_total_frames a' = fa_total_frames a"
      by (rule release_insert_left [OF ok j runs p fits gap left])
    show thesis
      by (rule released [OF _ f]) (simp add: blocked left)
  next
    case right
    let ?v = "\<lparr>fr_start = p, fr_frames = fr_frames (?rs ! j) + 1\<rparr>"
    let ?a = "a\<lparr>fa_ranges := ?rs[j := ?v]\<rparr>"
    from right have jn: "j < ?n" unfolding r by simp
    have "release_insert a p j = Inr ?a"
      using right unfolding l r by (auto simp: release_insert_def Let_def)
    moreover have "release_runs ?xs p ?ys = ?xs @ joined ?page (hd ?ys) # tl ?ys"
      using right unfolding touches_left_def touches_right_def
      by (simp only: release_runs_def Let_def if_False if_True simp_thms)
    moreover have "joined ?page (hd ?ys) = ?v"
      using jn ok by (simp add: joined_def hd_drop_conv_nth length_free_runs nth_free_runs add.commute)
    moreover have "tl ?ys = drop (Suc j) (free_runs a)" by (simp add: drop_Suc tl_drop)
    ultimately show thesis
      using free_runs_update [OF ok jn, of ?v] right(2) ok blocked
      by (intro released [of ?a]) (auto simp: tables_ok_def managed_runs_def)
  next
    case none
    have rel: "release_runs ?xs p ?ys = ?xs @ ?page # ?ys"
      using none unfolding touches_left_def touches_right_def by (simp only: release_runs_def Let_def if_False)
    show thesis
    proof (cases "?n = MAX_FREE_RANGES")
      case True
      with none show thesis
        using blocked True by (intro full) (simp_all add: l r release_insert_def Let_def)
    next
      case False
      with ok have lt: "?n < MAX_FREE_RANGES" by (simp add: tables_ok_def)
      let ?a = "a\<lparr>fa_ranges := (shift_up ?rs j ?n)[j := ?page], fa_range_count := ?n + 1\<rparr>"
      have "release_insert a p j = Inr ?a"
        using none False unfolding l r by (simp only: release_insert_def Let_def if_False)
      then show thesis
        using free_runs_insert [OF ok j lt, of ?page] rel lt ok blocked False
        by (intro released [of ?a]) (auto simp: tables_ok_def managed_runs_def)
    qed
  qed
qed

text \<open>A page beside the free pages, and the neighbour tests of the slot.\<close>

definition beside_free :: "FrameAllocator \<Rightarrow> nat \<Rightarrow> bool" where
  "beside_free a p \<longleftrightarrow> (\<exists>q \<in> free_pages a. q + 4096 = p \<or> p + 4096 = q)"

lemma touches_beside:
  assumes runs: "runs_ok (xs @ ys)" and p: "4096 dvd p"
    and gap: "\<forall>x \<in> set xs. run_end x \<le> p" "\<forall>y \<in> set ys. p + 4096 \<le> unat (fr_start y)"
  shows "touches_left xs p \<or> touches_right ys p \<longleftrightarrow> (\<exists>q \<in> pages (xs @ ys). q + 4096 = p \<or> p + 4096 = q)"
proof
  have last_page: "run_end r - 4096 \<in> run_pages r" "run_end r - 4096 + 4096 = run_end r" if "run_ok r" for r
  proof -
    have "4096 dvd run_end r" "unat (fr_start r) + 4096 \<le> run_end r"
      using that by (simp_all add: run_ok_def run_end_def) (simp add: unat_gt_0 Suc_leI)
    then show "run_end r - 4096 \<in> run_pages r" "run_end r - 4096 + 4096 = run_end r"
      by (simp_all add: run_pages_def block_def run_end_def dvd_diff_nat)
  qed
  have first_page: "unat (fr_start r) \<in> run_pages r" if "run_ok r" for r
    using that run_ok_start_lt_end [OF that] by (simp add: run_pages_def block_def run_end_def run_ok_def)
  have ok: "run_ok r" if "r \<in> set (xs @ ys)" for r
    using runs that by (simp only: runs_ok_def list_all_iff)
  assume "touches_left xs p \<or> touches_right ys p"
  then show "\<exists>q \<in> pages (xs @ ys). q + 4096 = p \<or> p + 4096 = q"
  proof
    assume "touches_left xs p"
    then have "last xs \<in> set (xs @ ys)" "run_end (last xs) = p" by (simp_all add: touches_left_def)
    with last_page [OF ok] show ?thesis unfolding pages_def by fastforce
  next
    assume "touches_right ys p"
    then have "hd ys \<in> set (xs @ ys)" "unat (fr_start (hd ys)) = p + 4096" by (simp_all add: touches_right_def)
    with first_page [OF ok] show ?thesis unfolding pages_def by fastforce
  qed
next
  assume "\<exists>q \<in> pages (xs @ ys). q + 4096 = p \<or> p + 4096 = q"
  then obtain q r where r: "r \<in> set xs \<union> set ys" "q \<in> run_pages r" "q + 4096 = p \<or> p + 4096 = q"
    unfolding pages_def by auto
  then have q: "unat (fr_start r) \<le> q" "q < run_end r" "4096 dvd q"
    by (simp_all add: run_pages_def block_def run_end_def)
  have srt: "sorted_wrt (\<lambda>r s. run_end r \<le> unat (fr_start s)) (xs @ ys)" "list_all run_ok (xs @ ys)"
    using runs by (simp_all only: runs_ok_def)
  from r(1) show "touches_left xs p \<or> touches_right ys p"
  proof
    assume rx: "r \<in> set xs"
    then have "run_end r \<le> p" using gap(1) by simp
    with r(3) q have qp: "q + 4096 = p" by linarith
    then obtain zs x where xs: "xs = zs @ [x]" using rx by (cases xs rule: rev_cases) auto
    have xe: "run_end x \<le> p" "run_ok x" using gap(1) srt(2) xs by simp_all
    have rle: "run_end r \<le> run_end x"
      using rx xs srt(1) run_ok_start_lt_end [OF xe(2)] by (fastforce simp: sorted_wrt_append)
    have "4096 dvd run_end x" using xe(2) by (simp add: run_ok_def run_end_def)
    moreover have "q < run_end x" using q(2) rle by simp
    ultimately have "q + 4096 \<le> run_end x"
      using same_page [OF q(3)] by (metis less_imp_le not_le order_less_irrefl)
    with qp xe(1) xs show ?thesis by (simp add: touches_left_def)
  next
    assume ry: "r \<in> set ys"
    then have "p + 4096 \<le> q" using gap(2) q(1) by fastforce
    with r(3) have qp: "q = p + 4096" by linarith
    obtain y zs where ys: "ys = y # zs" using ry by (cases ys) auto
    have "unat (fr_start y) \<le> unat (fr_start r)"
      using ry ys srt run_ok_start_lt_end [of y] by (fastforce simp: sorted_wrt_append)
    with q(1) qp have "unat (fr_start y) \<le> p + 4096" by simp
    with gap(2) ys show ?thesis by (simp add: touches_right_def)
  qed
qed

lemma page_gap:
  assumes inv: "allocator_inv a" and p: "4096 dvd unat p" and fits: "unat p + 4096 < 2 ^ 64"
    and j: "j = find_slot a p 0" and notfree: "unat p \<notin> free_pages a"
  shows "\<forall>x \<in> set (take j (free_runs a)). run_end x \<le> unat p"
    and "\<forall>y \<in> set (drop j (free_runs a)). unat p + 4096 \<le> unat (fr_start y)"
proof -
  have mem: "r \<in> set (free_runs a)" if "r \<in> set (take j (free_runs a)) \<or> r \<in> set (drop j (free_runs a))" for r
    using that by (meson in_set_dropD in_set_takeD)
  have notin: "unat p \<notin> run_pages r" if "r \<in> set (free_runs a)" for r
    using notfree that by (auto simp: free_pages_def pages_def)
  have ok: "run_ok r" if "r \<in> set (free_runs a)" for r
    using inv that by (simp add: allocator_inv_def runs_ok_def list_all_iff)
  note split = slot_split [OF inv j]
  show "\<forall>x \<in> set (take j (free_runs a)). run_end x \<le> unat p"
    using split(2) notin mem p
    by (fastforce simp: run_pages_def block_def run_end_def not_less)
  show "\<forall>y \<in> set (drop j (free_runs a)). unat p + 4096 \<le> unat (fr_start y)"
  proof
    fix y assume y: "y \<in> set (drop j (free_runs a))"
    have "4096 dvd unat (fr_start y)" "unat p \<noteq> unat (fr_start y)"
      using ok [OF mem, of y] notin [OF mem, of y] y run_ok_start_lt_end [OF ok [OF mem, of y]]
      by (auto simp: run_ok_def run_pages_def block_def run_end_def)
    with same_page [OF p] split(3) y show "unat p + 4096 \<le> unat (fr_start y)"
      by (metis not_le)
  qed
qed

text \<open>The whole of \<open>release\<close>.\<close>

lemma frame_release_cases:
  assumes inv: "allocator_inv a" and p: "p = frame_address f"
  obtains (invalid) "frame_release a f = (Inl InvalidAddress, a)"
      "\<not> 4096 dvd unat p \<or> unat p \<notin> managed_pages a \<or> unat p \<in> free_pages a"
  | (full) "frame_release a f = (Inl FreeRangeStorageFull, a)"
      "unat p \<in> managed_pages a - free_pages a" "fa_range_count a = MAX_FREE_RANGES" "\<not> beside_free a (unat p)"
  | (released) a' where "frame_release a f = (Inr (), a')" "unat p \<in> managed_pages a - free_pages a"
      "fa_range_count a = MAX_FREE_RANGES \<longrightarrow> beside_free a (unat p)"
      "allocator_inv a'" "free_pages a' = insert (unat p) (free_pages a)"
      "managed_runs a' = managed_runs a" "fa_total_frames a' = fa_total_frames a"
      "unat (fa_free_frames a') = unat (fa_free_frames a) + 1"
proof -
  define j where "j = find_slot a p 0"
  have aligned: "is_multiple_of p PAGE_SIZE \<longleftrightarrow> 4096 dvd unat p" by (simp add: rust_arith)
  consider (bad) "\<not> 4096 dvd unat p \<or> unat p \<notin> managed_pages a"
    | (isfree) "4096 dvd unat p" "unat p \<in> managed_pages a" "unat p \<in> free_pages a"
    | (ok) "4096 dvd unat p" "unat p \<in> managed_pages a" "unat p \<notin> free_pages a" by blast
  then show thesis
  proof cases
    case bad
    then have "frame_release a f = (Inl InvalidAddress, a)"
      using aligned managed_check_iff [OF inv, of p]
      by (auto simp: frame_release_def Let_def p [symmetric] managed_runs_def [symmetric])
    with bad show thesis by (intro invalid) auto
  next
    case isfree
    with slot_check_iff [OF inv isfree(1) managed_page_bound [OF inv isfree(2)] j_def]
    have "frame_release a f = (Inl InvalidAddress, a)"
      by (auto simp: frame_release_def Let_def p [symmetric] j_def [symmetric])
    with isfree show thesis by (intro invalid) auto
  next
    case ok
    note fits = managed_page_bound [OF inv ok(2)]
    note gap = page_gap [OF inv ok(1) fits j_def ok(3)]
    note tables = inv [unfolded allocator_inv_def]
    have eq: "frame_release a f = (case release_insert a p j of Inl e \<Rightarrow> (Inl e, a)
      | Inr a' \<Rightarrow> (Inr (), a'\<lparr>fa_free_frames := saturating_add (fa_free_frames a') 1\<rparr>))"
      using ok aligned managed_check_iff [OF inv ok(1)] slot_check_iff [OF inv ok(1) fits j_def]
      unfolding frame_release_def Let_def p [symmetric] j_def [symmetric] managed_runs_def [symmetric]
      by (simp only: not_True_eq_False if_False simp_thms de_Morgan_disj)
    have beside: "touches_left (take j (free_runs a)) (unat p) \<or> touches_right (drop j (free_runs a)) (unat p)
      \<longleftrightarrow> beside_free a (unat p)"
      using touches_beside [of "take j (free_runs a)" "drop j (free_runs a)", unfolded append_take_drop_id, OF _ ok(1) gap] tables
      by (simp add: beside_free_def free_pages_def)
    show thesis
    proof (rule release_insert_facts [OF _ slot_split(1) [OF inv j_def] _ ok(1) fits gap refl])
      show "tables_ok a" "runs_ok (free_runs a)" using tables by simp_all
    next
      assume "fa_range_count a = MAX_FREE_RANGES \<and> \<not> touches_left (take j (free_runs a)) (unat p) \<and>
          \<not> touches_right (drop j (free_runs a)) (unat p)"
        and "release_insert a p j = Inl FreeRangeStorageFull"
      with eq ok beside show thesis by (intro full) auto
    next
      fix a'
      assume a': "\<not> (fa_range_count a = MAX_FREE_RANGES \<and> \<not> touches_left (take j (free_runs a)) (unat p) \<and>
          \<not> touches_right (drop j (free_runs a)) (unat p))" "release_insert a p j = Inr a'" "tables_ok a'"
        "free_runs a' = release_runs (take j (free_runs a)) p (drop j (free_runs a))"
        "managed_runs a' = managed_runs a" "fa_free_frames a' = fa_free_frames a"
        "fa_total_frames a' = fa_total_frames a"
      let ?a = "a'\<lparr>fa_free_frames := saturating_add (fa_free_frames a') 1\<rparr>"
      have runs: "free_runs ?a = free_runs a'" "managed_runs ?a = managed_runs a"
        by (simp_all add: free_runs_def managed_runs_def a'(5) [unfolded managed_runs_def])
      note new = release_runs_facts [of "take j (free_runs a)" "drop j (free_runs a)",
          unfolded append_take_drop_id, OF _ ok(1) fits gap, folded a'(4)]
      have new: "runs_ok (free_runs a')" "pages (free_runs a') = insert (unat p) (pages (free_runs a))"
        "frames_sum (free_runs a') = frames_sum (free_runs a) + 1"
        using new tables by simp_all
      have cnt: "unat (fa_free_frames ?a) = unat (fa_free_frames a) + 1"
        using frames_sum_bound [OF new(1)] new(3) tables by (simp add: unat_saturating_add a'(6))
      have pg: "free_pages ?a = insert (unat p) (free_pages a)" by (simp add: free_pages_def runs new(2))
      have inv': "allocator_inv ?a"
        using tables a'(3,7) new cnt pg ok(2) runs
        by (simp add: allocator_inv_def tables_ok_def managed_pages_def)
      show thesis
        using eq a'(1,2,7) ok beside inv' pg runs cnt by (intro released [of ?a]) auto
    qed
  qed
qed

section \<open>Building the allocator\<close>

definition usable_runs :: "MemoryRange list \<Rightarrow> FreeRange list" where
  "usable_runs rs =
     map (\<lambda>r. \<lparr>fr_start = mr_start r, fr_frames = mr_length r div PAGE_SIZE\<rparr>)
       (filter (\<lambda>r. mr_kind r = Usable \<and> mr_length r div PAGE_SIZE \<noteq> 0) rs)"

definition fresh :: "FrameAllocator \<Rightarrow> bool" where
  "fresh a \<longleftrightarrow> tables_ok a \<and> fa_managed a = fa_ranges a \<and> fa_managed_count a = fa_range_count a \<and>
     unat (fa_free_frames a) = min (frames_sum (free_runs a)) (2 ^ 64 - 1) \<and>
     fa_total_frames a = fa_free_frames a"

lemma allocator_add_fresh:
  assumes "fresh a"
  shows "fresh (allocator_add r a)"
    and "free_runs (allocator_add r a) = take MAX_FREE_RANGES (free_runs a @ usable_runs [r])"
proof -
  have ok: "tables_ok a" using assms by (simp add: fresh_def)
  have len: "length (free_runs a) = fa_range_count a" "fa_range_count a \<le> MAX_FREE_RANGES"
    using ok by (simp_all add: length_free_runs tables_ok_def)
  have "fresh (allocator_add r a) \<and>
    free_runs (allocator_add r a) = take MAX_FREE_RANGES (free_runs a @ usable_runs [r])"
  proof (cases "mr_kind r \<noteq> Usable \<or> fa_range_count a = MAX_FREE_RANGES \<or> mr_length r div PAGE_SIZE = 0")
    case True
    then have "allocator_add r a = a"
      using assms by (auto simp: allocator_add_def fresh_def Let_def)
    with True assms len show ?thesis by (auto simp: usable_runs_def)
  next
    case False
    let ?run = "\<lparr>fr_start = mr_start r, fr_frames = mr_length r div PAGE_SIZE\<rparr>"
    let ?a = "allocator_add r a"
    have lt: "fa_range_count a < length (fa_ranges a)" "Suc (fa_range_count a) \<le> MAX_FREE_RANGES"
      using False ok by (auto simp: tables_ok_def)
    have a: "fa_ranges ?a = (fa_ranges a)[fa_range_count a := ?run]"
      "fa_range_count ?a = Suc (fa_range_count a)" "fa_managed ?a = fa_ranges ?a"
      "fa_managed_count ?a = fa_range_count ?a" "fa_total_frames ?a = fa_free_frames ?a"
      "fa_free_frames ?a = saturating_add (fa_free_frames a) (mr_length r div PAGE_SIZE)"
      using False assms by (simp_all add: allocator_add_def fresh_def Let_def)
    have runs: "free_runs ?a = free_runs a @ [?run]"
      using lt by (simp add: free_runs_def a take_Suc_update_end)
    have "fresh ?a"
      using assms lt runs a
      by (auto simp: fresh_def tables_ok_def unat_saturating_add)
    with runs False len lt show ?thesis by (simp add: usable_runs_def)
  qed
  then show "fresh (allocator_add r a)"
    and "free_runs (allocator_add r a) = take MAX_FREE_RANGES (free_runs a @ usable_runs [r])" by simp_all
qed

lemma allocator_fold_fresh:
  "fresh a \<Longrightarrow> fresh (fold allocator_add rs a) \<and>
     free_runs (fold allocator_add rs a) = take MAX_FREE_RANGES (free_runs a @ usable_runs rs)"
proof (induction rs arbitrary: a)
  case Nil
  then show ?case by (simp add: fresh_def tables_ok_def length_free_runs usable_runs_def)
next
  case (Cons r rs)
  have split: "usable_runs (r # rs) = usable_runs [r] @ usable_runs rs" by (simp add: usable_runs_def)
  have "take MAX_FREE_RANGES (take MAX_FREE_RANGES us @ vs) = take MAX_FREE_RANGES (us @ vs)"
    for us vs :: "FreeRange list" by (auto simp: min_def)
  with Cons.IH [OF allocator_add_fresh(1) [OF Cons.prems, of r]] allocator_add_fresh(2) [OF Cons.prems, of r]
  show ?case unfolding split fold_simps by (simp only: append_assoc)
qed

lemma allocator_new_fresh:
  "fresh (allocator_new rs)" "free_runs (allocator_new rs) = take MAX_FREE_RANGES (usable_runs rs)"
proof -
  have "fresh empty_allocator" "free_runs empty_allocator = []"
    by (simp_all add: fresh_def empty_allocator_def tables_ok_def free_runs_def)
  with allocator_fold_fresh [of empty_allocator rs]
  show "fresh (allocator_new rs)" "free_runs (allocator_new rs) = take MAX_FREE_RANGES (usable_runs rs)"
    by (simp_all add: allocator_new_def)
qed

lemma usable_runs_ok:
  assumes "\<forall>r \<in> set rs. mr_valid r" and "ranges_sorted (usable_ranges rs)"
    and "\<forall>r \<in> set (usable_ranges rs). 4096 dvd unat (mr_start r)"
  shows "runs_ok (usable_runs rs)"
proof -
  let ?P = "\<lambda>r. mr_kind r = Usable \<and> mr_length r div PAGE_SIZE \<noteq> 0"
  let ?f = "\<lambda>r. \<lparr>fr_start = mr_start r, fr_frames = mr_length r div PAGE_SIZE\<rparr>"
  have le: "run_end (?f r) \<le> unat (mr_end r)" if "mr_valid r" for r
    using that by (simp add: run_end_def unat_mr_end unat_div)
  have ok: "run_ok (?f r)" if "r \<in> set (filter ?P rs)" for r
  proof -
    have "mr_valid r" "4096 dvd unat (mr_start r)" "mr_length r div PAGE_SIZE \<noteq> 0"
      using that assms by (auto simp: usable_ranges_def)
    moreover from this le [of r] unat_bound [of "mr_end r"] have "run_end (?f r) < 2 ^ 64" by simp
    ultimately show ?thesis by (simp add: run_ok_def)
  qed
  have "sorted_wrt (\<lambda>a b. mr_end a \<le> mr_start b) (filter ?P rs)"
    using assms(2) sorted_wrt_filter [of _ "usable_ranges rs" "\<lambda>r. mr_length r div PAGE_SIZE \<noteq> 0"]
    by (simp add: ranges_sorted_def usable_ranges_def conj_commute)
  then have "sorted_wrt (\<lambda>a b. run_end (?f a) \<le> unat (fr_start (?f b))) (filter ?P rs)"
  proof (rule sorted_wrt_mono_rel [rotated])
    fix a b assume "a \<in> set (filter ?P rs)" "mr_end a \<le> mr_start b"
    with le [of a] assms(1) show "run_end (?f a) \<le> unat (fr_start (?f b))"
      by (force simp: word_le_nat_alt)
  qed
  then have "sorted_wrt (\<lambda>a b. run_end a \<le> unat (fr_start b)) (usable_runs rs)"
    by (simp add: usable_runs_def sorted_wrt_map)
  with ok show ?thesis
    unfolding runs_ok_def by (auto simp: usable_runs_def list_all_iff)
qed

lemma pages_usable_runs:
  assumes "\<forall>r \<in> set rs. mr_valid r" and "\<forall>r \<in> set (usable_ranges rs). 4096 dvd unat (mr_start r)"
  shows "pages (usable_runs rs) =
    {q. 4096 dvd q \<and> (\<exists>r \<in> set (usable_ranges rs). unat (mr_start r) \<le> q \<and> q + 4096 \<le> unat (mr_end r))}"
proof -
  have iff: "q \<in> run_pages \<lparr>fr_start = mr_start r, fr_frames = mr_length r div PAGE_SIZE\<rparr> \<longleftrightarrow>
      4096 dvd q \<and> unat (mr_start r) \<le> q \<and> q + 4096 \<le> unat (mr_end r)"
    if "mr_valid r" "4096 dvd unat (mr_start r)" for q r
  proof (cases "4096 dvd q")
    case True
    note aligned = that(2)
    from True obtain k m where km: "q = 4096 * k" "unat (mr_start r) = 4096 * m" using aligned by (auto elim!: dvdE)
    have "k < m + unat (mr_length r) div 4096 \<longleftrightarrow> k + 1 \<le> (4096 * m + unat (mr_length r)) div 4096"
      by (simp add: Suc_le_eq)
    also have "\<dots> \<longleftrightarrow> 4096 * (k + 1) \<le> 4096 * m + unat (mr_length r)"
      by (simp only: less_eq_div_iff_mult_less_eq zero_less_numeral mult.commute)
    finally have "4096 * k < 4096 * m + 4096 * (unat (mr_length r) div 4096) \<longleftrightarrow>
        4096 * k + 4096 \<le> 4096 * m + unat (mr_length r)" by linarith
    then show ?thesis
      using True km by (simp add: run_pages_def block_def unat_div unat_mr_end [OF that(1)])
  qed (simp add: run_pages_def block_def)
  have small: "mr_length r div PAGE_SIZE \<noteq> 0" if "mr_valid r" "unat (mr_start r) \<le> q" "q + 4096 \<le> unat (mr_end r)" for q r
  proof -
    have "unat (mr_length r div PAGE_SIZE) \<noteq> 0"
      using that(2,3) by (simp add: unat_mr_end [OF that(1)] unat_div)
    then show ?thesis by auto
  qed
  have "q \<in> pages (usable_runs rs) \<longleftrightarrow>
      (\<exists>r \<in> set (usable_ranges rs). 4096 dvd q \<and> unat (mr_start r) \<le> q \<and> q + 4096 \<le> unat (mr_end r))" for q
  proof -
    let ?f = "\<lambda>r. \<lparr>fr_start = mr_start r, fr_frames = mr_length r div PAGE_SIZE\<rparr>"
    have "q \<in> pages (usable_runs rs) \<longleftrightarrow>
        (\<exists>r \<in> set (usable_ranges rs). mr_length r div PAGE_SIZE \<noteq> 0 \<and> q \<in> run_pages (?f r))"
      by (auto simp: pages_def usable_runs_def usable_ranges_def)
    also have "\<dots> \<longleftrightarrow> (\<exists>r \<in> set (usable_ranges rs).
        4096 dvd q \<and> unat (mr_start r) \<le> q \<and> q + 4096 \<le> unat (mr_end r))"
    proof (rule bex_cong [OF refl])
      fix r assume "r \<in> set (usable_ranges rs)"
      with assms have "mr_valid r" "4096 dvd unat (mr_start r)" by (simp_all add: usable_ranges_def)
      with iff [OF this] small [of r q]
      show "mr_length r div PAGE_SIZE \<noteq> 0 \<and> q \<in> run_pages (?f r) \<longleftrightarrow>
          4096 dvd q \<and> unat (mr_start r) \<le> q \<and> q + 4096 \<le> unat (mr_end r)" by blast
    qed
    finally show ?thesis .
  qed
  then show ?thesis by blast
qed

lemma usable_runs_length: "length (usable_runs rs) \<le> length rs"
  by (simp add: usable_runs_def)

lemma allocator_new_inv:
  assumes "map_inv s" and "\<forall>r \<in> set (usable_ranges (snapshot_ranges s)). 4096 dvd unat (mr_start r)"
  shows "allocator_inv (allocator_new (snapshot_ranges s))"
    and "free_runs (allocator_new (snapshot_ranges s)) = usable_runs (snapshot_ranges s)"
    and "managed_runs (allocator_new (snapshot_ranges s)) = usable_runs (snapshot_ranges s)"
proof -
  let ?rs = "snapshot_ranges s" let ?a = "allocator_new ?rs"
  have "length ?rs \<le> MAX_FREE_RANGES"
    using assms(1) by (simp add: map_inv_def snapshot_ok_def snapshot_ranges_def MAX_FREE_RANGES_def)
  then show fr: "free_runs ?a = usable_runs ?rs"
    using usable_runs_length [of ?rs] by (simp add: allocator_new_fresh)
  have fresh: "fresh ?a" by (rule allocator_new_fresh)
  then have "managed_runs ?a = free_runs ?a" by (simp add: fresh_def managed_runs_def free_runs_def)
  with fr show mr: "managed_runs ?a = usable_runs ?rs" by simp
  have ok: "runs_ok (usable_runs ?rs)"
    using assms by (intro usable_runs_ok) (simp_all add: map_inv_def)
  from frames_sum_bound [OF this] have "frames_sum (usable_runs ?rs) < 2 ^ 64" by simp
  with fresh fr mr ok show "allocator_inv ?a"
    by (simp add: allocator_inv_def fresh_def free_pages_def managed_pages_def)
qed

section \<open>The interface of a page allocator\<close>

text \<open>
  What the heap, the page tables and every other client rely on: pages leave the free set when they
  are handed out, come back when they are released, and no failure changes anything.
\<close>

locale page_allocator =
  fixes free :: "'s \<Rightarrow> nat set" and managed :: "'s \<Rightarrow> nat set" and inv :: "'s \<Rightarrow> bool"
    and alloc :: "'s \<Rightarrow> (FrameError, FrameAddress) result \<times> 's"
    and alloc_run :: "'s \<Rightarrow> u64 \<Rightarrow> (FrameError, PhysicalRange) result \<times> 's"
    and release :: "'s \<Rightarrow> FrameAddress \<Rightarrow> (FrameError, unit) result \<times> 's"
  assumes free_managed: "inv s \<Longrightarrow> free s \<subseteq> managed s"
    and alloc_ok: "inv s \<Longrightarrow> alloc s = (Inr f, s') \<Longrightarrow> inv s' \<and> managed s' = managed s \<and>
      unat (frame_address f) \<in> free s \<and> free s' = free s - {unat (frame_address f)}"
    and alloc_failed: "inv s \<Longrightarrow> alloc s = (Inl e, s') \<Longrightarrow> s' = s \<and> free s = {}"
    and alloc_run_ok: "inv s \<Longrightarrow> alloc_run s n = (Inr p, s') \<Longrightarrow> inv s' \<and> managed s' = managed s \<and>
      block (unat (pr_start p)) (unat n) \<subseteq> free s \<and>
      free s' = free s - block (unat (pr_start p)) (unat n)"
    and alloc_run_failed: "inv s \<Longrightarrow> alloc_run s n = (Inl e, s') \<Longrightarrow> s' = s"
    and release_ok: "inv s \<Longrightarrow> release s f = (Inr (), s') \<Longrightarrow> inv s' \<and> managed s' = managed s \<and>
      unat (frame_address f) \<in> managed s - free s \<and> free s' = insert (unat (frame_address f)) (free s)"
    and release_failed: "inv s \<Longrightarrow> release s f = (Inl e, s') \<Longrightarrow> s' = s"
begin

lemma two_allocations_differ:
  assumes "inv s" and "alloc s = (Inr f, s1)" and "alloc s1 = (Inr g, s2)"
  shows "f \<noteq> g"
  using alloc_ok [OF assms(1,2)] alloc_ok [of s1 g s2] assms(3) by auto

lemma run_then_page_differ:
  assumes "inv s" and "alloc_run s n = (Inr p, s1)" and "alloc s1 = (Inr g, s2)"
  shows "unat (frame_address g) \<notin> block (unat (pr_start p)) (unat n)"
  using alloc_run_ok [OF assms(1,2)] alloc_ok [of s1 g s2] assms(3) by auto

lemma double_release_rejected:
  assumes "inv s" and "release s f = (Inr (), s1)" and "release s1 f = (r, s2)"
  shows "r \<noteq> Inr () \<and> s2 = s1"
proof (cases r)
  case (Inl e)
  with assms release_ok release_failed show ?thesis by blast
next
  case (Inr u)
  with assms(3) have "release s1 f = (Inr (), s2)" by simp
  with release_ok [OF assms(1,2)] release_ok [of s1 f s2] show ?thesis by auto
qed

lemma managed_constant:
  assumes "inv s"
  shows "alloc s = (r1, s') \<Longrightarrow> inv s' \<and> managed s' = managed s"
    and "alloc_run s n = (r2, s') \<Longrightarrow> inv s' \<and> managed s' = managed s"
    and "release s f = (r3, s') \<Longrightarrow> inv s' \<and> managed s' = managed s"
proof -
  show "inv s' \<and> managed s' = managed s" if "alloc s = (r1, s')"
    using that assms alloc_ok [OF assms] alloc_failed [OF assms] by (cases r1) blast+
  show "inv s' \<and> managed s' = managed s" if "alloc_run s n = (r2, s')"
    using that assms alloc_run_ok [OF assms] alloc_run_failed [OF assms] by (cases r2) blast+
  show "inv s' \<and> managed s' = managed s" if "release s f = (r3, s')"
    using that assms release_ok [OF assms] release_failed [OF assms] by (cases r3) fastforce+
qed

end

interpretation frame_pool: page_allocator free_pages managed_pages allocator_inv
    frame_allocate frame_allocate_contiguous frame_release
proof unfold_locales
  show "free_pages s \<subseteq> managed_pages s" if "allocator_inv s" for s
    using that by (simp add: allocator_inv_def)
  show "allocator_inv s' \<and> managed_pages s' = managed_pages s \<and> unat (frame_address f) \<in> free_pages s \<and>
      free_pages s' = free_pages s - {unat (frame_address f)}"
    if "allocator_inv s" "frame_allocate s = (Inr f, s')" for s f s'
    using frame_allocate_Inr [OF that] by (simp add: managed_pages_def)
  show "s' = s \<and> free_pages s = {}" if "allocator_inv s" "frame_allocate s = (Inl e, s')" for s e s'
    using frame_allocate_Inl [OF that] by simp
  show "allocator_inv s' \<and> managed_pages s' = managed_pages s \<and>
      block (unat (pr_start p)) (unat n) \<subseteq> free_pages s \<and>
      free_pages s' = free_pages s - block (unat (pr_start p)) (unat n)"
    if "allocator_inv s" "frame_allocate_contiguous s n = (Inr p, s')" for s n p s'
    using frame_allocate_contiguous_Inr [OF that] by (simp add: managed_pages_def)
  show "s' = s" if "allocator_inv s" "frame_allocate_contiguous s n = (Inl e, s')" for s n e s'
    using frame_allocate_contiguous_Inl [OF that] by simp
  show "allocator_inv s' \<and> managed_pages s' = managed_pages s \<and>
      unat (frame_address f) \<in> managed_pages s - free_pages s \<and>
      free_pages s' = insert (unat (frame_address f)) (free_pages s)"
    if "allocator_inv s" "frame_release s f = (Inr (), s')" for s f s'
    using that(2) by (cases rule: frame_release_cases [OF that(1) refl, of f]) (simp_all add: managed_pages_def)
  show "s' = s" if "allocator_inv s" "frame_release s f = (Inl e, s')" for s f e s'
    using that(2) by (cases rule: frame_release_cases [OF that(1) refl, of f]) simp_all
qed

definition global_inv :: "FrameAllocator option \<Rightarrow> bool" where
  "global_inv g \<longleftrightarrow> (\<forall>a. g = Some a \<longrightarrow> allocator_inv a)"

definition global_free :: "FrameAllocator option \<Rightarrow> nat set" where
  "global_free g = (case g of None \<Rightarrow> {} | Some a \<Rightarrow> free_pages a)"

definition global_managed :: "FrameAllocator option \<Rightarrow> nat set" where
  "global_managed g = (case g of None \<Rightarrow> {} | Some a \<Rightarrow> managed_pages a)"

lemma with_allocator_eq:
  "with_allocator g f = (r, g') \<longleftrightarrow>
    (g = None \<and> r = Inl MemoryMapUnavailable \<and> g' = None) \<or>
    (\<exists>a a'. g = Some a \<and> f a = (r, a') \<and> g' = Some a')"
  by (auto simp: with_allocator_def split: option.splits prod.splits)

interpretation global_pool: page_allocator global_free global_managed global_inv
    global_allocate global_allocate_contiguous global_release
proof unfold_locales
  note defs = global_free_def global_managed_def global_inv_def global_allocate_def
    global_allocate_contiguous_def global_release_def with_allocator_eq
  show "global_free s \<subseteq> global_managed s" if "global_inv s" for s
    using that frame_pool.free_managed by (auto simp: defs split: option.splits)
  show "global_inv s' \<and> global_managed s' = global_managed s \<and> unat (frame_address f) \<in> global_free s \<and>
      global_free s' = global_free s - {unat (frame_address f)}"
    if "global_inv s" "global_allocate s = (Inr f, s')" for s f s'
  proof -
    from that obtain a a' where a: "s = Some a" "s' = Some a'" "allocator_inv a" "frame_allocate a = (Inr f, a')"
      by (auto simp: defs)
    with frame_pool.alloc_ok [OF a(3,4)] show ?thesis by (simp add: defs)
  qed
  show "s' = s \<and> global_free s = {}" if "global_inv s" "global_allocate s = (Inl e, s')" for s e s'
  proof (cases s)
    case (Some a)
    with that obtain a' where a: "s' = Some a'" "allocator_inv a" "frame_allocate a = (Inl e, a')"
      by (auto simp: defs)
    with Some frame_pool.alloc_failed [OF a(2,3)] show ?thesis by (simp add: defs)
  qed (use that in \<open>simp add: defs\<close>)
  show "global_inv s' \<and> global_managed s' = global_managed s \<and>
      block (unat (pr_start p)) (unat n) \<subseteq> global_free s \<and>
      global_free s' = global_free s - block (unat (pr_start p)) (unat n)"
    if "global_inv s" "global_allocate_contiguous s n = (Inr p, s')" for s n p s'
  proof -
    from that obtain a a' where a: "s = Some a" "s' = Some a'" "allocator_inv a" "frame_allocate_contiguous a n = (Inr p, a')"
      by (auto simp: defs)
    with frame_pool.alloc_run_ok [OF a(3,4)] show ?thesis by (simp add: defs)
  qed
  show "s' = s" if "global_inv s" "global_allocate_contiguous s n = (Inl e, s')" for s n e s'
  proof (cases s)
    case (Some a)
    with that obtain a' where a: "s' = Some a'" "allocator_inv a" "frame_allocate_contiguous a n = (Inl e, a')"
      by (auto simp: defs)
    with Some frame_pool.alloc_run_failed [OF a(2,3)] show ?thesis by (simp add: defs)
  qed (use that in \<open>simp add: defs\<close>)
  show "global_inv s' \<and> global_managed s' = global_managed s \<and>
      unat (frame_address f) \<in> global_managed s - global_free s \<and>
      global_free s' = insert (unat (frame_address f)) (global_free s)"
    if "global_inv s" "global_release s f = (Inr (), s')" for s f s'
  proof -
    from that obtain a a' where a: "s = Some a" "s' = Some a'" "allocator_inv a" "frame_release a f = (Inr (), a')"
      by (auto simp: defs)
    with frame_pool.release_ok [OF a(3,4)] show ?thesis by (simp add: defs)
  qed
  show "s' = s" if "global_inv s" "global_release s f = (Inl e, s')" for s f e s'
  proof (cases s)
    case (Some a)
    with that obtain a' where a: "s' = Some a'" "allocator_inv a" "frame_release a f = (Inl e, a')"
      by (auto simp: defs)
    with Some frame_pool.release_failed [OF a(2,3)] show ?thesis by (simp add: defs)
  qed (use that in \<open>simp add: defs\<close>)
qed

section \<open>Ownership of pages\<close>

text \<open>
  The allocator together with the set of pages that callers hold: pages enter the set when they are
  handed out and leave it when a release of them is accepted.
\<close>

inductive frame_step :: "FrameAllocator \<times> nat set \<Rightarrow> FrameAllocator \<times> nat set \<Rightarrow> bool" where
  page: "frame_allocate a = (Inr f, a') \<Longrightarrow> frame_step (a, h) (a', insert (unat (frame_address f)) h)"
| run: "frame_allocate_contiguous a n = (Inr p, a') \<Longrightarrow>
    frame_step (a, h) (a', h \<union> block (unat (pr_start p)) (unat n))"
| returned: "frame_release a f = (Inr (), a') \<Longrightarrow> frame_step (a, h) (a', h - {unat (frame_address f)})"
| failed: "fst (frame_allocate a) = Inl e \<or> fst (frame_allocate_contiguous a n) = Inl e \<or>
    fst (frame_release a f) = Inl e \<Longrightarrow> frame_step (a, h) (a, h)"

inductive_cases frame_stepE: "frame_step (a, h) s"

definition partitioned :: "nat set \<Rightarrow> FrameAllocator \<times> nat set \<Rightarrow> bool" where
  "partitioned m s \<longleftrightarrow> allocator_inv (fst s) \<and> managed_pages (fst s) = m \<and>
     snd s \<inter> free_pages (fst s) = {} \<and> snd s \<union> free_pages (fst s) = m"

lemma partitioned_step:
  assumes "frame_step s t" and "partitioned m s"
  shows "partitioned m t"
  using assms
proof (induction rule: frame_step.induct)
  case (page a f a' h)
  then show ?case using frame_pool.alloc_ok [of a f a'] by (auto simp: partitioned_def)
next
  case (run a n p a' h)
  then show ?case using frame_pool.alloc_run_ok [of a n p a'] by (auto simp: partitioned_def)
next
  case (returned a f a' h)
  then show ?case using frame_pool.release_ok [of a f a'] by (auto simp: partitioned_def)
qed

lemma partitioned_reachable:
  assumes "frame_step\<^sup>*\<^sup>* s t" and "partitioned m s"
  shows "partitioned m t"
  using assms by (induction rule: rtranclp_induct) (auto intro: partitioned_step)

lemma free_page_aligned: "q \<in> free_pages a \<Longrightarrow> 4096 dvd q"
  by (auto simp: free_pages_def pages_def run_pages_def block_def)

text \<open>After a page is taken there is room to give it back: its run is gone, or goes on behind it.\<close>

lemma frame_allocate_room:
  assumes inv: "allocator_inv a" and alloc: "frame_allocate a = (Inr f, a')"
  shows "fa_range_count a' < MAX_FREE_RANGES \<or> unat (frame_address f) + 4096 \<in> free_pages a'"
proof -
  let ?r = "fa_ranges a ! 0"
  have pos: "0 < fa_range_count a" and f: "f = FrameAddress (fr_start ?r)"
    using alloc by (auto simp: frame_allocate_def Let_def split: if_splits)
  have count: "fa_range_count a \<le> MAX_FREE_RANGES" using inv by (simp add: allocator_inv_def tables_ok_def)
  note ok = free_run_ok [OF inv pos]
  show ?thesis
  proof (cases "fr_frames ?r = 1")
    case True
    with alloc pos have "fa_range_count a' = fa_range_count a - 1"
      by (auto simp: frame_allocate_def Let_def remove_range_def)
    with pos count have "fa_range_count a' < MAX_FREE_RANGES" by linarith
    then show ?thesis ..
  next
    case False
    have "unat (fr_frames ?r) \<noteq> 0" using ok by (simp add: run_ok_def unat_eq_zero)
    moreover have "unat (fr_frames ?r) \<noteq> 1" using False by (simp add: word_unat_eq_iff)
    ultimately have "1 < unat (fr_frames ?r)" by linarith
    then have "unat (fr_start ?r) + 4096 \<in> run_pages ?r"
      using ok by (simp add: run_pages_def block_def run_ok_def)
    moreover have "?r \<in> set (free_runs a)"
      using inv pos nth_mem [of 0 "free_runs a"] by (simp add: allocator_inv_def length_free_runs nth_free_runs)
    ultimately have "unat (fr_start ?r) + 4096 \<in> free_pages a"
      by (auto simp: free_pages_def pages_def)
    then show ?thesis by (simp add: frame_allocate_Inr(2) [OF inv alloc] f)
  qed
qed

section \<open>Properties\<close>

text \<open>The allocator built from a map with aligned usable ranges satisfies its invariant, its
  free pages are exactly the whole pages of the usable ranges, and both counters count them.\<close>

theorem allocator_new_usable_pages:
  assumes "map_inv s" and "\<forall>r \<in> set (usable_ranges (snapshot_ranges s)). 4096 dvd unat (mr_start r)"
    and "a = allocator_new (snapshot_ranges s)"
  shows "allocator_inv a \<and> managed_pages a = free_pages a \<and>
    free_pages a = {q. 4096 dvd q \<and> (\<exists>r \<in> set (snapshot_ranges s). mr_kind r = Usable \<and>
      unat (mr_start r) \<le> q \<and> q + 4096 \<le> unat (mr_end r))} \<and>
    unat (fa_total_frames a) = card (free_pages a) \<and> unat (fa_free_frames a) = card (free_pages a)"
proof -
  note new = allocator_new_inv [OF assms(1,2), folded assms(3)]
  have "runs_ok (free_runs a)" using new(1) by (simp add: allocator_inv_def)
  from card_pages [OF this] new
  have "unat (fa_total_frames a) = card (free_pages a) \<and> unat (fa_free_frames a) = card (free_pages a)"
    "managed_pages a = free_pages a"
    by (simp_all add: allocator_inv_def free_pages_def managed_pages_def)
  moreover have "free_pages a = {q. 4096 dvd q \<and> (\<exists>r \<in> set (snapshot_ranges s). mr_kind r = Usable \<and>
      unat (mr_start r) \<le> q \<and> q + 4096 \<le> unat (mr_end r))}"
    using pages_usable_runs [of "snapshot_ranges s"] assms(1,2)
    by (auto simp: free_pages_def new(2) map_inv_def usable_ranges_def)
  ultimately show ?thesis using new(1) by blast
qed


text \<open>C4: a contiguous allocation succeeds exactly for a positive number of frames up to the largest
  free run; it returns an aligned range of that many free pages and takes exactly these out of the
  free set. A failure changes nothing.\<close>

theorem allocate_contiguous_exact:
  assumes "allocator_inv a" and "frame_allocate_contiguous a n = (r, a')"
  shows "if n \<noteq> 0 \<and> n \<le> frame_largest_free_frames a
    then (\<exists>p. r = Inr p \<and> 4096 dvd unat (pr_start p) \<and> unat (pr_length p) = 4096 * unat n \<and>
      block (unat (pr_start p)) (unat n) \<subseteq> free_pages a \<and>
      free_pages a' = free_pages a - block (unat (pr_start p)) (unat n) \<and> allocator_inv a' \<and>
      unat (fa_free_frames a') = unat (fa_free_frames a) - unat n)
    else r = Inl OutOfMemory \<and> a' = a"
proof (cases r)
  case (Inl e)
  with assms(2) have alloc: "frame_allocate_contiguous a n = (Inl e, a')" by simp
  note facts = frame_allocate_contiguous_Inl [OF assms(1) alloc]
  have "\<not> (n \<noteq> 0 \<and> n \<le> frame_largest_free_frames a)"
    using facts(3) largest_free_frames_less_iff [of a n] by (auto simp: not_le)
  with facts Inl show ?thesis by simp
next
  case (Inr p)
  with assms(2) have alloc: "frame_allocate_contiguous a n = (Inr p, a')" by simp
  note facts = frame_allocate_contiguous_Inr [OF assms(1) alloc]
  have "\<not> frame_largest_free_frames a < n"
  proof
    assume "frame_largest_free_frames a < n"
    then have small: "\<forall>r \<in> set (free_runs a). fr_frames r < n" by (simp add: largest_free_frames_less_iff)
    have "fr_frames (fa_ranges a ! i) < n" if "i < fa_range_count a" for i
      using small assms(1) that nth_mem [of i "free_runs a"]
      by (simp add: allocator_inv_def length_free_runs nth_free_runs)
    then have "filter (\<lambda>i. n \<le> fr_frames (fa_ranges a ! i)) [0..<fa_range_count a] = []"
      by (auto simp: filter_empty_conv not_le)
    with alloc facts(7) show False by (simp add: frame_allocate_contiguous_def)
  qed
  with facts Inr show ?thesis by auto
qed


text \<open>C6: releasing the frame that was just allocated always succeeds and restores the free pages
  and the free-frame counter.\<close>

theorem allocate_release_roundtrip:
  assumes "allocator_inv a" and "frame_allocate a = (Inr f, a')"
  shows "\<exists>a''. frame_release a' f = (Inr (), a'') \<and> allocator_inv a'' \<and>
    free_pages a'' = free_pages a \<and> fa_free_frames a'' = fa_free_frames a"
proof -
  let ?p = "unat (frame_address f)"
  note facts = frame_allocate_Inr [OF assms]
  have p: "4096 dvd ?p" "?p \<in> managed_pages a'" "?p \<notin> free_pages a'"
    using facts frame_pool.alloc_ok [OF assms] frame_pool.free_managed [OF assms(1)] free_page_aligned
    by auto
  have room: "fa_range_count a' = MAX_FREE_RANGES \<longrightarrow> beside_free a' ?p"
    using frame_allocate_room [OF assms] by (auto simp: beside_free_def)
  have pos: "0 < unat (fa_free_frames a)"
  proof -
    have "card (free_pages a) = unat (fa_free_frames a)"
      using assms(1) by (simp add: allocator_inv_def free_pages_def card_pages)
    moreover have "0 < card (free_pages a)"
      using facts(3) by (auto simp: card_gt_0_iff free_pages_def)
    ultimately show ?thesis by simp
  qed
  show ?thesis
  proof (rule frame_release_cases [OF facts(1) refl, of f])
    fix b
    assume b: "frame_release a' f = (Inr (), b)" "allocator_inv b" "free_pages b = insert ?p (free_pages a')"
      "unat (fa_free_frames b) = unat (fa_free_frames a') + 1"
    have "free_pages b = free_pages a" using b(3) facts(2,3) by auto
    moreover have "fa_free_frames b = fa_free_frames a"
      using b(4) facts(6) pos by (simp add: word_unat_eq_iff)
    ultimately show ?thesis using b by blast
  qed (use p room in auto)
qed


text \<open>The free list must be built from ranges in ascending order. For a firmware map that lists
  two usable pages in descending order, the release of a page that is still free is accepted, and
  the allocator then counts more free frames than it manages.\<close>

theorem unsorted_map_double_release:
  "\<exists>rs a f a'. list_all (\<lambda>r. mr_valid r \<and> page_aligned r \<and> mr_kind r = Usable) rs \<and>
     a = allocator_new rs \<and> unat (frame_address f) \<in> free_pages a \<and>
     frame_release a f = (Inr (), a') \<and> fa_free_frames a' = fa_total_frames a' + 1"
proof -
  let ?r = "\<lambda>s. \<lparr>mr_start = s, mr_length = 0x1000, mr_uefi_type = CONVENTIONAL, mr_kind = Usable\<rparr>"
  let ?rs = "[?r 0x10000, ?r 0x1000]" let ?f = "FrameAddress 0x1000"
  have rel: "fst (frame_release (allocator_new ?rs) ?f) = Inr ()"
    "fa_free_frames (snd (frame_release (allocator_new ?rs) ?f)) =
     fa_total_frames (snd (frame_release (allocator_new ?rs) ?f)) + 1"
    by code_simp+
  have "free_runs (allocator_new ?rs) = [\<lparr>fr_start = 0x10000, fr_frames = 1\<rparr>, \<lparr>fr_start = 0x1000, fr_frames = 1\<rparr>]"
    by (simp add: allocator_new_fresh usable_runs_def PAGE_SIZE_def MAX_FREE_RANGES_def MAX_MEMORY_RANGES_def)
  then have "unat (frame_address ?f) \<in> free_pages (allocator_new ?rs)"
    by (simp add: free_pages_def run_pages_def block_def)
  with rel show ?thesis
    by (intro exI [of _ ?rs] exI [of _ "allocator_new ?rs"] exI [of _ ?f]
        exI [of _ "snd (frame_release (allocator_new ?rs) ?f)"])
      (simp add: mr_valid_def page_aligned_def prod_eq_iff)
qed

text \<open>The first frame handed out is the start of the first usable range of at least one page,
  whether or not that start is aligned: \<open>allocate\<close> wraps the address without the check that
  \<open>FrameAddress::new\<close> makes.\<close>

theorem first_frame_unchecked:
  assumes "mr_kind r = Usable" and "0x1000 \<le> mr_length r"
  shows "fst (frame_allocate (allocator_new (r # rs))) = Inr (FrameAddress (mr_start r)) \<and>
    (FrameAddress_new (mr_start r) = None \<longleftrightarrow> \<not> 4096 dvd unat (mr_start r))"
proof -
  let ?a = "allocator_new (r # rs)"
  have "unat (mr_length r div PAGE_SIZE) \<noteq> 0"
    using assms(2) by (simp add: unat_div word_le_nat_alt)
  then have nz: "mr_length r div PAGE_SIZE \<noteq> 0" by auto
  have ok: "tables_ok ?a" using allocator_new_fresh(1) by (simp add: fresh_def)
  have hd: "free_runs ?a = take MAX_FREE_RANGES
      (\<lparr>fr_start = mr_start r, fr_frames = mr_length r div PAGE_SIZE\<rparr> # usable_runs rs)"
    using nz assms(1) by (simp add: allocator_new_fresh usable_runs_def)
  then have "0 < fa_range_count ?a"
    using length_free_runs [OF ok] by (simp add: MAX_FREE_RANGES_def MAX_MEMORY_RANGES_def)
  moreover from this hd have "fr_start (fa_ranges ?a ! 0) = mr_start r"
    by (simp add: nth_free_runs [symmetric] MAX_FREE_RANGES_def MAX_MEMORY_RANGES_def)
  ultimately show ?thesis
    by (simp add: frame_allocate_def Let_def FrameAddress_new_def rust_arith)
qed

section \<open>Concrete instances\<close>

definition sample_allocator :: FrameAllocator where
  "sample_allocator = allocator_new (snapshot_ranges sample_map)"

lemma sample_aligned:
  "\<forall>r \<in> set (usable_ranges (snapshot_ranges sample_map)). 4096 dvd unat (mr_start r)"
  by (simp add: sample_map_ranges usable_ranges_def)

lemma sample_allocator_inv: "allocator_inv sample_allocator"
  and sample_free_runs: "free_runs sample_allocator = [\<lparr>fr_start = 0x1000, fr_frames = 8\<rparr>]"
  and sample_managed_runs: "managed_runs sample_allocator = [\<lparr>fr_start = 0x1000, fr_frames = 8\<rparr>]"
  using allocator_new_inv [OF sample_map_inv sample_aligned]
  by (simp_all add: sample_allocator_def sample_map_ranges usable_runs_def PAGE_SIZE_def)

lemma sample_free_pages: "free_pages sample_allocator = block 0x1000 8"
  "managed_pages sample_allocator = block 0x1000 8"
  by (simp_all add: free_pages_def managed_pages_def sample_free_runs sample_managed_runs run_pages_def)

lemma sample_first_frame:
  "\<exists>a'. frame_allocate sample_allocator = (Inr (FrameAddress 0x1000), a')"
  and sample_range_count: "fa_range_count sample_allocator = 1"
proof -
  have ok: "tables_ok sample_allocator" using sample_allocator_inv by (simp add: allocator_inv_def)
  from length_free_runs [OF this] show c: "fa_range_count sample_allocator = 1"
    by (simp add: sample_free_runs)
  then have "fa_ranges sample_allocator ! 0 = \<lparr>fr_start = 0x1000, fr_frames = 8\<rparr>"
    using nth_free_runs [of 0 sample_allocator] by (simp add: sample_free_runs)
  with c show "\<exists>a'. frame_allocate sample_allocator = (Inr (FrameAddress 0x1000), a')"
    by (simp add: frame_allocate_def Let_def)
qed

lemma allocator_new_usable_pages_witness:
  "0x8000 \<in> free_pages (allocator_new (snapshot_ranges sample_map))"
  using allocator_new_usable_pages [OF sample_map_inv sample_aligned refl]
  by (simp add: sample_map_ranges mr_end_def saturating_add_def checked_add_def)


lemma allocate_contiguous_exact_witness:
  "snd (frame_allocate_contiguous sample_allocator 9) = sample_allocator"
proof -
  obtain r a' where eq: "frame_allocate_contiguous sample_allocator 9 = (r, a')" by fastforce
  have "frame_largest_free_frames sample_allocator < 9"
    by (simp add: largest_free_frames_less_iff sample_free_runs)
  with allocate_contiguous_exact [OF sample_allocator_inv eq] eq show ?thesis
    by (simp add: not_le)
qed


lemma allocate_release_roundtrip_witness:
  "\<exists>a' a''. frame_allocate sample_allocator = (Inr (FrameAddress 0x1000), a') \<and>
    frame_release a' (FrameAddress 0x1000) = (Inr (), a'')"
proof -
  obtain a' where a': "frame_allocate sample_allocator = (Inr (FrameAddress 0x1000), a')"
    using sample_first_frame by blast
  with allocate_release_roundtrip [OF sample_allocator_inv a'] show ?thesis by blast
qed


lemma first_frame_unchecked_witness:
  "fst (frame_allocate (allocator_new
     [\<lparr>mr_start = 0x1800, mr_length = 0x1000, mr_uefi_type = CONVENTIONAL, mr_kind = Usable\<rparr>])) =
   Inr (FrameAddress 0x1800) \<and> FrameAddress_new 0x1800 = None"
proof -
  let ?r = "\<lparr>mr_start = 0x1800, mr_length = 0x1000, mr_uefi_type = CONVENTIONAL, mr_kind = Usable\<rparr>"
  have "mr_kind ?r = Usable" "0x1000 \<le> mr_length ?r" by simp_all
  note first = first_frame_unchecked [OF this, of "[]"]
  have "\<not> 4096 dvd unat (mr_start ?r)" by simp
  with first show ?thesis by (simp only: MemoryRange.simps simp_thms)
qed

end
