(* ===== verification/Heap.thy ===== *)
theory Heap
  imports Frame
begin

text \<open>
  Heap setup at boot, \<^verbatim>\<open>src/src/allocator/mod.rs\<close>, functions \<open>initialize_heap\<close> and
  \<open>initialize_global\<close>: after leaving boot services the kernel copies the firmware map, reserves the
  framebuffer, the loaded image and the stack, builds the frame allocator from what is left and
  takes its largest run as the heap. The main fact: the heap region overlaps none of these, and no
  page of it can be handed out again.
\<close>

section \<open>State\<close>

record HeapRegion =
  region_start :: usize
  region_size :: usize

datatype HeapError =
    HeapAlreadyInitialized | NoConventionalMemory | TooSmall | Misaligned
  | HeapMemoryMapUnavailable | FrameAllocatorUnavailable | MemoryReservationFailed

text \<open>The statics that heap setup reads and writes: \<open>HEAP_START\<close>, \<open>HEAP_SIZE\<close>,
  \<open>BOOT_SERVICES_EXITED\<close>, \<open>MEMORY_MAP\<close> and \<open>FRAME_ALLOCATOR\<close>.\<close>

record BootState =
  heap_start :: usize
  heap_size :: usize
  boot_services_exited :: bool
  memory_map :: "MemoryMapSnapshot option"
  frame_allocator :: "FrameAllocator option"

section \<open>Operations\<close>

definition stack_window :: "usize \<Rightarrow> usize \<times> usize" where
  "stack_window stack_marker =
     (let stack_page = stack_marker AND NOT (4096 - 1)
      in (saturating_sub stack_page (32 * 4096), 64 * 4096))"

text \<open>The second half of \<open>initialize_heap\<close>, from the frame allocator on.\<close>

definition take_heap :: "BootState \<Rightarrow> (HeapError, HeapRegion) result \<times> BootState" where
  "take_heap k =
     (case frame_initialize (frame_allocator k) (memory_map k) of
        (Inl _, g) \<Rightarrow> (Inl FrameAllocatorUnavailable, k\<lparr>frame_allocator := g\<rparr>)
      | (Inr _, g) \<Rightarrow>
         (let k1 = k\<lparr>frame_allocator := g\<rparr> in
          case global_largest_free_frames (frame_allocator k1) of
            Inl _ \<Rightarrow> (Inl FrameAllocatorUnavailable, k1)
          | Inr heap_frames \<Rightarrow>
             if heap_frames = 0 then (Inl NoConventionalMemory, k1)
             else case allocate_contiguous_owned (frame_allocator k1) heap_frames OwnHeap of
                (Inl _, g') \<Rightarrow> (Inl FrameAllocatorUnavailable, k1\<lparr>frame_allocator := g'\<rparr>)
              | (Inr heap_range, g') \<Rightarrow>
                 (let k2 = k1\<lparr>frame_allocator := g'\<rparr>;
                      hs = pr_start (opr_range heap_range);
                      hl = pr_length (opr_range heap_range) in
                  case memory_reserve (memory_map k2) hs hl Kernel of
                    (Inl _, m) \<Rightarrow> (Inl MemoryReservationFailed, k2\<lparr>memory_map := m\<rparr>)
                  | (Inr _, m) \<Rightarrow>
                     (Inr \<lparr>region_start = hs, region_size = hl\<rparr>,
                      k2\<lparr>memory_map := m, heap_start := hs, heap_size := hl\<rparr>))))"

text \<open>
  \<open>initialize_heap\<close>: the memory map that \<open>exit_boot_services\<close> returns and the address of the local
  \<open>stack_marker\<close> are arguments. On the 64-bit target the conversions to \<open>usize\<close> cannot fail.
\<close>

definition initialize_heap ::
  "BootState \<Rightarrow> MemoryDescriptor list \<Rightarrow> usize \<Rightarrow> (usize \<times> usize) option \<Rightarrow> usize \<times> usize \<Rightarrow>
   (HeapError, HeapRegion) result \<times> BootState" where
  "initialize_heap k entries stack_marker framebuffer kernel_image =
     (if heap_size k \<noteq> 0 then (Inl HeapAlreadyInitialized, k)
      else let k1 = k\<lparr>boot_services_exited := True\<rparr> in
        case memory_initialize (memory_map k1) entries framebuffer of
          (Inl _, m) \<Rightarrow> (Inl HeapMemoryMapUnavailable, k1\<lparr>memory_map := m\<rparr>)
        | (Inr _, m) \<Rightarrow>
           (case memory_reserve m (fst kernel_image) (snd kernel_image) Kernel of
              (Inl _, m1) \<Rightarrow> (Inl MemoryReservationFailed, k1\<lparr>memory_map := m1\<rparr>)
            | (Inr _, m1) \<Rightarrow>
               (case memory_reserve m1 (fst (stack_window stack_marker))
                       (snd (stack_window stack_marker)) Kernel of
                  (Inl _, m2) \<Rightarrow> (Inl MemoryReservationFailed, k1\<lparr>memory_map := m2\<rparr>)
                | (Inr _, m2) \<Rightarrow> take_heap (k1\<lparr>memory_map := m2\<rparr>))))"

definition initial_boot_state :: BootState where
  "initial_boot_state = \<lparr>heap_start = 0, heap_size = 0, boot_services_exited = False,
     memory_map = None, frame_allocator = None\<rparr>"

section \<open>Usable addresses through the reservations\<close>

definition usable_at :: "MemoryRange list \<Rightarrow> u64 \<Rightarrow> bool" where
  "usable_at rs a \<longleftrightarrow> (\<exists>r \<in> set rs. mr_kind r = Usable \<and> mr_contains r a)"

lemma range_pieces_usable_at:
  assumes "kind \<noteq> Usable"
  shows "usable_at (range_pieces start e kind r) a \<longleftrightarrow> usable_at [r] a \<and> \<not> (start \<le> a \<and> a < e)"
proof (cases "overlaps_range start e r")
  case True
  define os oe where "os = max start (mr_start r)" and "oe = min e (mr_end r)"
  have bounds: "mr_start r \<le> os" "os < oe" "oe \<le> mr_end r"
    using True by (simp_all add: overlaps_range_def os_def oe_def)
  have inside: "start \<le> a \<and> a < e \<longleftrightarrow> os \<le> a \<and> a < oe" if "mr_contains r a"
    using that by (auto simp: os_def oe_def mr_contains_def)
  let ?ps = "[r\<lparr>mr_length := os - mr_start r\<rparr>, r\<lparr>mr_start := os, mr_length := oe - os, mr_kind := kind\<rparr>,
      r\<lparr>mr_start := oe, mr_length := mr_end r - oe\<rparr>]"
  have "usable_at (filter (\<lambda>p. mr_length p \<noteq> 0) ps) a \<longleftrightarrow> usable_at ps a" for ps
    using mr_contains_nonempty by (auto simp: usable_at_def)
  with True have "usable_at (range_pieces start e kind r) a \<longleftrightarrow> usable_at ?ps a"
    by (simp add: range_pieces_def Let_def os_def [symmetric] oe_def [symmetric] del: filter.simps)
  also have "\<dots> \<longleftrightarrow> mr_kind r = Usable \<and> (mr_start r \<le> a \<and> a < os \<or> oe \<le> a \<and> a < mr_end r)"
    using assms bounds by (auto simp: usable_at_def mr_contains_between)
  also have "\<dots> \<longleftrightarrow> usable_at [r] a \<and> \<not> (start \<le> a \<and> a < e)"
  proof -
    have "a < mr_end r" if "a < os" using bounds that by order
    moreover have "mr_start r \<le> a" if "oe \<le> a" using bounds that by order
    moreover have "\<not> (os \<le> a \<and> a < oe) \<longleftrightarrow> a < os \<or> oe \<le> a" by auto
    ultimately show ?thesis using inside by (auto simp: usable_at_def mr_contains_def)
  qed
  finally show ?thesis .
next
  case False
  then show ?thesis
    by (auto simp: range_pieces_def overlaps_range_def Let_def usable_at_def mr_contains_def not_less)
qed

lemma reserve_pieces_usable_at:
  assumes "kind \<noteq> Usable"
  shows "usable_at (reserve_pieces start e kind rs) a \<longleftrightarrow> usable_at rs a \<and> \<not> (start \<le> a \<and> a < e)"
proof -
  have "usable_at (concat (map f rs)) a \<longleftrightarrow> (\<exists>r \<in> set rs. usable_at (f r) a)" for f :: "MemoryRange \<Rightarrow> MemoryRange list"
    by (auto simp: usable_at_def)
  then show ?thesis
    by (simp add: reserve_pieces_def range_pieces_usable_at [OF assms]) (auto simp: usable_at_def)
qed

lemma reserve_pieces_usable_aligned:
  assumes "kind \<noteq> Usable" and "\<forall>r \<in> set rs. mr_valid r" and "\<forall>r \<in> set (usable_ranges rs). page_aligned r"
    and "4096 dvd unat start" and "4096 dvd unat e"
  shows "\<forall>r \<in> set (usable_ranges (reserve_pieces start e kind rs)). page_aligned r"
proof
  fix p assume "p \<in> set (usable_ranges (reserve_pieces start e kind rs))"
  then obtain r where r: "r \<in> set rs" "p \<in> set (range_pieces start e kind r)" "mr_kind p = Usable"
    by (auto simp: usable_ranges_def reserve_pieces_def)
  then have "mr_kind r = Usable" using range_pieces_usable [OF assms(1)] by blast
  with r assms range_pieces_aligned [of r start e kind] show "page_aligned p"
    by (simp add: usable_ranges_def)
qed

text \<open>The state of the map between two reservations: invariant, alignment, and what is usable.\<close>

definition boot_map :: "MemoryMapSnapshot option \<Rightarrow> (u64 \<Rightarrow> bool) \<Rightarrow> bool" where
  "boot_map g usable \<longleftrightarrow> (\<exists>s. g = Some s \<and> map_inv s \<and>
     (\<forall>r \<in> set (usable_ranges (snapshot_ranges s)). page_aligned r) \<and>
     (\<forall>a. usable_at (snapshot_ranges s) a \<longleftrightarrow> usable a))"

definition in_window :: "usize \<times> usize \<Rightarrow> u64 \<Rightarrow> bool" where
  "in_window w a \<longleftrightarrow> fst w \<le> a \<and> a < fst w + snd w"

definition window_aligned :: "usize \<times> usize \<Rightarrow> bool" where
  "window_aligned w \<longleftrightarrow> 4096 dvd unat (fst w) \<and> 4096 dvd unat (snd w)"

lemma reserve_range_boot:
  assumes "map_inv s" and "\<forall>r \<in> set (usable_ranges (snapshot_ranges s)). page_aligned r"
    and "window_aligned w" and "kind \<noteq> Usable" and "reserve_range s (fst w) (snd w) kind = (Inr (), s')"
  shows "map_inv s'" and "\<forall>r \<in> set (usable_ranges (snapshot_ranges s')). page_aligned r"
    and "\<forall>a. usable_at (snapshot_ranges s') a \<longleftrightarrow> usable_at (snapshot_ranges s) a \<and> \<not> in_window w a"
proof -
  note res = reserve_range_Inr [OF map_inv_ok [OF assms(1)] assms(5)]
  show "map_inv s'" by (rule reserve_range_inv [OF assms(1,4,5)])
  have "unat (fst w + snd w) = unat (fst w) + unat (snd w)"
    using res(4) by (simp add: unat_add_exact)
  then have "4096 dvd unat (fst w)" "4096 dvd unat (fst w + snd w)"
    using assms(3) by (simp_all add: window_aligned_def)
  with assms(1,2,4) show "\<forall>r \<in> set (usable_ranges (snapshot_ranges s')). page_aligned r"
    unfolding res(1) by (intro reserve_pieces_usable_aligned) (simp_all add: map_inv_def)
  show "\<forall>a. usable_at (snapshot_ranges s') a \<longleftrightarrow> usable_at (snapshot_ranges s) a \<and> \<not> in_window w a"
    by (simp add: res(1) reserve_pieces_usable_at [OF assms(4)] in_window_def)
qed

lemma memory_reserve_boot:
  assumes "boot_map g u" and "window_aligned w" and "kind \<noteq> Usable"
    and "memory_reserve g (fst w) (snd w) kind = (Inr (), g')"
  shows "boot_map g' (\<lambda>a. u a \<and> \<not> in_window w a)"
proof -
  from assms(1) obtain s where s: "g = Some s" "map_inv s"
    "\<forall>r \<in> set (usable_ranges (snapshot_ranges s)). page_aligned r"
    "\<forall>a. usable_at (snapshot_ranges s) a \<longleftrightarrow> u a" by (auto simp: boot_map_def)
  with assms(4) obtain s' where s': "g' = Some s'" "reserve_range s (fst w) (snd w) kind = (Inr (), s')"
    by (auto simp: memory_reserve_def split: prod.splits)
  from reserve_range_boot [OF s(2,3) assms(2,3) s'(2)] s(4) s'(1) show ?thesis
    by (simp add: boot_map_def)
qed

lemma descriptor_range_aligned:
  "descriptor_ok d \<Longrightarrow> 4096 dvd unat (md_phys_start d) \<Longrightarrow> page_aligned (descriptor_range d)"
  using descriptor_length(2) [of d] by (simp add: page_aligned_def descriptor_range_def)

lemma not_found_outside:
  assumes "snapshot_ok s" and "reserve_range s start len kind = (Inl RangeNotFound, s')"
  shows "\<not> (usable_at (snapshot_ranges s) a \<and> start \<le> a \<and> a < start + len)"
proof
  assume a: "usable_at (snapshot_ranges s) a \<and> start \<le> a \<and> a < start + len"
  with not_found_not_described [OF assms, of a] show False
    by (auto simp: usable_at_def find_None_all)
qed

text \<open>What the firmware promises: usable descriptors in order, every start aligned.\<close>

definition firmware_ok :: "MemoryDescriptor list \<Rightarrow> bool" where
  "firmware_ok entries \<longleftrightarrow> ranges_sorted (usable_ranges (map descriptor_range entries)) \<and>
     list_all (\<lambda>d. 4096 dvd unat (md_phys_start d)) entries"

definition firmware_usable :: "MemoryDescriptor list \<Rightarrow> u64 \<Rightarrow> bool" where
  "firmware_usable entries a \<longleftrightarrow> usable_at (map descriptor_range entries) a"

lemma copy_from_boot:
  assumes "firmware_ok entries" and "copy_from entries = Inr s"
  shows "map_inv s" and "\<forall>r \<in> set (usable_ranges (snapshot_ranges s)). page_aligned r"
    and "\<forall>a. usable_at (snapshot_ranges s) a \<longleftrightarrow> firmware_usable entries a"
proof -
  note c = copy_from_ranges [OF assms(2)]
  from c assms(1) show "map_inv s" by (simp add: map_inv_def firmware_ok_def)
  from assms(2) have "\<forall>d \<in> set entries. descriptor_ok d" by (simp add: copy_from_Inr_iff)
  with assms(1) show "\<forall>r \<in> set (usable_ranges (snapshot_ranges s)). page_aligned r"
    by (auto simp: c(2) usable_ranges_def firmware_ok_def list_all_iff intro: descriptor_range_aligned)
  show "\<forall>a. usable_at (snapshot_ranges s) a \<longleftrightarrow> firmware_usable entries a"
    by (simp add: c(2) firmware_usable_def)
qed

lemma memory_initialize_boot:
  assumes "firmware_ok entries" and "\<And>w. fb = Some w \<Longrightarrow> window_aligned w"
    and "memory_initialize g entries fb = (Inr (), g')"
  shows "boot_map g' (\<lambda>a. firmware_usable entries a \<and> (\<forall>w. fb = Some w \<longrightarrow> \<not> in_window w a))"
proof (cases fb)
  case None
  with assms(3) obtain s where "copy_from entries = Inr s" "g' = Some s"
    by (auto simp: memory_initialize_def split: if_splits sum.splits)
  with copy_from_boot [OF assms(1)] None show ?thesis by (auto simp: boot_map_def)
next
  case (Some w)
  obtain start len where w: "w = (start, len)" by fastforce
  from assms(3) Some w have init: "memory_initialize g entries (Some (start, len)) = (Inr (), g')" by simp
  from init obtain s s' where s: "copy_from entries = Inr s" "g' = Some s'"
    "reserve_range s start len Device = (Inr (), s') \<or>
     reserve_range s start len Device = (Inl RangeNotFound, s) \<and>
     add_external_range s start len Device = (Inr (), s')"
    by (rule memory_initialize_cases)
  note c = copy_from_boot [OF assms(1) s(1)]
  from s(3) show ?thesis
  proof
    assume r: "reserve_range s start len Device = (Inr (), s')"
    have "reserve_range s (fst w) (snd w) Device = (Inr (), s')" using r w by simp
    from reserve_range_boot [OF c(1,2) assms(2) [OF Some] _ this] c(3) show ?thesis
      by (simp add: boot_map_def s(2) Some)
  next
    assume r: "reserve_range s start len Device = (Inl RangeNotFound, s) \<and>
      add_external_range s start len Device = (Inr (), s')"
    then have nf: "reserve_range s start len Device = (Inl RangeNotFound, s)"
      and ext: "add_external_range s start len Device = (Inr (), s')" by simp_all
    have rs: "snapshot_ranges s' = snapshot_ranges s @
        [\<lparr>mr_start = start, mr_length = len, mr_uefi_type = MMIO, mr_kind = Device\<rparr>]"
      by (rule add_external_range_Inr(4) [OF map_inv_ok [OF c(1)] ext])
    have "map_inv s'" by (rule add_external_range_inv [OF c(1) _ ext]) simp
    moreover have "usable_ranges (snapshot_ranges s') = usable_ranges (snapshot_ranges s)"
      "usable_at (snapshot_ranges s') a = usable_at (snapshot_ranges s) a" for a
      by (simp_all add: rs usable_ranges_def usable_at_def)
    moreover have "usable_at (snapshot_ranges s) a \<Longrightarrow> \<not> in_window w a" for a
      using not_found_outside [OF map_inv_ok [OF c(1)] nf, of a] by (auto simp: in_window_def w)
    ultimately show ?thesis using c(2,3) by (auto simp: boot_map_def s(2) Some)
  qed
qed

section \<open>The heap region\<close>

lemma stack_window_aligned: "window_aligned (stack_window m)"
proof -
  have "(4096 - 1 :: u64) = mask 12" by (simp add: mask_eq_exp_minus_1)
  then have "m AND NOT (4096 - 1) = m AND NOT (mask 12)" by simp
  also have "\<dots> = drop_bit 12 m * 4096"
    by (simp add: round_down_mask push_bit_eq_mult)
  finally have al: "m AND NOT (4096 - 1) = drop_bit 12 m * 4096" .
  have "4096 dvd unat (drop_bit 12 m * 4096)"
    by (simp add: unat_word_ariths dvd_mod)
  then show ?thesis
    unfolding window_aligned_def stack_window_def Let_def al
    by (simp add: unat_saturating_sub dvd_diff_nat)
qed

text \<open>Every address of a page that the frame allocator finds free was usable.\<close>

lemma free_page_usable:
  assumes "boot_map (Some s) u" and "q \<in> free_pages (allocator_new (snapshot_ranges s))"
    and "q \<le> unat a" and "unat a < q + 4096"
  shows "u a"
proof -
  from assms(1) have inv: "map_inv s" and al: "\<forall>r \<in> set (usable_ranges (snapshot_ranges s)). 4096 dvd unat (mr_start r)"
    and u: "\<forall>a. usable_at (snapshot_ranges s) a \<longleftrightarrow> u a"
    by (auto simp: boot_map_def page_aligned_def)
  from assms(2) have "q \<in> pages (usable_runs (snapshot_ranges s))"
    by (simp add: free_pages_def allocator_new_inv(2) [OF inv al])
  with pages_usable_runs [OF _ al] inv obtain r where
    "r \<in> set (usable_ranges (snapshot_ranges s))" "unat (mr_start r) \<le> q" "q + 4096 \<le> unat (mr_end r)"
    by (auto simp: map_inv_def)
  with assms(3,4) have "usable_at (snapshot_ranges s) a"
    by (auto simp: usable_at_def usable_ranges_def mr_contains_def word_le_nat_alt word_less_nat_alt
        intro!: bexI [of _ r])
  with u show ?thesis by simp
qed

lemma take_heap_Inr:
  assumes boot: "boot_map (memory_map k) u" and "take_heap k = (Inr region, k')"
  obtains a' and n :: u64 where "frame_allocator k' = Some a'" "allocator_inv a'" "n \<noteq> 0"
    "unat (region_size region) = 4096 * unat n" "4096 dvd unat (region_start region)"
    "unat (region_start region) + unat (region_size region) < 2 ^ 64"
    "block (unat (region_start region)) (unat n) \<inter> free_pages a' = {}"
    "block (unat (region_start region)) (unat n) \<subseteq>
       free_pages (allocator_new (snapshot_ranges (the (memory_map k))))"
    "heap_start k' = region_start region" "heap_size k' = region_size region"
    "memory_reserve (memory_map k) (region_start region) (region_size region) Kernel = (Inr (), memory_map k')"
proof -
  from boot obtain s where s: "memory_map k = Some s" "map_inv s"
    "\<forall>r \<in> set (usable_ranges (snapshot_ranges s)). 4096 dvd unat (mr_start r)"
    by (auto simp: boot_map_def page_aligned_def)
  let ?a = "allocator_new (snapshot_ranges s)"
  let ?n = "frame_largest_free_frames ?a"
  note inv = allocator_new_inv(1) [OF s(2,3)]
  from assms(2) s(1) obtain p a' where p: "frame_allocate_contiguous ?a ?n = (Inr p, a')"
    and r: "region = \<lparr>region_start = pr_start p, region_size = pr_length p\<rparr>"
    and k': "frame_allocator k' = Some a'" "heap_start k' = pr_start p" "heap_size k' = pr_length p"
      "memory_reserve (memory_map k) (pr_start p) (pr_length p) Kernel = (Inr (), memory_map k')"
    by (auto simp: take_heap_def frame_initialize_def global_largest_free_frames_def
        allocate_contiguous_owned_def global_allocate_contiguous_def with_allocator_eq Let_def
        split: if_splits sum.splits prod.splits)
  note c = frame_allocate_contiguous_Inr [OF inv p]
  have "block (unat (region_start region)) (unat ?n) \<inter> free_pages a' = {}" using c(2) r by auto
  moreover have "block (unat (region_start region)) (unat ?n) \<subseteq>
      free_pages (allocator_new (snapshot_ranges (the (memory_map k))))"
    using c(3) r s(1) by simp
  ultimately show thesis
    using that [of a' ?n] c(1,7-10) k' by (simp add: r)
qed

lemma page_of_address:
  assumes "4096 dvd unat (start :: u64)" and "unat (len :: u64) = 4096 * n" and "unat start + unat len < 2 ^ 64"
    and "in_window (start, len) a"
  obtains q where "q \<in> block (unat start) n" "q \<le> unat a" "unat a < q + 4096"
proof
  obtain m where m: "unat start = 4096 * m" using assms(1) by (auto elim: dvdE)
  have "unat (start + len) = 4096 * m + 4096 * n"
    using assms(2,3) m by (simp add: unat_add_exact)
  with assms(4) m have b: "4096 * m \<le> unat a" "unat a < 4096 * m + 4096 * n"
    by (simp_all add: in_window_def word_le_nat_alt word_less_nat_alt)
  let ?q = "4096 * (unat a div 4096)"
  show "?q \<le> unat a" "unat a < ?q + 4096"
    using mult_div_mod_eq [of 4096 "unat a"] mod_less_divisor [of 4096 "unat a"] by linarith+
  then have "m \<le> unat a div 4096" "unat a div 4096 < m + n"
    using b by linarith+
  then show "?q \<in> block (unat start) n"
    by (simp add: block_def m)
qed

lemma page_unique:
  fixes p q x :: nat
  assumes "4096 dvd p" and "4096 dvd q" and "p \<le> x" and "x < p + 4096" and "q \<le> x" and "x < q + 4096"
  shows "p = q"
  using same_page [OF assms(1,2)] same_page [OF assms(2,1)] assms(3-6) by (cases "p \<le> q") simp_all

section \<open>Properties\<close>

text \<open>A successful heap setup: the map before the heap was taken, the region, and any address of it.\<close>

lemma initialize_heap_steps:
  assumes "initialize_heap k entries marker fb img = (Inr region, k')"
    and "firmware_ok entries" and "\<forall>w. fb = Some w \<longrightarrow> window_aligned w" and "window_aligned img"
  obtains m2 where "boot_map m2 (\<lambda>a. ((firmware_usable entries a \<and> (\<forall>w. fb = Some w \<longrightarrow> \<not> in_window w a)) \<and>
      \<not> in_window img a) \<and> \<not> in_window (stack_window marker) a)"
    "take_heap (k\<lparr>boot_services_exited := True, memory_map := m2\<rparr>) = (Inr region, k')"
proof -
  from assms(1) obtain m m1 m2 where boot: "memory_initialize (memory_map k) entries fb = (Inr (), m)"
    "memory_reserve m (fst img) (snd img) Kernel = (Inr (), m1)"
    "memory_reserve m1 (fst (stack_window marker)) (snd (stack_window marker)) Kernel = (Inr (), m2)"
    "take_heap (k\<lparr>boot_services_exited := True, memory_map := m2\<rparr>) = (Inr region, k')"
    by (auto simp: initialize_heap_def Let_def split: if_splits sum.splits prod.splits)
  show thesis
    by (rule that [OF memory_reserve_boot [OF memory_reserve_boot [OF memory_initialize_boot [OF assms(2) _ boot(1)]
          assms(4) _ boot(2)] stack_window_aligned _ boot(3)] boot(4)]) (simp_all add: assms(3))
qed

lemma heap_region_bounds:
  assumes "initialize_heap k entries marker fb img = (Inr region, k')"
    and "firmware_ok entries" and "\<forall>w. fb = Some w \<longrightarrow> window_aligned w" and "window_aligned img"
  shows "unat (region_start region) + unat (region_size region) < 2 ^ 64 \<and> region_size region \<noteq> 0 \<and>
    heap_start k' = region_start region \<and> heap_size k' = region_size region"
proof -
  obtain m2 u where steps: "boot_map m2 u" "take_heap (k\<lparr>boot_services_exited := True, memory_map := m2\<rparr>) = (Inr region, k')"
    by (rule initialize_heap_steps [OF assms])
  then have "boot_map (memory_map (k\<lparr>boot_services_exited := True, memory_map := m2\<rparr>)) u" by simp
  then show ?thesis by (rule take_heap_Inr [OF _ steps(2)]) (auto simp: unat_eq_0)
qed

lemma heap_region_owned:
  assumes "initialize_heap k entries marker fb img = (Inr region, k')"
    and "firmware_ok entries" and "\<forall>w. fb = Some w \<longrightarrow> window_aligned w" and "window_aligned img"
    and "in_window (region_start region, region_size region) a"
  shows "firmware_usable entries a \<and> (\<forall>w. fb = Some w \<longrightarrow> \<not> in_window w a) \<and> \<not> in_window img a \<and>
    \<not> in_window (stack_window marker) a \<and>
    (\<exists>fa. frame_allocator k' = Some fa \<and> allocator_inv fa \<and>
       (\<forall>q \<in> free_pages fa. \<not> (q \<le> unat a \<and> unat a < q + 4096))) \<and>
    memory_kind_at (memory_map k') a = Some Kernel \<and>
    4096 dvd unat (region_start region) \<and> 4096 dvd unat (region_size region) \<and>
    heap_start k' = region_start region \<and> heap_size k' = region_size region"
proof -
  define u where "u = (\<lambda>a. ((firmware_usable entries a \<and> (\<forall>w. fb = Some w \<longrightarrow> \<not> in_window w a)) \<and>
      \<not> in_window img a) \<and> \<not> in_window (stack_window marker) a)"
  obtain m2 where m2: "boot_map m2 u"
      and take: "take_heap (k\<lparr>boot_services_exited := True, memory_map := m2\<rparr>) = (Inr region, k')"
    using initialize_heap_steps [OF assms(1-4)] unfolding u_def by blast
  let ?k = "k\<lparr>boot_services_exited := True, memory_map := m2\<rparr>"
  from m2 obtain s where s: "m2 = Some s" "map_inv s" by (auto simp: boot_map_def)
  have mk: "boot_map (memory_map ?k) u" using m2 by simp
  obtain fa and n :: u64 where t: "frame_allocator k' = Some fa" "allocator_inv fa" "n \<noteq> 0"
    "unat (region_size region) = 4096 * unat n" "4096 dvd unat (region_start region)"
    "unat (region_start region) + unat (region_size region) < 2 ^ 64"
    "block (unat (region_start region)) (unat n) \<inter> free_pages fa = {}"
    "block (unat (region_start region)) (unat n) \<subseteq>
       free_pages (allocator_new (snapshot_ranges (the (memory_map ?k))))"
    "heap_start k' = region_start region" "heap_size k' = region_size region"
    "memory_reserve (memory_map ?k) (region_start region) (region_size region) Kernel = (Inr (), memory_map k')"
    by (rule take_heap_Inr [OF mk take])
  obtain q where q: "q \<in> block (unat (region_start region)) (unat n)" "q \<le> unat a" "unat a < q + 4096"
    using page_of_address [OF t(5) t(4) t(6) assms(5)] by blast
  have "boot_map (Some s) u" using m2 s(1) by simp
  from free_page_usable [OF this _ q(2,3)] t(8) q(1) have ua: "u a" by (auto simp: s(1))
  have only: "\<not> (p \<le> unat a \<and> unat a < p + 4096)" if "p \<in> free_pages fa" for p
    using page_unique [of q p "unat a"] q t(7) that free_page_aligned [OF that] by (auto simp: block_def)
  have "snapshot_kind_at s a \<noteq> None"
    using ua \<open>boot_map (Some s) u\<close> by (auto simp: boot_map_def usable_at_def snapshot_kind_at_def find_None_all)
  then have "memory_kind_at (memory_map k') a = Some Kernel"
    using global_map.claimed [of "memory_map ?k" _ _ Kernel "memory_map k'" a] t(11) assms(5) s
    by (simp add: global_map_inv_def memory_kind_at_def in_window_def)
  with ua only t show ?thesis by (auto simp: u_def)
qed


lemma take_heap_frame:
  assumes "take_heap k = (r, k')" and "memory_map k \<noteq> None" and "heap_size k = 0"
  shows "memory_map k' \<noteq> None"
    and "\<forall>region. r = Inr region \<longrightarrow> heap_size k' = region_size region \<and> region_size region \<noteq> 0"
    and "\<forall>e. r = Inl e \<longrightarrow> heap_size k' = 0"
proof -
  have res: "g' \<noteq> None" if "memory_reserve g st len kind = (x, g')" "g \<noteq> None" for g g' st len kind x
    using that by (auto simp: memory_reserve_def split: prod.splits)
  show "memory_map k' \<noteq> None"
    using assms
    by (auto simp: take_heap_def Let_def split: if_splits sum.splits prod.splits dest!: res)
  have len: "pr_length p \<noteq> 0" if "frame_allocate_contiguous a n = (Inr p, a')" for a n p a'
  proof -
    from that have "n \<noteq> 0" "unat (pr_length p) = unat n * 4096"
      by (auto simp: frame_allocate_contiguous_def Let_def checked_mul_Some_iff split: if_splits option.splits)
    then show ?thesis by (auto simp: unat_gt_0 unat_eq_zero)
  qed
  show "\<forall>region. r = Inr region \<longrightarrow> heap_size k' = region_size region \<and> region_size region \<noteq> 0"
    using assms(1)
    by (auto simp: take_heap_def Let_def allocate_contiguous_owned_def global_allocate_contiguous_def
        with_allocator_eq split: if_splits sum.splits prod.splits dest: len)
  show "\<forall>e. r = Inl e \<longrightarrow> heap_size k' = 0"
    using assms(1,3)
    by (auto simp: take_heap_def Let_def split: if_splits sum.splits prod.splits)
qed

text \<open>Heap setup takes effect at most once. After a success every further call reports that and
  changes nothing; after a failure that came later than the copy of the memory map, a retry cannot
  succeed either: it leaves boot services again, fails on the map and changes nothing else.\<close>

theorem heap_setup_once:
  assumes "initialize_heap k entries marker fb img = (r, k')"
  shows "case r of
      Inr _ \<Rightarrow> initialize_heap k' entries2 marker2 fb2 img2 = (Inl HeapAlreadyInitialized, k')
    | Inl e \<Rightarrow> e \<in> {MemoryReservationFailed, FrameAllocatorUnavailable, NoConventionalMemory} \<longrightarrow>
        initialize_heap k' entries2 marker2 fb2 img2 =
          (Inl HeapMemoryMapUnavailable, k'\<lparr>boot_services_exited := True\<rparr>)"
proof -
  have retry: "initialize_heap k' entries2 marker2 fb2 img2 =
      (Inl HeapMemoryMapUnavailable, k'\<lparr>boot_services_exited := True\<rparr>)"
    if "heap_size k' = 0" "memory_map k' \<noteq> None"
    using that by (auto simp: initialize_heap_def Let_def memory_initialize_def)
  have res: "g' \<noteq> None" if "memory_reserve g st len kind = (x, g')" "g \<noteq> None" for g g' st len kind x
    using that by (auto simp: memory_reserve_def split: prod.splits)
  have init: "g' \<noteq> None" if "memory_initialize g es w = (Inr x, g')" for g es w x g'
    using that by (auto simp: memory_initialize_def split: if_splits sum.splits option.splits prod.splits
        MemoryMapError.splits)
  show ?thesis
  proof (cases "heap_size k = 0")
    case True
    let ?k1 = "k\<lparr>boot_services_exited := True\<rparr>"
    consider (fail) e m where "r = Inl e" "e = HeapMemoryMapUnavailable \<or> m \<noteq> None" "k' = ?k1\<lparr>memory_map := m\<rparr>"
      | (take) m where "take_heap (?k1\<lparr>memory_map := m\<rparr>) = (r, k')" "m \<noteq> None"
      using assms True init res
      by (auto simp: initialize_heap_def Let_def split: if_splits sum.splits prod.splits) metis+
    then show ?thesis
    proof cases
      case fail
      then show ?thesis using True retry by auto
    next
      case take
      with True have pre: "memory_map (?k1\<lparr>memory_map := m\<rparr>) \<noteq> None" "heap_size (?k1\<lparr>memory_map := m\<rparr>) = 0"
        by simp_all
      from take_heap_frame [OF take(1) pre] retry show ?thesis
        by (auto simp: initialize_heap_def split: sum.splits)
    qed
  next
    case False
    with assms show ?thesis by (auto simp: initialize_heap_def)
  qed
qed

section \<open>A concrete boot\<close>

text \<open>Low memory with the loader image and the boot stack, 2 MiB of free memory, a framebuffer.\<close>

definition boot_entries :: "MemoryDescriptor list" where
  "boot_entries =
    [\<lparr>md_ty = CONVENTIONAL, md_phys_start = 0x1000, md_page_count = 8\<rparr>,
     \<lparr>md_ty = LOADER_CODE, md_phys_start = 0x9000, md_page_count = 1\<rparr>,
     \<lparr>md_ty = CONVENTIONAL, md_phys_start = 0x100000, md_page_count = 0x200\<rparr>,
     \<lparr>md_ty = MMIO, md_phys_start = 0xFEC00000, md_page_count = 1\<rparr>]"

lemma boot_example:
  "\<exists>k'. initialize_heap initial_boot_state boot_entries 0x9800 (Some (0x100000, 0x10000)) (0x9000, 0x1000)
     = (Inr \<lparr>region_start = 0x110000, region_size = 0x1F0000\<rparr>, k')"
proof -
  have "fst (initialize_heap initial_boot_state boot_entries 0x9800 (Some (0x100000, 0x10000)) (0x9000, 0x1000))
     = Inr \<lparr>region_start = 0x110000, region_size = 0x1F0000\<rparr>"
    by code_simp
  then show ?thesis by (metis prod.collapse)
qed

lemma boot_firmware_ok: "firmware_ok boot_entries"
  by (simp add: firmware_ok_def boot_entries_def usable_ranges_def ranges_sorted_def descriptor_range_def
      mr_end_def saturating_add_def checked_add_def PAGE_SIZE_def)


lemma heap_setup_once_witness:
  "\<exists>k'. initialize_heap k' [] 0 None (0, 0) = (Inl HeapAlreadyInitialized, k')"
proof -
  obtain k' where "initialize_heap initial_boot_state boot_entries 0x9800 (Some (0x100000, 0x10000)) (0x9000, 0x1000)
     = (Inr \<lparr>region_start = 0x110000, region_size = 0x1F0000\<rparr>, k')"
    using boot_example by blast
  from heap_setup_once [OF this, of "[]" 0 None "(0, 0)"] show ?thesis
    by (intro exI [of _ k']) simp
qed

end
