(* ===== verification/Paging.thy ===== *)
theory Paging
  imports Heap "HOL-Library.Monad_Syntax"
begin

text \<open>
  Virtual-address layout and the owned bootstrap page tables, \<^verbatim>\<open>src/src/paging.rs\<close>: checked
  virtual ranges, the fixed higher-half windows, the arena of image-resident table frames, the
  checked map and unmap operations, and \<open>initialize\<close>, which identity-maps the ranges in use and
  activates the root. The page-table walker is the \<open>x86_64\<close> crate's mapper; it is a parameter
  (\<open>PagingEnv\<close>) and \<open>paging_env_ok\<close> states its documented behaviour. Results are \<open>None\<close> where
  the code panics (\<open>PhysAddr::new\<close> on an address of more than 52 bits) or does not return.
\<close>

section \<open>Virtual ranges\<close>

datatype VirtualRangeError = RangeEmpty | RangeMisaligned | NonCanonical | RangeOverflow

record VirtualRange =
  vr_start :: u64
  vr_length :: u64

definition is_canonical :: "u64 \<Rightarrow> bool" where
  "is_canonical addr \<longleftrightarrow> addr \<le> LOW_CANONICAL_MAX \<or> addr \<ge> HIGH_CANONICAL_MIN"

definition VirtualRange_new :: "u64 \<Rightarrow> u64 \<Rightarrow> (VirtualRangeError, VirtualRange) result" where
  "VirtualRange_new start len =
     (if len = 0 then Inl RangeEmpty
      else if \<not> is_multiple_of start PAGE_SIZE \<or> \<not> is_multiple_of len PAGE_SIZE
      then Inl RangeMisaligned
      else case checked_add start (len - 1) of
        None \<Rightarrow> Inl RangeOverflow
      | Some e \<Rightarrow>
          if \<not> is_canonical start \<or> \<not> is_canonical e then Inl NonCanonical
          else Inr \<lparr>vr_start = start, vr_length = len\<rparr>)"

definition vr_end_exclusive :: "VirtualRange \<Rightarrow> u64" where
  "vr_end_exclusive r = vr_start r + vr_length r"

record VirtualMemoryLayout =
  kernel_window :: VirtualRange
  heap_window :: VirtualRange
  framebuffer_window :: VirtualRange
  mmio_window :: VirtualRange
  stacks_window :: VirtualRange

text \<open>\<open>region\<close> panics at compile time on an invalid base, which is \<open>None\<close>.\<close>

definition layout_region :: "u64 \<Rightarrow> VirtualRange option" where
  "layout_region start =
     (case VirtualRange_new start (push_bit 40 1) of Inr r \<Rightarrow> Some r | Inl _ \<Rightarrow> None)"

definition VirtualMemoryLayout_new :: "VirtualMemoryLayout option" where
  "VirtualMemoryLayout_new = do {
     k \<leftarrow> layout_region KERNEL_BASE;
     h \<leftarrow> layout_region HEAP_BASE;
     f \<leftarrow> layout_region FRAMEBUFFER_BASE;
     m \<leftarrow> layout_region MMIO_BASE;
     s \<leftarrow> layout_region STACK_BASE;
     Some \<lparr>kernel_window = k, heap_window = h, framebuffer_window = f, mmio_window = m,
           stacks_window = s\<rparr>
   }"

section \<open>State\<close>

datatype PagingError =
    PagingAlreadyInitialized | PagingNotInitialized | PagingFrame FrameError
  | PagingMemoryMap MemoryMapError | AddressTooLarge | InvalidPageTableSize | MappingFailed
  | UnmappingFailed | NotDeviceMemory | PagingRange VirtualRangeError

datatype PageTableFlag = PRESENT | WRITABLE | NO_CACHE | NO_EXECUTE

record PageTableArena =
  pa_frames :: "OwnedFrame option list"
  pa_addresses :: "u64 list"
  pa_count :: nat

definition PageTableArena_new :: PageTableArena where
  "PageTableArena_new =
     \<lparr>pa_frames = replicate MAX_PAGE_TABLE_FRAMES None,
      pa_addresses = replicate MAX_PAGE_TABLE_FRAMES 0, pa_count = 0\<rparr>"

record PageTableRoot =
  ptr_frame :: OwnedFrame
  ptr_arena :: PageTableArena

text \<open>
  The statics \<open>PAGE_TABLE_ROOT\<close> and \<open>PAGING_ACTIVE\<close>, the control register CR3, and the memory that
  holds the page tables (type \<open>'m\<close>, known only through the mapper).
\<close>

record 'm PagingState =
  page_table_root :: "PageTableRoot option"
  paging_active :: bool
  cr3 :: "u64 option"
  table_memory :: 'm

text \<open>
  The environment: where the linker put \<open>PAGE_TABLE_STORAGE\<close>, writing an empty table at an address,
  writing the recursive root entry, and the two mappers of the \<open>x86_64\<close> crate. A mapper is given
  the frame allocator as a function, the table memory with the arena, a page, a frame and flags.
\<close>

type_synonym 'm tables = "PageTableArena \<times> 'm"

record 'm Mapper =
  mapper_map_to :: "('m tables \<Rightarrow> u64 option \<times> 'm tables) \<Rightarrow> 'm tables \<Rightarrow> u64 \<Rightarrow> u64 \<Rightarrow>
    PageTableFlag set \<Rightarrow> bool \<times> 'm tables"
  mapper_unmap :: "'m \<Rightarrow> u64 \<Rightarrow> u64 option \<times> 'm"

record 'm PagingEnv =
  env_storage :: u64
  env_write_table :: "u64 \<Rightarrow> 'm \<Rightarrow> 'm"
  env_set_recursive :: "u64 \<Rightarrow> 'm \<Rightarrow> 'm"
  env_offset :: "'m Mapper"
  env_recursive :: "'m Mapper"

text \<open>A result with the new state, or \<open>None\<close> for a panic.\<close>

type_synonym ('m, 'a) paging = "((PagingError, 'a) result \<times> 'm PagingState) option"

section \<open>Operations\<close>

definition storage_address :: "'m PagingEnv \<Rightarrow> nat \<Rightarrow> u64" where
  "storage_address env index = env_storage env + of_nat index * PAGE_SIZE"

text \<open>The arena's frames are image addresses; \<open>PhysAddr::new\<close> would panic on one of more than 52
  bits, which \<open>paging_env_ok\<close> excludes.\<close>

definition reserve_frame :: "'m PagingEnv \<Rightarrow> 'm tables \<Rightarrow> u64 option \<times> 'm tables" where
  "reserve_frame env t =
     (let arena = fst t in
      if pa_count arena = MAX_PAGE_TABLE_FRAMES then (None, t)
      else let addr = storage_address env (pa_count arena + 1) in
        case OwnedFrame_from_reserved addr OwnPageTable of
          None \<Rightarrow> (None, t)
        | Some owned \<Rightarrow>
            (Some addr,
             arena\<lparr>pa_addresses := (pa_addresses arena)[pa_count arena := addr],
                   pa_frames := (pa_frames arena)[pa_count arena := Some owned],
                   pa_count := pa_count arena + 1\<rparr>,
             env_write_table env addr (snd t)))"

definition recursive_table_address :: u64 where
  "recursive_table_address =
     (let index = ucast RECURSIVE_INDEX
      in (push_bit 39 index OR push_bit 30 index OR push_bit 21 index OR push_bit 12 index)
         OR 0xffff000000000000)"

text \<open>\<open>containing_address\<close> of the crate rounds down to the page; \<open>PhysAddr::new\<close> accepts 52 bits.\<close>

definition containing_page :: "u64 \<Rightarrow> u64" where
  "containing_page addr = addr AND NOT (PAGE_SIZE - 1)"

definition phys_addr_new :: "u64 \<Rightarrow> u64 option" where
  "phys_addr_new addr = (if addr < 0x10000000000000 then Some addr else None)"

definition map_on_mapper ::
  "'m PagingEnv \<Rightarrow> 'm Mapper \<Rightarrow> 'm tables \<Rightarrow> u64 \<Rightarrow> u64 \<Rightarrow> PageTableFlag set \<Rightarrow>
   ((PagingError, unit) result \<times> 'm tables) option" where
  "map_on_mapper env mapper t virtual_address physical_address flags = do {
     physical \<leftarrow> phys_addr_new physical_address;
     case mapper_map_to mapper (reserve_frame env) t (containing_page virtual_address)
            (containing_page physical) flags of
       (ok, t') \<Rightarrow> Some (if ok then Inr () else Inl MappingFailed, t')
   }"

definition unmap_on_mapper ::
  "'m Mapper \<Rightarrow> 'm tables \<Rightarrow> u64 \<Rightarrow> (PagingError, u64) result \<times> 'm tables" where
  "unmap_on_mapper mapper t virtual_address =
     (case mapper_unmap mapper (snd t) (containing_page virtual_address) of
        (None, m) \<Rightarrow> (Inl UnmappingFailed, fst t, m)
      | (Some frame, m) \<Rightarrow> (Inr frame, fst t, m))"

text \<open>
  \<open>with_offset_mapper\<close> and \<open>with_recursive_mapper\<close> differ in how they reach the root table; both
  fail before \<open>initialize\<close> and run the operation on the tables and the arena of the root.
\<close>

definition with_mapper ::
  "'m PagingState \<Rightarrow> ('m tables \<Rightarrow> ((PagingError, 'a) result \<times> 'm tables) option) \<Rightarrow>
   ('m, 'a) paging" where
  "with_mapper st operation =
     (case page_table_root st of
        None \<Rightarrow> Some (Inl PagingNotInitialized, st)
      | Some root \<Rightarrow> do {
          res \<leftarrow> operation (ptr_arena root, table_memory st);
          Some (fst res, st\<lparr>page_table_root := Some (root\<lparr>ptr_arena := fst (snd res)\<rparr>),
                            table_memory := snd (snd res)\<rparr>)
        })"

definition map_page ::
  "'m PagingEnv \<Rightarrow> 'm PagingState \<Rightarrow> u64 \<Rightarrow> u64 \<Rightarrow> PageTableFlag set \<Rightarrow> ('m, unit) paging" where
  "map_page env st virtual_address physical_address flags =
     (case VirtualRange_new virtual_address PAGE_SIZE of
        Inl e \<Rightarrow> Some (Inl (PagingRange e), st)
      | Inr run \<Rightarrow>
          if \<not> is_multiple_of physical_address PAGE_SIZE
          then Some (Inl (PagingRange RangeMisaligned), st)
          else if paging_active st
          then with_mapper st (\<lambda>t. map_on_mapper env (env_recursive env) t (vr_start run)
                 physical_address flags)
          else with_mapper st (\<lambda>t. map_on_mapper env (env_offset env) t (vr_start run)
                 physical_address flags))"

definition map_device_page ::
  "'m PagingEnv \<Rightarrow> MemoryMapSnapshot option \<Rightarrow> 'm PagingState \<Rightarrow> u64 \<Rightarrow> u64 \<Rightarrow>
   ('m, unit) paging" where
  "map_device_page env memory st virtual_address physical_address =
     (if \<not> is_multiple_of physical_address PAGE_SIZE
      then Some (Inl (PagingRange RangeMisaligned), st)
      else if memory_kind_at memory physical_address \<noteq> Some Device
      then Some (Inl NotDeviceMemory, st)
      else map_page env st virtual_address physical_address
             {PRESENT, WRITABLE, NO_CACHE, NO_EXECUTE})"

definition unmap_page :: "'m PagingEnv \<Rightarrow> 'm PagingState \<Rightarrow> u64 \<Rightarrow> ('m, u64) paging" where
  "unmap_page env st virtual_address =
     (case VirtualRange_new virtual_address PAGE_SIZE of
        Inl e \<Rightarrow> Some (Inl (PagingRange e), st)
      | Inr run \<Rightarrow>
          if paging_active st
          then with_mapper st (\<lambda>t. Some (unmap_on_mapper (env_recursive env) t (vr_start run)))
          else with_mapper st (\<lambda>t. Some (unmap_on_mapper (env_offset env) t (vr_start run))))"

text \<open>The loop of \<open>map_range\<close>; a run that never ends would be \<open>None\<close>.\<close>

partial_function (option) map_loop ::
  "'m PagingEnv \<Rightarrow> u64 \<Rightarrow> u64 \<Rightarrow> PageTableFlag set \<Rightarrow> 'm PagingState \<Rightarrow> ('m, unit) paging" where
  "map_loop env addr stop flags st =
     (if addr < stop
      then Option.bind (map_page env st addr addr flags) (\<lambda>res.
             if fst res = Inr () then map_loop env (addr + PAGE_SIZE) stop flags (snd res)
             else Some res)
      else Some (Inr (), st))"

definition map_range ::
  "'m PagingEnv \<Rightarrow> 'm PagingState \<Rightarrow> u64 \<Rightarrow> u64 \<Rightarrow> PageTableFlag set \<Rightarrow> ('m, unit) paging" where
  "map_range env st start len flags =
     (case checked_add start len of
        None \<Rightarrow> Some (Inl AddressTooLarge, st)
      | Some e \<Rightarrow>
         (let first = start div PAGE_SIZE * PAGE_SIZE in
          if is_multiple_of e PAGE_SIZE then map_loop env first e flags st
          else case checked_add e (PAGE_SIZE - 1) of
            None \<Rightarrow> Some (Inl AddressTooLarge, st)
          | Some r \<Rightarrow> map_loop env first (r div PAGE_SIZE * PAGE_SIZE) flags st))"

text \<open>\<open>and_map\<close> is the operator \<open>?\<close> between two mapping steps.\<close>

definition and_map ::
  "('m, unit) paging \<Rightarrow> ('m PagingState \<Rightarrow> ('m, unit) paging) \<Rightarrow> ('m, unit) paging" where
  "and_map r f = Option.bind r (\<lambda>res. if fst res = Inr () then f (snd res) else Some res)"

text \<open>One mapped window: round the start down, keep the end.\<close>

definition map_window ::
  "'m PagingEnv \<Rightarrow> 'm PagingState \<Rightarrow> usize \<times> usize \<Rightarrow> PageTableFlag set \<Rightarrow> ('m, unit) paging" where
  "map_window env st w flags =
     (let start = fst w AND NOT (PAGE_SIZE - 1) in
      case checked_add (fst w) (snd w) of
        None \<Rightarrow> Some (Inl AddressTooLarge, st)
      | Some e \<Rightarrow> map_range env st start (saturating_sub e start) flags)"

definition paging_initialize ::
  "'m PagingEnv \<Rightarrow> 'm PagingState \<Rightarrow> BootState \<Rightarrow> usize \<Rightarrow> usize \<times> usize \<Rightarrow> usize \<times> usize \<Rightarrow>
   ('m, unit) paging" where
  "paging_initialize env st boot stack_marker framebuffer kernel_image =
     (if page_table_root st \<noteq> None then Some (Inl PagingAlreadyInitialized, st)
      else let addr = storage_address env 0 in
        case OwnedFrame_from_reserved addr OwnPageTable of
          None \<Rightarrow> Some (Inl AddressTooLarge, st)
        | Some owned \<Rightarrow>
           (let st1 = st\<lparr>table_memory := env_write_table env addr (table_memory st),
                         page_table_root := Some \<lparr>ptr_frame = owned, ptr_arena = PageTableArena_new\<rparr>\<rparr>;
                stack_page = stack_marker AND NOT (PAGE_SIZE - 1) in
            and_map (map_window env st1 kernel_image {PRESENT, WRITABLE}) (\<lambda>st2.
            and_map (if heap_size boot \<noteq> 0
                     then map_range env st2 (heap_start boot) (heap_size boot)
                            {PRESENT, WRITABLE, NO_EXECUTE}
                     else Some (Inr (), st2)) (\<lambda>st3.
            and_map (map_window env st3 framebuffer {PRESENT, WRITABLE, NO_CACHE, NO_EXECUTE}) (\<lambda>st4.
            and_map (map_range env st4 (saturating_sub stack_page (31 * PAGE_SIZE)) (62 * PAGE_SIZE)
                       {PRESENT, WRITABLE, NO_EXECUTE}) (\<lambda>st5.
            Option.bind (phys_addr_new addr) (\<lambda>root.
              Some (Inr (), st5\<lparr>table_memory := env_set_recursive env root (table_memory st5),
                                cr3 := Some root, paging_active := True\<rparr>)))))))
     )"

section \<open>Documented behaviour of the environment\<close>

text \<open>
  \<open>translate m q\<close> is the frame and the flags that the tables in \<open>m\<close> give page \<open>q\<close>. A fresh root
  translates nothing. \<open>map_to\<close> maps a page that is not mapped, or changes nothing; it takes at most
  three frames from its allocator and cannot fail on an unmapped page while three are left. \<open>unmap\<close>
  removes one translation. The recursive entry only concerns pages of its own slot.
\<close>

definition p4_index :: "u64 \<Rightarrow> u64" where
  "p4_index q = drop_bit 39 q AND 511"

definition after_frames :: "'m PagingEnv \<Rightarrow> nat \<Rightarrow> 'm tables \<Rightarrow> 'm tables" where
  "after_frames env k t = ((\<lambda>t. snd (reserve_frame env t)) ^^ k) t"

definition mapper_ok :: "'m PagingEnv \<Rightarrow> ('m \<Rightarrow> u64 \<Rightarrow> (u64 \<times> PageTableFlag set) option) \<Rightarrow> 'm Mapper \<Rightarrow> bool" where
  "mapper_ok env translate mp \<longleftrightarrow>
     (\<forall>t q f flags ok t'. mapper_map_to mp (reserve_frame env) t q f flags = (ok, t') \<longrightarrow>
        (if ok then translate (snd t) q = None \<and> translate (snd t') = (translate (snd t))(q \<mapsto> (f, flags))
         else translate (snd t') = translate (snd t)) \<and>
        (translate (snd t) q = None \<and> pa_count (fst t) + 3 \<le> MAX_PAGE_TABLE_FRAMES \<longrightarrow> ok) \<and>
        (\<exists>k\<le>3. fst t' = fst (after_frames env k t))) \<and>
     (\<forall>m q f m'. mapper_unmap mp m q = (Some f, m') \<longrightarrow>
        (\<exists>flags. translate m q = Some (f, flags)) \<and> translate m' = (translate m)(q := None)) \<and>
     (\<forall>m q m'. mapper_unmap mp m q = (None, m') \<longrightarrow> translate m q = None \<and> translate m' = translate m)"

definition paging_env_ok :: "'m PagingEnv \<Rightarrow> ('m \<Rightarrow> u64 \<Rightarrow> (u64 \<times> PageTableFlag set) option) \<Rightarrow> bool" where
  "paging_env_ok env translate \<longleftrightarrow>
     4096 dvd unat (env_storage env) \<and> unat (env_storage env) + 4096 * 513 < 2 ^ 47 \<and>
     (\<forall>m q. translate (env_write_table env (env_storage env) m) q = None) \<and>
     (\<forall>a m q. p4_index q \<noteq> 510 \<longrightarrow> translate (env_set_recursive env a m) q = translate m q) \<and>
     mapper_ok env translate (env_offset env) \<and> mapper_ok env translate (env_recursive env)"

section \<open>Ranges and windows\<close>

lemma VirtualRange_new_Inr_iff:
  "VirtualRange_new s l = Inr r \<longleftrightarrow> l \<noteq> 0 \<and> 4096 dvd unat s \<and> 4096 dvd unat l \<and>
     unat s + unat l \<le> 2 ^ 64 \<and> is_canonical s \<and> is_canonical (s + (l - 1)) \<and>
     r = \<lparr>vr_start = s, vr_length = l\<rparr>"
proof (cases "l = 0")
  case False
  then have "unat (l - 1) = unat l - 1" "0 < unat l"
    by (simp_all add: unat_sub_exact word_le_nat_alt unat_gt_0 Suc_leI)
  then have "checked_add s (l - 1) = (if unat s + unat l \<le> 2 ^ 64 then Some (s + (l - 1)) else None)"
    by (auto simp: checked_add_def)
  with False show ?thesis
    by (auto simp: VirtualRange_new_def rust_arith)
qed (simp add: VirtualRange_new_def)

lemma low_page_range:
  assumes "4096 dvd unat a" and "unat a + 4096 \<le> 2 ^ 47"
  shows "VirtualRange_new a PAGE_SIZE = Inr \<lparr>vr_start = a, vr_length = PAGE_SIZE\<rparr>"
proof -
  have "unat (a + (PAGE_SIZE - 1)) = unat a + 4095"
    using assms(2) by (subst unat_add_exact) (simp_all add: PAGE_SIZE_def)
  with assms show ?thesis
    by (simp add: VirtualRange_new_Inr_iff is_canonical_def word_le_nat_alt LOW_CANONICAL_MAX_def)
qed

lemma unat_round_down: "unat (a AND NOT (PAGE_SIZE - 1)) = 4096 * (unat a div 4096)"
proof -
  have m: "PAGE_SIZE - 1 = mask 12" by (simp add: PAGE_SIZE_def mask_eq_exp_minus_1)
  have "unat (drop_bit 12 a) = unat a div 4096"
    by (simp add: drop_bit_eq_div unat_div)
  moreover have "4096 * (unat a div 4096) < 2 ^ 64"
    using unat_bound [of a] mult_div_mod_eq [of 4096 "unat a"] by simp
  ultimately show ?thesis
    unfolding m round_down_mask by (simp add: push_bit_eq_mult unat_word_ariths mult.commute)
qed

lemma aligned_word: "4096 dvd unat (a :: u64) \<Longrightarrow> containing_page a = a"
  by (simp add: containing_page_def word_unat_eq_iff unat_round_down)

section \<open>Mapping one page\<close>

definition same_root :: "'m PagingState \<Rightarrow> 'm PagingState \<Rightarrow> bool" where
  "same_root st st' \<longleftrightarrow> paging_active st' = paging_active st \<and> cr3 st' = cr3 st \<and>
     map_option ptr_frame (page_table_root st') = map_option ptr_frame (page_table_root st)"

lemma same_root_refl [simp]: "same_root st st"
  by (simp add: same_root_def)

lemma same_root_trans: "same_root a b \<Longrightarrow> same_root b c \<Longrightarrow> same_root a c"
  by (simp add: same_root_def)

lemma same_root_Some: "same_root a b \<Longrightarrow> page_table_root a \<noteq> None \<Longrightarrow> page_table_root b \<noteq> None"
  by (auto simp: same_root_def)

lemma mapper_ok_map_to:
  assumes "mapper_ok env translate mp" and "mapper_map_to mp (reserve_frame env) t q f flags = (ok, t')"
  shows "if ok then translate (snd t) q = None \<and> translate (snd t') = (translate (snd t))(q \<mapsto> (f, flags))
      else translate (snd t') = translate (snd t)"
    and "translate (snd t) q = None \<Longrightarrow> pa_count (fst t) + 3 \<le> MAX_PAGE_TABLE_FRAMES \<Longrightarrow> ok"
    and "\<exists>k\<le>3. fst t' = fst (after_frames env k t)"
proof -
  have "\<forall>t q f flags ok t'. mapper_map_to mp (reserve_frame env) t q f flags = (ok, t') \<longrightarrow>
      (if ok then translate (snd t) q = None \<and> translate (snd t') = (translate (snd t))(q \<mapsto> (f, flags))
       else translate (snd t') = translate (snd t)) \<and>
      (translate (snd t) q = None \<and> pa_count (fst t) + 3 \<le> MAX_PAGE_TABLE_FRAMES \<longrightarrow> ok) \<and>
      (\<exists>k\<le>3. fst t' = fst (after_frames env k t))"
    using assms(1) unfolding mapper_ok_def by (rule conjunct1)
  from this [rule_format, OF assms(2)]
  show "if ok then translate (snd t) q = None \<and> translate (snd t') = (translate (snd t))(q \<mapsto> (f, flags))
      else translate (snd t') = translate (snd t)"
    and "translate (snd t) q = None \<Longrightarrow> pa_count (fst t) + 3 \<le> MAX_PAGE_TABLE_FRAMES \<Longrightarrow> ok"
    and "\<exists>k\<le>3. fst t' = fst (after_frames env k t)"
    by blast+
qed

definition active_mapper :: "'m PagingEnv \<Rightarrow> 'm PagingState \<Rightarrow> 'm Mapper" where
  "active_mapper env st = (if paging_active st then env_recursive env else env_offset env)"

lemma active_mapper_ok: "paging_env_ok env translate \<Longrightarrow> mapper_ok env translate (active_mapper env st)"
  by (simp add: paging_env_ok_def active_mapper_def)

text \<open>The arena of the root after the call is its arena before, advanced by at most three frames.\<close>

definition arena_advanced :: "'m PagingEnv \<Rightarrow> 'm PagingState \<Rightarrow> 'm PagingState \<Rightarrow> bool" where
  "arena_advanced env st st' \<longleftrightarrow> (\<forall>root root'. page_table_root st = Some root \<longrightarrow>
     page_table_root st' = Some root' \<longrightarrow>
     (\<exists>k m. k \<le> 3 \<and> ptr_arena root' = fst (after_frames env k (ptr_arena root, m))))"

lemma map_page_checked:
  assumes env: "paging_env_ok env translate" and root: "page_table_root st = Some root"
    and v: "VirtualRange_new v PAGE_SIZE = Inr w" and p: "4096 dvd unat p" "p < 0x10000000000000"
  obtains r st' where "map_page env st v p flags = Some (r, st')" "same_root st st'"
    "arena_advanced env st st'"
    "r = Inr () \<and> translate (table_memory st) v = None \<and>
       translate (table_memory st') = (translate (table_memory st))(v \<mapsto> (p, flags)) \<or>
     r = Inl MappingFailed \<and> translate (table_memory st') = translate (table_memory st) \<and>
       (translate (table_memory st) v \<noteq> None \<or> MAX_PAGE_TABLE_FRAMES < pa_count (ptr_arena root) + 3)"
proof -
  obtain ok t' where t': "mapper_map_to (active_mapper env st) (reserve_frame env)
      (ptr_arena root, table_memory st) v p flags = (ok, t')"
    by (meson surj_pair)
  have va: "4096 dvd unat v" "w = \<lparr>vr_start = v, vr_length = PAGE_SIZE\<rparr>"
    using v by (simp_all add: VirtualRange_new_Inr_iff)
  note laws = mapper_ok_map_to [OF active_mapper_ok [OF env] t', unfolded fst_conv snd_conv]
  let ?st = "st\<lparr>page_table_root := Some (root\<lparr>ptr_arena := fst t'\<rparr>), table_memory := snd t'\<rparr>"
  have eq: "map_page env st v p flags = Some (if ok then Inr () else Inl MappingFailed, ?st)"
    using root va p t'
    by (auto simp: map_page_def v with_mapper_def map_on_mapper_def phys_addr_new_def aligned_word
        rust_arith active_mapper_def split: if_splits)
  from laws(3) have "arena_advanced env st ?st"
    by (auto simp: arena_advanced_def root)
  moreover have "same_root st ?st" by (simp add: same_root_def root)
  moreover have "(if ok then Inr () else Inl MappingFailed) = Inr () \<and> translate (table_memory st) v = None \<and>
       translate (table_memory ?st) = (translate (table_memory st))(v \<mapsto> (p, flags)) \<or>
     (if ok then Inr () else Inl MappingFailed) = Inl MappingFailed \<and>
       translate (table_memory ?st) = translate (table_memory st) \<and>
       (translate (table_memory st) v \<noteq> None \<or> MAX_PAGE_TABLE_FRAMES < pa_count (ptr_arena root) + 3)"
    using laws(1,2) not_less [of MAX_PAGE_TABLE_FRAMES "pa_count (ptr_arena root) + 3"]
    by (cases ok; cases "translate (table_memory st) v") auto
  ultimately show thesis using that eq by blast
qed

section \<open>Mapping a range\<close>

definition page_run :: "u64 \<Rightarrow> nat \<Rightarrow> u64 set" where
  "page_run a k = {q. unat q \<in> block (unat a) k}"

definition overlay :: "u64 set \<Rightarrow> PageTableFlag set \<Rightarrow> (u64 \<Rightarrow> (u64 \<times> PageTableFlag set) option) \<Rightarrow>
    u64 \<Rightarrow> (u64 \<times> PageTableFlag set) option" where
  "overlay P flags tr = (\<lambda>q. if q \<in> P then Some (q, flags) else tr q)"

lemma page_run_0 [simp]: "page_run a 0 = {}"
  by (simp add: page_run_def)

lemma page_run_Suc:
  assumes "4096 dvd unat a" and "unat a + 4096 < 2 ^ 64"
  shows "page_run a (Suc k) = insert a (page_run (a + PAGE_SIZE) k)" and "a \<notin> page_run (a + PAGE_SIZE) k"
proof -
  have next_page: "unat (a + PAGE_SIZE) = unat a + 4096"
    using assms(2) by (simp add: unat_add_exact)
  have "block (unat a) (Suc k) = insert (unat a) (block (unat a + 4096) k)"
    using block_add [of "unat a" 1 k] assms(1) by simp
  then show "page_run a (Suc k) = insert a (page_run (a + PAGE_SIZE) k)"
    by (auto simp: page_run_def next_page word_unat_eq_iff)
  show "a \<notin> page_run (a + PAGE_SIZE) k"
    by (simp add: page_run_def next_page block_def)
qed

lemma map_loop_result:
  assumes env: "paging_env_ok env translate" and root: "page_table_root st \<noteq> None"
    and a: "4096 dvd unat a" and stop: "unat stop = unat a + 4096 * n" "unat stop \<le> 2 ^ 47"
  shows "\<exists>r st' k. map_loop env a stop flags st = Some (r, st') \<and> same_root st st' \<and> k \<le> n \<and>
    r = (if k = n then Inr () else Inl MappingFailed) \<and>
    (\<forall>q \<in> page_run a k. translate (table_memory st) q = None) \<and>
    translate (table_memory st') = overlay (page_run a k) flags (translate (table_memory st))"
  using root a stop(1)
proof (induction n arbitrary: a st)
  case 0
  then have "\<not> a < stop" by (simp add: word_less_nat_alt)
  then have "map_loop env a stop flags st = Some (Inr (), st)" by (subst map_loop.simps) simp
  then show ?case by (intro exI [of _ "Inr ()"] exI [of _ st] exI [of _ 0]) (simp add: overlay_def)
next
  case (Suc n)
  from Suc.prems(3) stop(2) have lt: "a < stop" and b: "unat a + 4096 \<le> 2 ^ 47"
    by (simp_all add: word_less_nat_alt)
  obtain root where rt: "page_table_root st = Some root" using Suc.prems(1) by blast
  have p: "a < 0x10000000000000" using b by (simp add: word_less_nat_alt)
  obtain r st1 where m: "map_page env st a a flags = Some (r, st1)" "same_root st st1"
    "r = Inr () \<and> translate (table_memory st) a = None \<and>
       translate (table_memory st1) = (translate (table_memory st))(a \<mapsto> (a, flags)) \<or>
     r = Inl MappingFailed \<and> translate (table_memory st1) = translate (table_memory st)"
    using map_page_checked [OF env rt low_page_range [OF Suc.prems(2) b] Suc.prems(2) p] by metis
  note run = page_run_Suc [OF Suc.prems(2)]
  have small: "unat a + 4096 < 2 ^ 64" using b by simp
  show ?case
  proof (cases "r = Inr ()")
    case True
    with m(1) lt have step: "map_loop env a stop flags st = map_loop env (a + PAGE_SIZE) stop flags st1"
      by (subst map_loop.simps) simp
    have nx: "unat (a + PAGE_SIZE) = unat a + 4096" using small by (simp add: unat_add_exact)
    have "page_table_root st1 \<noteq> None" by (rule same_root_Some [OF m(2) Suc.prems(1)])
    moreover have "4096 dvd unat (a + PAGE_SIZE)" using Suc.prems(2) by (simp add: nx)
    moreover have "unat stop = unat (a + PAGE_SIZE) + 4096 * n" using Suc.prems(3) by (simp add: nx)
    ultimately obtain r' st' k where IH: "map_loop env (a + PAGE_SIZE) stop flags st1 = Some (r', st')"
      "same_root st1 st'" "k \<le> n" "r' = (if k = n then Inr () else Inl MappingFailed)"
      "\<forall>q \<in> page_run (a + PAGE_SIZE) k. translate (table_memory st1) q = None"
      "translate (table_memory st') = overlay (page_run (a + PAGE_SIZE) k) flags (translate (table_memory st1))"
      using Suc.IH by blast
    have tr: "translate (table_memory st) a = None"
      "translate (table_memory st1) = (translate (table_memory st))(a \<mapsto> (a, flags))"
      using m(3) True by auto
    have "\<forall>q \<in> page_run a (Suc k). translate (table_memory st) q = None"
      using IH(5) tr run [OF small] by (metis fun_upd_apply insertE)
    moreover have "translate (table_memory st') = overlay (page_run a (Suc k)) flags (translate (table_memory st))"
      using IH(6) tr run [OF small] by (auto simp: overlay_def)
    ultimately show ?thesis
      using IH step same_root_trans [OF m(2) IH(2)]
      by (intro exI [of _ r'] exI [of _ st'] exI [of _ "Suc k"]) simp
  next
    case False
    with m(1) lt have "map_loop env a stop flags st = Some (r, st1)"
      by (subst map_loop.simps) simp
    with m False show ?thesis
      by (intro exI [of _ r] exI [of _ st1] exI [of _ 0]) (auto simp: overlay_def)
  qed
qed

text \<open>The pages that touch a byte range.\<close>

definition touched_pages :: "u64 \<Rightarrow> u64 \<Rightarrow> u64 set" where
  "touched_pages start len = {q. 4096 dvd unat q \<and> unat q < unat start + unat len \<and> unat start < unat q + 4096}"

definition pages_up :: "nat \<Rightarrow> nat" where
  "pages_up e = (e + 4095) div 4096"

lemma touched_pages_run:
  assumes "unat a = 4096 * (unat start div 4096)"
  shows "touched_pages start len = page_run a (pages_up (unat start + unat len) - unat start div 4096)"
proof -
  let ?s = "unat start" and ?e = "unat start + unat len"
  have "(4096 dvd q \<and> q < ?e \<and> ?s < q + 4096) \<longleftrightarrow> q \<in> block (4096 * (?s div 4096)) (pages_up ?e - ?s div 4096)" for q
  proof (cases "4096 dvd q")
    case True
    then obtain k where k: "q = 4096 * k" by (auto elim: dvdE)
    have "q < ?e \<longleftrightarrow> k < pages_up ?e" by (simp add: k pages_up_def) linarith
    moreover have "?s < q + 4096 \<longleftrightarrow> ?s div 4096 \<le> k" by (simp add: k) linarith
    ultimately show ?thesis
      by (simp add: block_def k) linarith
  qed (simp add: block_def)
  then show ?thesis
    by (auto simp: touched_pages_def page_run_def assms)
qed

lemma map_range_result:
  assumes env: "paging_env_ok env translate" and root: "page_table_root st \<noteq> None"
    and low: "unat start + unat len \<le> 2 ^ 47"
  shows "\<exists>r st'. map_range env st start len flags = Some (r, st') \<and> same_root st st' \<and>
    (r = Inr () \<and> (\<forall>q \<in> touched_pages start len. translate (table_memory st) q = None) \<and>
       translate (table_memory st') = overlay (touched_pages start len) flags (translate (table_memory st)) \<or>
     r = Inl MappingFailed \<and> (\<exists>k. translate (table_memory st') =
         overlay (page_run (start div PAGE_SIZE * PAGE_SIZE) k) flags (translate (table_memory st))) )"
proof -
  let ?first = "start div PAGE_SIZE * PAGE_SIZE"
  let ?e = "unat start + unat len"
  let ?n = "pages_up ?e - unat start div 4096"
  have first: "unat ?first = 4096 * (unat start div 4096)"
  proof -
    have "4096 * (unat start div 4096) < 2 ^ 64"
      using unat_bound [of start] mult_div_mod_eq [of 4096 "unat start"] by simp
    then show ?thesis by (simp add: unat_word_ariths unat_div mult.commute)
  qed
  have e: "checked_add start len = Some (start + len)" "unat (start + len) = ?e"
    using low by (simp_all add: checked_add_def unat_add_exact)
  have up: "4096 * pages_up ?e < ?e + 4096" "unat start div 4096 \<le> pages_up ?e" "?e \<le> 4096 * pages_up ?e"
    by (simp_all add: pages_up_def)
  obtain stop where loop: "map_range env st start len flags = map_loop env ?first stop flags st"
    and stop: "unat stop = 4096 * pages_up ?e"
  proof (cases "4096 dvd ?e")
    case True
    then have "unat (start + len) = 4096 * pages_up ?e"
      unfolding e(2) pages_up_def by (auto elim!: dvdE)
    with True show thesis
      by (intro that [of "start + len"]) (simp_all add: map_range_def e is_multiple_of_iff Let_def)
  next
    case False
    have c: "checked_add (start + len) (PAGE_SIZE - 1) = Some (start + len + (PAGE_SIZE - 1))"
      "unat (start + len + (PAGE_SIZE - 1)) = ?e + 4095"
      using low e(2) by (simp_all add: checked_add_def unat_add_exact PAGE_SIZE_def)
    have "4096 * pages_up ?e < 2 ^ 64" using up(1) low by simp
    then have "unat ((start + len + (PAGE_SIZE - 1)) div PAGE_SIZE * PAGE_SIZE) = 4096 * pages_up ?e"
      by (subst unat_mult_exact) (simp_all add: unat_div c(2) pages_up_def mult.commute)
    with False show thesis
      by (intro that [of "(start + len + (PAGE_SIZE - 1)) div PAGE_SIZE * PAGE_SIZE"])
        (simp_all add: map_range_def e c(1) is_multiple_of_iff Let_def)
  qed
  have "4096 * pages_up ?e \<le> 2 ^ 47"
  proof -
    have "pages_up ?e \<le> 2 ^ 35" using low by (simp add: pages_up_def)
    then show ?thesis by simp
  qed
  then have "unat stop \<le> 2 ^ 47" "unat stop = unat ?first + 4096 * ?n" "4096 dvd unat ?first"
    using stop first up(2) by (simp_all add: distrib_left diff_mult_distrib2)
  from map_loop_result [OF env root this(3,2,1), of flags] obtain r st' k where
    l: "map_loop env ?first stop flags st = Some (r, st')" "same_root st st'" "k \<le> ?n"
      "r = (if k = ?n then Inr () else Inl MappingFailed)"
      "\<forall>q \<in> page_run ?first k. translate (table_memory st) q = None"
      "translate (table_memory st') = overlay (page_run ?first k) flags (translate (table_memory st))"
    by blast
  have "touched_pages start len = page_run ?first ?n"
    by (rule touched_pages_run [OF first])
  with l loop show ?thesis
    by (cases "k = ?n") auto
qed

lemma map_window_result:
  assumes env: "paging_env_ok env translate" and root: "page_table_root st \<noteq> None"
    and low: "unat (fst w) + unat (snd w) \<le> 2 ^ 47"
  shows "\<exists>r st'. map_window env st w flags = Some (r, st') \<and> same_root st st' \<and>
    (r = Inr () \<longrightarrow> (\<forall>q \<in> touched_pages (fst w) (snd w). translate (table_memory st) q = None) \<and>
       translate (table_memory st') = overlay (touched_pages (fst w) (snd w)) flags (translate (table_memory st)))"
proof -
  let ?s = "fst w AND NOT (PAGE_SIZE - 1)" and ?e = "fst w + snd w"
  have e: "checked_add (fst w) (snd w) = Some ?e" "unat ?e = unat (fst w) + unat (snd w)"
    using low by (simp_all add: checked_add_def unat_add_exact)
  have s: "unat ?s = 4096 * (unat (fst w) div 4096)" by (rule unat_round_down)
  have le: "unat ?s \<le> unat (fst w)" unfolding s by simp
  have len: "unat (saturating_sub ?e ?s) = unat ?e - unat ?s" by (simp add: unat_saturating_sub)
  have "touched_pages ?s (saturating_sub ?e ?s) = touched_pages (fst w) (snd w)"
  proof -
    have "unat ?s + unat (saturating_sub ?e ?s) = unat (fst w) + unat (snd w)"
      using le e(2) len by simp
    moreover have "unat ?s < q + 4096 \<longleftrightarrow> unat (fst w) < q + 4096" if dq: "4096 dvd q" for q
    proof -
      obtain k where "q = 4096 * k" using dq by (elim dvdE)
      have "unat (fst w) < 4096 * k + 4096 \<longleftrightarrow> unat (fst w) div 4096 \<le> k" by linarith
      moreover have "4096 * (unat (fst w) div 4096) < 4096 * k + 4096 \<longleftrightarrow> unat (fst w) div 4096 \<le> k" by linarith
      ultimately show ?thesis unfolding s \<open>q = 4096 * k\<close> by simp
    qed
    ultimately show ?thesis by (auto simp: touched_pages_def)
  qed
  moreover have "unat ?s + unat (saturating_sub ?e ?s) \<le> 2 ^ 47"
    using le e(2) len low by simp
  ultimately show ?thesis
    using map_range_result [OF env root, of ?s "saturating_sub ?e ?s" flags] e(1)
    by (fastforce simp: map_window_def Let_def)
qed

section \<open>The arena\<close>

text \<open>The frames taken so far are the first cells of the image storage after the root's.\<close>

definition arena_inv :: "'m PagingEnv \<Rightarrow> PageTableArena \<Rightarrow> bool" where
  "arena_inv env ar \<longleftrightarrow> length (pa_frames ar) = MAX_PAGE_TABLE_FRAMES \<and>
     length (pa_addresses ar) = MAX_PAGE_TABLE_FRAMES \<and> pa_count ar \<le> MAX_PAGE_TABLE_FRAMES \<and>
     (\<forall>i < pa_count ar. pa_addresses ar ! i = storage_address env (i + 1) \<and>
        pa_frames ar ! i = Some \<lparr>of_frame = FrameAddress (storage_address env (i + 1)), of_owner = OwnPageTable\<rparr>)"

lemma storage_address_aligned:
  assumes "paging_env_ok env translate" and "i \<le> 512"
  shows "unat (storage_address env i) = unat (env_storage env) + 4096 * i"
    and "4096 dvd unat (storage_address env i)"
proof -
  have b: "unat (env_storage env) + 4096 * 513 < 2 ^ 47" "4096 dvd unat (env_storage env)"
    using assms(1) by (simp_all add: paging_env_ok_def)
  have "unat (of_nat i * PAGE_SIZE) = i * 4096"
    using assms(2) by (subst unat_mult_exact) (simp_all add: unat_of_nat)
  with b assms(2) show u: "unat (storage_address env i) = unat (env_storage env) + 4096 * i"
    unfolding storage_address_def by (subst unat_add_exact) simp_all
  show "4096 dvd unat (storage_address env i)" unfolding u using b(2) by simp
qed

lemma reserve_frame_arena:
  assumes env: "paging_env_ok env translate" and inv: "arena_inv env ar"
    and res: "reserve_frame env (ar, m) = (r, ar', m')"
  shows "arena_inv env ar'"
    and "if pa_count ar = MAX_PAGE_TABLE_FRAMES then r = None \<and> ar' = ar
      else r = Some (storage_address env (pa_count ar + 1)) \<and> pa_count ar' = pa_count ar + 1"
proof -
  let ?a = "storage_address env (pa_count ar + 1)"
  have "arena_inv env ar' \<and> (if pa_count ar = MAX_PAGE_TABLE_FRAMES then r = None \<and> ar' = ar
      else r = Some ?a \<and> pa_count ar' = pa_count ar + 1)"
  proof (cases "pa_count ar = MAX_PAGE_TABLE_FRAMES")
    case True
    with inv res show ?thesis by (simp add: reserve_frame_def)
  next
    case False
    with inv have lt: "pa_count ar < MAX_PAGE_TABLE_FRAMES" by (simp add: arena_inv_def)
    then have "is_multiple_of ?a PAGE_SIZE"
      using storage_address_aligned(2) [OF env, of "pa_count ar + 1"]
      by (simp add: is_multiple_of_iff MAX_PAGE_TABLE_FRAMES_def)
    then have "OwnedFrame_from_reserved ?a OwnPageTable = Some \<lparr>of_frame = FrameAddress ?a, of_owner = OwnPageTable\<rparr>"
      by (simp add: OwnedFrame_from_reserved_def FrameAddress_new_def)
    with False lt inv res show ?thesis
      by (auto simp: reserve_frame_def Let_def arena_inv_def nth_list_update less_Suc_eq)
  qed
  then show "arena_inv env ar'"
    and "if pa_count ar = MAX_PAGE_TABLE_FRAMES then r = None \<and> ar' = ar
      else r = Some ?a \<and> pa_count ar' = pa_count ar + 1" by simp_all
qed

lemma after_frames_inv:
  assumes "paging_env_ok env translate" and "arena_inv env (fst t)"
  shows "arena_inv env (fst (after_frames env k t)) \<and>
    pa_count (fst t) \<le> pa_count (fst (after_frames env k t)) \<and>
    pa_count (fst (after_frames env k t)) \<le> pa_count (fst t) + k"
  using assms(2)
proof (induction k)
  case (Suc k)
  let ?t = "after_frames env k t"
  obtain r ar m where res: "reserve_frame env (fst ?t, snd ?t) = (r, ar, m)"
    by (cases "reserve_frame env (fst ?t, snd ?t)" rule: prod_cases3) blast
  have "after_frames env (Suc k) t = (ar, m)"
    using res by (simp add: after_frames_def)
  moreover have "arena_inv env (fst ?t)" using Suc by simp
  from reserve_frame_arena [OF assms(1) this res] Suc
  have "arena_inv env ar" "pa_count (fst ?t) \<le> pa_count ar" "pa_count ar \<le> pa_count (fst ?t) + 1"
    by (auto split: if_splits)
  ultimately show ?case using Suc by auto
qed (simp add: after_frames_def)

section \<open>Properties\<close>

text \<open>\<open>VirtualRange::new\<close> reports the first check that fails and otherwise returns the range. An
  accepted range holds only canonical addresses exactly when both of its ends lie in the same half
  of the address space: the check of the two ends alone lets a range span the hole.\<close>

theorem virtual_range_checks:
  "VirtualRange_new s l =
    (if l = 0 then Inl RangeEmpty
     else if \<not> 4096 dvd unat s \<or> \<not> 4096 dvd unat l then Inl RangeMisaligned
     else if 2 ^ 64 < unat s + unat l then Inl RangeOverflow
     else if \<not> is_canonical s \<or> \<not> is_canonical (s + (l - 1)) then Inl NonCanonical
     else Inr \<lparr>vr_start = s, vr_length = l\<rparr>) \<and>
   (VirtualRange_new s l = Inr r \<longrightarrow>
     ((\<forall>a. s \<le> a \<and> a \<le> s + (l - 1) \<longrightarrow> is_canonical a) \<longleftrightarrow>
      (s \<le> LOW_CANONICAL_MAX \<longrightarrow> s + (l - 1) \<le> LOW_CANONICAL_MAX)))"
proof (intro conjI impI)
  show "VirtualRange_new s l =
    (if l = 0 then Inl RangeEmpty
     else if \<not> 4096 dvd unat s \<or> \<not> 4096 dvd unat l then Inl RangeMisaligned
     else if 2 ^ 64 < unat s + unat l then Inl RangeOverflow
     else if \<not> is_canonical s \<or> \<not> is_canonical (s + (l - 1)) then Inl NonCanonical
     else Inr \<lparr>vr_start = s, vr_length = l\<rparr>)"
  proof (cases "l = 0")
    case False
    then have "unat (l - 1) = unat l - 1" "0 < unat l"
      by (simp_all add: unat_sub_exact word_le_nat_alt unat_gt_0 Suc_leI)
    then have "checked_add s (l - 1) = (if 2 ^ 64 < unat s + unat l then None else Some (s + (l - 1)))"
      by (auto simp: checked_add_def)
    with False show ?thesis
      by (simp add: VirtualRange_new_def is_multiple_of_iff)
  qed (simp add: VirtualRange_new_def)
next
  assume "VirtualRange_new s l = Inr r"
  then have c: "is_canonical s" "is_canonical (s + (l - 1))" "l \<noteq> 0" "unat s + unat l \<le> 2 ^ 64"
    by (simp_all add: VirtualRange_new_Inr_iff)
  let ?e = "s + (l - 1)"
  have l1: "unat (l - 1) = unat l - 1" "0 < unat l"
    using c(3) by (simp_all add: unat_sub_exact word_le_nat_alt unat_gt_0 Suc_leI)
  then have "unat ?e = unat s + unat l - 1"
    using c(4) by (subst unat_add_exact) simp_all
  then have se: "s \<le> ?e" using l1(2) by (simp add: word_le_nat_alt)
  show "(\<forall>a. s \<le> a \<and> a \<le> ?e \<longrightarrow> is_canonical a) \<longleftrightarrow> (s \<le> LOW_CANONICAL_MAX \<longrightarrow> ?e \<le> LOW_CANONICAL_MAX)"
  proof
    assume all: "\<forall>a. s \<le> a \<and> a \<le> ?e \<longrightarrow> is_canonical a"
    show "s \<le> LOW_CANONICAL_MAX \<longrightarrow> ?e \<le> LOW_CANONICAL_MAX"
    proof (rule impI, rule ccontr)
      assume low: "s \<le> LOW_CANONICAL_MAX" and high: "\<not> ?e \<le> LOW_CANONICAL_MAX"
      let ?h = "0x0000800000000000 :: u64"
      from high have "HIGH_CANONICAL_MIN \<le> ?e" using c(2) by (simp add: is_canonical_def)
      moreover have "LOW_CANONICAL_MAX < ?h" "?h < HIGH_CANONICAL_MIN"
        by (simp_all add: LOW_CANONICAL_MAX_def HIGH_CANONICAL_MIN_def)
      ultimately have "s \<le> ?h" "?h \<le> ?e" "\<not> is_canonical ?h"
        using low by (auto simp: is_canonical_def)
      with all show False by blast
    qed
  next
    assume half: "s \<le> LOW_CANONICAL_MAX \<longrightarrow> ?e \<le> LOW_CANONICAL_MAX"
    show "\<forall>a. s \<le> a \<and> a \<le> ?e \<longrightarrow> is_canonical a"
    proof (intro allI impI)
      fix a assume a: "s \<le> a \<and> a \<le> ?e"
      show "is_canonical a"
      proof (cases "s \<le> LOW_CANONICAL_MAX")
        case True
        with half a show ?thesis by (meson is_canonical_def order_trans)
      next
        case False
        with c(1) have "HIGH_CANONICAL_MIN \<le> s" by (simp add: is_canonical_def)
        with a show ?thesis by (meson is_canonical_def order_trans)
      qed
    qed
  qed
qed

lemma layout_region_eq:
  assumes "4096 dvd unat b" and "unat b + 2 ^ 40 \<le> 2 ^ 64" and "HIGH_CANONICAL_MIN \<le> b"
  shows "layout_region b = Some \<lparr>vr_start = b, vr_length = 0x10000000000\<rparr>"
proof -
  have "unat (b + (0x10000000000 - 1)) = unat b + (2 ^ 40 - 1)"
    using assms(2) by (subst unat_add_exact) simp_all
  with assms have "b \<le> b + (0x10000000000 - 1)" by (simp add: word_le_nat_alt)
  with assms(3) have "HIGH_CANONICAL_MIN \<le> b + (0x10000000000 - 1)" by (rule order_trans)
  with assms have "VirtualRange_new b 0x10000000000 = Inr \<lparr>vr_start = b, vr_length = 0x10000000000\<rparr>"
    by (simp add: VirtualRange_new_Inr_iff is_canonical_def)
  then show ?thesis by (simp add: layout_region_def push_bit_eq_mult)
qed

text \<open>The fixed layout is valid: no base makes \<open>region\<close> panic, every window has 1 TiB, the five
  windows are pairwise disjoint, all their addresses are canonical, and none of them lies in the
  recursive slot of the root table.\<close>

theorem layout_windows_disjoint:
  "\<exists>l. VirtualMemoryLayout_new = Some l \<and>
     (let ws = map (\<lambda>w. (vr_start w, vr_length w))
        [kernel_window l, heap_window l, framebuffer_window l, mmio_window l, stacks_window l]
      in list_all (\<lambda>w. snd w = 0x10000000000) ws \<and>
         (\<forall>a i j. i < 5 \<and> j < 5 \<and> in_window (ws ! i) a \<and> in_window (ws ! j) a \<longrightarrow> i = j) \<and>
         (\<forall>a i. i < 5 \<and> in_window (ws ! i) a \<longrightarrow> is_canonical a \<and> p4_index a \<noteq> 510))"
proof -
  let ?w = "\<lambda>b. \<lparr>vr_start = b, vr_length = 0x10000000000\<rparr>"
  let ?l = "\<lparr>kernel_window = ?w KERNEL_BASE, heap_window = ?w HEAP_BASE, framebuffer_window = ?w FRAMEBUFFER_BASE,
    mmio_window = ?w MMIO_BASE, stacks_window = ?w STACK_BASE\<rparr>"
  let ?ws = "map (\<lambda>b. (b, 0x10000000000 :: u64)) [KERNEL_BASE, HEAP_BASE, FRAMEBUFFER_BASE, MMIO_BASE, STACK_BASE]"
  note bases = KERNEL_BASE_def HEAP_BASE_def FRAMEBUFFER_BASE_def MMIO_BASE_def STACK_BASE_def
  have new: "VirtualMemoryLayout_new = Some ?l"
    by (simp add: VirtualMemoryLayout_new_def layout_region_eq bases HIGH_CANONICAL_MIN_def)
  have p4: "unat (p4_index a) = unat a div 2 ^ 39 mod 512" for a
  proof -
    have "p4_index a = take_bit 9 (drop_bit 39 a)"
      by (simp add: p4_index_def take_bit_eq_mask mask_eq_exp_minus_1)
    then show ?thesis by (simp add: take_bit_eq_mod drop_bit_eq_div unat_mod unat_div)
  qed
  have win: "in_window (b, 0x10000000000) a \<longleftrightarrow> unat b \<le> unat a \<and> unat a < unat b + 0x10000000000"
    if "unat b + 0x10000000000 < 2 ^ 64" for a b
    using that by (simp add: in_window_def word_le_nat_alt word_less_nat_alt unat_add_exact)
  have starts: "?ws ! i = (of_nat (0xffff800000000000 + i * 0x100000000000), 0x10000000000)"
    "0xffff800000000000 + i * 0x100000000000 + 0x10000000000 < 2 ^ 64" if "i < 5" for i
  proof -
    from that have "i = 0 \<or> i = 1 \<or> i = 2 \<or> i = 3 \<or> i = 4" by linarith
    then show "?ws ! i = (of_nat (0xffff800000000000 + i * 0x100000000000), 0x10000000000)"
      by (elim disjE) (simp_all add: bases)
    show "0xffff800000000000 + i * 0x100000000000 + 0x10000000000 < 2 ^ 64" using that by simp
  qed
  have inside: "in_window (?ws ! i) a \<longleftrightarrow> 0xffff800000000000 + i * 0x100000000000 \<le> unat a \<and>
      unat a < 0xffff800000000000 + i * 0x100000000000 + 0x10000000000" if "i < 5" for a i
  proof -
    have "unat (of_nat (0xffff800000000000 + i * 0x100000000000) :: u64) = 0xffff800000000000 + i * 0x100000000000"
      using starts(2) [OF that] by (subst unat_of_nat) simp
    with win [of "of_nat (0xffff800000000000 + i * 0x100000000000)"] starts [OF that] show ?thesis
      by simp
  qed
  have disj: "i = j" if "i < 5" "j < 5" "in_window (?ws ! i) a" "in_window (?ws ! j) a" for a i j
    using that(3,4) unfolding inside [OF that(1)] inside [OF that(2)] by linarith
  have canon: "is_canonical a \<and> p4_index a \<noteq> 510" if "i < 5" "in_window (?ws ! i) a" for a i
  proof
    note b = that(2) [unfolded inside [OF that(1)]]
    show "is_canonical a" using b by (simp add: is_canonical_def word_le_nat_alt HIGH_CANONICAL_MIN_def)
    have "unat a < 0xffffc10000000000" using b that(1) by simp
    then have "unat a div 2 ^ 39 \<le> 0x1ffff82" "0x1ffff00 \<le> unat a div 2 ^ 39" using b by simp_all linarith+
    then obtain y where "unat a div 2 ^ 39 = y + 65535 * 512" "y < 510"
      by (intro that [of "unat a div 2 ^ 39 - 65535 * 512"]) simp_all
    then have "unat a div 2 ^ 39 mod 512 \<noteq> 510"
      using mod_mult_self1 [of y 65535 512] by (simp only: mod_less)
    then show "p4_index a \<noteq> 510" using p4 [of a] by auto
  qed
  have ws: "map (\<lambda>w. (vr_start w, vr_length w)) [kernel_window ?l, heap_window ?l, framebuffer_window ?l,
      mmio_window ?l, stacks_window ?l] = ?ws" by simp
  show ?thesis
    unfolding new
  proof (intro exI [of _ ?l] conjI refl, unfold ws Let_def, intro conjI)
    show "list_all (\<lambda>w. snd w = 0x10000000000) ?ws" by simp
  qed (use disj canon in blast)+
qed

lemma layout_windows_disjoint_witness:
  "\<exists>l. VirtualMemoryLayout_new = Some l \<and> vr_start (heap_window l) = HEAP_BASE \<and>
     is_canonical HEAP_BASE \<and> p4_index HEAP_BASE \<noteq> 510"
proof -
  obtain l where l: "VirtualMemoryLayout_new = Some l"
    and len: "vr_length (heap_window l) = 0x10000000000"
    and inside: "\<forall>a i. i < 5 \<and> in_window (map (\<lambda>w. (vr_start w, vr_length w))
        [kernel_window l, heap_window l, framebuffer_window l, mmio_window l, stacks_window l] ! i) a \<longrightarrow>
      is_canonical a \<and> p4_index a \<noteq> 510"
    using layout_windows_disjoint by (auto simp: Let_def)
  have start: "vr_start (heap_window l) = HEAP_BASE"
    using l by (auto simp: VirtualMemoryLayout_new_def layout_region_eq KERNEL_BASE_def HEAP_BASE_def
        FRAMEBUFFER_BASE_def MMIO_BASE_def STACK_BASE_def HIGH_CANONICAL_MIN_def)
  have "in_window (vr_start (heap_window l), vr_length (heap_window l)) HEAP_BASE"
    by (simp add: start len in_window_def HEAP_BASE_def)
  then have "is_canonical HEAP_BASE \<and> p4_index HEAP_BASE \<noteq> 510"
    using inside [rule_format, of 1 HEAP_BASE] by simp
  with l start show ?thesis by blast
qed


text \<open>For a byte range in the low half, \<open>map_range\<close> returns, and on success it has added the
  identity translation of exactly the pages that touch the range, all of them unmapped before; no
  page beyond an already aligned end is included. The only failure is the mapper's, and then the
  pages mapped so far are a prefix of these pages.\<close>

theorem map_range_exact:
  assumes "paging_env_ok env translate" and "page_table_root st \<noteq> None"
    and "unat start + unat len \<le> 2 ^ 47"
  shows "\<exists>r st'. map_range env st start len flags = Some (r, st') \<and>
    (if r = Inr ()
     then (\<forall>q \<in> touched_pages start len. translate (table_memory st) q = None) \<and>
       translate (table_memory st') =
         (\<lambda>q. if q \<in> touched_pages start len then Some (q, flags) else translate (table_memory st) q)
     else r = Inl MappingFailed \<and>
       (\<exists>k. \<forall>q. translate (table_memory st') q =
          (if unat q \<in> block (4096 * (unat start div 4096)) k then Some (q, flags)
           else translate (table_memory st) q)))"
proof -
  have "unat (start div PAGE_SIZE * PAGE_SIZE) = 4096 * (unat start div 4096)"
  proof -
    have "4096 * (unat start div 4096) < 2 ^ 64"
      using unat_bound [of start] mult_div_mod_eq [of 4096 "unat start"] by simp
    then show ?thesis by (simp add: unat_word_ariths unat_div mult.commute)
  qed
  with map_range_result [OF assms, of flags] show ?thesis
    by (elim exE conjE disjE) (auto simp: overlay_def page_run_def intro!: exI)
qed

text \<open>The frames a mapping takes, and the addresses of the frames in use.\<close>

lemma map_page_arena:
  assumes "paging_env_ok env translate" and "page_table_root st = Some root" and "map_page env st v p flags = Some (r, st')"
  shows "\<exists>root' k m. page_table_root st' = Some root' \<and> ptr_frame root' = ptr_frame root \<and> k \<le> 3 \<and>
    ptr_arena root' = fst (after_frames env k (ptr_arena root, m))"
proof (cases "(\<exists>w. VirtualRange_new v PAGE_SIZE = Inr w) \<and> 4096 dvd unat p")
  case True
  then obtain w where w: "VirtualRange_new v PAGE_SIZE = Inr w" and p: "4096 dvd unat p" by blast
  have "phys_addr_new p \<noteq> None"
  proof
    assume "phys_addr_new p = None"
    with assms(2,3) w p show False
      by (simp add: map_page_def is_multiple_of_iff with_mapper_def map_on_mapper_def split: if_splits)
  qed
  then have p52: "p < 0x10000000000000" by (simp add: phys_addr_new_def split: if_splits)
  obtain r' st2 where m: "map_page env st v p flags = Some (r', st2)" "same_root st st2" "arena_advanced env st st2"
    by (rule map_page_checked [OF assms(1,2) w p p52, of flags])
  then have "st2 = st'" using assms(3) by simp
  with m assms(2) show ?thesis by (auto simp: same_root_def arena_advanced_def)
next
  case False
  with assms(3) have "st' = st" by (auto simp: map_page_def is_multiple_of_iff split: sum.splits if_splits)
  with assms(2) show ?thesis by (intro exI [of _ root] exI [of _ 0]) (simp add: after_frames_def)
qed

lemma arena_addresses_distinct:
  assumes "paging_env_ok env translate" and "arena_inv env arena"
  shows "distinct (storage_address env 0 # take (pa_count arena) (pa_addresses arena))"
proof -
  let ?n = "pa_count arena"
  have addrs: "storage_address env 0 # take ?n (pa_addresses arena) = map (storage_address env) [0..<Suc ?n]"
    using assms(2) by (intro nth_equalityI) (auto simp: arena_inv_def nth_Cons' simp del: upt_Suc)
  have "inj_on (storage_address env) {0..<Suc ?n}"
  proof (rule inj_onI)
    fix i j assume "i \<in> {0..<Suc ?n}" "j \<in> {0..<Suc ?n}" "storage_address env i = storage_address env j"
    moreover from this have le: "i \<le> 512" "j \<le> 512"
      using assms(2) by (simp_all add: arena_inv_def MAX_PAGE_TABLE_FRAMES_def)
    moreover have "unat (storage_address env i) = unat (storage_address env j)" using calculation(3) by simp
    ultimately show "i = j"
      unfolding storage_address_aligned(1) [OF assms(1) le(1)] storage_address_aligned(1) [OF assms(1) le(2)]
      by linarith
  qed
  then have "distinct (map (storage_address env) [0..<Suc ?n])"
    by (simp only: distinct_map distinct_upt set_upt simp_thms)
  then show ?thesis unfolding addrs .
qed

text \<open>Whatever a map call does, the frames of the arena stay the consecutive, aligned, distinct
  cells of the image storage behind the root's cell, each owned as a page table; the root frame
  stays, and one call takes at most three frames.\<close>

theorem page_table_arena_owned:
  assumes "paging_env_ok env translate" and "page_table_root st = Some root"
    and "arena_inv env (ptr_arena root)" and "map_page env st v p flags = Some (r, st')"
  shows "\<exists>root'. page_table_root st' = Some root' \<and> ptr_frame root' = ptr_frame root \<and>
    arena_inv env (ptr_arena root') \<and>
    pa_count (ptr_arena root) \<le> pa_count (ptr_arena root') \<and>
    pa_count (ptr_arena root') \<le> pa_count (ptr_arena root) + 3 \<and>
    distinct (storage_address env 0 # take (pa_count (ptr_arena root')) (pa_addresses (ptr_arena root')))"
proof -
  obtain root' k m where r': "page_table_root st' = Some root'" "ptr_frame root' = ptr_frame root" "k \<le> 3"
    "ptr_arena root' = fst (after_frames env k (ptr_arena root, m))" using map_page_arena [OF assms(1,2,4)] by blast
  from after_frames_inv [OF assms(1), of "(ptr_arena root, m)" k] assms(3) r'
  have inv: "arena_inv env (ptr_arena root')" "pa_count (ptr_arena root) \<le> pa_count (ptr_arena root')"
    "pa_count (ptr_arena root') \<le> pa_count (ptr_arena root) + 3" by auto
  then show ?thesis using arena_addresses_distinct [OF assms(1) inv(1)]
    by (intro exI [of _ root'] conjI inv r'(1,2))
qed

lemma and_map_Inr:
  "and_map r f = Some (Inr (), st') \<longleftrightarrow> (\<exists>st1. r = Some (Inr (), st1) \<and> f st1 = Some (Inr (), st'))"
  by (cases r) (auto simp: and_map_def)

lemma and_map_total:
  assumes "r = Some (x, st1)" and "x = Inr () \<Longrightarrow> \<exists>y. f st1 = Some y"
  shows "\<exists>y. and_map r f = Some y"
  using assms by (auto simp: and_map_def)

text \<open>The window around the bootstrap stack that is mapped, and the two guard pages beside it.\<close>

definition stack_mapping :: "usize \<Rightarrow> usize \<times> usize" where
  "stack_mapping stack_marker =
     (saturating_sub (stack_marker AND NOT (PAGE_SIZE - 1)) (31 * PAGE_SIZE), 62 * PAGE_SIZE)"

definition heap_pages :: "BootState \<Rightarrow> u64 set" where
  "heap_pages boot = (if heap_size boot = 0 then {} else touched_pages (heap_start boot) (heap_size boot))"

lemma map_heap_result:
  assumes "paging_env_ok env translate" and "page_table_root st \<noteq> None"
    and "unat (heap_start boot) + unat (heap_size boot) \<le> 2 ^ 47"
  shows "\<exists>r st'. (if heap_size boot \<noteq> 0 then map_range env st (heap_start boot) (heap_size boot) flags
        else Some (Inr (), st)) = Some (r, st') \<and> same_root st st' \<and>
      (r = Inr () \<longrightarrow> (\<forall>q \<in> heap_pages boot. translate (table_memory st) q = None) \<and>
        translate (table_memory st') = overlay (heap_pages boot) flags (translate (table_memory st)))"
proof (cases "heap_size boot = 0")
  case True
  then show ?thesis by (simp add: heap_pages_def overlay_def)
next
  case False
  with map_range_result [OF assms, of flags] show ?thesis by (auto simp: heap_pages_def)
qed

lemma stack_mapping_low:
  assumes "unat marker + 31 * 4096 \<le> 2 ^ 47" and "31 * 4096 \<le> unat marker"
  shows "unat (fst (stack_mapping marker)) = 4096 * (unat marker div 4096) - 31 * 4096"
    and "unat (snd (stack_mapping marker)) = 62 * 4096"
    and "unat (fst (stack_mapping marker)) + unat (snd (stack_mapping marker)) \<le> 2 ^ 47"
proof -
  have p: "unat (31 * PAGE_SIZE) = 31 * 4096" "unat (62 * PAGE_SIZE) = 62 * 4096"
    by (simp_all add: PAGE_SIZE_def)
  show a: "unat (fst (stack_mapping marker)) = 4096 * (unat marker div 4096) - 31 * 4096"
    unfolding stack_mapping_def fst_conv unat_saturating_sub unat_round_down p ..
  show b: "unat (snd (stack_mapping marker)) = 62 * 4096"
    by (simp add: stack_mapping_def p)
  have "31 \<le> unat marker div 4096" using assms(2) by (simp add: less_eq_div_iff_mult_less_eq)
  then have "4096 * (unat marker div 4096) \<le> unat marker" "31 * 4096 \<le> 4096 * (unat marker div 4096)"
    by simp_all
  with assms(1) show "unat (fst (stack_mapping marker)) + unat (snd (stack_mapping marker)) \<le> 2 ^ 47"
    unfolding a b by linarith
qed

definition stack_pages :: "usize \<Rightarrow> u64 set" where
  "stack_pages marker = touched_pages (fst (stack_mapping marker)) (snd (stack_mapping marker))"

definition guard_pages :: "usize \<Rightarrow> u64 set" where
  "guard_pages marker = {q. unat q = 4096 * (unat marker div 4096) - 32 * 4096 \<or>
     unat q = 4096 * (unat marker div 4096) + 31 * 4096}"

lemma guard_pages_outside:
  assumes "unat marker + 31 * 4096 \<le> 2 ^ 47" and "32 * 4096 \<le> unat marker"
  shows "stack_pages marker \<inter> guard_pages marker = {}"
proof -
  have "32 \<le> unat marker div 4096" using assms(2) by (simp add: less_eq_div_iff_mult_less_eq)
  then have d: "32 * 4096 \<le> 4096 * (unat marker div 4096)" by linarith
  have "31 * 4096 \<le> unat marker" using assms(2) by simp
  note s = stack_mapping_low [OF assms(1) this]
  have "q \<notin> guard_pages marker" if "q \<in> stack_pages marker" for q
  proof -
    from that d have q: "4096 * (unat marker div 4096) - 31 * 4096 < unat q + 4096"
      "unat q < 4096 * (unat marker div 4096) + 31 * 4096"
      unfolding stack_pages_def touched_pages_def mem_Collect_eq s(1,2) by linarith+
    with d show ?thesis unfolding guard_pages_def mem_Collect_eq by linarith
  qed
  then show ?thesis by blast
qed

text \<open>A step of \<open>initialize\<close> that maps a set of pages, which must not be mapped yet, to themselves; and what follows it.\<close>

definition maps_pages ::
  "('m \<Rightarrow> u64 \<Rightarrow> (u64 \<times> PageTableFlag set) option) \<Rightarrow> u64 set \<Rightarrow> PageTableFlag set \<Rightarrow> ('m PagingState \<Rightarrow> ('m, unit) paging) \<Rightarrow> bool" where
  "maps_pages translate P flags f \<longleftrightarrow>
     (\<forall>st. page_table_root st \<noteq> None \<longrightarrow> (\<exists>r st'. f st = Some (r, st') \<and> same_root st st' \<and>
       (r = Inr () \<longrightarrow> (\<forall>q \<in> P. translate (table_memory st) q = None) \<and>
          translate (table_memory st') = overlay P flags (translate (table_memory st)))))"

lemma maps_pages_then:
  assumes "maps_pages translate P flags f" and "page_table_root st \<noteq> None"
    and "\<And>st'. page_table_root st' \<noteq> None \<Longrightarrow> \<forall>q \<in> P. translate (table_memory st) q = None \<Longrightarrow>
      translate (table_memory st') = overlay P flags (translate (table_memory st)) \<Longrightarrow>
      \<exists>r st''. g st' = Some (r, st'') \<and> (r = Inr () \<longrightarrow> Q st'')"
  shows "\<exists>r st''. and_map (f st) g = Some (r, st'') \<and> (r = Inr () \<longrightarrow> Q st'')"
proof -
  obtain r st' where f: "f st = Some (r, st')" "same_root st st'"
    "r = Inr () \<longrightarrow> (\<forall>q \<in> P. translate (table_memory st) q = None) \<and>
       translate (table_memory st') = overlay P flags (translate (table_memory st))"
    using assms(1,2) unfolding maps_pages_def by blast
  show ?thesis
  proof (cases "r = Inr ()")
    case True
    then show ?thesis using assms(3) [OF same_root_Some [OF f(2) assms(2)]] f by (simp add: and_map_def)
  qed (simp add: and_map_def f(1))
qed

lemma maps_window:
  assumes "paging_env_ok env translate" and "unat (fst w) + unat (snd w) \<le> 2 ^ 47"
  shows "maps_pages translate (touched_pages (fst w) (snd w)) flags (\<lambda>st. map_window env st w flags)"
  using map_window_result [OF assms(1) _ assms(2), of _ flags] by (auto simp: maps_pages_def)

lemma maps_heap:
  assumes "paging_env_ok env translate" and "unat (heap_start boot) + unat (heap_size boot) \<le> 2 ^ 47"
  shows "maps_pages translate (heap_pages boot) flags
    (\<lambda>st. if heap_size boot \<noteq> 0 then map_range env st (heap_start boot) (heap_size boot) flags else Some (Inr (), st))"
  unfolding maps_pages_def by (intro allI impI map_heap_result [OF assms(1) _ assms(2)])

lemma maps_stack:
  assumes "paging_env_ok env translate" and "unat marker + 31 * 4096 \<le> 2 ^ 47" and "31 * 4096 \<le> unat marker"
  shows "maps_pages translate (stack_pages marker) flags
    (\<lambda>st. map_range env st (fst (stack_mapping marker)) (snd (stack_mapping marker)) flags)"
  unfolding maps_pages_def stack_pages_def
  using map_range_result [OF assms(1) _ stack_mapping_low(3) [OF assms(2,3)], of _ flags] by blast

text \<open>The state with an empty root, and \<open>initialize\<close> from it.\<close>

definition rooted :: "'m PagingEnv \<Rightarrow> OwnedFrame \<Rightarrow> 'm PagingState \<Rightarrow> 'm PagingState" where
  "rooted env owned st =
     st\<lparr>table_memory := env_write_table env (storage_address env 0) (table_memory st),
        page_table_root := Some \<lparr>ptr_frame = owned, ptr_arena = PageTableArena_new\<rparr>\<rparr>"

definition initialize_windows ::
  "'m PagingEnv \<Rightarrow> BootState \<Rightarrow> usize \<Rightarrow> usize \<times> usize \<Rightarrow> usize \<times> usize \<Rightarrow> 'm PagingState \<Rightarrow> ('m, unit) paging" where
  "initialize_windows env boot marker fb img st1 =
    and_map (map_window env st1 img {PRESENT, WRITABLE}) (\<lambda>st2.
    and_map (if heap_size boot \<noteq> 0
         then map_range env st2 (heap_start boot) (heap_size boot) {PRESENT, WRITABLE, NO_EXECUTE}
         else Some (Inr (), st2)) (\<lambda>st3.
    and_map (map_window env st3 fb {PRESENT, WRITABLE, NO_CACHE, NO_EXECUTE}) (\<lambda>st4.
    and_map (map_range env st4 (fst (stack_mapping marker)) (snd (stack_mapping marker)) {PRESENT, WRITABLE, NO_EXECUTE}) (\<lambda>st5.
      Some (Inr (), st5\<lparr>table_memory := env_set_recursive env (storage_address env 0) (table_memory st5),
         cr3 := Some (storage_address env 0), paging_active := True\<rparr>)))))"

lemma paging_initialize_steps:
  assumes "paging_env_ok env translate" and "page_table_root st = None"
  shows "\<exists>owned. paging_initialize env st boot marker fb img = initialize_windows env boot marker fb img (rooted env owned st)"
proof -
  let ?root = "storage_address env 0"
  have al: "4096 dvd unat ?root" "unat ?root < 2 ^ 47"
    using storage_address_aligned [OF assms(1), of 0] assms(1) by (simp_all add: paging_env_ok_def storage_address_def)
  obtain owned where "OwnedFrame_from_reserved ?root OwnPageTable = Some owned"
    using al(1) by (simp add: OwnedFrame_from_reserved_def FrameAddress_new_def is_multiple_of_iff)
  moreover have "phys_addr_new ?root = Some ?root" using al(2) by (simp add: phys_addr_new_def word_less_nat_alt)
  ultimately show ?thesis using assms(2)
    by (intro exI [of _ owned]) (simp add: paging_initialize_def Let_def stack_mapping_def rooted_def initialize_windows_def)
qed

lemma paging_initialized:
  assumes env: "paging_env_ok env translate" and root: "page_table_root st = None"
    and low: "unat (fst img) + unat (snd img) \<le> 2 ^ 47" "unat (heap_start boot) + unat (heap_size boot) \<le> 2 ^ 47"
      "unat (fst fb) + unat (snd fb) \<le> 2 ^ 47"
    and marker: "unat marker + 31 * 4096 \<le> 2 ^ 47" "32 * 4096 \<le> unat marker"
    and I: "I = touched_pages (fst img) (snd img)" and F: "F = touched_pages (fst fb) (snd fb)"
  shows "\<exists>r st'. paging_initialize env st boot marker fb img = Some (r, st') \<and>
    (r = Inr () \<longrightarrow> paging_active st' \<and> cr3 st' = Some (storage_address env 0) \<and>
      (\<forall>q. p4_index q \<noteq> 510 \<longrightarrow> translate (table_memory st') q =
        (if q \<in> I then Some (q, {PRESENT, WRITABLE})
         else if q \<in> heap_pages boot then Some (q, {PRESENT, WRITABLE, NO_EXECUTE})
         else if q \<in> F then Some (q, {PRESENT, WRITABLE, NO_CACHE, NO_EXECUTE})
         else if q \<in> stack_pages marker then Some (q, {PRESENT, WRITABLE, NO_EXECUTE})
         else None)) \<and>
      I \<inter> heap_pages boot = {} \<and> (I \<union> heap_pages boot) \<inter> F = {} \<and>
      (I \<union> heap_pages boot \<union> F) \<inter> stack_pages marker = {} \<and>
      (\<forall>q \<in> guard_pages marker. q \<notin> I \<union> heap_pages boot \<union> F \<and> p4_index q \<noteq> 510 \<longrightarrow>
         translate (table_memory st') q = None))"
proof -
  have mk: "31 * 4096 \<le> unat marker" using marker(2) by simp
  have fresh: "translate (table_memory (rooted env owned st)) = (\<lambda>_. None)" for owned
    using env by (simp add: fun_eq_iff paging_env_ok_def rooted_def storage_address_def)
  have recursive: "translate (env_set_recursive env a m) q = translate m q" if "p4_index q \<noteq> 510" for a m q
    using env that by (simp add: paging_env_ok_def)
  note window = maps_pages_then [OF maps_window [OF env]] and heap = maps_pages_then [OF maps_heap [OF env low(2)]]
    and stack = maps_pages_then [OF maps_stack [OF env marker(1) mk]]
  obtain owned where steps: "paging_initialize env st boot marker fb img = initialize_windows env boot marker fb img (rooted env owned st)"
    using paging_initialize_steps [OF env root] by blast
  show ?thesis unfolding steps initialize_windows_def I F
  proof (rule window [OF low(1)], (simp add: rooted_def), rule heap, assumption,
      rule window [OF low(3)], assumption, rule stack, assumption, goal_cases)
    case (1 st2 st3 st4 st5)
    note tr = 1(3,6,9,12) and none = 1(5,8,11)
    let ?I = "touched_pages (fst img) (snd img)" and ?F = "touched_pages (fst fb) (snd fb)"
    have "?I \<inter> heap_pages boot = {}" "(?I \<union> heap_pages boot) \<inter> ?F = {}" "(?I \<union> heap_pages boot \<union> ?F) \<inter> stack_pages marker = {}"
      using none tr by (auto simp: fresh overlay_def split: if_splits)
    then show ?case using guard_pages_outside [OF marker] tr
      by (intro exI conjI impI refl) (auto simp: recursive fresh overlay_def)
  qed
qed

text \<open>C13: for windows in the low half, \<open>initialize\<close> returns. When it succeeds, the root is in CR3 and
  active, the translations outside the recursive slot are exactly the identity on the pages of the
  image, the heap, the framebuffer and the boot stack, each with its own flags (only the image is
  executable), these four page sets are disjoint, and the pages on both sides of the boot stack
  are unmapped unless they belong to another of the four.\<close>

theorem paging_initialize_identity:
  assumes "paging_env_ok env translate" and "page_table_root st = None"
    and "unat (fst img) + unat (snd img) \<le> 2 ^ 47" and "unat (heap_start boot) + unat (heap_size boot) \<le> 2 ^ 47"
    and "unat (fst fb) + unat (snd fb) \<le> 2 ^ 47"
    and "unat marker + 31 * 4096 \<le> 2 ^ 47" and "32 * 4096 \<le> unat marker"
    and "I = touched_pages (fst img) (snd img)" and "F = touched_pages (fst fb) (snd fb)"
  shows "\<exists>r st'. paging_initialize env st boot marker fb img = Some (r, st') \<and>
    (r = Inr () \<longrightarrow> paging_active st' \<and> cr3 st' = Some (storage_address env 0) \<and>
      (\<forall>q. p4_index q \<noteq> 510 \<longrightarrow> translate (table_memory st') q =
        (if q \<in> I then Some (q, {PRESENT, WRITABLE})
         else if q \<in> heap_pages boot then Some (q, {PRESENT, WRITABLE, NO_EXECUTE})
         else if q \<in> F then Some (q, {PRESENT, WRITABLE, NO_CACHE, NO_EXECUTE})
         else if q \<in> stack_pages marker then Some (q, {PRESENT, WRITABLE, NO_EXECUTE})
         else None)) \<and>
      I \<inter> heap_pages boot = {} \<and> (I \<union> heap_pages boot) \<inter> F = {} \<and>
      (I \<union> heap_pages boot \<union> F) \<inter> stack_pages marker = {} \<and>
      (\<forall>q \<in> guard_pages marker. q \<notin> I \<union> heap_pages boot \<union> F \<and> p4_index q \<noteq> 510 \<longrightarrow>
         translate (table_memory st') q = None))"
  by (rule paging_initialized [OF assms])

section \<open>Concrete instances\<close>

text \<open>A mapper whose tables are the translation itself.\<close>

type_synonym flat_tables = "u64 \<Rightarrow> (u64 \<times> PageTableFlag set) option"

definition flat_mapper :: "flat_tables Mapper" where
  "flat_mapper = \<lparr>
     mapper_map_to = (\<lambda>_ t q f flags.
       if snd t q = None then (True, fst t, (snd t)(q \<mapsto> (f, flags))) else (False, t)),
     mapper_unmap = (\<lambda>m q. (map_option fst (m q), m(q := None)))\<rparr>"

definition flat_env :: "flat_tables PagingEnv" where
  "flat_env = \<lparr>env_storage = 0x200000,
     env_write_table = (\<lambda>a m. if a = 0x200000 then (\<lambda>_. None) else m),
     env_set_recursive = (\<lambda>_ m. m), env_offset = flat_mapper, env_recursive = flat_mapper\<rparr>"

lemma flat_mapper_ok: "mapper_ok env id flat_mapper"
proof -
  have "fst t = fst (after_frames env 0 t)" for t :: "flat_tables tables"
    by (simp add: after_frames_def)
  then show ?thesis
    unfolding mapper_ok_def
    by (auto simp: flat_mapper_def split: if_splits intro!: exI [of _ 0])
qed

lemma flat_env_ok: "paging_env_ok flat_env id"
  using flat_mapper_ok by (simp add: paging_env_ok_def flat_env_def)

definition flat_state :: "flat_tables PagingState" where
  "flat_state = \<lparr>page_table_root = Some \<lparr>ptr_frame = \<lparr>of_frame = FrameAddress 0x200000, of_owner = OwnPageTable\<rparr>,
       ptr_arena = PageTableArena_new\<rparr>, paging_active = False, cr3 = None, table_memory = (\<lambda>_. None)\<rparr>"

lemma virtual_range_checks_witness:
  "VirtualRange_new 0x1000 0xFFFFFFFFFFFFE000 = Inr \<lparr>vr_start = 0x1000, vr_length = 0xFFFFFFFFFFFFE000\<rparr> \<and>
   \<not> (\<forall>a. 0x1000 \<le> a \<and> a \<le> 0x1000 + (0xFFFFFFFFFFFFE000 - 1) \<longrightarrow> is_canonical a)"
proof -
  have n: "VirtualRange_new 0x1000 0xFFFFFFFFFFFFE000 = Inr \<lparr>vr_start = 0x1000, vr_length = 0xFFFFFFFFFFFFE000\<rparr>"
    by (simp add: VirtualRange_new_Inr_iff is_canonical_def LOW_CANONICAL_MAX_def HIGH_CANONICAL_MIN_def)
  with virtual_range_checks [of "0x1000" "0xFFFFFFFFFFFFE000" "\<lparr>vr_start = 0x1000, vr_length = 0xFFFFFFFFFFFFE000\<rparr>"]
  show ?thesis
    by (simp only: simp_thms) (simp add: LOW_CANONICAL_MAX_def)
qed

lemma sample_device: "memory_kind_at (Some sample_map) 0xFEC00000 = Some Device"
  unfolding memory_kind_at_def snapshot_kind_at_def Option.bind.bind_lunit sample_map_ranges by code_simp


lemma flat_map_page:
  assumes "VirtualRange_new v PAGE_SIZE = Inr w" and "4096 dvd unat v" and "v < 0x10000000000000"
    and "page_table_root st = Some root" and "\<not> paging_active st" and "table_memory st v = None"
  shows "map_page flat_env st v v flags =
    Some (Inr (), st\<lparr>page_table_root := Some root, table_memory := (table_memory st)(v \<mapsto> (v, flags))\<rparr>)"
proof -
  have "vr_start w = v" using assms(1) by (simp add: VirtualRange_new_Inr_iff)
  with assms show ?thesis
    by (simp add: map_page_def is_multiple_of_iff with_mapper_def map_on_mapper_def phys_addr_new_def
        aligned_word flat_env_def flat_mapper_def)
qed

lemma map_range_exact_witness:
  "\<exists>st'. map_range flat_env flat_state 0x1800 0x1000 {PRESENT} = Some (Inr (), st') \<and>
     table_memory st' 0x2000 = Some (0x2000, {PRESENT}) \<and> table_memory st' 0x3000 = None"
proof -
  have ok: "VirtualRange_new 0x1000 PAGE_SIZE = Inr \<lparr>vr_start = 0x1000, vr_length = PAGE_SIZE\<rparr>"
    "VirtualRange_new 0x2000 PAGE_SIZE = Inr \<lparr>vr_start = 0x2000, vr_length = PAGE_SIZE\<rparr>"
    by (rule low_page_range; simp)+
  have "map_range flat_env flat_state 0x1800 0x1000 {PRESENT} = map_loop flat_env 0x1000 0x3000 {PRESENT} flat_state"
    by (simp add: map_range_def checked_add_def is_multiple_of_def PAGE_SIZE_def Let_def)
  also have "\<exists>st'. \<dots> = Some (Inr (), st')"
    using flat_map_page [OF ok(1)] flat_map_page [OF ok(2)]
    by (simp add: map_loop.simps [of _ "0x1000"] map_loop.simps [of _ "0x2000"] map_loop.simps [of _ "0x3000"]
        PAGE_SIZE_def flat_state_def)
  finally obtain st' where st': "map_range flat_env flat_state 0x1800 0x1000 {PRESENT} = Some (Inr (), st')" by blast
  have "page_table_root flat_state \<noteq> None" by (simp add: flat_state_def)
  from map_range_exact [OF flat_env_ok this, of "0x1800" "0x1000" "{PRESENT}"] st' show ?thesis
    by (auto simp: touched_pages_def flat_state_def)
qed

lemma new_arena_inv: "arena_inv env PageTableArena_new"
  by (simp add: arena_inv_def PageTableArena_new_def)

lemma page_table_arena_owned_witness:
  "\<exists>st' root'. map_page flat_env flat_state 0x1000 0x1000 {PRESENT} = Some (Inr (), st') \<and>
     page_table_root st' = Some root' \<and> arena_inv flat_env (ptr_arena root')"
proof -
  have "VirtualRange_new 0x1000 PAGE_SIZE = Inr \<lparr>vr_start = 0x1000, vr_length = PAGE_SIZE\<rparr>"
    by (intro low_page_range) simp_all
  then have "\<exists>st'. map_page flat_env flat_state 0x1000 0x1000 {PRESENT} = Some (Inr (), st')"
    by (simp add: map_page_def is_multiple_of_iff flat_state_def with_mapper_def
        map_on_mapper_def phys_addr_new_def flat_env_def flat_mapper_def)
  then obtain st' where st': "map_page flat_env flat_state 0x1000 0x1000 {PRESENT} = Some (Inr (), st')" by blast
  have "page_table_root flat_state = Some \<lparr>ptr_frame = \<lparr>of_frame = FrameAddress 0x200000, of_owner = OwnPageTable\<rparr>,
       ptr_arena = PageTableArena_new\<rparr>" by (simp add: flat_state_def)
  from page_table_arena_owned [OF flat_env_ok this _ st'] st' new_arena_inv show ?thesis by auto
qed

lemma paging_initialize_identity_witness:
  "\<exists>r st'. paging_initialize flat_env (flat_state\<lparr>page_table_root := None\<rparr>) initial_boot_state 0x50000
     (0x800000, 0x1000) (0x400000, 0x3000) = Some (r, st')"
  using paging_initialize_identity [OF flat_env_ok, of "flat_state\<lparr>page_table_root := None\<rparr>" "(0x400000, 0x3000)"
      initial_boot_state "(0x800000, 0x1000)" "0x50000", OF _ _ _ _ _ _ refl refl]
  by (simp add: initial_boot_state_def) blast

end
