(* ===== verification/TaskStack.thy ===== *)
theory TaskStack
  imports Globals
begin

text \<open>
  Task stacks and the context switch, \<^verbatim>\<open>src/src/task/stack.rs\<close> and \<^verbatim>\<open>src/src/task/context.rs\<close>:
  the layout of the frame that \<open>initialize_frame\<close> builds at the top of a task's stack, and the
  fifteen instructions of \<open>switch\<close> as steps of a small machine with the callee-saved registers, the
  stack pointer, the instruction pointer and a memory of 64-bit words.
\<close>

section \<open>Contexts and stacks\<close>

record TaskContext =
  cx_stack_pointer :: usize
  cx_rbx :: usize
  cx_rbp :: usize
  cx_r12 :: usize
  cx_r13 :: usize
  cx_r14 :: usize
  cx_r15 :: usize

definition TaskContext_new :: TaskContext where
  "TaskContext_new = \<lparr>cx_stack_pointer = 0, cx_rbx = 0, cx_rbp = 0, cx_r12 = 0, cx_r13 = 0,
     cx_r14 = 0, cx_r15 = 0\<rparr>"

text \<open>Memory as 64-bit words; \<open>write_words\<close> is \<open>copy_nonoverlapping\<close> of an array of words.\<close>

type_synonym word_memory = "u64 \<Rightarrow> u64"

fun write_words :: "word_memory \<Rightarrow> u64 \<Rightarrow> u64 list \<Rightarrow> word_memory" where
  "write_words mem a [] = mem"
| "write_words mem a (w # ws) = write_words (mem(a := w)) (a + 8) ws"

text \<open>\<open>TaskStack::top\<close> for a stack whose bytes start at \<open>base\<close>.\<close>

definition stack_top :: "usize \<Rightarrow> usize" where
  "stack_top base = (base + TASK_STACK_SIZE) AND NOT 15"

text \<open>\<open>trampoline\<close> is the address of \<open>task_trampoline\<close>.\<close>

definition initialize_frame ::
  "usize \<Rightarrow> usize \<Rightarrow> TaskContext \<Rightarrow> word_memory \<Rightarrow> usize \<times> word_memory" where
  "initialize_frame trampoline base context mem =
     (let stack_pointer = stack_top base - of_nat STACK_FRAME_WORDS * 8
      in (stack_pointer,
          write_words mem stack_pointer
            [cx_rbx context, cx_rbp context, cx_r12 context, cx_r13 context, cx_r14 context,
             cx_r15 context, trampoline]))"

section \<open>The switch\<close>

record Cpu =
  rsp :: u64
  rip :: u64
  rbx :: u64
  rbp :: u64
  r12 :: u64
  r13 :: u64
  r14 :: u64
  r15 :: u64
  rdi :: u64
  rsi :: u64
  memory :: word_memory

definition push :: "u64 \<Rightarrow> Cpu \<Rightarrow> Cpu" where
  "push v c = c\<lparr>rsp := rsp c - 8, memory := (memory c)(rsp c - 8 := v)\<rparr>"

definition pop :: "(u64 \<Rightarrow> Cpu \<Rightarrow> Cpu) \<Rightarrow> Cpu \<Rightarrow> Cpu" where
  "pop set_register c = (let v = memory c (rsp c) in set_register v (c\<lparr>rsp := rsp c + 8\<rparr>))"

text \<open>
  The instructions of \<open>switch\<close> in order; \<open>rdi\<close> and \<open>rsi\<close> hold the addresses of the two contexts,
  whose first field is the saved stack pointer.
\<close>

definition switch_push :: "Cpu \<Rightarrow> Cpu" where
  "switch_push c =
     (let c = push (r15 c) c; c = push (r14 c) c; c = push (r13 c) c; c = push (r12 c) c;
          c = push (rbp c) c
      in push (rbx c) c)"

definition switch_stacks :: "Cpu \<Rightarrow> Cpu" where
  "switch_stacks c =
     (let c = c\<lparr>memory := (memory c)(rdi c := rsp c)\<rparr>
      in c\<lparr>rsp := memory c (rsi c)\<rparr>)"

definition switch_pop :: "Cpu \<Rightarrow> Cpu" where
  "switch_pop c =
     (let c = pop (\<lambda>v. rbx_update (\<lambda>_. v)) c; c = pop (\<lambda>v. rbp_update (\<lambda>_. v)) c;
          c = pop (\<lambda>v. r12_update (\<lambda>_. v)) c; c = pop (\<lambda>v. r13_update (\<lambda>_. v)) c;
          c = pop (\<lambda>v. r14_update (\<lambda>_. v)) c; c = pop (\<lambda>v. r15_update (\<lambda>_. v)) c
      in pop (\<lambda>v. rip_update (\<lambda>_. v)) c)"

definition switch :: "Cpu \<Rightarrow> Cpu" where
  "switch c = switch_pop (switch_stacks (switch_push c))"

section \<open>Frames\<close>

text \<open>The words that \<open>switch\<close> reads when it resumes a context saved at \<open>sp\<close>, and the words it
  writes when it suspends one.\<close>

definition frame_slots :: "u64 \<Rightarrow> u64 set" where
  "frame_slots sp = {sp, sp + 8, sp + 16, sp + 24, sp + 32, sp + 40, sp + 48}"

definition pushed_slots :: "Cpu \<Rightarrow> u64 set" where
  "pushed_slots c = {rsp c - 8, rsp c - 16, rsp c - 24, rsp c - 32, rsp c - 40, rsp c - 48}"

lemma switch_push_facts:
  "rsp (switch_push c) = rsp c - 48" "rdi (switch_push c) = rdi c" "rsi (switch_push c) = rsi c"
  "a \<notin> pushed_slots c \<Longrightarrow> memory (switch_push c) a = memory c a"
  by (auto simp: switch_push_def push_def Let_def pushed_slots_def)

lemma switch_push_saved:
  "memory (switch_push c) (rsp c - 48) = rbx c"
  "memory (switch_push c) (rsp c - 40) = rbp c"
  "memory (switch_push c) (rsp c - 32) = r12 c"
  "memory (switch_push c) (rsp c - 24) = r13 c"
  "memory (switch_push c) (rsp c - 16) = r14 c"
  "memory (switch_push c) (rsp c - 8) = r15 c"
  by (simp_all add: switch_push_def push_def Let_def)

lemma switch_pop_facts:
  "rbx (switch_pop c) = memory c (rsp c)"
  "rbp (switch_pop c) = memory c (rsp c + 8)"
  "r12 (switch_pop c) = memory c (rsp c + 16)"
  "r13 (switch_pop c) = memory c (rsp c + 24)"
  "r14 (switch_pop c) = memory c (rsp c + 32)"
  "r15 (switch_pop c) = memory c (rsp c + 40)"
  "rip (switch_pop c) = memory c (rsp c + 48)"
  "rsp (switch_pop c) = rsp c + 56" "memory (switch_pop c) = memory c"
  by (simp_all add: switch_pop_def pop_def Let_def add.commute)

text \<open>What \<open>switch\<close> does to a context that nothing it writes overlaps.\<close>

lemma switch_resumes:
  assumes sp: "memory c (rsi c) = sp" and ctx: "rsi c \<notin> insert (rdi c) (pushed_slots c)"
    and frame: "frame_slots sp \<inter> insert (rdi c) (pushed_slots c) = {}"
  shows "rbx (switch c) = memory c sp" "rbp (switch c) = memory c (sp + 8)"
    "r12 (switch c) = memory c (sp + 16)" "r13 (switch c) = memory c (sp + 24)"
    "r14 (switch c) = memory c (sp + 32)" "r15 (switch c) = memory c (sp + 40)"
    "rip (switch c) = memory c (sp + 48)" "rsp (switch c) = sp + 56"
    "memory (switch c) = (memory (switch_push c))(rdi c := rsp c - 48)"
proof -
  let ?d = "switch_stacks (switch_push c)"
  have s: "rsp ?d = sp" "memory ?d = (memory (switch_push c))(rdi c := rsp c - 48)"
    using sp ctx by (simp_all add: switch_stacks_def Let_def switch_push_facts)
  have keep: "memory ?d a = memory c a" if "a \<in> frame_slots sp" for a
  proof -
    have "a \<noteq> rdi c" "a \<notin> pushed_slots c" using that frame by blast+
    then show ?thesis by (simp add: s(2) switch_push_facts(4))
  qed
  have slots: "sp \<in> frame_slots sp" "sp + 8 \<in> frame_slots sp" "sp + 16 \<in> frame_slots sp"
    "sp + 24 \<in> frame_slots sp" "sp + 32 \<in> frame_slots sp" "sp + 40 \<in> frame_slots sp"
    "sp + 48 \<in> frame_slots sp"
    by (simp_all add: frame_slots_def)
  show "rbx (switch c) = memory c sp" "rbp (switch c) = memory c (sp + 8)"
    "r12 (switch c) = memory c (sp + 16)" "r13 (switch c) = memory c (sp + 24)"
    "r14 (switch c) = memory c (sp + 32)" "r15 (switch c) = memory c (sp + 40)"
    "rip (switch c) = memory c (sp + 48)" "rsp (switch c) = sp + 56"
    unfolding switch_def switch_pop_facts s(1) using slots by (simp_all add: keep)
  show "memory (switch c) = (memory (switch_push c))(rdi c := rsp c - 48)"
    by (simp add: switch_def switch_pop_facts s(2))
qed

lemma initialize_frame_words:
  assumes "initialize_frame trampoline base cx mem = (sp, mem')"
  shows "mem' sp = cx_rbx cx" "mem' (sp + 8) = cx_rbp cx" "mem' (sp + 16) = cx_r12 cx"
    "mem' (sp + 24) = cx_r13 cx" "mem' (sp + 32) = cx_r14 cx" "mem' (sp + 40) = cx_r15 cx"
    "mem' (sp + 48) = trampoline" "sp = stack_top base - 56"
    "a \<notin> frame_slots sp \<Longrightarrow> mem' a = mem a"
  using assms by (auto simp: initialize_frame_def Let_def STACK_FRAME_WORDS_def frame_slots_def)

lemma stack_top_eq: "stack_top base = drop_bit 4 (base + TASK_STACK_SIZE) * 16"
proof -
  have "(15 :: u64) = mask 4" by (simp add: mask_eq_exp_minus_1)
  then show ?thesis
    unfolding stack_top_def by (simp only: round_down_mask push_bit_eq_mult) simp
qed

lemma stack_top_aligned: "16 dvd unat (stack_top base)"
  by (simp add: stack_top_eq unat_word_ariths dvd_mod)

lemma stack_top_exact:
  assumes "16 dvd unat base" and "unat base + 4096 < 2 ^ 64"
  shows "unat (stack_top base) = unat base + 4096"
proof -
  have u: "unat (base + TASK_STACK_SIZE) = unat base + 4096"
    using assms(2) by (subst unat_add_exact) (simp_all add: TASK_STACK_SIZE_def)
  obtain k where k: "unat base = 16 * k" using assms(1) by (auto elim: dvdE)
  have d: "unat (drop_bit 4 (base + TASK_STACK_SIZE)) = k + 256"
    by (simp add: drop_bit_eq_div unat_div u k)
  show ?thesis
    unfolding stack_top_eq using assms(2) k d by (subst unat_mult_exact) simp_all
qed

section \<open>Properties\<close>

text \<open>A context whose frame \<open>initialize_frame\<close> built starts in the trampoline: the switch to it
  loads exactly the registers of the context, leaves the stack pointer at the aligned top of the
  task's stack, and records the suspended stack pointer in the other context. The frame lies inside
  the stack's bytes.\<close>

theorem fresh_task_starts_in_trampoline:
  assumes "16 dvd unat base" and "unat base + 4096 < 2 ^ 64"
    and "initialize_frame trampoline base cx mem = (sp, memory c)"
    and "memory c (rsi c) = sp" and "rsi c \<notin> insert (rdi c) (pushed_slots c)"
    and "frame_slots sp \<inter> insert (rdi c) (pushed_slots c) = {}"
  shows "rip (switch c) = trampoline \<and> rsp (switch c) = stack_top base \<and> 16 dvd unat (rsp (switch c)) \<and>
    rbx (switch c) = cx_rbx cx \<and> rbp (switch c) = cx_rbp cx \<and> r12 (switch c) = cx_r12 cx \<and>
    r13 (switch c) = cx_r13 cx \<and> r14 (switch c) = cx_r14 cx \<and> r15 (switch c) = cx_r15 cx \<and>
    memory (switch c) (rdi c) = rsp c - 48 \<and>
    unat base \<le> unat sp \<and> unat sp + 56 = unat base + 4096"
proof -
  note w = initialize_frame_words [OF assms(3)]
  note r = switch_resumes [OF assms(4,5,6)]
  have top: "unat (stack_top base) = unat base + 4096" by (rule stack_top_exact [OF assms(1,2)])
  have "unat sp = unat base + 4096 - 56"
    unfolding w(8) using top by (subst unat_sub_exact) (simp_all add: word_le_nat_alt)
  moreover have "sp + 56 = stack_top base" by (simp add: w(8))
  ultimately show ?thesis
    using w r stack_top_aligned [of base] by simp
qed

text \<open>A suspended context is resumed unchanged: if nothing has overwritten the words that the
  switch saved, switching back to it restores every callee-saved register, continues at the word that
  was on top of its stack, and drops that word.\<close>

theorem switch_away_and_back:
  assumes "rdi c \<notin> frame_slots (rsp c - 48)" and "rsi c \<notin> insert (rdi c) (pushed_slots c)"
    and "frame_slots (memory c (rsi c)) \<inter> insert (rdi c) (pushed_slots c) = {}"
    and "rsi d = rdi c" and "\<forall>a \<in> insert (rdi c) (frame_slots (rsp c - 48)). memory d a = memory (switch c) a"
    and "insert (rsi d) (frame_slots (rsp c - 48)) \<inter> insert (rdi d) (pushed_slots d) = {}"
  shows "rbx (switch d) = rbx c \<and> rbp (switch d) = rbp c \<and> r12 (switch d) = r12 c \<and>
    r13 (switch d) = r13 c \<and> r14 (switch d) = r14 c \<and> r15 (switch d) = r15 c \<and>
    rip (switch d) = memory c (rsp c) \<and> rsp (switch d) = rsp c + 8"
proof -
  let ?sp = "rsp c - 48"
  have mem: "memory (switch c) = (memory (switch_push c))(rdi c := ?sp)"
    by (rule switch_resumes(9) [OF refl assms(2,3)])
  have sp: "memory d (rsi d) = ?sp" using assms(4,5) mem by simp
  have slot: "memory d a = memory (switch_push c) a" if "a \<in> frame_slots ?sp" for a
    using assms(1,5) that by (auto simp: mem)
  have slots: "?sp \<in> frame_slots ?sp" "?sp + 8 \<in> frame_slots ?sp" "?sp + 16 \<in> frame_slots ?sp"
    "?sp + 24 \<in> frame_slots ?sp" "?sp + 32 \<in> frame_slots ?sp" "?sp + 40 \<in> frame_slots ?sp"
    "?sp + 48 \<in> frame_slots ?sp"
    by (simp_all add: frame_slots_def)
  have ctx: "rsi d \<notin> insert (rdi d) (pushed_slots d)"
    "frame_slots ?sp \<inter> insert (rdi d) (pushed_slots d) = {}"
    using assms(6) by auto
  have top: "memory (switch_push c) (rsp c) = memory c (rsp c)"
    by (rule switch_push_facts) (simp add: pushed_slots_def)
  note r = switch_resumes [OF sp ctx]
  show ?thesis
    unfolding r slot [OF slots(1)] slot [OF slots(2)] slot [OF slots(3)] slot [OF slots(4)]
      slot [OF slots(5)] slot [OF slots(6)] slot [OF slots(7)]
    using switch_push_saved [of c] top by simp
qed

section \<open>Concrete instances\<close>

definition sample_context :: TaskContext where
  "sample_context = \<lparr>cx_stack_pointer = 0, cx_rbx = 1, cx_rbp = 2, cx_r12 = 3, cx_r13 = 4, cx_r14 = 5,
     cx_r15 = 6\<rparr>"

text \<open>A machine about to switch to a fresh task whose stack is at \<open>0x10000\<close>.\<close>

definition sample_cpu :: Cpu where
  "sample_cpu = \<lparr>rsp = 0x30000, rip = 0x1000, rbx = 11, rbp = 12, r12 = 13, r13 = 14, r14 = 15, r15 = 16,
     rdi = 0x40000, rsi = 0x41000,
     memory = snd (initialize_frame 0x5000 0x10000 sample_context (\<lambda>_. 0x10FC8))\<rparr>"

lemma sample_frame: "initialize_frame 0x5000 0x10000 sample_context (\<lambda>_. 0x10FC8) = (0x10FC8, memory sample_cpu)"
proof -
  have "stack_top 0x10000 = 0x11000" by (simp add: stack_top_def TASK_STACK_SIZE_def)
  then show ?thesis
    by (simp add: sample_cpu_def initialize_frame_def Let_def STACK_FRAME_WORDS_def)
qed

lemma sample_rsi: "memory sample_cpu (rsi sample_cpu) = 0x10FC8"
  using initialize_frame_words(9) [OF sample_frame, of "0x41000"]
  by (simp add: frame_slots_def) (simp add: sample_cpu_def)

lemma sample_disjoint:
  "rsi sample_cpu \<notin> insert (rdi sample_cpu) (pushed_slots sample_cpu)"
  "frame_slots 0x10FC8 \<inter> insert (rdi sample_cpu) (pushed_slots sample_cpu) = {}"
  "rdi sample_cpu \<notin> frame_slots (rsp sample_cpu - 48)"
  by (simp_all add: sample_cpu_def pushed_slots_def frame_slots_def)

lemma fresh_task_starts_in_trampoline_witness:
  "rip (switch sample_cpu) = 0x5000 \<and> r15 (switch sample_cpu) = 6 \<and> rsp (switch sample_cpu) = 0x11000"
proof -
  have "stack_top 0x10000 = 0x11000" by (simp add: stack_top_def TASK_STACK_SIZE_def)
  then show ?thesis
    using fresh_task_starts_in_trampoline [OF _ _ sample_frame sample_rsi sample_disjoint(1,2)]
    by (simp add: sample_context_def)
qed

lemma switch_away_and_back_witness:
  "rbx (switch ((switch sample_cpu)\<lparr>rsp := 0x50000, rsi := 0x40000, rdi := 0x42000\<rparr>)) = 11"
proof -
  let ?d = "(switch sample_cpu)\<lparr>rsp := 0x50000, rsi := 0x40000, rdi := 0x42000\<rparr>"
  have r: "rdi sample_cpu = 0x40000" "rsp sample_cpu = 0x30000" "rbx sample_cpu = 11"
    by (simp_all add: sample_cpu_def)
  have "frame_slots (memory sample_cpu (rsi sample_cpu)) \<inter> insert (rdi sample_cpu) (pushed_slots sample_cpu) = {}"
    unfolding sample_rsi by (rule sample_disjoint)
  from switch_away_and_back [OF sample_disjoint(3,1) this, of ?d] show ?thesis
    by (simp add: r frame_slots_def pushed_slots_def)
qed

end
