(* ===== verification/Scheduler.thy ===== *)
theory Scheduler
  imports TaskStack
begin

text \<open>
  The cooperative scheduler, \<^verbatim>\<open>src/src/task/mod.rs\<close>: a fixed table of task slots with generation
  counters, the operations on task handles, and round-robin dispatch. A task entry is a function
  of the world outside the scheduler (type \<open>'w\<close>), which it may change, to a \<open>TaskAction\<close>; it has no
  access to the scheduler while it runs. Every operation takes the scheduler and returns its
  result with the scheduler updated.
\<close>

section \<open>Types\<close>

record TaskId =
  ti_index :: nat
  ti_generation :: u32

datatype TaskState = Ready | Running | Sleeping u64 | Blocked | Finished | Cancelled

datatype TaskAction = Yield | SleepUntil u64 | Block | Exit

datatype SchedulerError = NoTaskSlots | InvalidTask | TaskNotFinished

record 'w Task =
  tk_entry :: "'w \<Rightarrow> TaskAction \<times> 'w"
  tk_state :: TaskState

record SchedulerStats =
  ss_task_count :: nat
  ss_ready :: nat
  ss_sleeping :: nat
  ss_blocked :: nat
  ss_running :: nat
  ss_finished :: nat
  ss_cancelled :: nat

text \<open>\<open>sc_memory\<close> is the memory that holds the task stacks.\<close>

record 'w Scheduler =
  sc_tasks :: "'w Task option list"
  sc_memory :: word_memory
  sc_contexts :: "TaskContext list"
  sc_generations :: "u32 list"
  sc_current :: "TaskId option"
  sc_next :: nat

section \<open>Operations\<close>

definition scheduler_new :: "'w Scheduler" where
  "scheduler_new = \<lparr>sc_tasks = replicate MAX_TASKS None, sc_memory = (\<lambda>_. 0),
     sc_contexts = replicate MAX_TASKS TaskContext_new, sc_generations = replicate MAX_TASKS 0,
     sc_current = None, sc_next = 0\<rparr>"

definition next_generation :: "u32 \<Rightarrow> u32" where
  "next_generation g = max (g + 1) 1"

definition spawn ::
  "'w Scheduler \<Rightarrow> ('w \<Rightarrow> TaskAction \<times> 'w) \<Rightarrow> (SchedulerError, TaskId) result \<times> 'w Scheduler" where
  "spawn s entry =
     (case find (\<lambda>i. Option.is_none (sc_tasks s ! i)) [0..<length (sc_tasks s)] of
        None \<Rightarrow> (Inl NoTaskSlots, s)
      | Some index \<Rightarrow>
         (let g = next_generation (sc_generations s ! index)
          in (Inr \<lparr>ti_index = index, ti_generation = g\<rparr>,
              s\<lparr>sc_tasks := (sc_tasks s)[index := Some \<lparr>tk_entry = entry, tk_state = Ready\<rparr>],
                sc_generations := (sc_generations s)[index := g]\<rparr>)))"

definition valid_task :: "'w Scheduler \<Rightarrow> TaskId \<Rightarrow> (SchedulerError, 'w Task option) result" where
  "valid_task s task =
     (if ti_index task \<ge> MAX_TASKS \<or> sc_generations s ! ti_index task \<noteq> ti_generation task
      then Inl InvalidTask
      else Inr (sc_tasks s ! ti_index task))"

definition task_state :: "'w Scheduler \<Rightarrow> TaskId \<Rightarrow> TaskState option" where
  "task_state s task =
     (case valid_task s task of
        Inl _ \<Rightarrow> None
      | Inr slot \<Rightarrow> map_option tk_state slot)"

definition task_current :: "'w Scheduler \<Rightarrow> TaskId option" where
  "task_current s = sc_current s"

text \<open>\<open>set_state\<close> is the assignment \<^verbatim>\<open>task_slot.state = st\<close> through \<open>as_mut\<close>.\<close>

definition set_state ::
  "'w Scheduler \<Rightarrow> nat \<Rightarrow> TaskState \<Rightarrow> (SchedulerError, unit) result \<times> 'w Scheduler" where
  "set_state s index st =
     (case sc_tasks s ! index of
        None \<Rightarrow> (Inl InvalidTask, s)
      | Some t \<Rightarrow> (Inr (), s\<lparr>sc_tasks := (sc_tasks s)[index := Some (t\<lparr>tk_state := st\<rparr>)]\<rparr>))"

definition wake :: "'w Scheduler \<Rightarrow> TaskId \<Rightarrow> (SchedulerError, unit) result \<times> 'w Scheduler" where
  "wake s task =
     (case and_then (valid_task s task) (\<lambda>slot. ok_or slot InvalidTask) of
        Inl e \<Rightarrow> (Inl e, s)
      | Inr t \<Rightarrow>
          if tk_state t = Blocked then set_state s (ti_index task) Ready else (Inr (), s))"

definition terminated :: "TaskState \<Rightarrow> bool" where
  "terminated st \<longleftrightarrow> st = Finished \<or> st = Cancelled"

definition cancel :: "'w Scheduler \<Rightarrow> TaskId \<Rightarrow> (SchedulerError, unit) result \<times> 'w Scheduler" where
  "cancel s task =
     (case and_then (valid_task s task) (\<lambda>slot. ok_or slot InvalidTask) of
        Inl e \<Rightarrow> (Inl e, s)
      | Inr t \<Rightarrow>
          if \<not> terminated (tk_state t) then set_state s (ti_index task) Cancelled else (Inr (), s))"

definition reap :: "'w Scheduler \<Rightarrow> TaskId \<Rightarrow> (SchedulerError, unit) result \<times> 'w Scheduler" where
  "reap s task =
     (case and_then (valid_task s task) (\<lambda>slot. ok_or slot InvalidTask) of
        Inl e \<Rightarrow> (Inl e, s)
      | Inr t \<Rightarrow>
          if \<not> terminated (tk_state t) then (Inl TaskNotFinished, s)
          else (Inr (), s\<lparr>sc_tasks := (sc_tasks s)[ti_index task := None],
                          sc_contexts := (sc_contexts s)[ti_index task := TaskContext_new]\<rparr>))"

definition task_context :: "'w Scheduler \<Rightarrow> TaskId \<Rightarrow> TaskContext option" where
  "task_context s task =
     (case valid_task s task of
        Inr (Some _) \<Rightarrow>
          (if ti_index task < length (sc_contexts s) then Some (sc_contexts s ! ti_index task) else None)
      | _ \<Rightarrow> None)"

definition wake_task :: "u64 \<Rightarrow> 'w Task \<Rightarrow> 'w Task" where
  "wake_task now t =
     (case tk_state t of
        Sleeping until \<Rightarrow> if now \<ge> until then t\<lparr>tk_state := Ready\<rparr> else t
      | _ \<Rightarrow> t)"

definition wake_expired :: "'w Scheduler \<Rightarrow> u64 \<Rightarrow> 'w Scheduler" where
  "wake_expired s now = s\<lparr>sc_tasks := map (map_option (wake_task now)) (sc_tasks s)\<rparr>"

definition is_ready :: "'w Task option \<Rightarrow> bool" where
  "is_ready slot = (case slot of None \<Rightarrow> False | Some t \<Rightarrow> tk_state t = Ready)"

definition find_next_ready :: "'w Scheduler \<Rightarrow> nat option" where
  "find_next_ready s =
     find (\<lambda>index. is_ready (sc_tasks s ! index))
       (map (\<lambda>offset. (sc_next s + offset) mod MAX_TASKS) [0..<MAX_TASKS])"

fun state_after :: "TaskAction \<Rightarrow> u64 \<Rightarrow> TaskState" where
  "state_after Yield now = Ready"
| "state_after (SleepUntil until) now = (if until \<le> now then Ready else Sleeping until)"
| "state_after Block now = Blocked"
| "state_after Exit now = Finished"

text \<open>
  \<open>run_next\<close>: \<open>stack_base i\<close> is the address of the bytes of stack \<open>i\<close>, \<open>trampoline\<close> that of the task
  trampoline. The two \<open>?\<close> operators keep the mutations made before them.
\<close>

definition run_next ::
  "(nat \<Rightarrow> usize) \<Rightarrow> usize \<Rightarrow> 'w Scheduler \<Rightarrow> 'w \<Rightarrow> u64 \<Rightarrow>
   (SchedulerError, TaskId option) result \<times> 'w Scheduler \<times> 'w" where
  "run_next stack_base trampoline s0 w now =
     (let s = wake_expired s0 now in
      case find_next_ready s of
        None \<Rightarrow> (Inr None, s, w)
      | Some index \<Rightarrow>
         (let task_id = \<lparr>ti_index = index, ti_generation = sc_generations s ! index\<rparr>;
              context = sc_contexts s ! index;
              frame = initialize_frame trampoline (stack_base index) context (sc_memory s);
              s1 = s\<lparr>sc_memory := snd frame,
                     sc_contexts := (sc_contexts s)[index := context\<lparr>cx_stack_pointer := fst frame\<rparr>],
                     sc_current := Some task_id\<rparr>
          in case sc_tasks s1 ! index of
               None \<Rightarrow> (Inl InvalidTask, s1, w)
             | Some task \<Rightarrow>
                (let s2 = s1\<lparr>sc_tasks := (sc_tasks s1)[index := Some (task\<lparr>tk_state := Running\<rparr>)]\<rparr>;
                     outcome = tk_entry task w
                 in case sc_tasks s2 ! index of
                      None \<Rightarrow> (Inl InvalidTask, s2, snd outcome)
                    | Some task2 \<Rightarrow>
                       (Inr (Some task_id),
                        s2\<lparr>sc_tasks := (sc_tasks s2)[index :=
                             Some (task2\<lparr>tk_state := state_after (fst outcome) now\<rparr>)],
                           sc_current := None,
                           sc_next := (index + 1) mod MAX_TASKS\<rparr>,
                        snd outcome))))"

text \<open>The loop of \<open>run_ready\<close>, with \<open>dispatched\<close> counting up to \<open>budget\<close>.\<close>

function run_ready_loop ::
  "(nat \<Rightarrow> usize) \<Rightarrow> usize \<Rightarrow> 'w Scheduler \<Rightarrow> 'w \<Rightarrow> u64 \<Rightarrow> nat \<Rightarrow> nat \<Rightarrow>
   (SchedulerError, nat) result \<times> 'w Scheduler \<times> 'w" where
  "run_ready_loop sb tr s w now budget dispatched =
     (if dispatched < budget
      then case run_next sb tr s w now of
             (Inl e, s', w') \<Rightarrow> (Inl e, s', w')
           | (Inr None, s', w') \<Rightarrow> (Inr dispatched, s', w')
           | (Inr (Some _), s', w') \<Rightarrow> run_ready_loop sb tr s' w' now budget (dispatched + 1)
      else (Inr dispatched, s, w))"
  by pat_completeness auto
termination
  by (relation "measure (\<lambda>(sb, tr, s, w, now, budget, dispatched). budget - dispatched)") auto

declare run_ready_loop.simps [simp del]

definition run_ready ::
  "(nat \<Rightarrow> usize) \<Rightarrow> usize \<Rightarrow> 'w Scheduler \<Rightarrow> 'w \<Rightarrow> u64 \<Rightarrow> nat \<Rightarrow>
   (SchedulerError, nat) result \<times> 'w Scheduler \<times> 'w" where
  "run_ready sb tr s w now budget = run_ready_loop sb tr s w now budget 0"

fun stats_add :: "'w Task option \<Rightarrow> SchedulerStats \<Rightarrow> SchedulerStats" where
  "stats_add None st = st"
| "stats_add (Some t) st =
     (let st = st\<lparr>ss_task_count := ss_task_count st + 1\<rparr> in
      case tk_state t of
        Ready \<Rightarrow> st\<lparr>ss_ready := ss_ready st + 1\<rparr>
      | Sleeping _ \<Rightarrow> st\<lparr>ss_sleeping := ss_sleeping st + 1\<rparr>
      | Blocked \<Rightarrow> st\<lparr>ss_blocked := ss_blocked st + 1\<rparr>
      | Running \<Rightarrow> st\<lparr>ss_running := ss_running st + 1\<rparr>
      | Finished \<Rightarrow> st\<lparr>ss_finished := ss_finished st + 1\<rparr>
      | Cancelled \<Rightarrow> st\<lparr>ss_cancelled := ss_cancelled st + 1\<rparr>)"

definition scheduler_stats :: "'w Scheduler \<Rightarrow> SchedulerStats" where
  "scheduler_stats s =
     fold stats_add (sc_tasks s)
       \<lparr>ss_task_count = 0, ss_ready = 0, ss_sleeping = 0, ss_blocked = 0, ss_running = 0,
        ss_finished = 0, ss_cancelled = 0\<rparr>"

section \<open>Invariant and handles\<close>

definition scheduler_inv :: "'w Scheduler \<Rightarrow> bool" where
  "scheduler_inv s \<longleftrightarrow> length (sc_tasks s) = MAX_TASKS \<and> length (sc_contexts s) = MAX_TASKS \<and>
     length (sc_generations s) = MAX_TASKS \<and> sc_next s < MAX_TASKS \<and> sc_current s = None \<and>
     (\<forall>i < MAX_TASKS. \<forall>t. sc_tasks s ! i = Some t \<longrightarrow> tk_state t \<noteq> Running \<and> sc_generations s ! i \<noteq> 0)"

text \<open>The task a handle denotes, if it denotes one.\<close>

definition live_task :: "'w Scheduler \<Rightarrow> TaskId \<Rightarrow> 'w Task option" where
  "live_task s task =
     (if ti_index task < MAX_TASKS \<and> sc_generations s ! ti_index task = ti_generation task
      then sc_tasks s ! ti_index task else None)"

lemma lookup_eq: "and_then (valid_task s task) (\<lambda>slot. ok_or slot InvalidTask) = ok_or (live_task s task) InvalidTask"
  by (simp add: valid_task_def live_task_def)

lemma task_state_eq: "task_state s task = map_option tk_state (live_task s task)"
  by (simp add: task_state_def valid_task_def live_task_def)

lemma live_task_Some:
  "live_task s task = Some t \<longleftrightarrow> ti_index task < MAX_TASKS \<and>
     sc_generations s ! ti_index task = ti_generation task \<and> sc_tasks s ! ti_index task = Some t"
  by (auto simp: live_task_def)

lemma wake_eq:
  "wake s task = (case live_task s task of
      None \<Rightarrow> (Inl InvalidTask, s)
    | Some t \<Rightarrow> (Inr (), if tk_state t = Blocked
        then s\<lparr>sc_tasks := (sc_tasks s)[ti_index task := Some (t\<lparr>tk_state := Ready\<rparr>)]\<rparr> else s))"
proof (cases "live_task s task")
  case (Some t)
  then have "sc_tasks s ! ti_index task = Some t" by (simp add: live_task_Some)
  with Some show ?thesis by (simp add: wake_def lookup_eq set_state_def)
qed (simp add: wake_def lookup_eq)

lemma cancel_eq:
  "cancel s task = (case live_task s task of
      None \<Rightarrow> (Inl InvalidTask, s)
    | Some t \<Rightarrow> (Inr (), if terminated (tk_state t) then s
        else s\<lparr>sc_tasks := (sc_tasks s)[ti_index task := Some (t\<lparr>tk_state := Cancelled\<rparr>)]\<rparr>))"
proof (cases "live_task s task")
  case (Some t)
  then have "sc_tasks s ! ti_index task = Some t" by (simp add: live_task_Some)
  with Some show ?thesis by (simp add: cancel_def lookup_eq set_state_def)
qed (simp add: cancel_def lookup_eq)

lemma reap_eq:
  "reap s task = (case live_task s task of
      None \<Rightarrow> (Inl InvalidTask, s)
    | Some t \<Rightarrow> if terminated (tk_state t)
        then (Inr (), s\<lparr>sc_tasks := (sc_tasks s)[ti_index task := None],
                        sc_contexts := (sc_contexts s)[ti_index task := TaskContext_new]\<rparr>)
        else (Inl TaskNotFinished, s))"
  by (cases "live_task s task") (simp_all add: reap_def lookup_eq)

lemma next_generation_nonzero: "next_generation g \<noteq> 0"
proof -
  have "1 \<le> next_generation g" by (simp add: next_generation_def)
  then show ?thesis by auto
qed

lemma find_upt_Some:
  "find P [0..<n] = Some i \<longleftrightarrow> i < n \<and> P i \<and> (\<forall>j < i. \<not> P j)"
  by (auto simp: find_Some_iff)

lemma spawn_Inr:
  assumes inv: "scheduler_inv s" and "spawn s e = (Inr task, s')"
  shows "ti_index task < MAX_TASKS" "sc_tasks s ! ti_index task = None"
    "\<forall>j < ti_index task. sc_tasks s ! j \<noteq> None"
    "ti_generation task = next_generation (sc_generations s ! ti_index task)"
    "s' = s\<lparr>sc_tasks := (sc_tasks s)[ti_index task := Some \<lparr>tk_entry = e, tk_state = Ready\<rparr>],
            sc_generations := (sc_generations s)[ti_index task := ti_generation task]\<rparr>"
  using assms
  by (auto simp: spawn_def Let_def scheduler_inv_def find_upt_Some Option.is_none_def split: option.splits)

lemma spawn_Inl:
  assumes inv: "scheduler_inv s"
  shows "spawn s e = (Inl err, s') \<longleftrightarrow> err = NoTaskSlots \<and> s' = s \<and> (\<forall>i < MAX_TASKS. sc_tasks s ! i \<noteq> None)"
  using assms
  by (auto simp: spawn_def Let_def scheduler_inv_def find_None_iff find_upt_Some Option.is_none_def
      split: option.splits)

section \<open>Every operation keeps the invariant\<close>

lemma scheduler_new_inv: "scheduler_inv scheduler_new"
  by (simp add: scheduler_inv_def scheduler_new_def MAX_TASKS_def)

lemma spawn_inv: "scheduler_inv s \<Longrightarrow> spawn s e = (r, s') \<Longrightarrow> scheduler_inv s'"
proof (cases r)
  case (Inl err)
  assume "scheduler_inv s" "spawn s e = (r, s')"
  with Inl show ?thesis by (simp add: spawn_Inl)
next
  case (Inr task)
  assume s: "scheduler_inv s" "spawn s e = (r, s')"
  with Inr have "spawn s e = (Inr task, s')" by simp
  from spawn_Inr [OF s(1) this] next_generation_nonzero s(1) show ?thesis
    by (auto simp: scheduler_inv_def nth_list_update)
qed

lemma wake_inv: "scheduler_inv s \<Longrightarrow> wake s task = (r, s') \<Longrightarrow> scheduler_inv s'"
  by (auto simp: wake_eq live_task_Some scheduler_inv_def nth_list_update split: option.splits if_splits)

lemma cancel_inv: "scheduler_inv s \<Longrightarrow> cancel s task = (r, s') \<Longrightarrow> scheduler_inv s'"
  by (auto simp: cancel_eq live_task_Some scheduler_inv_def nth_list_update split: option.splits if_splits)

lemma reap_inv: "scheduler_inv s \<Longrightarrow> reap s task = (r, s') \<Longrightarrow> scheduler_inv s'"
  by (auto simp: reap_eq live_task_Some scheduler_inv_def nth_list_update split: option.splits if_splits)

lemma wake_task_state:
  "tk_state (wake_task now t) = (case tk_state t of Sleeping until \<Rightarrow> if until \<le> now then Ready else Sleeping until
     | st \<Rightarrow> st)"
  by (simp add: wake_task_def split: TaskState.splits)

lemma wake_task_entry [simp]: "tk_entry (wake_task now t) = tk_entry t"
  by (simp add: wake_task_def split: TaskState.splits)

lemma wake_expired_inv: "scheduler_inv s \<Longrightarrow> scheduler_inv (wake_expired s now)"
  by (auto simp: scheduler_inv_def wake_expired_def wake_task_state split: TaskState.splits if_splits)

lemma wake_expired_nth:
  "scheduler_inv s \<Longrightarrow> i < MAX_TASKS \<Longrightarrow> sc_tasks (wake_expired s now) ! i = map_option (wake_task now) (sc_tasks s ! i)"
  by (simp add: scheduler_inv_def wake_expired_def)

lemma wake_expired_fields [simp]:
  "sc_generations (wake_expired s now) = sc_generations s" "sc_next (wake_expired s now) = sc_next s"
  "sc_contexts (wake_expired s now) = sc_contexts s"
  by (simp_all add: wake_expired_def)

section \<open>Dispatch\<close>

lemma is_ready_iff: "is_ready slot \<longleftrightarrow> (\<exists>t. slot = Some t \<and> tk_state t = Ready)"
  by (auto simp: is_ready_def split: option.splits)

text \<open>The distance from the cursor to slot \<open>i\<close>, going round.\<close>

definition ring_distance :: "nat \<Rightarrow> nat \<Rightarrow> nat" where
  "ring_distance n i = (if n \<le> i then i - n else i + MAX_TASKS - n)"

lemma ring_distance_mod:
  assumes "n < MAX_TASKS" and "i < MAX_TASKS"
  shows "(n + ring_distance n i) mod MAX_TASKS = i" and "ring_distance n i < MAX_TASKS"
  using assms by (auto simp: ring_distance_def)

lemma ring_distance_unique:
  assumes "n < MAX_TASKS" and "k < MAX_TASKS"
  shows "ring_distance n ((n + k) mod MAX_TASKS) = k"
proof (cases "n + k < MAX_TASKS")
  case True
  then show ?thesis by (simp add: ring_distance_def)
next
  case False
  with assms have "(n + k) mod MAX_TASKS = n + k - MAX_TASKS"
    by (simp add: mod_if)
  with assms False show ?thesis by (auto simp: ring_distance_def)
qed

lemma find_map: "find P (map f xs) = map_option f (find (P \<circ> f) xs)"
  by (induction xs) auto

lemma find_next_ready_Some:
  assumes "sc_next s < MAX_TASKS"
  shows "find_next_ready s = Some i \<longleftrightarrow> i < MAX_TASKS \<and> is_ready (sc_tasks s ! i) \<and>
    (\<forall>j < MAX_TASKS. is_ready (sc_tasks s ! j) \<longrightarrow> ring_distance (sc_next s) i \<le> ring_distance (sc_next s) j)"
proof -
  let ?n = "sc_next s" let ?at = "\<lambda>k. (?n + k) mod MAX_TASKS"
  let ?R = "\<lambda>i. is_ready (sc_tasks s ! i)"
  have "find_next_ready s = Some i \<longleftrightarrow> (\<exists>k < MAX_TASKS. i = ?at k \<and> ?R i \<and> (\<forall>j < k. \<not> ?R (?at j)))"
    by (auto simp: find_next_ready_def find_map find_upt_Some)
  also have "\<dots> \<longleftrightarrow> i < MAX_TASKS \<and> ?R i \<and> (\<forall>j < ring_distance ?n i. \<not> ?R (?at j))"
  proof
    assume "\<exists>k < MAX_TASKS. i = ?at k \<and> ?R i \<and> (\<forall>j < k. \<not> ?R (?at j))"
    then obtain k where "k < MAX_TASKS" "i = ?at k" "?R i" "\<forall>j < k. \<not> ?R (?at j)" by blast
    moreover from this have "ring_distance ?n i = k" by (simp add: ring_distance_unique [OF assms])
    ultimately show "i < MAX_TASKS \<and> ?R i \<and> (\<forall>j < ring_distance ?n i. \<not> ?R (?at j))"
      by (simp add: MAX_TASKS_def)
  next
    assume "i < MAX_TASKS \<and> ?R i \<and> (\<forall>j < ring_distance ?n i. \<not> ?R (?at j))"
    then show "\<exists>k < MAX_TASKS. i = ?at k \<and> ?R i \<and> (\<forall>j < k. \<not> ?R (?at j))"
      by (intro exI [of _ "ring_distance ?n i"]) (simp add: ring_distance_mod [OF assms])
  qed
  also have "\<dots> \<longleftrightarrow> i < MAX_TASKS \<and> ?R i \<and> (\<forall>j < MAX_TASKS. ?R j \<longrightarrow> ring_distance ?n i \<le> ring_distance ?n j)"
  proof (rule conj_cong [OF refl], rule conj_cong [OF refl], rule iffI)
    assume a: "i < MAX_TASKS" "\<forall>j < ring_distance ?n i. \<not> ?R (?at j)"
    show "\<forall>j < MAX_TASKS. ?R j \<longrightarrow> ring_distance ?n i \<le> ring_distance ?n j"
    proof (intro allI impI, rule ccontr)
      fix j assume j: "j < MAX_TASKS" "?R j" "\<not> ring_distance ?n i \<le> ring_distance ?n j"
      then show False using a(2) ring_distance_mod(1) [OF assms j(1)] by (metis not_le)
    qed
  next
    assume i: "i < MAX_TASKS" and a: "\<forall>j < MAX_TASKS. ?R j \<longrightarrow> ring_distance ?n i \<le> ring_distance ?n j"
    show "\<forall>j < ring_distance ?n i. \<not> ?R (?at j)"
    proof (intro allI impI notI)
      fix j assume j: "j < ring_distance ?n i" "?R (?at j)"
      then have "j < MAX_TASKS" using ring_distance_mod(2) [OF assms i] by simp
      with a j ring_distance_unique [OF assms this] show False by (metis mod_less_divisor not_le less_nat_zero_code neq0_conv)
    qed
  qed
  finally show ?thesis .
qed

lemma find_next_ready_None:
  assumes "sc_next s < MAX_TASKS"
  shows "find_next_ready s = None \<longleftrightarrow> (\<forall>i < MAX_TASKS. \<not> is_ready (sc_tasks s ! i))"
proof -
  have "find_next_ready s = None \<longleftrightarrow> (\<forall>k < MAX_TASKS. \<not> is_ready (sc_tasks s ! ((sc_next s + k) mod MAX_TASKS)))"
    by (auto simp: find_next_ready_def find_None_iff)
  also have "\<dots> \<longleftrightarrow> (\<forall>i < MAX_TASKS. \<not> is_ready (sc_tasks s ! i))"
    using ring_distance_mod [OF assms] by (metis mod_less_divisor less_nat_zero_code neq0_conv)
  finally show ?thesis .
qed

text \<open>\<open>run_next\<close> on a scheduler in its invariant: the two error branches cannot be reached.\<close>

definition dispatched ::
  "(nat \<Rightarrow> usize) \<Rightarrow> usize \<Rightarrow> 'w Scheduler \<Rightarrow> nat \<Rightarrow> 'w Task \<Rightarrow> TaskAction \<Rightarrow> u64 \<Rightarrow> 'w Scheduler" where
  "dispatched sb tr s i t act now =
     (let frame = initialize_frame tr (sb i) (sc_contexts s ! i) (sc_memory s)
      in s\<lparr>sc_tasks := (sc_tasks s)[i := Some (t\<lparr>tk_state := state_after act now\<rparr>)],
           sc_memory := snd frame,
           sc_contexts := (sc_contexts s)[i := (sc_contexts s ! i)\<lparr>cx_stack_pointer := fst frame\<rparr>],
           sc_current := None, sc_next := (i + 1) mod MAX_TASKS\<rparr>)"

lemma run_next_eq:
  assumes inv: "scheduler_inv s"
  shows "run_next sb tr s w now =
    (let s1 = wake_expired s now in
     case find_next_ready s1 of
       None \<Rightarrow> (Inr None, s1, w)
     | Some i \<Rightarrow>
        (let t = the (sc_tasks s1 ! i); outcome = tk_entry t w
         in (Inr (Some \<lparr>ti_index = i, ti_generation = sc_generations s1 ! i\<rparr>),
             dispatched sb tr s1 i t (fst outcome) now, snd outcome)))"
proof -
  let ?s = "wake_expired s now"
  have inv1: "scheduler_inv ?s" by (rule wake_expired_inv [OF inv])
  show ?thesis
  proof (cases "find_next_ready ?s")
    case None
    then show ?thesis by (simp add: run_next_def Let_def)
  next
    case (Some i)
    then have i: "i < MAX_TASKS" "is_ready (sc_tasks ?s ! i)"
      using find_next_ready_Some [of ?s i] inv1 by (simp_all add: scheduler_inv_def)
    then obtain t where t: "sc_tasks ?s ! i = Some t" by (auto simp: is_ready_iff)
    have "length (sc_tasks ?s) = MAX_TASKS" using inv1 by (simp add: scheduler_inv_def)
    with Some t i(1) show ?thesis
      by (simp add: run_next_def Let_def dispatched_def)
  qed
qed

lemma state_after_not_running [simp]: "state_after a now \<noteq> Running"
  by (cases a) auto

lemma dispatched_inv:
  assumes "scheduler_inv s" and "sc_tasks s ! i = Some t" and "i < MAX_TASKS"
  shows "scheduler_inv (dispatched sb tr s i t act now)"
  using assms by (auto simp: scheduler_inv_def dispatched_def Let_def nth_list_update MAX_TASKS_def)

lemma dispatched_tasks:
  assumes "scheduler_inv s" and "i < MAX_TASKS" and "j < MAX_TASKS"
  shows "sc_tasks (dispatched sb tr s i t act now) ! j =
    (if j = i then Some (t\<lparr>tk_state := state_after act now\<rparr>) else sc_tasks s ! j)"
  using assms by (simp add: scheduler_inv_def dispatched_def Let_def nth_list_update)

lemma dispatched_fields [simp]:
  "sc_generations (dispatched sb tr s i t act now) = sc_generations s"
  "sc_next (dispatched sb tr s i t act now) = (i + 1) mod MAX_TASKS"
  by (simp_all add: dispatched_def Let_def)

text \<open>One call of \<open>run_next\<close> in the two cases that can occur.\<close>

lemma run_next_cases:
  assumes inv: "scheduler_inv s" and run: "run_next sb tr s w now = (r, s', w')"
  obtains (idle) "r = Inr None" "w' = w" "s' = wake_expired s now"
    "\<forall>i < MAX_TASKS. \<not> is_ready (sc_tasks (wake_expired s now) ! i)"
  | (step) i t act where "i < MAX_TASKS" "sc_tasks (wake_expired s now) ! i = Some t" "tk_state t = Ready"
    "\<forall>j < MAX_TASKS. is_ready (sc_tasks (wake_expired s now) ! j) \<longrightarrow>
       ring_distance (sc_next s) i \<le> ring_distance (sc_next s) j"
    "r = Inr (Some \<lparr>ti_index = i, ti_generation = sc_generations s ! i\<rparr>)"
    "tk_entry t w = (act, w')" "s' = dispatched sb tr (wake_expired s now) i t act now"
proof -
  let ?s = "wake_expired s now"
  have inv1: "scheduler_inv ?s" by (rule wake_expired_inv [OF inv])
  then have nx: "sc_next ?s < MAX_TASKS" by (simp add: scheduler_inv_def)
  show thesis
  proof (cases "find_next_ready ?s")
    case None
    then have "r = Inr None" "w' = w" "s' = ?s"
      using run by (simp_all add: run_next_eq [OF inv] Let_def)
    then show thesis
      by (rule idle) (use None in \<open>simp add: find_next_ready_None [OF nx]\<close>)
  next
    case (Some i)
    note f = Some [unfolded find_next_ready_Some [OF nx]]
    then obtain t where t: "sc_tasks ?s ! i = Some t" "tk_state t = Ready" by (auto simp: is_ready_iff)
    obtain act w2 where o: "tk_entry t w = (act, w2)" by fastforce
    with run Some t have eqs: "r = Inr (Some \<lparr>ti_index = i, ti_generation = sc_generations s ! i\<rparr>)"
      "s' = dispatched sb tr ?s i t act now" "w' = w2"
      by (simp_all add: run_next_eq [OF inv] Let_def)
    show thesis
      by (rule step [OF _ t _ eqs(1) _ eqs(2)]) (use f o eqs(3) in auto)
  qed
qed

lemma run_next_inv:
  assumes "scheduler_inv s" and "run_next sb tr s w now = (r, s', w')"
  shows "scheduler_inv s'"
proof (cases rule: run_next_cases [OF assms, case_names idle step])
  case idle
  then show ?thesis using wake_expired_inv [OF assms(1)] by simp
next
  case (step i t act)
  then show ?thesis using dispatched_inv [OF wake_expired_inv [OF assms(1)]] by simp
qed

section \<open>Task handles as a finite map\<close>

text \<open>
  The abstract scheduler is a map from handles to task states. The contract of a handle table:
  \<open>spawn\<close> adds a handle that was not in the map, the other operations change the entry of their handle
  only, and an operation on a handle that is not in the map is refused.
\<close>

locale handle_table =
  fixes state :: "'s \<Rightarrow> TaskId \<Rightarrow> TaskState option" and inv :: "'s \<Rightarrow> bool"
    and new :: "'s \<Rightarrow> 'e \<Rightarrow> (SchedulerError, TaskId) result \<times> 's"
    and wake_up :: "'s \<Rightarrow> TaskId \<Rightarrow> (SchedulerError, unit) result \<times> 's"
    and stop :: "'s \<Rightarrow> TaskId \<Rightarrow> (SchedulerError, unit) result \<times> 's"
    and collect :: "'s \<Rightarrow> TaskId \<Rightarrow> (SchedulerError, unit) result \<times> 's"
  assumes new_ok: "inv s \<Longrightarrow> new s e = (Inr h, s') \<Longrightarrow> inv s' \<and> state s h = None \<and> state s' = (state s)(h \<mapsto> Ready)"
    and new_failed: "inv s \<Longrightarrow> new s e = (Inl err, s') \<Longrightarrow> s' = s"
    and wake_up_spec: "inv s \<Longrightarrow> wake_up s h = (r, s') \<Longrightarrow> inv s' \<and>
      (case state s h of None \<Rightarrow> r = Inl InvalidTask \<and> s' = s
       | Some st \<Rightarrow> r = Inr () \<and> state s' = (state s)(h \<mapsto> (if st = Blocked then Ready else st)))"
    and stop_spec: "inv s \<Longrightarrow> stop s h = (r, s') \<Longrightarrow> inv s' \<and>
      (case state s h of None \<Rightarrow> r = Inl InvalidTask \<and> s' = s
       | Some st \<Rightarrow> r = Inr () \<and> state s' = (state s)(h \<mapsto> (if terminated st then st else Cancelled)))"
    and collect_spec: "inv s \<Longrightarrow> collect s h = (r, s') \<Longrightarrow> inv s' \<and>
      (case state s h of None \<Rightarrow> r = Inl InvalidTask \<and> s' = s
       | Some st \<Rightarrow> if terminated st then r = Inr () \<and> state s' = (state s)(h := None)
           else r = Inl TaskNotFinished \<and> s' = s)"
begin

lemma collected_handle_refused:
  assumes "inv s" and "collect s h = (Inr (), s1)"
  shows "wake_up s1 h = (Inl InvalidTask, s1) \<and> stop s1 h = (Inl InvalidTask, s1) \<and>
    collect s1 h = (Inl InvalidTask, s1)"
proof -
  have "inv s1 \<and> state s1 h = None"
    using collect_spec [OF assms] by (auto split: option.splits if_splits)
  then have "fst (wake_up s1 h) = Inl InvalidTask \<and> snd (wake_up s1 h) = s1"
    "fst (stop s1 h) = Inl InvalidTask \<and> snd (stop s1 h) = s1"
    "fst (collect s1 h) = Inl InvalidTask \<and> snd (collect s1 h) = s1"
    using wake_up_spec [of s1 h "fst (wake_up s1 h)" "snd (wake_up s1 h)"]
      stop_spec [of s1 h "fst (stop s1 h)" "snd (stop s1 h)"]
      collect_spec [of s1 h "fst (collect s1 h)" "snd (collect s1 h)"]
    by simp_all
  then show ?thesis by (simp add: prod_eq_iff)
qed

lemma new_handle_fresh:
  assumes "inv s" and "new s e = (Inr h, s1)" and "new s1 e' = (Inr h', s2)"
  shows "h \<noteq> h' \<and> state s2 h = Some Ready \<and> state s2 h' = Some Ready"
  using new_ok [OF assms(1,2)] new_ok [of s1 e' h' s2] assms(3) by auto

lemma cancel_then_collect:
  assumes "inv s" and "state s h = Some st" and "stop s h = (r, s1)" and "collect s1 h = (r', s2)"
  shows "r = Inr () \<and> r' = Inr () \<and> state s2 = (state s)(h := None)"
proof -
  from stop_spec [OF assms(1,3)] assms(2)
  have s1: "inv s1" "r = Inr ()" "state s1 = (state s)(h \<mapsto> (if terminated st then st else Cancelled))" by auto
  then have "\<exists>st'. state s1 h = Some st' \<and> terminated st'" by (auto simp: terminated_def)
  with collect_spec [OF s1(1) assms(4)] s1 show ?thesis by auto
qed

end

lemma task_state_update:
  assumes "live_task s h = Some t" and "scheduler_inv s"
  shows "task_state (s\<lparr>sc_tasks := (sc_tasks s)[ti_index h := Some (t\<lparr>tk_state := st\<rparr>)]\<rparr>) = (task_state s)(h \<mapsto> st)"
proof
  fix h'
  have h: "ti_index h < length (sc_tasks s)" "sc_generations s ! ti_index h = ti_generation h"
    "ti_index h < MAX_TASKS"
    using assms by (auto simp: live_task_Some scheduler_inv_def)
  show "task_state (s\<lparr>sc_tasks := (sc_tasks s)[ti_index h := Some (t\<lparr>tk_state := st\<rparr>)]\<rparr>) h' = ((task_state s)(h \<mapsto> st)) h'"
  proof (cases "h' = h")
    case True
    with h show ?thesis by (simp add: task_state_eq live_task_def)
  next
    case False
    then have "ti_index h' = ti_index h \<longrightarrow> ti_generation h' \<noteq> ti_generation h" by auto
    with h False show ?thesis by (auto simp: task_state_eq live_task_def nth_list_update)
  qed
qed

lemma task_state_unchanged: "task_state s h = Some st \<Longrightarrow> (task_state s)(h \<mapsto> st) = task_state s"
  by auto

interpretation task_handles: handle_table task_state scheduler_inv spawn wake cancel reap
proof unfold_locales
  show "scheduler_inv s' \<and> task_state s h = None \<and> task_state s' = (task_state s)(h \<mapsto> Ready)"
    if inv: "scheduler_inv s" and sp: "spawn s e = (Inr h, s')"
    for s :: "'w Scheduler" and e h s'
  proof -
    note f = spawn_Inr [OF inv sp]
    have none: "task_state s h = None" using f(2) by (simp add: task_state_eq live_task_def)
    have "task_state s' h' = ((task_state s)(h \<mapsto> Ready)) h'" for h'
    proof (cases "h' = h")
      case True
      with f inv show ?thesis by (simp add: task_state_eq live_task_def scheduler_inv_def)
    next
      case False
      then have "ti_index h' = ti_index h \<longrightarrow> ti_generation h' \<noteq> ti_generation h" by auto
      with f(1,2,5) inv False show ?thesis
        by (auto simp: task_state_eq live_task_def scheduler_inv_def nth_list_update)
    qed
    with none spawn_inv [OF inv sp] show ?thesis by auto
  qed
  show "s' = s" if "scheduler_inv s" "spawn s e = (Inl err, s')" for s :: "'w Scheduler" and e err s'
    using that by (simp add: spawn_Inl)
  show "scheduler_inv s' \<and> (case task_state s h of None \<Rightarrow> r = Inl InvalidTask \<and> s' = s
      | Some st \<Rightarrow> r = Inr () \<and> task_state s' = (task_state s)(h \<mapsto> (if st = Blocked then Ready else st)))"
    if "scheduler_inv s" "wake s h = (r, s')" for s :: "'w Scheduler" and h r s'
  proof (cases "live_task s h")
    case None
    with that show ?thesis by (auto simp: task_state_eq wake_eq)
  next
    case (Some t)
    then have ts: "task_state s h = Some (tk_state t)" by (simp add: task_state_eq)
    from that(2) Some have "r = Inr ()" "s' = (if tk_state t = Blocked
        then s\<lparr>sc_tasks := (sc_tasks s)[ti_index h := Some (t\<lparr>tk_state := Ready\<rparr>)]\<rparr> else s)"
      by (simp_all add: wake_eq)
    with ts task_state_update [OF Some that(1)] task_state_unchanged [OF ts] wake_inv [OF that]
    show ?thesis by simp
  qed
  show "scheduler_inv s' \<and> (case task_state s h of None \<Rightarrow> r = Inl InvalidTask \<and> s' = s
      | Some st \<Rightarrow> r = Inr () \<and> task_state s' = (task_state s)(h \<mapsto> (if terminated st then st else Cancelled)))"
    if "scheduler_inv s" "cancel s h = (r, s')" for s :: "'w Scheduler" and h r s'
  proof (cases "live_task s h")
    case None
    with that show ?thesis by (auto simp: task_state_eq cancel_eq)
  next
    case (Some t)
    then have ts: "task_state s h = Some (tk_state t)" by (simp add: task_state_eq)
    from that(2) Some have "r = Inr ()" "s' = (if terminated (tk_state t) then s
        else s\<lparr>sc_tasks := (sc_tasks s)[ti_index h := Some (t\<lparr>tk_state := Cancelled\<rparr>)]\<rparr>)"
      by (simp_all add: cancel_eq)
    with ts task_state_update [OF Some that(1)] task_state_unchanged [OF ts] cancel_inv [OF that]
    show ?thesis by simp
  qed
  show "scheduler_inv s' \<and> (case task_state s h of None \<Rightarrow> r = Inl InvalidTask \<and> s' = s
      | Some st \<Rightarrow> if terminated st then r = Inr () \<and> task_state s' = (task_state s)(h := None)
          else r = Inl TaskNotFinished \<and> s' = s)"
    if "scheduler_inv s" "reap s h = (r, s')" for s :: "'w Scheduler" and h r s'
  proof (cases "live_task s h")
    case None
    with that show ?thesis by (auto simp: task_state_eq reap_eq)
  next
    case (Some t)
    then have ts: "task_state s h = Some (tk_state t)" by (simp add: task_state_eq)
    have "task_state (s\<lparr>sc_tasks := (sc_tasks s)[ti_index h := None],
        sc_contexts := (sc_contexts s)[ti_index h := TaskContext_new]\<rparr>) h' = ((task_state s)(h := None)) h'" for h'
    proof (cases "h' = h")
      case False
      then have "ti_index h' = ti_index h \<longrightarrow> ti_generation h' \<noteq> ti_generation h" by auto
      with Some that(1) False show ?thesis
        by (auto simp: task_state_eq live_task_def scheduler_inv_def nth_list_update split: if_splits)
    qed (use Some that(1) in \<open>auto simp: task_state_eq live_task_def scheduler_inv_def split: if_splits\<close>)
    with that(2) Some ts reap_inv [OF that] show ?thesis
      by (auto simp: reap_eq split: if_splits)
  qed
qed

section \<open>The abstract scheduler\<close>

type_synonym handle_map = "TaskId \<Rightarrow> TaskState option"

definition abs_wake :: "handle_map \<Rightarrow> TaskId \<Rightarrow> (SchedulerError, unit) result \<times> handle_map" where
  "abs_wake m h = (case m h of None \<Rightarrow> (Inl InvalidTask, m)
     | Some st \<Rightarrow> (Inr (), m(h \<mapsto> (if st = Blocked then Ready else st))))"

definition abs_cancel :: "handle_map \<Rightarrow> TaskId \<Rightarrow> (SchedulerError, unit) result \<times> handle_map" where
  "abs_cancel m h = (case m h of None \<Rightarrow> (Inl InvalidTask, m)
     | Some st \<Rightarrow> (Inr (), m(h \<mapsto> (if terminated st then st else Cancelled))))"

definition abs_reap :: "handle_map \<Rightarrow> TaskId \<Rightarrow> (SchedulerError, unit) result \<times> handle_map" where
  "abs_reap m h = (case m h of None \<Rightarrow> (Inl InvalidTask, m)
     | Some st \<Rightarrow> if terminated st then (Inr (), m(h := None)) else (Inl TaskNotFinished, m))"

text \<open>Any sequence of scheduler operations; the world is what task entries see and change.\<close>

inductive scheduler_step :: "'w Scheduler \<times> 'w \<Rightarrow> 'w Scheduler \<times> 'w \<Rightarrow> bool" where
  spawn: "spawn s e = (r, s') \<Longrightarrow> scheduler_step (s, w) (s', w)"
| wake: "wake s h = (r, s') \<Longrightarrow> scheduler_step (s, w) (s', w)"
| cancel: "cancel s h = (r, s') \<Longrightarrow> scheduler_step (s, w) (s', w)"
| reap: "reap s h = (r, s') \<Longrightarrow> scheduler_step (s, w) (s', w)"
| wake_expired: "scheduler_step (s, w) (wake_expired s now, w)"
| run_next: "run_next sb tr s w now = (r, s', w') \<Longrightarrow> scheduler_step (s, w) (s', w')"
| elsewhere: "scheduler_step (s, w) (s, w')"

inductive_cases scheduler_stepE: "scheduler_step x y"

lemma scheduler_step_inv:
  assumes "scheduler_step x y" and "scheduler_inv (fst x)"
  shows "scheduler_inv (fst y)"
  using assms
  by (cases rule: scheduler_step.cases)
    (auto dest: spawn_inv wake_inv cancel_inv reap_inv run_next_inv intro: wake_expired_inv)

lemma scheduler_reachable_inv:
  assumes "scheduler_step\<^sup>*\<^sup>* x y" and "scheduler_inv (fst x)"
  shows "scheduler_inv (fst y)"
  using assms by (induction rule: rtranclp_induct) (auto intro: scheduler_step_inv)

text \<open>The results of one \<open>run_next\<close> call per entry of a list of times.\<close>

fun dispatch_trace ::
  "(nat \<Rightarrow> usize) \<Rightarrow> usize \<Rightarrow> u64 list \<Rightarrow> 'w Scheduler \<Rightarrow> 'w \<Rightarrow>
   (SchedulerError, TaskId option) result list" where
  "dispatch_trace sb tr [] s w = []"
| "dispatch_trace sb tr (now # nows) s w =
     (case run_next sb tr s w now of (r, s', w') \<Rightarrow> r # dispatch_trace sb tr nows s' w')"

lemma ready_stays_ready:
  assumes inv: "scheduler_inv s" and j: "j < MAX_TASKS" and ready: "is_ready (sc_tasks s ! j)"
    and run: "run_next sb tr s w now = (r, s', w')"
  shows "r = Inr (Some \<lparr>ti_index = j, ti_generation = sc_generations s ! j\<rparr>) \<or>
    is_ready (sc_tasks s' ! j) \<and> sc_generations s' ! j = sc_generations s ! j \<and>
    ring_distance (sc_next s') j < ring_distance (sc_next s) j"
proof -
  have ready1: "is_ready (sc_tasks (wake_expired s now) ! j)"
    using ready j inv by (auto simp: wake_expired_nth is_ready_iff wake_task_state)
  show ?thesis
  proof (cases rule: run_next_cases [OF inv run, case_names idle step])
    case idle
    with ready1 j show ?thesis by blast
  next
    case (step i t act)
    show ?thesis
    proof (cases "i = j")
      case True
      with step show ?thesis by simp
    next
      case False
      have nx: "sc_next s < MAX_TASKS" using inv by (simp add: scheduler_inv_def)
      have le: "ring_distance (sc_next s) i \<le> ring_distance (sc_next s) j"
        using step(4) ready1 j by blast
      have "ring_distance ((i + 1) mod MAX_TASKS) j < ring_distance (sc_next s) j"
        using le False nx step(1) j by (auto simp: ring_distance_def mod_if split: if_splits)
      moreover have "is_ready (sc_tasks s' ! j)"
        using dispatched_tasks [OF wake_expired_inv [OF inv] step(1) j] False ready1 step(7) by simp
      ultimately show ?thesis using step(7) by simp
    qed
  qed
qed

section \<open>Properties\<close>

text \<open>C17: \<open>wake\<close>, \<open>cancel\<close> and \<open>reap\<close> implement their specifications on the map from handles to task
  states, results included; \<open>spawn\<close> adds one ready entry under a handle that was not in the map, and
  fails, changing nothing, exactly when every slot is occupied.\<close>

theorem scheduler_refines_handle_map:
  assumes "scheduler_inv s"
  shows "map_prod id task_state (wake s h) = abs_wake (task_state s) h \<and>
    map_prod id task_state (cancel s h) = abs_cancel (task_state s) h \<and>
    map_prod id task_state (reap s h) = abs_reap (task_state s) h \<and>
    (case spawn s e of
       (Inr new, s') \<Rightarrow> task_state s new = None \<and> task_state s' = (task_state s)(new \<mapsto> Ready)
     | (Inl err, s') \<Rightarrow> err = NoTaskSlots \<and> s' = s \<and> (\<forall>i < MAX_TASKS. sc_tasks s ! i \<noteq> None))"
proof (intro conjI)
  obtain r s1 where w: "wake s h = (r, s1)" by fastforce
  from task_handles.wake_up_spec [OF assms w] w
  show "map_prod id task_state (wake s h) = abs_wake (task_state s) h"
    by (auto simp: abs_wake_def split: option.splits)
  obtain r' s2 where c: "cancel s h = (r', s2)" by fastforce
  from task_handles.stop_spec [OF assms c] c
  show "map_prod id task_state (cancel s h) = abs_cancel (task_state s) h"
    by (auto simp: abs_cancel_def split: option.splits)
  obtain r'' s3 where p: "reap s h = (r'', s3)" by fastforce
  from task_handles.collect_spec [OF assms p] p
  show "map_prod id task_state (reap s h) = abs_reap (task_state s) h"
    by (auto simp: abs_reap_def split: option.splits if_splits)
  obtain x s4 where n: "spawn s e = (x, s4)" by fastforce
  show "case spawn s e of
       (Inr new, s') \<Rightarrow> task_state s new = None \<and> task_state s' = (task_state s)(new \<mapsto> Ready)
     | (Inl err, s') \<Rightarrow> err = NoTaskSlots \<and> s' = s \<and> (\<forall>i < MAX_TASKS. sc_tasks s ! i \<noteq> None)"
  proof (cases x)
    case (Inl err)
    with n have eq: "spawn s e = (Inl err, s4)" by simp
    from this [unfolded spawn_Inl [OF assms]] show ?thesis unfolding eq by simp
  next
    case (Inr new)
    with n task_handles.new_ok [OF assms, of e new s4] show ?thesis by simp
  qed
qed

text \<open>C18: every state that any sequence of operations reaches from the empty scheduler satisfies the
  invariant (no task is left running, the cursor stays in the table, occupied slots have a nonzero
  generation), and in it \<open>run_next\<close> never reports an error.\<close>

theorem reachable_scheduler_sound:
  assumes "scheduler_step\<^sup>*\<^sup>* (scheduler_new, w0) (s, w)"
  shows "scheduler_inv s \<and> (\<exists>x s' w'. run_next sb tr s w now = (Inr x, s', w'))"
proof
  show inv: "scheduler_inv s"
    using scheduler_reachable_inv [OF assms] scheduler_new_inv by simp
  obtain r s' w' where run: "run_next sb tr s w now = (r, s', w')" by (cases "run_next sb tr s w now" rule: prod_cases3)
  show "\<exists>x s' w'. run_next sb tr s w now = (Inr x, s', w')"
    by (cases rule: run_next_cases [OF inv run]) (use run in auto)
qed

text \<open>\<open>run_next\<close> dispatches at most one task: one that was ready, or asleep with an expired
  deadline, and that is the nearest such slot at or after the cursor. Its entry runs exactly once and
  its action alone decides its next state; every other slot only has its expired sleep ended. It
  reports that it is idle only when no task can run, and then no entry has run.\<close>

theorem run_next_dispatches_one:
  assumes "scheduler_inv s" and "run_next sb tr s w now = (r, s', w')"
  shows "case r of
      Inl _ \<Rightarrow> False
    | Inr None \<Rightarrow> w' = w \<and> s' = wake_expired s now \<and>
        (\<forall>i < MAX_TASKS. \<forall>t. sc_tasks s ! i = Some t \<longrightarrow> tk_state (wake_task now t) \<noteq> Ready)
    | Inr (Some h) \<Rightarrow> (\<exists>t act. live_task s h = Some t \<and> tk_state (wake_task now t) = Ready \<and>
        tk_entry t w = (act, w') \<and> task_state s' h = Some (state_after act now) \<and>
        (\<forall>j < MAX_TASKS. j \<noteq> ti_index h \<longrightarrow> sc_tasks s' ! j = map_option (wake_task now) (sc_tasks s ! j)) \<and>
        (\<forall>j < MAX_TASKS. is_ready (map_option (wake_task now) (sc_tasks s ! j)) \<longrightarrow>
           ring_distance (sc_next s) (ti_index h) \<le> ring_distance (sc_next s) j))"
proof (cases rule: run_next_cases [OF assms, case_names idle step])
  case idle
  then show ?thesis using assms(1) by (auto simp: wake_expired_nth is_ready_iff)
next
  case (step i t act)
  obtain t0 where t0: "sc_tasks s ! i = Some t0" "t = wake_task now t0"
    using step(1,2) assms(1) by (auto simp: wake_expired_nth)
  let ?h = "\<lparr>ti_index = i, ti_generation = sc_generations s ! i\<rparr>"
  note inv1 = wake_expired_inv [OF assms(1), of now]
  have "live_task s ?h = Some t0" using t0 step(1) by (simp add: live_task_def)
  moreover have "task_state s' ?h = Some (state_after act now)"
    using dispatched_tasks [OF inv1 step(1,1)] step(1,7) by (simp add: task_state_eq live_task_def)
  moreover have "\<forall>j < MAX_TASKS. j \<noteq> i \<longrightarrow> sc_tasks s' ! j = map_option (wake_task now) (sc_tasks s ! j)"
    using dispatched_tasks [OF inv1 step(1)] step(7) assms(1) by (simp add: wake_expired_nth)
  moreover have "\<forall>j < MAX_TASKS. is_ready (map_option (wake_task now) (sc_tasks s ! j)) \<longrightarrow>
      ring_distance (sc_next s) i \<le> ring_distance (sc_next s) j"
    using step(4) assms(1) by (simp add: wake_expired_nth)
  ultimately show ?thesis
    using step(3,5,6) t0 by auto
qed

text \<open>C19: dispatch is fair. A ready task is dispatched after at most as many other dispatches as there
  are slots between the cursor and its own, so within any \<open>MAX_TASKS\<close> consecutive calls, whatever the
  other tasks do and whatever times are passed.\<close>

theorem ready_task_dispatched:
  assumes "scheduler_inv s" and "j < MAX_TASKS" and "is_ready (sc_tasks s ! j)"
    and "ring_distance (sc_next s) j < length nows"
  shows "\<exists>k \<le> ring_distance (sc_next s) j. k < MAX_TASKS \<and> dispatch_trace sb tr nows s w ! k =
    Inr (Some \<lparr>ti_index = j, ti_generation = sc_generations s ! j\<rparr>)"
  using assms
proof (induction nows arbitrary: s w)
  case Nil
  then show ?case by simp
next
  case (Cons now nows)
  obtain r s' w' where run: "run_next sb tr s w now = (r, s', w')"
    by (cases "run_next sb tr s w now" rule: prod_cases3)
  have tr: "dispatch_trace sb tr (now # nows) s w = r # dispatch_trace sb tr nows s' w'" by (simp add: run)
  from ready_stays_ready [OF Cons.prems(1-3) run] show ?case
  proof
    assume "r = Inr (Some \<lparr>ti_index = j, ti_generation = sc_generations s ! j\<rparr>)"
    then show ?thesis unfolding tr by (intro exI [of _ 0]) (simp add: MAX_TASKS_def)
  next
    assume a: "is_ready (sc_tasks s' ! j) \<and> sc_generations s' ! j = sc_generations s ! j \<and>
      ring_distance (sc_next s') j < ring_distance (sc_next s) j"
    have inv': "scheduler_inv s'" by (rule run_next_inv [OF Cons.prems(1) run])
    have "ring_distance (sc_next s') j < length nows" using a Cons.prems(4) by simp
    from Cons.IH [OF inv' Cons.prems(2) conjunct1 [OF a] this] obtain k
      where k: "k \<le> ring_distance (sc_next s') j" "dispatch_trace sb tr nows s' w' ! k =
        Inr (Some \<lparr>ti_index = j, ti_generation = sc_generations s' ! j\<rparr>)" by blast
    have "ring_distance (sc_next s) j < MAX_TASKS"
      using Cons.prems(1,2) by (intro ring_distance_mod) (simp_all add: scheduler_inv_def)
    with k a show ?thesis unfolding tr by (intro exI [of _ "Suc k"]) auto
  qed
qed

lemma run_ready_loop_result:
  assumes "scheduler_inv s" and "d \<le> budget" and "run_ready_loop sb tr s w now budget d = (r, s', w')"
  shows "\<exists>n. r = Inr n \<and> d \<le> n \<and> n \<le> budget \<and> scheduler_inv s' \<and>
    (n < budget \<longrightarrow> (\<forall>i < MAX_TASKS. \<not> is_ready (sc_tasks s' ! i))) \<and>
    (\<forall>k < n - d. \<exists>h. dispatch_trace sb tr (replicate (n - d) now) s w ! k = Inr (Some h))"
  using assms
proof (induction sb tr s w now budget d arbitrary: r s' w' rule: run_ready_loop.induct)
  case (1 sb tr s w now budget d)
  show ?case
  proof (cases "d < budget")
    case False
    with "1.prems" show ?thesis by (subst (asm) run_ready_loop.simps) auto
  next
    case True
    obtain x s1 w1 where run: "run_next sb tr s w now = (x, s1, w1)"
      by (cases "run_next sb tr s w now" rule: prod_cases3)
    show ?thesis
    proof (cases rule: run_next_cases [OF "1.prems"(1) run, case_names idle step])
      case idle
      with True run "1.prems"(3) have "r = Inr d" "s' = s1"
        by (subst (asm) run_ready_loop.simps, simp)+
      with True idle run_next_inv [OF "1.prems"(1) run] show ?thesis by auto
    next
      case (step i t act)
      let ?h = "\<lparr>ti_index = i, ti_generation = sc_generations s ! i\<rparr>"
      have rec: "run_ready_loop sb tr s1 w1 now budget (d + 1) = (r, s', w')"
        using True run step(5) "1.prems"(3) by (subst (asm) run_ready_loop.simps) simp
      have "scheduler_inv s1" by (rule run_next_inv [OF "1.prems"(1) run])
      from "1.IH" [OF True run [symmetric] step(5) refl refl this _ rec] True obtain n where
        n: "r = Inr n" "d + 1 \<le> n" "n \<le> budget" "scheduler_inv s'"
          "n < budget \<longrightarrow> (\<forall>i < MAX_TASKS. \<not> is_ready (sc_tasks s' ! i))"
          "\<forall>k < n - (d + 1). \<exists>h. dispatch_trace sb tr (replicate (n - (d + 1)) now) s1 w1 ! k = Inr (Some h)"
        by auto
      then have "n - d = Suc (n - (d + 1))" by simp
      then have tr: "dispatch_trace sb tr (replicate (n - d) now) s w =
          Inr (Some ?h) # dispatch_trace sb tr (replicate (n - (d + 1)) now) s1 w1"
        using run step(5) by simp
      have "\<exists>h. dispatch_trace sb tr (replicate (n - d) now) s w ! k = Inr (Some h)" if "k < n - d" for k
        unfolding tr using n(6) that by (cases k) auto
      with n show ?thesis by (intro exI [of _ n]) simp
    qed
  qed
qed

text \<open>\<open>run_ready\<close> never fails, performs exactly as many dispatches as it reports and never more than
  its budget, and stops below the budget only when no task is ready.\<close>

theorem run_ready_within_budget:
  assumes "scheduler_inv s" and "run_ready sb tr s w now budget = (r, s', w')"
  shows "\<exists>n \<le> budget. r = Inr n \<and> scheduler_inv s' \<and>
    (\<forall>k < n. \<exists>h. dispatch_trace sb tr (replicate n now) s w ! k = Inr (Some h)) \<and>
    (n < budget \<longrightarrow> (\<forall>i < MAX_TASKS. \<not> is_ready (sc_tasks s' ! i)))"
  using run_ready_loop_result [OF assms(1) _ assms(2) [unfolded run_ready_def]] by auto

lemma unat_next_generation:
  fixes g :: u32
  assumes "g \<noteq> 0"
  shows "unat (next_generation g) = unat g mod (2 ^ 32 - 1) + 1"
proof (cases "g = - 1")
  case True
  then show ?thesis by (simp add: next_generation_def unat_max_word)
next
  case False
  then have "unat g \<noteq> 2 ^ 32 - 1" using unat_max_word [where 'l = 32] by (simp add: word_unat_eq_iff)
  with unat_bound [of g] have lt: "unat g < 2 ^ 32 - 1" by simp
  then have "unat (g + 1) = unat g + 1" by (subst unat_add_exact) simp_all
  moreover have "1 \<le> g + 1" using calculation by (simp add: word_le_nat_alt)
  ultimately show ?thesis using lt by (simp add: next_generation_def max_def)
qed

lemma unat_next_generations:
  fixes g :: u32
  assumes "g \<noteq> 0"
  shows "unat ((next_generation ^^ n) g) = (unat g - 1 + n) mod (2 ^ 32 - 1) + 1"
proof (induction n)
  case 0
  have "0 < unat g" "unat g < 2 ^ 32" using assms unat_bound [of g] by (simp_all add: unat_gt_0)
  then show ?case by simp
next
  case (Suc n)
  have "(next_generation ^^ n) g \<noteq> 0"
    using assms next_generation_nonzero by (cases n) auto
  from unat_next_generation [OF this] Suc show ?case
    by (simp add: mod_Suc_eq)
qed

text \<open>A handle whose slot has been spawned \<open>n\<close> more times denotes no task, unless \<open>n\<close> is a multiple
  of \<open>2 ^ 32 - 1\<close>; after that many spawns the generation repeats, so an old handle denotes the new
  task of the slot: handles are unique only up to the wrap of the generation.\<close>

theorem stale_handle_until_wrap:
  assumes "ti_generation h \<noteq> 0" and "ti_index h < MAX_TASKS"
    and "sc_generations s ! ti_index h = (next_generation ^^ n) (ti_generation h)"
  shows "task_state s h = (if (2 ^ 32 - 1) dvd n then map_option tk_state (sc_tasks s ! ti_index h) else None)"
proof -
  let ?g = "unat (ti_generation h)"
  have g: "0 < ?g" "?g < 2 ^ 32"
    using assms(1) unat_bound [of "ti_generation h"] by (simp_all add: unat_gt_0)
  have "(next_generation ^^ n) (ti_generation h) = ti_generation h \<longleftrightarrow> (?g - 1 + n) mod (2 ^ 32 - 1) + 1 = ?g"
    using unat_next_generations [OF assms(1), of n] by (simp add: word_unat_eq_iff)
  also have "\<dots> \<longleftrightarrow> (?g - 1 + n) mod (2 ^ 32 - 1) = (?g - 1 + 0) mod (2 ^ 32 - 1)"
    using g by auto
  also have "\<dots> \<longleftrightarrow> (2 ^ 32 - 1) dvd n"
    using mod_eq_dvd_iff_nat [of "?g - 1 + 0" "?g - 1 + n" "2 ^ 32 - 1"] by simp
  finally show ?thesis
    using assms(2,3) by (auto simp: task_state_eq live_task_def)
qed

definition stats_count :: "SchedulerStats \<Rightarrow> TaskState \<Rightarrow> nat" where
  "stats_count st k = (case k of Ready \<Rightarrow> ss_ready st | Running \<Rightarrow> ss_running st | Sleeping _ \<Rightarrow> ss_sleeping st
     | Blocked \<Rightarrow> ss_blocked st | Finished \<Rightarrow> ss_finished st | Cancelled \<Rightarrow> ss_cancelled st)"

definition same_kind :: "TaskState \<Rightarrow> TaskState \<Rightarrow> bool" where
  "same_kind a b \<longleftrightarrow> a = b \<or> (\<exists>u v. a = Sleeping u \<and> b = Sleeping v)"

definition slots_in :: "TaskState \<Rightarrow> 'w Task option list \<Rightarrow> nat" where
  "slots_in k slots = length (filter (\<lambda>slot. \<exists>t. slot = Some t \<and> same_kind (tk_state t) k) slots)"

lemma fold_stats:
  "stats_count (fold stats_add slots st) k = stats_count st k + slots_in k slots \<and>
   ss_task_count (fold stats_add slots st) = ss_task_count st + length (filter (\<lambda>slot. slot \<noteq> None) slots)"
proof (induction slots arbitrary: st)
  case (Cons slot slots)
  show ?case
  proof (cases slot)
    case None
    then show ?thesis using Cons by (simp add: slots_in_def)
  next
    case (Some t)
    have "stats_count (stats_add slot st) k = stats_count st k + (if same_kind (tk_state t) k then 1 else 0)"
      using Some by (cases "tk_state t"; cases k) (simp_all add: stats_count_def same_kind_def)
    moreover have "ss_task_count (stats_add slot st) = ss_task_count st + 1"
      using Some by (cases "tk_state t") simp_all
    ultimately show ?thesis using Cons [of "stats_add slot st"] Some by (simp add: slots_in_def)
  qed
qed (simp add: slots_in_def)

text \<open>The statistics count, for each state, exactly the slots whose task is in it, and the total is
  the number of occupied slots.\<close>

theorem scheduler_stats_exact:
  "stats_count (scheduler_stats s) k = slots_in k (sc_tasks s) \<and>
   ss_task_count (scheduler_stats s) = length (filter (\<lambda>slot. slot \<noteq> None) (sc_tasks s))"
proof -
  have "stats_count \<lparr>ss_task_count = 0, ss_ready = 0, ss_sleeping = 0, ss_blocked = 0, ss_running = 0,
      ss_finished = 0, ss_cancelled = 0\<rparr> k = 0"
    by (cases k) (simp_all add: stats_count_def)
  then show ?thesis by (simp add: scheduler_stats_def fold_stats)
qed

section \<open>Concrete instances\<close>

text \<open>A scheduler with one task, which counts its runs in the world and yields.\<close>

definition counting_entry :: "nat \<Rightarrow> TaskAction \<times> nat" where
  "counting_entry w = (Yield, w + 1)"

definition one_task :: "nat Scheduler" where
  "one_task = snd (spawn scheduler_new counting_entry)"

definition first_handle :: TaskId where
  "first_handle = \<lparr>ti_index = 0, ti_generation = 1\<rparr>"

lemma one_task_spawned: "spawn scheduler_new counting_entry = (Inr first_handle, one_task)"
proof -
  have "find (\<lambda>i. Option.is_none (sc_tasks (scheduler_new :: nat Scheduler) ! i))
      [0..<length (sc_tasks (scheduler_new :: nat Scheduler))] = Some 0"
    by (simp add: find_upt_Some scheduler_new_def MAX_TASKS_def)
  moreover have "sc_generations (scheduler_new :: nat Scheduler) ! 0 = 0" by (simp add: scheduler_new_def MAX_TASKS_def)
  moreover have "next_generation 0 = 1" by (simp add: next_generation_def)
  ultimately have "fst (spawn scheduler_new counting_entry) = Inr first_handle"
    by (simp add: spawn_def Let_def first_handle_def)
  then show ?thesis by (simp add: one_task_def prod_eq_iff)
qed

lemma one_task_inv: "scheduler_inv one_task"
  by (rule spawn_inv [OF scheduler_new_inv one_task_spawned])

lemma one_task_slots:
  "sc_tasks one_task ! 0 = Some \<lparr>tk_entry = counting_entry, tk_state = Ready\<rparr>"
  "sc_generations one_task ! 0 = 1" "sc_next one_task = 0"
  by (subst spawn_Inr(5) [OF scheduler_new_inv one_task_spawned],
      simp add: first_handle_def scheduler_new_def MAX_TASKS_def)+

lemma scheduler_refines_handle_map_witness:
  "fst (reap one_task first_handle) = Inl TaskNotFinished"
proof -
  obtain r s' where reaped: "reap one_task first_handle = (r, s')" by fastforce
  have "task_state one_task first_handle = Some Ready"
    using task_handles.new_ok [OF scheduler_new_inv one_task_spawned] by simp
  moreover have "map_prod id task_state (reap one_task first_handle) = abs_reap (task_state one_task) first_handle"
    using scheduler_refines_handle_map [OF one_task_inv, of first_handle counting_entry] by simp
  ultimately show ?thesis by (simp add: reaped abs_reap_def terminated_def)
qed

lemma reachable_scheduler_sound_witness:
  "\<exists>x s' w'. run_next (\<lambda>_. 0x1000) 0x5000 one_task (0 :: nat) 7 = (Inr x, s', w')"
proof -
  have "scheduler_step\<^sup>*\<^sup>* (scheduler_new, 0 :: nat) (one_task, 0)"
    by (rule r_into_rtranclp) (rule scheduler_step.spawn [OF one_task_spawned])
  from reachable_scheduler_sound [OF this] show ?thesis by blast
qed

lemma one_task_runs:
  "\<exists>s'. run_next (\<lambda>_. 0x1000) 0x5000 one_task 0 7 = (Inr (Some first_handle), s', 1)"
proof -
  obtain r s' w' where run: "run_next (\<lambda>_. 0x1000) 0x5000 one_task 0 7 = (r, s', w')"
    by (cases "run_next (\<lambda>_. 0x1000) 0x5000 one_task 0 7" rule: prod_cases3)
  have only: "sc_tasks one_task ! i = None" if "i < MAX_TASKS" "i \<noteq> 0" for i
    by (subst spawn_Inr(5) [OF scheduler_new_inv one_task_spawned])
      (use that in \<open>simp add: first_handle_def scheduler_new_def\<close>)
  have z: "sc_tasks (wake_expired one_task 7) ! 0 = Some \<lparr>tk_entry = counting_entry, tk_state = Ready\<rparr>"
    using one_task_slots one_task_inv by (simp add: wake_expired_nth MAX_TASKS_def wake_task_def)
  show ?thesis
  proof (cases rule: run_next_cases [OF one_task_inv run, case_names idle step])
    case idle
    have "is_ready (sc_tasks (wake_expired one_task 7) ! 0)" "0 < MAX_TASKS"
      by (simp_all add: z is_ready_iff MAX_TASKS_def)
    with idle show ?thesis by blast
  next
    case (step i t act)
    then have "i = 0" using only [of i] one_task_inv by (cases "i = 0") (auto simp: wake_expired_nth)
    moreover from this have "t = \<lparr>tk_entry = counting_entry, tk_state = Ready\<rparr>" using step z by simp
    ultimately show ?thesis using step run
      by (auto simp: first_handle_def one_task_slots counting_entry_def)
  qed
qed

lemma run_next_dispatches_one_witness:
  "\<exists>s'. run_next (\<lambda>_. 0x1000) 0x5000 one_task 0 7 = (Inr (Some first_handle), s', 1) \<and>
     task_state s' first_handle = Some Ready"
proof -
  obtain s' where s': "run_next (\<lambda>_. 0x1000) 0x5000 one_task 0 7 = (Inr (Some first_handle), s', 1)"
    using one_task_runs by blast
  from run_next_dispatches_one [OF one_task_inv this] s' show ?thesis
    by (auto simp: live_task_Some first_handle_def one_task_slots counting_entry_def)
qed

lemma ready_task_dispatched_witness:
  "\<exists>k. dispatch_trace (\<lambda>_. 0x1000) 0x5000 [7] one_task (0 :: nat) ! k = Inr (Some first_handle)"
  using ready_task_dispatched [OF one_task_inv, of 0 "[7]" "\<lambda>_. 0x1000" "0x5000" 0]
  by (auto simp: MAX_TASKS_def is_ready_iff one_task_slots ring_distance_def first_handle_def)

lemma run_ready_within_budget_witness:
  "\<exists>n \<le> 8. fst (run_ready (\<lambda>_. 0x1000) 0x5000 one_task (0 :: nat) 7 8) = Inr n"
proof -
  obtain r s' w' where run: "run_ready (\<lambda>_. 0x1000) 0x5000 one_task (0 :: nat) 7 8 = (r, s', w')"
    by (cases "run_ready (\<lambda>_. 0x1000) 0x5000 one_task (0 :: nat) 7 8" rule: prod_cases3)
  from run_ready_within_budget [OF one_task_inv run] run show ?thesis by auto
qed

lemma stale_handle_until_wrap_witness:
  "task_state (one_task\<lparr>sc_generations := (sc_generations one_task)[0 := 2]\<rparr>) first_handle = None"
proof -
  have "length (sc_generations one_task) = 64" using one_task_inv by (simp add: scheduler_inv_def MAX_TASKS_def)
  then show ?thesis
    using stale_handle_until_wrap [of first_handle "one_task\<lparr>sc_generations := (sc_generations one_task)[0 := 2]\<rparr>" 1]
    by (simp add: first_handle_def MAX_TASKS_def next_generation_def)
qed

end
