(* ===== verification/Timer.thy ===== *)
theory Timer
  imports Globals
begin

text \<open>
  Uptime and sleeping, \<^verbatim>\<open>src/src/timer/mod.rs\<close>. The tick counter is advanced by the timer interrupt,
  so each call of \<open>ticks()\<close> may read another value: a function that reads it once takes the reading
  as an argument, and the sleep loops take the sequence of readings they make. The debug assertions
  of the sleep functions are off in the release profile.
\<close>

type_synonym u128 = "128 word"

section \<open>Operations\<close>

definition uptime_ms :: "u64 \<Rightarrow> u64" where
  "uptime_ms ticks = saturating_mul (saturating_mul ticks PIT_DIVISOR) 1000 div PIT_FREQUENCY"

text \<open>\<open>decimal\<close> is the \<^verbatim>\<open>{}\<close> formatting of an unsigned integer.\<close>

fun decimal :: "nat \<Rightarrow> string" where
  "decimal n = (if n < 10 then [char_of (48 + n)] else decimal (n div 10) @ [char_of (48 + n mod 10)])"

declare decimal.simps [simp del]

definition format_uptime :: "u64 \<Rightarrow> string" where
  "format_uptime uptime =
     (let total_seconds = uptime div 1000;
          hours = total_seconds div 3600;
          minutes = (total_seconds mod 3600) div 60;
          seconds = total_seconds mod 60
      in decimal (unat hours) @ '' hrs '' @ decimal (unat minutes) @ '' min '' @
         decimal (unat seconds) @ '' sec'')"

definition ticks_for_ms :: "u64 \<Rightarrow> u64" where
  "ticks_for_ms milliseconds =
     (if milliseconds = 0 then 0
      else let numerator = (ucast milliseconds :: u128) * ucast PIT_FREQUENCY;
               denominator = (ucast PIT_DIVISOR :: u128) * 1000;
               quotient = numerator div denominator;
               rounded_up = quotient + (if \<not> is_multiple_of numerator denominator then 1 else 0)
           in ucast (min rounded_up (ucast (- 1 :: u64))))"

definition deadline_ms :: "u64 \<Rightarrow> u64 \<Rightarrow> u64" where
  "deadline_ms ticks ms = saturating_add ticks (ticks_for_ms ms)"

definition expired :: "u64 \<Rightarrow> u64 \<Rightarrow> bool" where
  "expired ticks deadline \<longleftrightarrow> ticks \<ge> deadline"

text \<open>
  The loop \<^verbatim>\<open>while ticks() < target\<close>: \<open>clock i\<close> is reading number \<open>i\<close>; the loop returns the number of
  the reading that ended it, and None when it never ends.
\<close>

partial_function (option) wait_loop :: "(nat \<Rightarrow> u64) \<Rightarrow> u64 \<Rightarrow> nat \<Rightarrow> nat option" where
  "wait_loop clock target i = (if clock i < target then wait_loop clock target (Suc i) else Some i)"

text \<open>
  \<open>sleep_block\<close> spins and \<open>sleep_ms\<close> halts the processor between two readings; both return on the
  first reading that reaches the target. With interrupts disabled they return at once, after no reading.
\<close>

definition sleep_block :: "bool \<Rightarrow> (nat \<Rightarrow> u64) \<Rightarrow> u64 \<Rightarrow> nat option" where
  "sleep_block interrupts_enabled clock ms =
     (if \<not> interrupts_enabled then Some 0
      else (let start = clock 0; target = saturating_add start (ticks_for_ms ms)
            in wait_loop clock target 1))"

definition sleep_ms :: "bool \<Rightarrow> (nat \<Rightarrow> u64) \<Rightarrow> u64 \<Rightarrow> nat option" where
  "sleep_ms interrupts_enabled clock ms =
     (if \<not> interrupts_enabled then Some 0
      else (let start = clock 0; target = saturating_add start (ticks_for_ms ms)
            in wait_loop clock target 1))"

section \<open>The uptime text\<close>

definition is_digit :: "char \<Rightarrow> bool" where
  "is_digit c \<longleftrightarrow> (\<exists>d < 10. c = char_of (48 + d :: nat))"

definition read_decimal :: "string \<Rightarrow> nat" where
  "read_decimal = foldl (\<lambda>v c. 10 * v + (of_char c - 48)) 0"

lemma is_digitI [intro]: "d < 10 \<Longrightarrow> is_digit (char_of (48 + d :: nat))"
  by (auto simp: is_digit_def)

lemma decimal_digits: "c \<in> set (decimal n) \<Longrightarrow> is_digit c"
proof (induction n rule: decimal.induct)
  case (1 n)
  then show ?case
    by (subst (asm) (2) decimal.simps) (auto split: if_splits)
qed

lemma read_decimal_decimal: "read_decimal (decimal n) = n"
proof (induction n rule: decimal.induct)
  case (1 n)
  then show ?case
    by (subst decimal.simps) (auto simp: read_decimal_def of_char_of)
qed

lemma decimal_eq_iff [simp]: "decimal m = decimal n \<longleftrightarrow> m = n"
  using read_decimal_decimal by metis

lemma fields_eq:
  assumes "\<forall>c \<in> set xs. is_digit c" and "\<forall>c \<in> set ys. is_digit c" and "\<not> is_digit c"
    and "xs @ c # us = ys @ c # vs"
  shows "xs = ys \<and> us = vs"
  using assms
proof (induction xs arbitrary: ys)
  case Nil
  then show ?case by (cases ys) auto
next
  case (Cons x xs)
  then show ?case by (cases ys) auto
qed

lemma space_no_digit [simp]: "\<not> is_digit CHR '' ''"
proof
  assume "is_digit CHR '' ''"
  then obtain d :: nat where "d < 10" "CHR '' '' = char_of (48 + d)" by (auto simp: is_digit_def)
  then have "of_char CHR '' '' = 48 + d" by (simp add: of_char_of)
  then show False by simp
qed

lemma decimal_field_eq: "decimal m @ CHR '' '' # us = decimal n @ CHR '' '' # vs \<longleftrightarrow> m = n \<and> us = vs"
proof
  assume eq: "decimal m @ CHR '' '' # us = decimal n @ CHR '' '' # vs"
  have "decimal m = decimal n \<and> us = vs"
    by (rule fields_eq [OF _ _ space_no_digit eq]) (auto intro: decimal_digits)
  then show "m = n \<and> us = vs" by simp
qed auto

text \<open>The uptime text shows whole seconds and loses nothing of them.\<close>

lemma format_uptime_eq_iff: "format_uptime a = format_uptime b \<longleftrightarrow> a div 1000 = b div 1000"
proof
  assume "format_uptime a = format_uptime b"
  then have "unat (a div 1000 div 3600) = unat (b div 1000 div 3600)"
    "unat (a div 1000 mod 3600 div 60) = unat (b div 1000 mod 3600 div 60)"
    "unat (a div 1000 mod 60) = unat (b div 1000 mod 60)"
    by (simp_all add: format_uptime_def Let_def decimal_field_eq)
  then have "unat a div 1000 div 3600 = unat b div 1000 div 3600"
    "unat a div 1000 mod 3600 div 60 = unat b div 1000 mod 3600 div 60"
    "unat a div 1000 mod 60 = unat b div 1000 mod 60"
    by (simp_all add: unat_div unat_mod)
  moreover have "x = x div 3600 * 3600 + (x mod 3600 div 60 * 60 + x mod 60)" for x :: nat
    using div_mult_mod_eq [of x 3600] div_mult_mod_eq [of "x mod 3600" 60] by (simp add: mod_mod_cancel)
  ultimately have "unat a div 1000 = unat b div 1000" by metis
  then show "a div 1000 = b div 1000" by (simp add: word_unat_eq_iff unat_div)
qed (simp add: format_uptime_def)

section \<open>Conversions\<close>

lemmas timer_constants = PIT_DIVISOR_def PIT_FREQUENCY_def TIMER_FREQUENCY_def

lemma ceil_div:
  fixes x d :: nat
  assumes "0 < d"
  shows "x div d + (if d dvd x then 0 else 1) = (x + (d - 1)) div d"
proof -
  have "x + (d - 1) = (x mod d + (d - 1)) + x div d * d" using mod_div_mult_eq [of x d] by linarith
  then have "(x + (d - 1)) div d = ((x mod d + (d - 1)) + x div d * d) div d" by (simp only:)
  also have "\<dots> = x div d + (x mod d + (d - 1)) div d" using assms by (intro div_mult_self1) simp
  finally have "(x + (d - 1)) div d = x div d + (x mod d + (d - 1)) div d" .
  moreover have "(x mod d + (d - 1)) div d = (if x mod d = 0 then 0 else 1)"
  proof (cases "x mod d = 0")
    case False
    have "x mod d < d" using assms by simp
    then have "d \<le> x mod d + (d - 1)" "x mod d + (d - 1) < d + d" using False by linarith+
    then show ?thesis using False by (simp add: div_nat_eqI)
  qed (use assms in simp)
  ultimately show ?thesis by (simp add: dvd_eq_mod_eq_0)
qed

lemma ceil_div_le_iff:
  fixes x d t :: nat
  assumes "0 < d"
  shows "(x + (d - 1)) div d \<le> t \<longleftrightarrow> x \<le> t * d"
  using assms div_less_iff_less_mult [of d "x + (d - 1)" "Suc t"] by auto

lemma PIT_DIVISOR_eq: "PIT_DIVISOR = 1193"
  by (simp add: timer_constants)

lemma unat_uptime_ms:
  "unat (uptime_ms t) = min (unat t * 1193000) (2 ^ 64 - 1) div 1193182"
proof -
  have "min (min (unat t * 1193) (2 ^ 64 - 1) * 1000) (2 ^ 64 - 1) = min (unat t * 1193000) (2 ^ 64 - 1 :: nat)"
    by (simp add: min_def)
  then show ?thesis
    by (simp add: uptime_ms_def unat_div unat_saturating_mul PIT_DIVISOR_eq PIT_FREQUENCY_def)
qed

lemma unat_ticks_for_ms:
  "unat (ticks_for_ms ms) = min ((unat ms * 1193182 + 1192999) div 1193000) (2 ^ 64 - 1)"
proof (cases "ms = 0")
  case True
  then show ?thesis by (simp add: ticks_for_ms_def)
next
  case False
  let ?n = "(ucast ms :: u128) * ucast PIT_FREQUENCY" and ?d = "(ucast PIT_DIVISOR :: u128) * 1000"
  let ?r = "?n div ?d + (if \<not> is_multiple_of ?n ?d then 1 else 0)"
  have ms: "unat ms < 2 ^ 64" using unat_bound [of ms] by simp
  have n: "unat ?n = unat ms * 1193182"
    using ms by (subst unat_mult_exact) (simp_all add: PIT_FREQUENCY_def unsigned_ucast_eq take_bit_nat_eq_self)
  have d: "unat ?d = 1193000"
    by (simp add: PIT_DIVISOR_eq)
  have div: "unat (?n div ?d) = unat ms * 1193182 div 1193000"
    by (simp only: unat_div n d)
  have "unat ?r = unat ms * 1193182 div 1193000 + (if 1193000 dvd unat ms * 1193182 then 0 else 1)"
  proof -
    have "unat ms * 1193182 div 1193000 + 1 < 2 ^ 128" using ms by simp
    then show ?thesis by (auto simp: is_multiple_of_iff n d div unat_add_exact)
  qed
  also have "\<dots> = (unat ms * 1193182 + 1192999) div 1193000"
    using ceil_div [of 1193000 "unat ms * 1193182"] by simp
  finally have r: "unat ?r = (unat ms * 1193182 + 1192999) div 1193000" .
  have "unat (ucast (min ?r (ucast (- 1 :: u64))) :: u64) = min (unat ?r) (2 ^ 64 - 1)"
  proof -
    have lim: "unat (ucast (- 1 :: u64) :: u128) = 2 ^ 64 - 1"
      by (simp add: unsigned_ucast_eq unat_max_word take_bit_nat_eq_self)
    then have m: "unat (min ?r (ucast (- 1 :: u64))) = min (unat ?r) (2 ^ 64 - 1)"
      by (simp add: min_def word_le_nat_alt)
    then have "unat (min ?r (ucast (- 1 :: u64))) < 2 ^ 64" by simp
    then show ?thesis using m by (simp add: unsigned_ucast_eq take_bit_nat_eq_self)
  qed
  with False r show ?thesis by (simp add: ticks_for_ms_def Let_def)
qed

lemma ticks_for_ms_adjoint:
  assumes "unat t * 1193000 < 2 ^ 64"
  shows "ticks_for_ms ms \<le> t \<longleftrightarrow> ms \<le> uptime_ms t"
proof -
  have "min ((unat ms * 1193182 + 1192999) div 1193000) (2 ^ 64 - 1) \<le> unat t \<longleftrightarrow>
      (unat ms * 1193182 + 1192999) div 1193000 \<le> unat t"
    using assms by (auto simp: min_def)
  also have "\<dots> \<longleftrightarrow> unat ms * 1193182 \<le> unat t * 1193000"
    using ceil_div_le_iff [of 1193000 "unat ms * 1193182" "unat t"] by simp
  also have "\<dots> \<longleftrightarrow> unat ms \<le> unat t * 1193000 div 1193182"
    by (simp only: less_eq_div_iff_mult_less_eq zero_less_numeral)
  finally show ?thesis
    using assms by (simp add: word_le_nat_alt unat_ticks_for_ms unat_uptime_ms)
qed

text \<open>C20: \<open>ticks_for_ms\<close> is the least number of ticks after which \<open>uptime_ms\<close> has reached the given
  milliseconds: the two conversions are adjoint for every tick count whose uptime does not saturate
  (about 490 years).\<close>

theorem ticks_for_ms_least:
  assumes "unat t * 1193000 < 2 ^ 64"
  shows "ticks_for_ms ms \<le> t \<longleftrightarrow> ms \<le> uptime_ms t"
  using assms by (rule ticks_for_ms_adjoint)

lemma ticks_for_ms_least_witness: "ticks_for_ms 1000 \<le> 1001 \<and> \<not> ticks_for_ms 1000 \<le> 1000"
  using ticks_for_ms_least [of 1001 1000] ticks_for_ms_least [of 1000 1000]
  by (simp add: word_le_nat_alt unat_uptime_ms)

section \<open>Sleeping\<close>

lemma uptime_ms_add:
  assumes "unat a + unat b \<le> unat t" and "unat t * 1193000 < 2 ^ 64"
  shows "unat (uptime_ms a) + unat (uptime_ms b) \<le> unat (uptime_ms t)"
proof -
  have "unat a * 1193000 div 1193182 + unat b * 1193000 div 1193182 \<le>
      (unat a * 1193000 + unat b * 1193000) div 1193182"
    by (simp add: less_eq_div_iff_mult_less_eq add_mult_distrib add_mono)
  also have "\<dots> \<le> unat t * 1193000 div 1193182"
    using assms(1) by (intro div_le_mono) simp
  finally have "unat a * 1193000 div 1193182 + unat b * 1193000 div 1193182 \<le> unat t * 1193000 div 1193182" .
  moreover have "unat a * 1193000 < 2 ^ 64" "unat b * 1193000 < 2 ^ 64" using assms by linarith+
  ultimately  show ?thesis using assms by (simp add: unat_uptime_ms)
qed

lemma wait_loop_runs:
  assumes "i \<le> k" and "target \<le> clock k" and "\<And>j. i \<le> j \<Longrightarrow> j < k \<Longrightarrow> clock j < target"
  shows "wait_loop clock target i = Some k"
  using assms
proof (induction "k - i" arbitrary: i)
  case 0
  then have "i = k" by simp
  with 0 have "\<not> clock i < target" by (simp add: not_less)
  with \<open>i = k\<close> show ?case by (subst wait_loop.simps) simp
next
  case (Suc n)
  then have "wait_loop clock target (Suc i) = Some k" by simp
  moreover have "clock i < target" using Suc by simp
  ultimately show ?case by (subst wait_loop.simps) simp
qed

lemma wait_loop_Some:
  assumes "wait_loop clock target i = Some k"
  shows "i \<le> k \<and> target \<le> clock k \<and> (\<forall>j. i \<le> j \<and> j < k \<longrightarrow> clock j < target)"
proof (rule wait_loop.raw_induct [where P = "\<lambda>clock target i k. i \<le> k \<and> target \<le> clock k \<and>
    (\<forall>j. i \<le> j \<and> j < k \<longrightarrow> clock j < target)", OF _ assms])
  fix f :: "(nat \<Rightarrow> u64) \<Rightarrow> u64 \<Rightarrow> nat \<Rightarrow> nat option" and clock target i k
  assume ih: "\<And>clock target i k. f clock target i = Some k \<Longrightarrow>
      i \<le> k \<and> target \<le> clock k \<and> (\<forall>j. i \<le> j \<and> j < k \<longrightarrow> clock j < target)"
    and body: "(if clock i < target then f clock target (Suc i) else Some i) = Some k"
  show "i \<le> k \<and> target \<le> clock k \<and> (\<forall>j. i \<le> j \<and> j < k \<longrightarrow> clock j < target)"
  proof (cases "clock i < target")
    case True
    with body ih [of clock target "Suc i" k] show ?thesis
      by (auto simp: Suc_le_eq) (metis le_neq_implies_less)
  next
    case False
    with body show ?thesis by (auto simp: not_less)
  qed
qed

text \<open>With interrupts enabled \<open>sleep_ms\<close> returns on exactly the first tick reading that reaches the
  deadline of the call, and does return when the counter reaches it; by then the uptime has advanced
  by at least the requested milliseconds (while the uptime does not saturate). With interrupts
  disabled it returns without waiting.\<close>

theorem sleep_ms_waits_long_enough:
  "sleep_ms False clock ms = Some 0 \<and>
   ((\<exists>k \<ge> 1. expired (clock k) (deadline_ms (clock 0) ms)) \<longleftrightarrow> sleep_ms True clock ms \<noteq> None) \<and>
   (\<forall>k. sleep_ms True clock ms = Some k \<longrightarrow>
     1 \<le> k \<and> expired (clock k) (deadline_ms (clock 0) ms) \<and>
     (\<forall>j. 1 \<le> j \<and> j < k \<longrightarrow> \<not> expired (clock j) (deadline_ms (clock 0) ms)) \<and>
     (unat (clock k) * 1193000 < 2 ^ 64 \<longrightarrow>
        unat (uptime_ms (clock 0)) + unat ms \<le> unat (uptime_ms (clock k))))"
proof -
  let ?target = "saturating_add (clock 0) (ticks_for_ms ms)"
  have sleep: "sleep_ms True clock ms = wait_loop clock ?target 1"
    by (simp add: sleep_ms_def Let_def)
  have exp: "expired t (deadline_ms (clock 0) ms) \<longleftrightarrow> ?target \<le> t" for t
    by (simp add: expired_def deadline_ms_def)
  have off: "sleep_ms False clock ms = Some 0" by (simp add: sleep_ms_def)
  have returns: "(\<exists>k \<ge> 1. expired (clock k) (deadline_ms (clock 0) ms)) \<longleftrightarrow> sleep_ms True clock ms \<noteq> None"
    (is "?l \<longleftrightarrow> ?r")
  proof
    assume ?l
    then have ex: "\<exists>k. 1 \<le> k \<and> ?target \<le> clock k" by (simp add: exp)
    let ?k = "LEAST k. 1 \<le> k \<and> ?target \<le> clock k"
    have "wait_loop clock ?target 1 = Some ?k"
      using LeastI_ex [OF ex] not_less_Least [of _ "\<lambda>k. 1 \<le> k \<and> ?target \<le> clock k"]
      by (intro wait_loop_runs) (auto simp: not_le)
    then show ?r by (simp add: sleep)
  next
    assume ?r
    then obtain k where "wait_loop clock ?target 1 = Some k" by (auto simp: sleep)
    from wait_loop_Some [OF this] show ?l by (auto simp: exp)
  qed
  have waited: "1 \<le> k \<and> expired (clock k) (deadline_ms (clock 0) ms) \<and>
     (\<forall>j. 1 \<le> j \<and> j < k \<longrightarrow> \<not> expired (clock j) (deadline_ms (clock 0) ms)) \<and>
     (unat (clock k) * 1193000 < 2 ^ 64 \<longrightarrow>
        unat (uptime_ms (clock 0)) + unat ms \<le> unat (uptime_ms (clock k)))"
    if "sleep_ms True clock ms = Some k" for k
  proof -
    from that have k: "1 \<le> k \<and> ?target \<le> clock k \<and> (\<forall>j. 1 \<le> j \<and> j < k \<longrightarrow> clock j < ?target)"
      using wait_loop_Some by (simp add: sleep)
    have "unat (uptime_ms (clock 0)) + unat ms \<le> unat (uptime_ms (clock k))"
      if b: "unat (clock k) * 1193000 < 2 ^ 64"
    proof -
      have "unat ?target \<le> unat (clock k)" using k by (simp add: word_le_nat_alt)
      then have sum: "unat (clock 0) + unat (ticks_for_ms ms) \<le> unat (clock k)"
        using b by (simp add: unat_saturating_add)
      then have "unat (ticks_for_ms ms) * 1193000 < 2 ^ 64" using b by linarith
      then have "ms \<le> uptime_ms (ticks_for_ms ms)" using ticks_for_ms_adjoint by blast
      then show ?thesis using uptime_ms_add [OF sum b] by (simp add: word_le_nat_alt)
    qed
    with k show ?thesis by (auto simp: exp not_le)
  qed
  show ?thesis using off returns waited by blast
qed

text \<open>A clock that ticks once between readings ends a sleep of 3 ms on its fourth reading after the start.\<close>

lemma sleep_ms_waits_long_enough_witness:
  "\<exists>k. sleep_ms True (\<lambda>i. of_nat i) 3 = Some k \<and> 1 \<le> k \<and> \<not> expired 3 4"
proof -
  have "unat (ticks_for_ms 3) = 4" by (simp add: unat_ticks_for_ms)
  then have "ticks_for_ms 3 = 4" by (simp add: word_unat_eq_iff)
  then have "expired (of_nat 4) (deadline_ms (of_nat 0) 3)"
    by (simp add: expired_def deadline_ms_def saturating_add_def checked_add_def)
  then have "\<exists>k \<ge> 1. expired (of_nat k) (deadline_ms (of_nat 0) 3)"
    by (intro exI [of _ 4]) simp
  then have "sleep_ms True (\<lambda>i. of_nat i) 3 \<noteq> None"
    using sleep_ms_waits_long_enough [of "\<lambda>i. of_nat i" 3] by blast
  then obtain k where k: "sleep_ms True (\<lambda>i. of_nat i) 3 = Some k" by blast
  with sleep_ms_waits_long_enough [of "\<lambda>i. of_nat i" 3] show ?thesis by (auto simp: expired_def)
qed

end
