(* ===== verification/Ports.thy ===== *)
theory Ports
  imports Globals "HOL-Library.Sublist"
begin

text \<open>
  Port input and output (\<^verbatim>\<open>inb\<close> and \<^verbatim>\<open>outb\<close> of \<^verbatim>\<open>src/src/interrupts/mod.rs\<close>) and the byte queues between
  interrupt handlers and the shell. The devices behind the ports are not part of the kernel: they
  are a parameter \<open>'w Ports\<close> that says how a port access changes their state \<open>'w\<close>. The bus records the
  accesses in order. The lock-free ring buffer of the \<^verbatim>\<open>ringbuf\<close> crate is a parameter as well; what the
  kernel relies on is \<open>ring_ok\<close>. The locale \<open>byte_channel\<close> states what an interrupt-fed queue owes
  its consumer.
\<close>

section \<open>Port access\<close>

record 'w Ports =
  port_read :: "u16 \<Rightarrow> 'w \<Rightarrow> u8 \<times> 'w"
  port_write :: "u8 \<Rightarrow> u16 \<Rightarrow> 'w \<Rightarrow> 'w"

datatype PortEvent = In u16 u8 | Out u16 u8

record 'w Bus =
  bus_devices :: 'w
  bus_log :: "PortEvent list"

definition inb :: "'w Ports \<Rightarrow> u16 \<Rightarrow> 'w Bus \<Rightarrow> u8 \<times> 'w Bus" where
  "inb io port b =
     (let (v, w) = port_read io port (bus_devices b)
      in (v, \<lparr>bus_devices = w, bus_log = bus_log b @ [In port v]\<rparr>))"

definition outb :: "'w Ports \<Rightarrow> u8 \<Rightarrow> u16 \<Rightarrow> 'w Bus \<Rightarrow> 'w Bus" where
  "outb io v port b =
     \<lparr>bus_devices = port_write io v port (bus_devices b), bus_log = bus_log b @ [Out port v]\<rparr>"

definition PS2_DATA :: u16 where "PS2_DATA = 0x60"
definition PS2_COMMAND :: u16 where "PS2_COMMAND = 0x64"
definition PS2_STATUS :: u16 where "PS2_STATUS = PS2_COMMAND"

text \<open>
  \<open>drain_ps2_output\<close>: the loop \<^verbatim>\<open>for _ in 0..32\<close> with its break, \<open>n\<close> iterations being left.
\<close>

fun drain_loop :: "'w Ports \<Rightarrow> nat \<Rightarrow> 'w Bus \<Rightarrow> 'w Bus" where
  "drain_loop io 0 b = b"
| "drain_loop io (Suc n) b =
     (let (status, b) = inb io PS2_STATUS b
      in if status AND 1 = 0 then b else drain_loop io n (snd (inb io PS2_DATA b)))"

definition drain_ps2_output :: "'w Ports \<Rightarrow> 'w Bus \<Rightarrow> 'w Bus" where
  "drain_ps2_output io b = drain_loop io 32 b"

definition outs :: "PortEvent list \<Rightarrow> (u16 \<times> u8) list" where
  "outs es = concat (map (\<lambda>e. case e of Out p v \<Rightarrow> [(p, v)] | In _ _ \<Rightarrow> []) es)"

lemma outs_simps [simp]:
  "outs [] = []"
  "outs (Out p v # es) = (p, v) # outs es"
  "outs (In p v # es) = outs es"
  "outs (xs @ ys) = outs xs @ outs ys"
  by (simp_all add: outs_def)

section \<open>The ring buffer\<close>

text \<open>
  \<open>ring_items\<close> lists the elements of a ring buffer, oldest first. \<open>ring_ok\<close> is the documented behaviour
  of \<^verbatim>\<open>StaticRb\<close> with capacity 256: a push appends unless the buffer is full, a pop takes the oldest.
\<close>

definition RB_SIZE :: nat where "RB_SIZE = 256"

record ('q, 'b) Ring =
  ring_default :: 'q
  ring_push :: "'b \<Rightarrow> 'q \<Rightarrow> bool \<times> 'q"
  ring_pop :: "'q \<Rightarrow> 'b option \<times> 'q"
  ring_is_empty :: "'q \<Rightarrow> bool"
  ring_items :: "'q \<Rightarrow> 'b list"

definition ring_ok :: "('q, 'b) Ring \<Rightarrow> bool" where
  "ring_ok rb \<longleftrightarrow>
     ring_items rb (ring_default rb) = [] \<and>
     (\<forall>b q. if length (ring_items rb q) < RB_SIZE
        then fst (ring_push rb b q) \<and> ring_items rb (snd (ring_push rb b q)) = ring_items rb q @ [b]
        else \<not> fst (ring_push rb b q) \<and> ring_items rb (snd (ring_push rb b q)) = ring_items rb q) \<and>
     (\<forall>q. case ring_items rb q of
        [] \<Rightarrow> fst (ring_pop rb q) = None \<and> ring_items rb (snd (ring_pop rb q)) = []
      | b # bs \<Rightarrow> fst (ring_pop rb q) = Some b \<and> ring_items rb (snd (ring_pop rb q)) = bs) \<and>
     (\<forall>q. ring_is_empty rb q \<longleftrightarrow> ring_items rb q = [])"

text \<open>A ring buffer that behaves so.\<close>

definition list_ring :: "('b list, 'b) Ring" where
  "list_ring = \<lparr>ring_default = [],
     ring_push = (\<lambda>b q. if length q < RB_SIZE then (True, q @ [b]) else (False, q)),
     ring_pop = (\<lambda>q. case q of [] \<Rightarrow> (None, []) | b # bs \<Rightarrow> (Some b, bs)),
     ring_is_empty = (\<lambda>q. q = []), ring_items = (\<lambda>q. q)\<rparr>"

lemma list_ring_ok: "ring_ok list_ring"
  by (auto simp: ring_ok_def list_ring_def split: list.splits)

lemma ring_push_at:
  assumes "ring_ok rb"
  shows "if length (ring_items rb q) < RB_SIZE
    then fst (ring_push rb b q) \<and> ring_items rb (snd (ring_push rb b q)) = ring_items rb q @ [b]
    else \<not> fst (ring_push rb b q) \<and> ring_items rb (snd (ring_push rb b q)) = ring_items rb q"
  using assms unfolding ring_ok_def by blast

lemma ring_push_room:
  assumes "ring_ok rb" and "length (ring_items rb q) < RB_SIZE" and "ring_push rb b q = (ok, q')"
  shows "ok \<and> ring_items rb q' = ring_items rb q @ [b]"
  using ring_push_at [OF assms(1), of q b] assms(2,3) by simp

lemma ring_push_full:
  assumes "ring_ok rb" and "\<not> length (ring_items rb q) < RB_SIZE" and "ring_push rb b q = (ok, q')"
  shows "\<not> ok \<and> ring_items rb q' = ring_items rb q"
  using ring_push_at [OF assms(1), of q b] assms(2,3) by simp

lemma ring_pop_spec:
  assumes "ring_ok rb" and "ring_pop rb q = (r, q')"
  shows "r = (case ring_items rb q of [] \<Rightarrow> None | b # _ \<Rightarrow> Some b)" "ring_items rb q' = tl (ring_items rb q)"
proof -
  have "case ring_items rb q of
      [] \<Rightarrow> fst (ring_pop rb q) = None \<and> ring_items rb (snd (ring_pop rb q)) = []
    | b # bs \<Rightarrow> fst (ring_pop rb q) = Some b \<and> ring_items rb (snd (ring_pop rb q)) = bs"
    using assms(1) unfolding ring_ok_def by blast
  with assms(2) show "r = (case ring_items rb q of [] \<Rightarrow> None | b # _ \<Rightarrow> Some b)"
    "ring_items rb q' = tl (ring_items rb q)"
    by (auto split: list.splits)
qed

section \<open>Interrupt-fed channels\<close>

datatype 'b ChannelEvent = Arrive 'b | Take

text \<open>A schedule of arrivals and consumer calls, with what the consumer received.\<close>

fun channel_run ::
  "('s \<Rightarrow> 'b \<Rightarrow> 's) \<Rightarrow> ('s \<Rightarrow> 'b option \<times> 's) \<Rightarrow> 'b ChannelEvent list \<Rightarrow> 's \<Rightarrow> 'b list \<times> 's" where
  "channel_run push pop [] s = ([], s)"
| "channel_run push pop (Arrive b # es) s = channel_run push pop es (push s b)"
| "channel_run push pop (Take # es) s =
     (let (r, s) = pop s; (out, s) = channel_run push pop es s
      in (case r of None \<Rightarrow> out | Some b \<Rightarrow> b # out, s))"

text \<open>A channel whose operations have a parameter is a channel on the pair of parameter and state.\<close>

lemma channel_run_param:
  "channel_run (\<lambda>(r, s) b. (r, push r s b)) (\<lambda>(r, s). map_prod id (Pair r) (pop r s)) es (r, s) =
   map_prod id (Pair r) (channel_run (push r) (pop r) es s)"
proof (induction es arbitrary: s)
  case (Cons e es)
  then show ?case by (cases e) (auto simp: map_prod_def split: prod.splits)
qed simp

definition arrivals :: "'b ChannelEvent list \<Rightarrow> 'b list" where
  "arrivals es = concat (map (\<lambda>e. case e of Arrive b \<Rightarrow> [b] | Take \<Rightarrow> []) es)"

lemma arrivals_simps [simp]:
  "arrivals [] = []"
  "arrivals (Arrive b # es) = b # arrivals es"
  "arrivals (Take # es) = arrivals es"
  by (simp_all add: arrivals_def)

locale byte_channel =
  fixes push :: "'s \<Rightarrow> 'b \<Rightarrow> 's"
    and pop :: "'s \<Rightarrow> 'b option \<times> 's"
    and pending :: "'s \<Rightarrow> 'b list"
    and dropped :: "'s \<Rightarrow> usize"
    and inv :: "'s \<Rightarrow> bool"
    and capacity :: nat
  assumes push_inv: "inv s \<Longrightarrow> inv (push s b)"
    and pop_inv: "inv s \<Longrightarrow> pop s = (r, s') \<Longrightarrow> inv s'"
    and push_room: "inv s \<Longrightarrow> length (pending s) < capacity \<Longrightarrow>
      pending (push s b) = pending s @ [b] \<and> dropped (push s b) = dropped s"
    and push_full: "inv s \<Longrightarrow> \<not> length (pending s) < capacity \<Longrightarrow>
      pending (push s b) = pending s \<and> dropped (push s b) = dropped s + 1"
    and pop_oldest: "inv s \<Longrightarrow> pop s = (r, s') \<Longrightarrow>
      r = (case pending s of [] \<Rightarrow> None | b # _ \<Rightarrow> Some b) \<and> pending s' = tl (pending s) \<and> dropped s' = dropped s"
begin

text \<open>Nothing is reordered, duplicated or invented, and every lost byte is counted.\<close>

lemma run_accounting:
  assumes "inv s" and "channel_run push pop es s = (out, s')"
  shows "inv s' \<and> (\<exists>acc. subseq acc (arrivals es) \<and> pending s @ acc = out @ pending s' \<and>
    dropped s' = dropped s + of_nat (length (arrivals es) - length acc) \<and>
    (length (pending s) + length (arrivals es) \<le> capacity \<longrightarrow> acc = arrivals es))"
  using assms
proof (induction es arbitrary: s out)
  case Nil
  then show ?case by simp
next
  case (Cons e es)
  show ?case
  proof (cases e)
    case (Arrive b)
    then have run: "channel_run push pop es (push s b) = (out, s')" using Cons.prems by simp
    obtain acc where acc: "subseq acc (arrivals es)" "pending (push s b) @ acc = out @ pending s'"
      "dropped s' = dropped (push s b) + of_nat (length (arrivals es) - length acc)"
      "length (pending (push s b)) + length (arrivals es) \<le> capacity \<longrightarrow> acc = arrivals es" and inv': "inv s'"
      using Cons.IH [OF push_inv [OF Cons.prems(1)] run] by blast
    have len: "length acc \<le> length (arrivals es)" using acc(1) by (rule list_emb_length)
    show ?thesis
    proof (cases "length (pending s) < capacity")
      case True
      with push_room [OF Cons.prems(1), of b] acc inv' Arrive show ?thesis
        by (intro conjI exI [of _ "b # acc"]) auto
    next
      case False
      with push_full [OF Cons.prems(1), of b] acc inv' Arrive len show ?thesis
        by (intro conjI exI [of _ acc]) (auto simp: Suc_diff_le)
    qed
  next
    case Take
    obtain r s1 where p: "pop s = (r, s1)" by fastforce
    obtain out1 where run: "channel_run push pop es s1 = (out1, s')"
      and out: "out = (case r of None \<Rightarrow> out1 | Some b \<Rightarrow> b # out1)"
      using Cons.prems Take p by (auto split: prod.splits)
    note popped = pop_oldest [OF Cons.prems(1) p]
    obtain acc where acc: "subseq acc (arrivals es)" "pending s1 @ acc = out1 @ pending s'"
      "dropped s' = dropped s1 + of_nat (length (arrivals es) - length acc)"
      "length (pending s1) + length (arrivals es) \<le> capacity \<longrightarrow> acc = arrivals es" and inv': "inv s'"
      using Cons.IH [OF pop_inv [OF Cons.prems(1) p] run] by blast
    show ?thesis
      using popped acc inv' Take out
      by (intro conjI exI [of _ acc]) (auto split: list.splits)
  qed
qed

end

end
