(* ===== verification/Keyboard.thy ===== *)
theory Keyboard
  imports Ports
begin

text \<open>
  The keyboard path, \<^verbatim>\<open>src/src/keyboard/mod.rs\<close>: the scancode queue between the interrupt handler and
  the shell, and \<open>poll\<close>, which turns one scancode into at most one event for the shell. The set-1
  decoder and the US layout are the \<^verbatim>\<open>pc-keyboard\<close> crate: the parameter \<open>'k Decoder\<close>. The two static
  handles of the queue are set together, so one optional ring stands for both.
\<close>

section \<open>Types\<close>

datatype KeyboardScancode = KeyboardScancode (scancode: u8)

record 'q KeyboardQueue =
  kb_ring :: "'q option"
  kb_dropped :: usize

datatype KeyState = KeyUp | KeyDown | SingleShot

text \<open>The key codes that \<open>poll\<close> names; \<open>OtherKey\<close> numbers the remaining ones.\<close>

datatype KeyCode =
  LControl | RControl | KArrowUp | KArrowDown | KArrowLeft | KArrowRight | KTab | KeyC | KeyL
| OemPlus | OemMinus | OtherKey nat

record KeyEvent =
  ke_code :: KeyCode
  ke_state :: KeyState

datatype DecodedKey = RawKey KeyCode | Unicode nat

record 'k Decoder =
  dec_add_byte :: "u8 \<Rightarrow> 'k \<Rightarrow> (nat, KeyEvent option) result \<times> 'k"
  dec_process :: "KeyEvent \<Rightarrow> 'k \<Rightarrow> DecodedKey option \<times> 'k"

datatype KeyboardEvent =
  EvChar nat | CtrlC | ZoomIn | ZoomOut | ArrowUp | ArrowDown | ArrowLeft | ArrowRight | CtrlL | Tab

record ('q, 'k) Keyboard =
  key_queue :: "'q KeyboardQueue"
  key_decoder :: 'k
  key_ctrl_held :: bool

section \<open>The queue\<close>

text \<open>\<open>None\<close> is the panic of \<open>StaticCell::init\<close> on a second call.\<close>

definition init_keyboard ::
  "('q, KeyboardScancode) Ring \<Rightarrow> 'q KeyboardQueue \<Rightarrow> 'q KeyboardQueue option" where
  "init_keyboard rb s =
     (case kb_ring s of
        Some _ \<Rightarrow> None
      | None \<Rightarrow> Some (s\<lparr>kb_ring := Some (ring_default rb)\<rparr>))"

definition push_keyboard_scancode ::
  "('q, KeyboardScancode) Ring \<Rightarrow> 'q KeyboardQueue \<Rightarrow> KeyboardScancode \<Rightarrow> 'q KeyboardQueue" where
  "push_keyboard_scancode rb s code =
     (case kb_ring s of
        None \<Rightarrow> s
      | Some q \<Rightarrow>
         (let (ok, q) = ring_push rb code q; s = s\<lparr>kb_ring := Some q\<rparr>
          in if \<not> ok then s\<lparr>kb_dropped := kb_dropped s + 1\<rparr> else s))"

definition pop_keyboard_scancode ::
  "('q, KeyboardScancode) Ring \<Rightarrow> 'q KeyboardQueue \<Rightarrow> KeyboardScancode option \<times> 'q KeyboardQueue" where
  "pop_keyboard_scancode rb s =
     (case kb_ring s of
        None \<Rightarrow> (None, s)
      | Some q \<Rightarrow> (let (r, q) = ring_pop rb q in (r, s\<lparr>kb_ring := Some q\<rparr>)))"

definition keyboard_queue_is_empty :: "('q, KeyboardScancode) Ring \<Rightarrow> 'q KeyboardQueue \<Rightarrow> bool" where
  "keyboard_queue_is_empty rb s =
     (case kb_ring s of None \<Rightarrow> True | Some q \<Rightarrow> ring_is_empty rb q)"

section \<open>Polling\<close>

definition arrow_event :: "KeyEvent \<Rightarrow> KeyboardEvent option" where
  "arrow_event e =
     (if ke_state e \<noteq> KeyDown then None
      else case ke_code e of
             KArrowLeft \<Rightarrow> Some ArrowLeft
           | KArrowRight \<Rightarrow> Some ArrowRight
           | KArrowUp \<Rightarrow> Some ArrowUp
           | KArrowDown \<Rightarrow> Some ArrowDown
           | KTab \<Rightarrow> Some Tab
           | _ \<Rightarrow> None)"

fun ctrl_event :: "KeyCode \<Rightarrow> KeyboardEvent option" where
  "ctrl_event KeyC = Some CtrlC"
| "ctrl_event KeyL = Some CtrlL"
| "ctrl_event OemPlus = Some ZoomIn"
| "ctrl_event OemMinus = Some ZoomOut"
| "ctrl_event _ = None"

text \<open>\<open>handle_key\<close> is the part of \<open>poll\<close> after \<open>add_byte\<close> has completed a key event.\<close>

definition handle_key ::
  "'k Decoder \<Rightarrow> KeyEvent \<Rightarrow> ('q, 'k) Keyboard \<Rightarrow> KeyboardEvent option \<times> ('q, 'k) Keyboard" where
  "handle_key dec e s =
     (if ke_code e = LControl \<or> ke_code e = RControl
      then (None, s\<lparr>key_ctrl_held := (ke_state e = KeyDown)\<rparr>)
      else case arrow_event e of
             Some ev \<Rightarrow> (Some ev, s)
           | None \<Rightarrow>
              (case (if key_ctrl_held s \<and> ke_state e = KeyDown then ctrl_event (ke_code e) else None) of
                 Some ev \<Rightarrow> (Some ev, s)
               | None \<Rightarrow>
                  (let (d, k) = dec_process dec e (key_decoder s); s = s\<lparr>key_decoder := k\<rparr>
                   in case d of Some (Unicode c) \<Rightarrow> (Some (EvChar c), s) | _ \<Rightarrow> (None, s))))"

definition keyboard_poll ::
  "('q, KeyboardScancode) Ring \<Rightarrow> 'k Decoder \<Rightarrow> ('q, 'k) Keyboard \<Rightarrow>
   KeyboardEvent option \<times> ('q, 'k) Keyboard" where
  "keyboard_poll rb dec s =
     (let (code, q) = pop_keyboard_scancode rb (key_queue s); s = s\<lparr>key_queue := q\<rparr>
      in case code of
           None \<Rightarrow> (None, s)
         | Some c \<Rightarrow>
            (let (r, k) = dec_add_byte dec (scancode c) (key_decoder s); s = s\<lparr>key_decoder := k\<rparr>
             in case r of
                  Inr (Some e) \<Rightarrow> handle_key dec e s
                | _ \<Rightarrow> (None, s)))"

section \<open>The queue loses nothing silently\<close>

definition keyboard_pending :: "('q, KeyboardScancode) Ring \<times> 'q KeyboardQueue \<Rightarrow> KeyboardScancode list" where
  "keyboard_pending x = (case kb_ring (snd x) of None \<Rightarrow> [] | Some q \<Rightarrow> ring_items (fst x) q)"

definition keyboard_inv :: "('q, KeyboardScancode) Ring \<times> 'q KeyboardQueue \<Rightarrow> bool" where
  "keyboard_inv x \<longleftrightarrow> ring_ok (fst x) \<and> kb_ring (snd x) \<noteq> None"

interpretation keyboard_channel: byte_channel
  "\<lambda>(rb, s) c. (rb, push_keyboard_scancode rb s c)"
  "\<lambda>(rb, s). map_prod id (Pair rb) (pop_keyboard_scancode rb s)"
  keyboard_pending "\<lambda>x. kb_dropped (snd x)" keyboard_inv RB_SIZE
proof (unfold_locales, goal_cases)
  case (1 s b)
  then show ?case
    by (auto simp: keyboard_inv_def push_keyboard_scancode_def Let_def split: prod.splits)
next
  case (2 s r s')
  then show ?case
    by (auto simp: keyboard_inv_def pop_keyboard_scancode_def map_prod_def split: prod.splits)
next
  case (3 s b)
  obtain rb st where s: "s = (rb, st)" by fastforce
  with 3 obtain q where ok: "ring_ok rb" and q: "kb_ring st = Some q" by (auto simp: keyboard_inv_def)
  obtain ok q' where push: "ring_push rb b q = (ok, q')" by fastforce
  from 3 ring_push_room [OF ok _ push] show ?case
    by (simp add: s q push keyboard_pending_def push_keyboard_scancode_def)
next
  case (4 s b)
  obtain rb st where s: "s = (rb, st)" by fastforce
  with 4 obtain q where ok: "ring_ok rb" and q: "kb_ring st = Some q" by (auto simp: keyboard_inv_def)
  obtain ok q' where push: "ring_push rb b q = (ok, q')" by fastforce
  from 4 ring_push_full [OF ok _ push] show ?case
    by (simp add: s q push keyboard_pending_def push_keyboard_scancode_def)
next
  case (5 s r s')
  then show ?case
    by (auto simp: keyboard_inv_def keyboard_pending_def pop_keyboard_scancode_def map_prod_def
        dest: ring_pop_spec split: prod.splits)
qed

text \<open>From initialization on, for every interleaving of scancode interrupts and shell reads, the
  shell receives the accepted scancodes in order, each once; the queue holds the rest; every scancode
  that was not accepted is counted as dropped, and none is dropped while 256 or fewer have arrived.
  The queue reports empty exactly when the shell has received everything accepted.\<close>

theorem keyboard_queue_fifo:
  assumes "ring_ok rb" and "init_keyboard rb s0 = Some s"
    and "channel_run (push_keyboard_scancode rb) (pop_keyboard_scancode rb) es s = (out, s')"
  shows "\<exists>q acc. kb_ring s' = Some q \<and> subseq acc (arrivals es) \<and> acc = out @ ring_items rb q \<and>
     kb_dropped s' = kb_dropped s0 + of_nat (length (arrivals es) - length acc) \<and>
     (length (arrivals es) \<le> 256 \<longrightarrow> acc = arrivals es) \<and>
     (keyboard_queue_is_empty rb s' \<longleftrightarrow> out = acc)"
proof -
  have s: "kb_ring s = Some (ring_default rb)" "kb_dropped s = kb_dropped s0"
    using assms(2) by (auto simp: init_keyboard_def split: option.splits)
  have empty: "ring_items rb (ring_default rb) = []" "ring_is_empty rb q \<longleftrightarrow> ring_items rb q = []" for q
    using assms(1) by (auto simp: ring_ok_def)
  have "keyboard_inv (rb, s)" using assms(1) s by (simp add: keyboard_inv_def)
  moreover have "channel_run (\<lambda>(rb, s) c. (rb, push_keyboard_scancode rb s c))
      (\<lambda>(rb, s). map_prod id (Pair rb) (pop_keyboard_scancode rb s)) es (rb, s) = (out, (rb, s'))"
    using assms(3) by (simp add: channel_run_param)
  ultimately have "keyboard_inv (rb, s') \<and> (\<exists>acc. subseq acc (arrivals es) \<and>
      keyboard_pending (rb, s) @ acc = out @ keyboard_pending (rb, s') \<and>
      kb_dropped s' = kb_dropped s + of_nat (length (arrivals es) - length acc) \<and>
      (length (keyboard_pending (rb, s)) + length (arrivals es) \<le> RB_SIZE \<longrightarrow> acc = arrivals es))"
    using keyboard_channel.run_accounting [of "(rb, s)" es out "(rb, s')"] by simp
  then show ?thesis
    by (auto simp: keyboard_inv_def keyboard_pending_def s empty RB_SIZE_def keyboard_queue_is_empty_def)
qed

lemma keyboard_queue_fifo_witness:
  "\<exists>s' out. channel_run (push_keyboard_scancode list_ring) (pop_keyboard_scancode list_ring)
      [Arrive (KeyboardScancode 0x1e), Arrive (KeyboardScancode 0x9e), Take]
      \<lparr>kb_ring = Some [], kb_dropped = 0\<rparr> = (out, s') \<and> out = [KeyboardScancode 0x1e] \<and> kb_dropped s' = 0"
proof -
  let ?es = "[Arrive (KeyboardScancode 0x1e), Arrive (KeyboardScancode 0x9e), Take]"
  let ?run = "channel_run (push_keyboard_scancode list_ring) (pop_keyboard_scancode list_ring) ?es
      \<lparr>kb_ring = Some [], kb_dropped = 0\<rparr>"
  have init: "init_keyboard list_ring \<lparr>kb_ring = None, kb_dropped = 0\<rparr> = Some \<lparr>kb_ring = Some [], kb_dropped = 0\<rparr>"
    by (simp add: init_keyboard_def list_ring_def)
  obtain out s' where run: "?run = (out, s')" by fastforce
  have "out = [KeyboardScancode 0x1e]"
    using run by (simp add: push_keyboard_scancode_def pop_keyboard_scancode_def list_ring_def RB_SIZE_def)
  moreover have "kb_dropped s' = 0"
  proof -
    obtain acc where "length (arrivals ?es) \<le> 256 \<longrightarrow> acc = arrivals ?es"
      "kb_dropped s' = kb_dropped \<lparr>kb_ring = None :: KeyboardScancode list option, kb_dropped = 0\<rparr> +
        of_nat (length (arrivals ?es) - length acc)"
      using keyboard_queue_fifo [OF list_ring_ok init run] by blast
    then show ?thesis by simp
  qed
  ultimately show ?thesis using run by blast
qed

section \<open>Polling\<close>

definition is_control :: "KeyEvent \<Rightarrow> bool" where
  "is_control e \<longleftrightarrow> ke_code e = LControl \<or> ke_code e = RControl"

text \<open>Whether control counts as held after a sequence of key events: the latest one of a control key decides.\<close>

fun ctrl_after :: "bool \<Rightarrow> KeyEvent option list \<Rightarrow> bool" where
  "ctrl_after h [] = h"
| "ctrl_after h (None # es) = ctrl_after h es"
| "ctrl_after h (Some e # es) = ctrl_after (if is_control e then ke_state e = KeyDown else h) es"

text \<open>The key event that the next \<open>poll\<close> completes.\<close>

definition next_key :: "('q, KeyboardScancode) Ring \<Rightarrow> 'k Decoder \<Rightarrow> ('q, 'k) Keyboard \<Rightarrow> KeyEvent option" where
  "next_key rb dec s =
     (case fst (pop_keyboard_scancode rb (key_queue s)) of
        None \<Rightarrow> None
      | Some c \<Rightarrow> (case fst (dec_add_byte dec (scancode c) (key_decoder s)) of Inr e \<Rightarrow> e | Inl _ \<Rightarrow> None))"

fun poll_trace ::
  "('q, KeyboardScancode) Ring \<Rightarrow> 'k Decoder \<Rightarrow> nat \<Rightarrow> ('q, 'k) Keyboard \<Rightarrow>
   (KeyEvent option \<times> KeyboardEvent option) list" where
  "poll_trace rb dec 0 s = []"
| "poll_trace rb dec (Suc n) s =
     (let (r, s') = keyboard_poll rb dec s in (next_key rb dec s, r) # poll_trace rb dec n s')"

lemma length_poll_trace [simp]: "length (poll_trace rb dec n s) = n"
  by (induction n arbitrary: s) (auto split: prod.splits)

lemma keyboard_poll_None:
  assumes "keyboard_poll rb dec s = (r, s')" and "next_key rb dec s = None"
  shows "r = None \<and> key_ctrl_held s' = key_ctrl_held s"
  using assms by (auto simp: keyboard_poll_def next_key_def split: prod.splits option.splits sum.splits)

text \<open>The answer of \<open>poll\<close> to a completed key event, given whether control is held.\<close>

definition answer_ok :: "bool \<Rightarrow> KeyEvent \<Rightarrow> KeyboardEvent option \<Rightarrow> bool" where
  "answer_ok held e r \<longleftrightarrow>
     (is_control e \<longrightarrow> r = None) \<and>
     (\<forall>ev. ctrl_event (ke_code e) = Some ev \<longrightarrow> (r = Some ev \<longleftrightarrow> held \<and> ke_state e = KeyDown)) \<and>
     (\<forall>ev \<in> {CtrlC, CtrlL, ZoomIn, ZoomOut}. r = Some ev \<longrightarrow> ctrl_event (ke_code e) = Some ev) \<and>
     (\<forall>ev \<in> {ArrowUp, ArrowDown, ArrowLeft, ArrowRight, Tab}. r = Some ev \<longleftrightarrow> arrow_event e = Some ev)"

lemma handle_key_result:
  assumes "handle_key dec e s = (r, s')"
  shows "if is_control e then r = None \<and> key_ctrl_held s' = (ke_state e = KeyDown)
    else key_ctrl_held s' = key_ctrl_held s \<and>
      (case arrow_event e of
         Some ev \<Rightarrow> r = Some ev
       | None \<Rightarrow>
          (case (if key_ctrl_held s \<and> ke_state e = KeyDown then ctrl_event (ke_code e) else None) of
             Some ev \<Rightarrow> r = Some ev
           | None \<Rightarrow> r = None \<or> (\<exists>c. r = Some (EvChar c))))"
  using assms
  by (auto simp: handle_key_def is_control_def Let_def split: prod.splits option.splits DecodedKey.splits if_splits)

lemma handle_key_answer:
  assumes "handle_key dec e s = (r, s')"
  shows "answer_ok (key_ctrl_held s) e r"
  using handle_key_result [OF assms]
  by (cases "ke_code e") (auto simp: answer_ok_def is_control_def arrow_event_def split: if_splits)

lemma keyboard_poll_Some:
  assumes "keyboard_poll rb dec s = (r, s')" and "next_key rb dec s = Some e"
  shows "answer_ok (key_ctrl_held s) e r \<and> key_ctrl_held s' = ctrl_after (key_ctrl_held s) [Some e]"
proof -
  obtain s1 where r: "handle_key dec e s1 = (r, s')" and s1: "key_ctrl_held s1 = key_ctrl_held s"
    using assms by (auto simp: keyboard_poll_def next_key_def split: prod.splits option.splits sum.splits)
  from handle_key_result [OF r] handle_key_answer [OF r] show ?thesis
    by (auto simp: s1 split: if_splits)
qed

text \<open>In every run of polls, a key event yields a control shortcut exactly when it is the press of
  that shortcut's key and the latest control-key event before it was a press; control-key events
  themselves yield nothing; the arrow and tab events come exactly from presses of their keys; and a
  poll that completes no key event yields nothing.\<close>

theorem keyboard_shortcuts_follow_control:
  assumes "i < n" and "poll_trace rb dec n s ! i = (e, r)"
  shows "(e = None \<longrightarrow> r = None) \<and>
     (\<forall>k. e = Some k \<longrightarrow>
        answer_ok (ctrl_after (key_ctrl_held s) (map fst (take i (poll_trace rb dec n s)))) k r)"
  using assms
proof (induction n arbitrary: i s)
  case 0
  then show ?case by simp
next
  case (Suc n)
  obtain r1 s1 where p: "keyboard_poll rb dec s = (r1, s1)" by fastforce
  show ?case
  proof (cases i)
    case 0
    with Suc.prems p keyboard_poll_None [OF p] keyboard_poll_Some [OF p] show ?thesis by auto
  next
    case (Suc j)
    have held: "key_ctrl_held s1 = ctrl_after (key_ctrl_held s) [next_key rb dec s]"
      using keyboard_poll_None [OF p] keyboard_poll_Some [OF p] by (cases "next_key rb dec s") auto
    have "j < n" "poll_trace rb dec n s1 ! j = (e, r)" using Suc.prems Suc p by auto
    from Suc.IH [OF this] held p Suc show ?thesis by (cases "next_key rb dec s") auto
  qed
qed

text \<open>A decoder of three scancodes: control down, control up and the press of C.\<close>

definition sample_decoder :: "unit Decoder" where
  "sample_decoder = \<lparr>
     dec_add_byte = (\<lambda>b k. (Inr (if b = 0x1d then Some \<lparr>ke_code = LControl, ke_state = KeyDown\<rparr>
                              else if b = 0x9d then Some \<lparr>ke_code = LControl, ke_state = KeyUp\<rparr>
                              else if b = 0x2e then Some \<lparr>ke_code = KeyC, ke_state = KeyDown\<rparr>
                              else None), k)),
     dec_process = (\<lambda>e k. (Some (Unicode 99), k))\<rparr>"

definition sample_keyboard :: "(KeyboardScancode list, unit) Keyboard" where
  "sample_keyboard = \<lparr>
     key_queue = \<lparr>kb_ring = Some (map KeyboardScancode [0x1d, 0x2e, 0x9d, 0x2e]), kb_dropped = 0\<rparr>,
     key_decoder = (), key_ctrl_held = False\<rparr>"

lemma keyboard_shortcuts_follow_control_witness:
  "let trace = poll_trace list_ring sample_decoder 4 sample_keyboard
   in map snd trace = [None, Some CtrlC, None, Some (EvChar 99)] \<and>
      answer_ok True \<lparr>ke_code = KeyC, ke_state = KeyDown\<rparr> (Some CtrlC)"
proof -
  let ?c = "\<lparr>ke_code = KeyC, ke_state = KeyDown\<rparr>"
  let ?trace = "poll_trace list_ring sample_decoder 4 sample_keyboard"
  have four: "4 = Suc (Suc (Suc (Suc 0)))" by simp
  have trace: "?trace = [(Some \<lparr>ke_code = LControl, ke_state = KeyDown\<rparr>, None), (Some ?c, Some CtrlC),
      (Some \<lparr>ke_code = LControl, ke_state = KeyUp\<rparr>, None), (Some ?c, Some (EvChar 99))]"
    unfolding four poll_trace.simps
    by (simp add: sample_keyboard_def sample_decoder_def keyboard_poll_def next_key_def
        pop_keyboard_scancode_def list_ring_def handle_key_def arrow_event_def)
  have "answer_ok (ctrl_after (key_ctrl_held sample_keyboard) (map fst (take 1 ?trace))) ?c (Some CtrlC)"
    using keyboard_shortcuts_follow_control [of 1 4 list_ring sample_decoder sample_keyboard "Some ?c" "Some CtrlC"]
    by (simp add: trace)
  then have "answer_ok True ?c (Some CtrlC)" by (simp add: trace is_control_def)
  with trace show ?thesis by simp
qed

end
