(* ===== verification/Mouse.thy ===== *)
theory Mouse
  imports Ports
begin

text \<open>
  The mouse path, \<^verbatim>\<open>src/src/mouse/mod.rs\<close>: the byte queue, assembly and decoding of three-byte packets,
  and the controller handshake that enables the mouse. The cursor is modelled in \<^verbatim>\<open>Graphics\<close>.
\<close>

section \<open>The queue\<close>

datatype MouseByte = MouseByte (mouse_byte: u8)

record 'q MouseQueue =
  ms_ring :: "'q option"
  ms_dropped :: usize

definition init_mouse :: "('q, MouseByte) Ring \<Rightarrow> 'q MouseQueue \<Rightarrow> 'q MouseQueue option" where
  "init_mouse rb s =
     (case ms_ring s of
        Some _ \<Rightarrow> None
      | None \<Rightarrow> Some (s\<lparr>ms_ring := Some (ring_default rb)\<rparr>))"

definition push_mouse_byte :: "('q, MouseByte) Ring \<Rightarrow> 'q MouseQueue \<Rightarrow> MouseByte \<Rightarrow> 'q MouseQueue" where
  "push_mouse_byte rb s code =
     (case ms_ring s of
        None \<Rightarrow> s
      | Some q \<Rightarrow>
         (let (ok, q) = ring_push rb code q; s = s\<lparr>ms_ring := Some q\<rparr>
          in if \<not> ok then s\<lparr>ms_dropped := ms_dropped s + 1\<rparr> else s))"

definition pop_mouse_byte ::
  "('q, MouseByte) Ring \<Rightarrow> 'q MouseQueue \<Rightarrow> MouseByte option \<times> 'q MouseQueue" where
  "pop_mouse_byte rb s =
     (case ms_ring s of
        None \<Rightarrow> (None, s)
      | Some q \<Rightarrow> (let (r, q) = ring_pop rb q in (r, s\<lparr>ms_ring := Some q\<rparr>)))"

definition mouse_queue_is_empty :: "('q, MouseByte) Ring \<Rightarrow> 'q MouseQueue \<Rightarrow> bool" where
  "mouse_queue_is_empty rb s =
     (case ms_ring s of None \<Rightarrow> True | Some q \<Rightarrow> ring_is_empty rb q)"

section \<open>Packets\<close>

type_synonym i16 = "16 word"

record PacketState =
  pk_bytes :: "u8 list"
  pk_index :: nat

definition initial_packet_state :: PacketState where
  "initial_packet_state = \<lparr>pk_bytes = [0, 0, 0], pk_index = 0\<rparr>"

datatype MouseDelta = MouseDelta (delta: i16)

record MouseEvent =
  ev_dx :: MouseDelta
  ev_dy :: MouseDelta
  ev_left :: bool
  ev_right :: bool
  ev_middle :: bool

definition decode_packet :: "u8 list \<Rightarrow> MouseEvent option" where
  "decode_packet packet =
     (let flags = packet ! 0 in
      if flags AND 0b11000000 \<noteq> 0 then None
      else let dx = ucast (packet ! 1) :: i16;
               dy = ucast (packet ! 2) :: i16;
               dx = (if flags AND 0b00010000 \<noteq> 0 then dx - 256 else dx);
               dy = (if flags AND 0b00100000 \<noteq> 0 then dy - 256 else dy);
               dy = - dy
           in Some \<lparr>ev_dx = MouseDelta dx, ev_dy = MouseDelta dy,
                    ev_left = (flags AND 1 \<noteq> 0), ev_right = (flags AND 2 \<noteq> 0),
                    ev_middle = (flags AND 4 \<noteq> 0)\<rparr>)"

definition mouse_poll ::
  "('q, MouseByte) Ring \<Rightarrow> 'q MouseQueue \<times> PacketState \<Rightarrow> MouseEvent option \<times> 'q MouseQueue \<times> PacketState" where
  "mouse_poll rb s =
     (let (popped, q) = pop_mouse_byte rb (fst s); state = snd s
      in case popped of
           None \<Rightarrow> (None, q, state)
         | Some b \<Rightarrow>
            (let byte = mouse_byte b in
             if pk_index state = 0 \<and> byte AND 0b00001000 = 0 then (None, q, state)
             else let state = \<lparr>pk_bytes = (pk_bytes state)[pk_index state := byte],
                               pk_index = pk_index state + 1\<rparr>
                  in if pk_index state < 3 then (None, q, state)
                     else let state = state\<lparr>pk_index := 0\<rparr>
                          in (decode_packet (pk_bytes state), q, state)))"

section \<open>The controller handshake\<close>

definition PS2_READY_POLL_LIMIT :: nat where "PS2_READY_POLL_LIMIT = 100000"
definition CMD_ENABLE_AUX :: u8 where "CMD_ENABLE_AUX = 0xa8"
definition CMD_READ_CONFIG :: u8 where "CMD_READ_CONFIG = 0x20"
definition CMD_WRITE_CONFIG :: u8 where "CMD_WRITE_CONFIG = 0x60"
definition CMD_WRITE_TO_AUX :: u8 where "CMD_WRITE_TO_AUX = 0xd4"
definition MOUSE_ENABLE_PACKETS :: u8 where "MOUSE_ENABLE_PACKETS = 0xf4"
definition MOUSE_ACK :: u8 where "MOUSE_ACK = 0xfa"

datatype Ps2Error = Timeout | UnexpectedResponse u8

type_synonym ('w, 'a) ps2 = "'w Bus \<Rightarrow> (Ps2Error, 'a) result \<times> 'w Bus"

text \<open>The \<open>?\<close> operator between two port operations.\<close>

definition ps2_then :: "('w, 'a) ps2 \<Rightarrow> ('a \<Rightarrow> ('w, 'b) ps2) \<Rightarrow> ('w, 'b) ps2" where
  "ps2_then m f = (\<lambda>b. case m b of (Inl e, b) \<Rightarrow> (Inl e, b) | (Inr x, b) \<Rightarrow> f x b)"

text \<open>Polls the status port until \<open>ready\<close> holds, at most \<open>n\<close> times.\<close>

fun wait_status :: "'w Ports \<Rightarrow> (u8 \<Rightarrow> bool) \<Rightarrow> nat \<Rightarrow> ('w, unit) ps2" where
  "wait_status io ready 0 b = (Inl Timeout, b)"
| "wait_status io ready (Suc n) b =
     (let (status, b) = inb io PS2_STATUS b
      in if ready status then (Inr (), b) else wait_status io ready n b)"

definition wait_write_ready :: "'w Ports \<Rightarrow> ('w, unit) ps2" where
  "wait_write_ready io = wait_status io (\<lambda>status. status AND 0b10 = 0) PS2_READY_POLL_LIMIT"

definition wait_read_ready :: "'w Ports \<Rightarrow> ('w, unit) ps2" where
  "wait_read_ready io = wait_status io (\<lambda>status. status AND 0b01 \<noteq> 0) PS2_READY_POLL_LIMIT"

definition ps2_write_command :: "'w Ports \<Rightarrow> u8 \<Rightarrow> ('w, unit) ps2" where
  "ps2_write_command io cmd =
     ps2_then (wait_write_ready io) (\<lambda>_ b. (Inr (), outb io cmd PS2_COMMAND b))"

definition ps2_write_data :: "'w Ports \<Rightarrow> u8 \<Rightarrow> ('w, unit) ps2" where
  "ps2_write_data io v =
     ps2_then (wait_write_ready io) (\<lambda>_ b. (Inr (), outb io v PS2_DATA b))"

definition ps2_read_data :: "'w Ports \<Rightarrow> ('w, u8) ps2" where
  "ps2_read_data io =
     ps2_then (wait_read_ready io) (\<lambda>_ b. let (v, b) = inb io PS2_DATA b in (Inr v, b))"

definition configured :: "u8 \<Rightarrow> u8" where
  "configured config = (config OR 0b00000010) AND NOT 0b00100000"

definition initialize_controller :: "'w Ports \<Rightarrow> ('w, unit) ps2" where
  "initialize_controller io =
     ps2_then (ps2_write_command io CMD_ENABLE_AUX) (\<lambda>_.
     ps2_then (ps2_write_command io CMD_READ_CONFIG) (\<lambda>_.
     ps2_then (ps2_read_data io) (\<lambda>config.
     ps2_then (ps2_write_command io CMD_WRITE_CONFIG) (\<lambda>_.
     ps2_then (ps2_write_data io (configured config)) (\<lambda>_.
     ps2_then (ps2_write_command io CMD_WRITE_TO_AUX) (\<lambda>_.
     ps2_then (ps2_write_data io MOUSE_ENABLE_PACKETS) (\<lambda>_.
     ps2_then (ps2_read_data io) (\<lambda>ack b.
       (if ack \<noteq> MOUSE_ACK then Inl (UnexpectedResponse ack) else Inr (), b)))))))))"

section \<open>The queue loses nothing silently\<close>

definition mouse_pending :: "('q, MouseByte) Ring \<times> 'q MouseQueue \<Rightarrow> MouseByte list" where
  "mouse_pending x = (case ms_ring (snd x) of None \<Rightarrow> [] | Some q \<Rightarrow> ring_items (fst x) q)"

definition mouse_inv :: "('q, MouseByte) Ring \<times> 'q MouseQueue \<Rightarrow> bool" where
  "mouse_inv x \<longleftrightarrow> ring_ok (fst x) \<and> ms_ring (snd x) \<noteq> None"

interpretation mouse_channel: byte_channel
  "\<lambda>(rb, s) c. (rb, push_mouse_byte rb s c)"
  "\<lambda>(rb, s). map_prod id (Pair rb) (pop_mouse_byte rb s)"
  mouse_pending "\<lambda>x. ms_dropped (snd x)" mouse_inv RB_SIZE
proof (unfold_locales, goal_cases)
  case (1 s b)
  then show ?case
    by (auto simp: mouse_inv_def push_mouse_byte_def Let_def split: prod.splits)
next
  case (2 s r s')
  then show ?case
    by (auto simp: mouse_inv_def pop_mouse_byte_def map_prod_def split: prod.splits)
next
  case (3 s b)
  obtain rb st where s: "s = (rb, st)" by fastforce
  with 3 obtain q where ok: "ring_ok rb" and q: "ms_ring st = Some q" by (auto simp: mouse_inv_def)
  obtain ok q' where push: "ring_push rb b q = (ok, q')" by fastforce
  from 3 ring_push_room [OF ok _ push] show ?case
    by (simp add: s q push mouse_pending_def push_mouse_byte_def)
next
  case (4 s b)
  obtain rb st where s: "s = (rb, st)" by fastforce
  with 4 obtain q where ok: "ring_ok rb" and q: "ms_ring st = Some q" by (auto simp: mouse_inv_def)
  obtain ok q' where push: "ring_push rb b q = (ok, q')" by fastforce
  from 4 ring_push_full [OF ok _ push] show ?case
    by (simp add: s q push mouse_pending_def push_mouse_byte_def)
next
  case (5 s r s')
  then show ?case
    by (auto simp: mouse_inv_def mouse_pending_def pop_mouse_byte_def map_prod_def
        dest: ring_pop_spec split: prod.splits)
qed

section \<open>Packet decoding\<close>

text \<open>A decoded event as numbers: horizontal and vertical motion and the three buttons.\<close>

definition event_view :: "MouseEvent \<Rightarrow> int \<times> int \<times> bool \<times> bool \<times> bool" where
  "event_view e = (sint (delta (ev_dx e)), sint (delta (ev_dy e)), ev_left e, ev_right e, ev_middle e)"

text \<open>The PS/2 packet format: byte 0 carries overflow, sign and button bits, bytes 1 and 2 the motion.\<close>

fun packet_meaning :: "u8 list \<Rightarrow> (int \<times> int \<times> bool \<times> bool \<times> bool) option" where
  "packet_meaning [f, x, y] =
     (if bit f 6 \<or> bit f 7 then None
      else Some (uint x - (if bit f 4 then 256 else 0), (if bit f 5 then 256 else 0) - uint y,
                 bit f 0, bit f 1, bit f 2))"
| "packet_meaning _ = None"

text \<open>A stream of bytes as packets: bytes that cannot start a packet are skipped, an incomplete packet is left.\<close>

fun packets :: "u8 list \<Rightarrow> u8 list list \<times> u8 list" where
  "packets [] = ([], [])"
| "packets (f # bs) =
     (if \<not> bit f 3 then packets bs
      else case bs of
             x # y # rest \<Rightarrow> map_prod (Cons [f, x, y]) id (packets rest)
           | _ \<Rightarrow> ([], f # bs))"

lemma and_bit_eq: "f AND 2 ^ n = 0 \<longleftrightarrow> \<not> bit (f :: u8) n"
  by (rule and_exp_eq_0_iff_not_bit)

lemma flag_bits:
  fixes f :: u8
  shows "f AND 1 = 0 \<longleftrightarrow> \<not> bit f 0" "f AND 2 = 0 \<longleftrightarrow> \<not> bit f 1" "f AND 4 = 0 \<longleftrightarrow> \<not> bit f 2"
    "f AND 8 = 0 \<longleftrightarrow> \<not> bit f 3" "f AND 16 = 0 \<longleftrightarrow> \<not> bit f 4" "f AND 32 = 0 \<longleftrightarrow> \<not> bit f 5"
    "f AND 192 = 0 \<longleftrightarrow> \<not> bit f 6 \<and> \<not> bit f 7"
proof -
  show "f AND 1 = 0 \<longleftrightarrow> \<not> bit f 0" "f AND 2 = 0 \<longleftrightarrow> \<not> bit f 1" "f AND 4 = 0 \<longleftrightarrow> \<not> bit f 2"
    "f AND 8 = 0 \<longleftrightarrow> \<not> bit f 3" "f AND 16 = 0 \<longleftrightarrow> \<not> bit f 4" "f AND 32 = 0 \<longleftrightarrow> \<not> bit f 5"
    using and_bit_eq [of f 0] and_bit_eq [of f 1] and_bit_eq [of f 2] and_bit_eq [of f 3]
      and_bit_eq [of f 4] and_bit_eq [of f 5] by simp_all
  have "(192 :: u8) = 2 ^ 6 OR 2 ^ 7" by simp
  then have "f AND 192 = (f AND 2 ^ 6) OR (f AND 2 ^ 7)" by (simp only: bit.conj_disj_distrib)
  then show "f AND 192 = 0 \<longleftrightarrow> \<not> bit f 6 \<and> \<not> bit f 7"
    by (simp only: or_eq_0_iff and_bit_eq)
qed

lemma sint_motion:
  fixes x :: u8
  shows "sint (ucast x - (if s then 256 else 0) :: i16) = uint x - (if s then 256 else 0)"
    "sint (- (ucast x - (if s then 256 else 0)) :: i16) = (if s then 256 else 0) - uint x"
proof -
  have x: "0 \<le> uint x" "uint x < 256" using uint_bounded [of x] by simp_all
  have sint: "sint (word_of_int k :: i16) = k" if "- 32768 \<le> k" "k < 32768" for k
    using that by (simp add: signed_of_int signed_take_bit_int_eq_self)
  have c: "0 \<le> (if s then 256 else 0 :: int)" "(if s then 256 else 0 :: int) \<le> 256" by simp_all
  have eqs: "(ucast x - (if s then 256 else 0) :: i16) = word_of_int (uint x - (if s then 256 else 0))"
    "(- (ucast x - (if s then 256 else 0)) :: i16) = word_of_int ((if s then 256 else 0) - uint x)"
    by (cases s; simp)+
  show "sint (ucast x - (if s then 256 else 0) :: i16) = uint x - (if s then 256 else 0)"
    unfolding eqs(1) by (rule sint) (use x c in linarith)+
  show "sint (- (ucast x - (if s then 256 else 0)) :: i16) = (if s then 256 else 0) - uint x"
    unfolding eqs(2) by (rule sint) (use x c in linarith)+
qed

lemma decode_packet_meaning: "map_option event_view (decode_packet [f, x, y]) = packet_meaning [f, x, y]"
proof -
  have dy: "(if bit f 5 then c - 256 else c) = c - (if bit f 5 then 256 else 0)"
    "(if bit f 4 then c - 256 else c) = c - (if bit f 4 then 256 else 0)" for c :: i16
    by simp_all
  show ?thesis
    by (simp only: decode_packet_def Let_def nth_Cons_0 nth_Cons_Suc One_nat_def numeral_2_eq_2 flag_bits not_not dy
        event_view_def packet_meaning.simps option.map MouseEvent.simps MouseDelta.sel sint_motion
        if_distrib [where f = "map_option event_view"] de_Morgan_conj)
qed

text \<open>The events of \<open>n\<close> polls.\<close>

fun mouse_polls ::
  "('q, MouseByte) Ring \<Rightarrow> nat \<Rightarrow> 'q MouseQueue \<times> PacketState \<Rightarrow> MouseEvent list \<times> 'q MouseQueue \<times> PacketState" where
  "mouse_polls rb 0 s = ([], s)"
| "mouse_polls rb (Suc n) s =
     (let (r, s) = mouse_poll rb s; (es, s) = mouse_polls rb n s
      in (case r of None \<Rightarrow> es | Some e \<Rightarrow> e # es, s))"

text \<open>A packet state that holds the bytes \<open>bs\<close> of an incomplete packet.\<close>

definition holds_partial :: "PacketState \<Rightarrow> u8 list \<Rightarrow> bool" where
  "holds_partial st bs \<longleftrightarrow> length (pk_bytes st) = 3 \<and> pk_index st = length bs \<and> length bs < 3 \<and>
     take (length bs) (pk_bytes st) = bs \<and> (bs \<noteq> [] \<longrightarrow> bit (hd bs) 3)"

lemma mouse_poll_step:
  assumes "ring_ok rb" and "ms_ring q = Some r" and "ring_items rb r = b # bs" and "holds_partial st ps"
    and "mouse_poll rb (q, st) = (e, q', st')"
  shows "\<exists>r'. ms_ring q' = Some r' \<and> ring_items rb r' = bs \<and>
    (if ps = [] \<and> \<not> bit (mouse_byte b) 3 then e = None \<and> holds_partial st' []
     else if length ps < 2 then e = None \<and> holds_partial st' (ps @ [mouse_byte b])
     else e = decode_packet (ps @ [mouse_byte b]) \<and> holds_partial st' [])"
proof -
  obtain x r' where pop: "ring_pop rb r = (x, r')" by fastforce
  have x: "x = Some b" "ring_items rb r' = bs" using ring_pop_spec [OF assms(1) pop] assms(3) by simp_all
  have q': "pop_mouse_byte rb q = (Some b, q\<lparr>ms_ring := Some r'\<rparr>)"
    using assms(2) pop x by (simp add: pop_mouse_byte_def)
  obtain y0 y1 y2 where ys: "pk_bytes st = [y0, y1, y2]"
    using assms(4) by (auto simp: holds_partial_def numeral_3_eq_3 length_Suc_conv)
  consider "ps = []" | p where "ps = [p]" | p0 p1 where "ps = [p0, p1]"
    using assms(4) by (cases ps rule: remdups_adj.cases) (auto simp: holds_partial_def)
  then show ?thesis
    using assms(4,5) x ys
    by cases (auto simp: mouse_poll_def q' holds_partial_def Let_def flag_bits split: if_splits)
qed

lemma packets_partial:
  assumes "length ps < 3" and "ps \<noteq> [] \<longrightarrow> bit (hd ps) 3"
  shows "packets ps = ([], ps)"
proof -
  consider "ps = []" | p where "ps = [p]" | p0 p1 where "ps = [p0, p1]"
    using assms(1) by (cases ps rule: remdups_adj.cases) auto
  then show ?thesis using assms(2) by cases auto
qed

lemma packets_triples: "p \<in> set (fst (packets bs)) \<Longrightarrow> \<exists>f x y. p = [f, x, y]"
proof (induction bs rule: packets.induct)
  case (2 f bs)
  show ?case
  proof (cases "bit f 3")
    case True
    show ?thesis
    proof (cases "\<exists>x y rest. bs = x # y # rest")
      case more: True
      then obtain x y rest where "bs = x # y # rest" by blast
      with 2 True show ?thesis by auto
    next
      case False
      with 2 True show ?thesis by (cases bs; cases "tl bs") auto
    qed
  qed (use 2 in simp)
qed simp

lemma mouse_polls_stream:
  assumes "ring_ok rb" and "ms_ring q = Some r" and "ring_items rb r = bs" and "holds_partial st ps"
    and "mouse_polls rb (length bs) (q, st) = (es, q', st')"
  shows "\<exists>r'. ms_ring q' = Some r' \<and> ring_items rb r' = [] \<and>
    es = List.map_filter decode_packet (fst (packets (ps @ map mouse_byte bs))) \<and>
    holds_partial st' (snd (packets (ps @ map mouse_byte bs)))"
  using assms(2-)
proof (induction bs arbitrary: q r st ps es)
  case Nil
  then have "packets ps = ([], ps)" by (intro packets_partial) (auto simp: holds_partial_def)
  with Nil show ?case by (simp add: List.map_filter_def)
next
  case (Cons b bs)
  obtain e q1 st1 where poll: "mouse_poll rb (q, st) = (e, q1, st1)" by (cases "mouse_poll rb (q, st)" rule: prod_cases3)
  obtain es1 where rest: "mouse_polls rb (length bs) (q1, st1) = (es1, q', st')"
    and es: "es = (case e of None \<Rightarrow> es1 | Some x \<Rightarrow> x # es1)"
    using Cons.prems(4) poll by (auto split: prod.splits)
  obtain r1 where r1: "ms_ring q1 = Some r1" "ring_items rb r1 = bs"
    and cases: "if ps = [] \<and> \<not> bit (mouse_byte b) 3 then e = None \<and> holds_partial st1 []
      else if length ps < 2 then e = None \<and> holds_partial st1 (ps @ [mouse_byte b])
      else e = decode_packet (ps @ [mouse_byte b]) \<and> holds_partial st1 []"
    using mouse_poll_step [OF assms(1) Cons.prems(1,2,3) poll] by blast
  note ih = Cons.IH [OF r1 _ rest]
  show ?case
  proof (cases "ps = [] \<and> \<not> bit (mouse_byte b) 3")
    case True
    with cases ih [of "[]"] es show ?thesis by simp
  next
    case skip: False
    show ?thesis
    proof (cases "length ps < 2")
      case True
      with skip cases ih [of "ps @ [mouse_byte b]"] es show ?thesis by simp
    next
      case False
      with Cons.prems(3) obtain p0 p1 where ps: "ps = [p0, p1]" "bit p0 3"
        by (cases ps rule: remdups_adj.cases) (auto simp: holds_partial_def)
      with False skip cases ih [of "[]"] es show ?thesis
        by (auto simp: map_filter_simps split: option.splits)
    qed
  qed
qed

text \<open>C21: polling the mouse until its queue is empty yields the events of the byte stream as the PS/2
  format defines them: bytes that cannot start a packet are skipped, each packet without overflow
  gives one event with the signed motion (the vertical one inverted) and the buttons, an overflowed
  packet gives none, and an incomplete packet at the end is kept for the bytes still to come.\<close>

theorem mouse_stream_decoded:
  assumes "ring_ok rb" and "ms_ring q = Some r" and "holds_partial st ps"
    and "mouse_polls rb (length (ring_items rb r)) (q, st) = (es, q', st')"
  shows "let (whole, left) = packets (ps @ map mouse_byte (ring_items rb r))
    in map event_view es = List.map_filter packet_meaning whole \<and> holds_partial st' left \<and>
       mouse_queue_is_empty rb q'"
proof -
  let ?p = "packets (ps @ map mouse_byte (ring_items rb r))"
  obtain r' where r': "ms_ring q' = Some r'" "ring_items rb r' = []"
    and es: "es = List.map_filter decode_packet (fst ?p)" and left: "holds_partial st' (snd ?p)"
    using mouse_polls_stream [OF assms(1,2) refl assms(3,4)] by blast
  have "map event_view (List.map_filter decode_packet ps) = List.map_filter packet_meaning ps"
    if "\<forall>p \<in> set ps. \<exists>f x y. p = [f, x, y]" for ps
    using that
  proof (induction ps)
    case (Cons p ps)
    then obtain f x y where "p = [f, x, y]" by auto
    then have "packet_meaning p = map_option event_view (decode_packet p)"
      by (simp only: decode_packet_meaning)
    with Cons show ?case by (cases "decode_packet p") (simp_all add: map_filter_simps)
  qed (simp add: map_filter_simps)
  moreover have "\<forall>p \<in> set (fst ?p). \<exists>f x y. p = [f, x, y]" by (blast dest: packets_triples)
  moreover have "mouse_queue_is_empty rb q'"
    using assms(1) r' by (simp add: mouse_queue_is_empty_def ring_ok_def)
  ultimately show ?thesis using es left by (simp add: case_prod_beta Let_def)
qed

text \<open>One stray byte, then a packet with motion (-2, +3) and all buttons.\<close>

lemma mouse_stream_decoded_witness:
  "map event_view (fst (mouse_polls list_ring 4
      (\<lparr>ms_ring = Some (map MouseByte [0x01, 0b00111111, 0xfe, 0xfd]), ms_dropped = 0\<rparr>, initial_packet_state))) =
   [(-2, 3, True, True, True)]"
proof -
  let ?bytes = "[0x01, 0b00111111, 0xfe, 0xfd] :: u8 list"
  let ?q = "\<lparr>ms_ring = Some (map MouseByte ?bytes), ms_dropped = 0\<rparr>"
  obtain es q' st' where polls: "mouse_polls list_ring 4 (?q, initial_packet_state) = (es, q', st')"
    by (cases "mouse_polls list_ring 4 (?q, initial_packet_state)" rule: prod_cases3)
  have start: "holds_partial initial_packet_state []"
    by (simp add: holds_partial_def initial_packet_state_def)
  have "packets ?bytes = ([[0b00111111, 0xfe, 0xfd]], [])"
    by simp
  moreover have "packet_meaning [0b00111111, 0xfe, 0xfd] = Some (-2, 3, True, True, True)"
    by simp
  moreover have "ring_items list_ring (map MouseByte ?bytes) = map MouseByte ?bytes"
    by (simp add: list_ring_def)
  moreover have "length (ring_items list_ring (map MouseByte ?bytes)) = 4"
    by (simp add: list_ring_def)
  note mouse_stream_decoded [OF list_ring_ok, of ?q "map MouseByte ?bytes", OF _ start, unfolded this, OF _ polls]
  ultimately have "map event_view es = [(-2, 3, True, True, True)]"
    by (simp add: map_filter_simps del: packets.simps packet_meaning.simps)
  with polls show ?thesis by simp
qed

section \<open>The handshake as a conversation\<close>

text \<open>
  A step of the conversation with the controller is a byte sent to a port or a byte received. It is
  carried out politely when the status port has been polled until the controller was ready for it.
\<close>

datatype PsStep = Send u16 u8 | Receive u8

fun step_ready :: "PsStep \<Rightarrow> u8 \<Rightarrow> bool" where
  "step_ready (Send _ _) status \<longleftrightarrow> status AND 2 = 0"
| "step_ready (Receive _) status \<longleftrightarrow> status AND 1 \<noteq> 0"

fun step_event :: "PsStep \<Rightarrow> PortEvent" where
  "step_event (Send p v) = Out p v"
| "step_event (Receive v) = In PS2_DATA v"

definition polls :: "u8 list \<Rightarrow> PortEvent list" where
  "polls ss = map (In PS2_STATUS) ss"

definition exchange :: "PsStep \<Rightarrow> PortEvent list \<Rightarrow> bool" where
  "exchange st es \<longleftrightarrow> (\<exists>ss s. es = polls ss @ [In PS2_STATUS s, step_event st] \<and>
     length ss < PS2_READY_POLL_LIMIT \<and> (\<forall>x \<in> set ss. \<not> step_ready st x) \<and> step_ready st s)"

definition gave_up :: "PsStep \<Rightarrow> PortEvent list \<Rightarrow> bool" where
  "gave_up st es \<longleftrightarrow> (\<exists>ss. es = polls ss \<and> length ss = PS2_READY_POLL_LIMIT \<and>
     (\<forall>x \<in> set ss. \<not> step_ready st x))"

fun conversation :: "PsStep list \<Rightarrow> PortEvent list \<Rightarrow> bool" where
  "conversation [] es \<longleftrightarrow> es = []"
| "conversation (st # sts) es \<longleftrightarrow> (\<exists>xs ys. es = xs @ ys \<and> exchange st xs \<and> conversation sts ys)"

text \<open>The steps that enable the mouse when the controller reports \<open>config\<close> and the mouse answers \<open>ack\<close>.\<close>

definition handshake :: "u8 \<Rightarrow> u8 \<Rightarrow> PsStep list" where
  "handshake config ack =
     [Send PS2_COMMAND CMD_ENABLE_AUX, Send PS2_COMMAND CMD_READ_CONFIG, Receive config,
      Send PS2_COMMAND CMD_WRITE_CONFIG, Send PS2_DATA (configured config),
      Send PS2_COMMAND CMD_WRITE_TO_AUX, Send PS2_DATA MOUSE_ENABLE_PACKETS, Receive ack]"

lemma polls_eq_iff [simp]: "polls ss = polls ts \<longleftrightarrow> ss = ts"
  by (simp add: polls_def inj_map_eq_map inj_def)

lemma conversation_append:
  "conversation (as @ bs) es \<longleftrightarrow> (\<exists>xs ys. es = xs @ ys \<and> conversation as xs \<and> conversation bs ys)"
proof (induction as arbitrary: es)
  case (Cons st sts)
  then show ?case by (auto simp: append.assoc) (metis append.assoc)+
qed simp

text \<open>
  \<open>talks m S U F\<close>: action \<open>m\<close> adds a conversation to the log. With result \<open>x\<close> its steps satisfy \<open>S x\<close>,
  with an unexpected response \<open>U\<close>; when it times out, \<open>F\<close> relates the steps done and the one given up.
\<close>

definition talks ::
  "('w, 'a) ps2 \<Rightarrow> ('a \<Rightarrow> PsStep list \<Rightarrow> bool) \<Rightarrow> (u8 \<Rightarrow> PsStep list \<Rightarrow> bool) \<Rightarrow>
   (PsStep list \<Rightarrow> PsStep \<Rightarrow> bool) \<Rightarrow> bool" where
  "talks m S U F \<longleftrightarrow> (\<forall>b r b'. m b = (r, b') \<longrightarrow> (\<exists>es. bus_log b' = bus_log b @ es \<and>
     (case r of
        Inr x \<Rightarrow> \<exists>sts. S x sts \<and> conversation sts es
      | Inl (UnexpectedResponse a) \<Rightarrow> \<exists>sts. U a sts \<and> conversation sts es
      | Inl Timeout \<Rightarrow> \<exists>sts st xs ys. F sts st \<and> es = xs @ ys \<and> conversation sts xs \<and> gave_up st ys)))"

lemma wait_status_log:
  assumes "wait_status io ready n b = (r, b')"
  shows "case r of
      Inr _ \<Rightarrow> \<exists>ss s. bus_log b' = bus_log b @ polls ss @ [In PS2_STATUS s] \<and> length ss < n \<and>
        (\<forall>x \<in> set ss. \<not> ready x) \<and> ready s
    | Inl e \<Rightarrow> e = Timeout \<and> (\<exists>ss. bus_log b' = bus_log b @ polls ss \<and> length ss = n \<and> (\<forall>x \<in> set ss. \<not> ready x))"
  using assms
proof (induction n arbitrary: b)
  case 0
  then show ?case by (auto simp: polls_def)
next
  case (Suc n)
  obtain s b1 where s: "inb io PS2_STATUS b = (s, b1)" by fastforce
  then have log: "bus_log b1 = bus_log b @ [In PS2_STATUS s]" by (auto simp: inb_def split: prod.splits)
  show ?case
  proof (cases "ready s")
    case True
    with Suc.prems s log show ?thesis by (auto simp: polls_def intro!: exI [of _ "[]"])
  next
    case False
    with Suc.prems s have w: "wait_status io ready n b1 = (r, b')" by simp
    show ?thesis
    proof (cases r)
      case (Inl e)
      with Suc.IH [OF w] obtain ss where "e = Timeout" "bus_log b' = bus_log b1 @ polls ss" "length ss = n"
        "\<forall>x \<in> set ss. \<not> ready x" by auto
      with Inl False log show ?thesis by (auto simp: polls_def intro!: exI [of _ "s # ss"])
    next
      case (Inr u)
      with Suc.IH [OF w] obtain ss t where "bus_log b' = bus_log b1 @ polls ss @ [In PS2_STATUS t]"
        "length ss < n" "\<forall>x \<in> set ss. \<not> ready x" "ready t" by auto
      with Inr False log show ?thesis
        by (auto simp: polls_def intro!: exI [of _ "s # ss"] exI [of _ t])
    qed
  qed
qed

lemma send_talks:
  assumes "m = ps2_then (wait_write_ready io) (\<lambda>_ b. (Inr (), outb io v p b))"
  shows "talks m (\<lambda>_ sts. sts = [Send p v]) (\<lambda>_ _. False) (\<lambda>sts st. sts = [] \<and> st = Send p v)"
  unfolding talks_def
proof (intro allI impI)
  fix b r b'
  assume "m b = (r, b')"
  obtain w b1 where w: "wait_write_ready io b = (w, b1)" by fastforce
  note log = wait_status_log [OF w [unfolded wait_write_ready_def]]
  show "\<exists>es. bus_log b' = bus_log b @ es \<and>
     (case r of
        Inr x \<Rightarrow> \<exists>sts. sts = [Send p v] \<and> conversation sts es
      | Inl (UnexpectedResponse a) \<Rightarrow> \<exists>sts. False \<and> conversation sts es
      | Inl Timeout \<Rightarrow> \<exists>sts st xs ys. (sts = [] \<and> st = Send p v) \<and> es = xs @ ys \<and> conversation sts xs \<and> gave_up st ys)"
    using \<open>m b = (r, b')\<close> w log assms
    by (cases w) (auto simp: ps2_then_def outb_def exchange_def gave_up_def append.assoc)
qed

lemma receive_talks:
  "talks (ps2_read_data io) (\<lambda>v sts. sts = [Receive v]) (\<lambda>_ _. False) (\<lambda>sts st. sts = [] \<and> st = Receive 0)"
  unfolding talks_def
proof (intro allI impI)
  fix b r b'
  assume read: "ps2_read_data io b = (r, b')"
  obtain w b1 where w: "wait_read_ready io b = (w, b1)" by fastforce
  note log = wait_status_log [OF w [unfolded wait_read_ready_def]]
  show "\<exists>es. bus_log b' = bus_log b @ es \<and>
     (case r of
        Inr x \<Rightarrow> \<exists>sts. sts = [Receive x] \<and> conversation sts es
      | Inl (UnexpectedResponse a) \<Rightarrow> \<exists>sts. False \<and> conversation sts es
      | Inl Timeout \<Rightarrow> \<exists>sts st xs ys. (sts = [] \<and> st = Receive 0) \<and> es = xs @ ys \<and>
          conversation sts xs \<and> gave_up st ys)"
    using read w log
    by (cases w) (auto simp: ps2_read_data_def ps2_then_def inb_def exchange_def gave_up_def append.assoc
        split: prod.splits)
qed

lemma then_talks:
  assumes m: "talks m S U F" and f: "\<And>x. talks (f x) (S' x) (U' x) (F' x)"
  shows "talks (ps2_then m f)
    (\<lambda>y sts. \<exists>x as bs. S x as \<and> S' x y bs \<and> sts = as @ bs)
    (\<lambda>a sts. U a sts \<or> (\<exists>x as bs. S x as \<and> U' x a bs \<and> sts = as @ bs))
    (\<lambda>sts st. F sts st \<or> (\<exists>x as bs. S x as \<and> F' x bs st \<and> sts = as @ bs))"
  unfolding talks_def
proof (intro allI impI, goal_cases)
  case (1 b r b')
  obtain w b1 where w: "m b = (w, b1)" by fastforce
  show ?case
  proof (cases w)
    case (Inl e)
    with 1 w have r: "r = Inl e" "b' = b1" by (simp_all add: ps2_then_def)
    obtain es where "bus_log b1 = bus_log b @ es" "case w of
        Inr x \<Rightarrow> \<exists>sts. S x sts \<and> conversation sts es
      | Inl (UnexpectedResponse a) \<Rightarrow> \<exists>sts. U a sts \<and> conversation sts es
      | Inl Timeout \<Rightarrow> \<exists>sts st xs ys. F sts st \<and> es = xs @ ys \<and> conversation sts xs \<and> gave_up st ys"
      using m [unfolded talks_def, rule_format, OF w] by blast
    then show ?thesis unfolding r by (intro exI [of _ es]) (auto simp: Inl split: Ps2Error.splits; blast)
  next
    case (Inr x)
    with 1 w have fx: "f x b1 = (r, b')" by (simp add: ps2_then_def)
    obtain es as where es: "bus_log b1 = bus_log b @ es" "S x as" "conversation as es"
      using m [unfolded talks_def, rule_format, OF w] Inr by auto
    obtain fs where fs: "bus_log b' = bus_log b1 @ fs"
      "case r of
        Inr y \<Rightarrow> \<exists>sts. S' x y sts \<and> conversation sts fs
      | Inl (UnexpectedResponse a) \<Rightarrow> \<exists>sts. U' x a sts \<and> conversation sts fs
      | Inl Timeout \<Rightarrow> \<exists>sts st xs ys. F' x sts st \<and> fs = xs @ ys \<and> conversation sts xs \<and> gave_up st ys"
      using f [of x, unfolded talks_def, rule_format, OF fx] by blast
    have append: "conversation (as @ sts) (es @ xs)" if "conversation sts xs" for sts xs
      using es(3) that by (auto simp: conversation_append)
    have later: "\<exists>sts st zs ys. (F sts st \<or> (\<exists>x as bs. S x as \<and> F' x bs st \<and> sts = as @ bs)) \<and>
        es @ fs = zs @ ys \<and> conversation sts zs \<and> gave_up st ys"
      if "F' x sts st" "fs = xs @ ys" "conversation sts xs" "gave_up st ys" for sts st xs ys
      using that es append [OF that(3)] by (intro exI [of _ "as @ sts"] exI [of _ st] exI [of _ "es @ xs"] exI [of _ ys]) auto
    show ?thesis
      using es fs append later
      by (intro exI [of _ "es @ fs"]) (auto split: sum.splits Ps2Error.splits)
  qed
qed

lemma answer_talks:
  "talks (\<lambda>b. (if ack \<noteq> MOUSE_ACK then Inl (UnexpectedResponse ack) else Inr (), b))
     (\<lambda>_ sts. sts = [] \<and> ack = MOUSE_ACK) (\<lambda>a sts. sts = [] \<and> a = ack \<and> ack \<noteq> MOUSE_ACK) (\<lambda>_ _. False)"
  by (auto simp: talks_def)

lemmas ps2_talks = then_talks send_talks [OF ps2_write_command_def] send_talks [OF ps2_write_data_def]
  receive_talks answer_talks

lemma talks_mono:
  assumes "talks m S U F" and "\<And>x sts. S x sts \<Longrightarrow> S' x sts" and "\<And>a sts. U a sts \<Longrightarrow> U' a sts"
    and "\<And>sts st. F sts st \<Longrightarrow> F' sts st"
  shows "talks m S' U' F'"
  unfolding talks_def
proof (intro allI impI, goal_cases)
  case (1 b r b')
  obtain es where "bus_log b' = bus_log b @ es" "case r of
        Inr x \<Rightarrow> \<exists>sts. S x sts \<and> conversation sts es
      | Inl (UnexpectedResponse a) \<Rightarrow> \<exists>sts. U a sts \<and> conversation sts es
      | Inl Timeout \<Rightarrow> \<exists>sts st xs ys. F sts st \<and> es = xs @ ys \<and> conversation sts xs \<and> gave_up st ys"
    using assms(1) [unfolded talks_def, rule_format, OF 1] by blast
  with assms(2-) show ?case by (intro exI [of _ es]) (fastforce split: sum.splits Ps2Error.splits)
qed

lemma handshake_talks:
  "talks (initialize_controller io)
     (\<lambda>_ sts. \<exists>config. sts = handshake config MOUSE_ACK)
     (\<lambda>a sts. a \<noteq> MOUSE_ACK \<and> (\<exists>config. sts = handshake config a))
     (\<lambda>sts st. \<exists>config ack rest. handshake config ack = sts @ st # rest)"
  unfolding initialize_controller_def
  by (rule talks_mono, (rule ps2_talks)+) (auto simp: handshake_def)


text \<open>A controller that is always ready and always answers with an acknowledgement.\<close>

definition eager_controller :: "unit Ports" where
  "eager_controller = \<lparr>port_read = (\<lambda>p w. (if p = PS2_STATUS then 1 else 0xfa, w)), port_write = (\<lambda>v p w. w)\<rparr>"

lemma eager_inb:
  "inb eager_controller p b = (if p = PS2_STATUS then 1 else 0xfa,
     \<lparr>bus_devices = (), bus_log = bus_log b @ [In p (if p = PS2_STATUS then 1 else 0xfa)]\<rparr>)"
  by (simp add: inb_def eager_controller_def)

lemma eager_wait [simp]:
  "wait_write_ready eager_controller b = (Inr (), snd (inb eager_controller PS2_STATUS b))"
  "wait_read_ready eager_controller b = (Inr (), snd (inb eager_controller PS2_STATUS b))"
proof -
  have limit: "PS2_READY_POLL_LIMIT = Suc 99999" by (simp add: PS2_READY_POLL_LIMIT_def)
  show "wait_write_ready eager_controller b = (Inr (), snd (inb eager_controller PS2_STATUS b))"
    "wait_read_ready eager_controller b = (Inr (), snd (inb eager_controller PS2_STATUS b))"
    unfolding wait_write_ready_def wait_read_ready_def limit wait_status.simps(2)
    by (simp_all add: eager_inb del: wait_status.simps)
qed


end
