(* ===== verification/Graphics.thy ===== *)
theory Graphics
  imports Globals "HOL-Library.Monad_Syntax"
begin

text \<open>
  Drawing on the framebuffer: \<^verbatim>\<open>src/src/graphics/\<close> and \<^verbatim>\<open>src/src/color/\<close>. Memory is a function from
  addresses to bytes; a drawing operation takes it and returns it updated. A framebuffer is a
  descriptor of a part of memory. \<open>isize\<close> and \<open>i64\<close> values are integers whose range is checked where
  the code checks it. Loops over a range of words run over the list \<open>word_range\<close>.
\<close>

type_synonym memory = "usize \<Rightarrow> u8"

definition word_range :: "usize \<Rightarrow> usize \<Rightarrow> usize list" where
  "word_range a b = map of_nat [unat a..<unat b]"

text \<open>\<open>ptr::copy\<close> (overlapping ranges allowed) and \<open>ptr::write_bytes\<close>.\<close>

definition mem_copy :: "usize \<Rightarrow> usize \<Rightarrow> usize \<Rightarrow> memory \<Rightarrow> memory" where
  "mem_copy src dst n m = (\<lambda>a. if a - dst < n then m (src + (a - dst)) else m a)"

definition mem_set :: "usize \<Rightarrow> u8 \<Rightarrow> usize \<Rightarrow> memory \<Rightarrow> memory" where
  "mem_set dst v n m = (\<lambda>a. if a - dst < n then v else m a)"

section \<open>Types\<close>

record Color =
  red :: u8
  green :: u8
  blue :: u8

definition WHITE :: Color where "WHITE = \<lparr>red = 255, green = 255, blue = 255\<rparr>"
definition BLACK :: Color where "BLACK = \<lparr>red = 0, green = 0, blue = 0\<rparr>"

record PixelCoord =
  at_x :: usize
  at_y :: usize

record PixelSize =
  size_width :: usize
  size_height :: usize

definition PixelSize_try_new :: "usize \<Rightarrow> usize \<Rightarrow> PixelSize option" where
  "PixelSize_try_new width height =
     (if width = 0 \<or> height = 0 then None else Some \<lparr>size_width = width, size_height = height\<rparr>)"

definition Stride_try_new :: "usize \<Rightarrow> usize option" where
  "Stride_try_new v = (if v = 0 then None else Some v)"

datatype PixelFormat = Rgb | Bgr | Bitmask | BltOnly

record Framebuffer =
  fb_ptr :: usize
  fb_size :: PixelSize
  fb_stride :: usize
  fb_format :: PixelFormat
  fb_byte_len :: usize

datatype FramebufferError =
  UnsupportedPixelFormat PixelFormat | InvalidGeometry | FramebufferTooSmall usize usize

abbreviation fb_width :: "Framebuffer \<Rightarrow> usize" where "fb_width fb \<equiv> size_width (fb_size fb)"
abbreviation fb_height :: "Framebuffer \<Rightarrow> usize" where "fb_height fb \<equiv> size_height (fb_size fb)"

section \<open>The framebuffer\<close>

definition required_byte_len :: "PixelSize \<Rightarrow> usize \<Rightarrow> usize option" where
  "required_byte_len dims stride =
     (if size_width dims > stride then None
      else do { rows \<leftarrow> checked_mul stride (size_height dims); checked_mul rows 4 })"

definition drawable_format :: "PixelFormat \<Rightarrow> bool" where
  "drawable_format f \<longleftrightarrow> f = Rgb \<or> f = Bgr"

definition from_raw_parts ::
  "usize \<Rightarrow> usize \<Rightarrow> PixelSize \<Rightarrow> usize \<Rightarrow> PixelFormat \<Rightarrow> (FramebufferError, Framebuffer) result" where
  "from_raw_parts ptr byte_len dims stride pixel_format =
     (if \<not> drawable_format pixel_format then Inl (UnsupportedPixelFormat pixel_format)
      else and_then (ok_or (required_byte_len dims stride) InvalidGeometry) (\<lambda>required.
        if byte_len < required then Inl (FramebufferTooSmall required byte_len)
        else Inr \<lparr>fb_ptr = ptr, fb_size = dims, fb_stride = stride, fb_format = pixel_format,
                  fb_byte_len = byte_len\<rparr>))"

definition is_drawable :: "Framebuffer \<Rightarrow> bool" where
  "is_drawable fb \<longleftrightarrow> fb_ptr fb \<noteq> 0 \<and> drawable_format (fb_format fb) \<and>
     (case required_byte_len (fb_size fb) (fb_stride fb) of
        None \<Rightarrow> False
      | Some required \<Rightarrow> required \<le> fb_byte_len fb)"

definition read_pixel :: "Framebuffer \<Rightarrow> usize \<Rightarrow> usize \<Rightarrow> memory \<Rightarrow> Color" where
  "read_pixel fb x y m =
     (if \<not> is_drawable fb \<or> x \<ge> fb_width fb \<or> y \<ge> fb_height fb then BLACK
      else case do { row \<leftarrow> checked_mul y (fb_stride fb); pixel \<leftarrow> checked_add row x; checked_mul pixel 4 } of
        None \<Rightarrow> BLACK
      | Some offset \<Rightarrow>
         (case checked_add offset 4 of
            None \<Rightarrow> BLACK
          | Some e \<Rightarrow>
             if e > fb_byte_len fb then BLACK
             else let p = fb_ptr fb + offset; first = m p; second = m (p + 1); third = m (p + 2)
                  in case fb_format fb of
                       Rgb \<Rightarrow> \<lparr>red = first, green = second, blue = third\<rparr>
                     | Bgr \<Rightarrow> \<lparr>red = third, green = second, blue = first\<rparr>
                     | _ \<Rightarrow> BLACK))"

definition write_rgb :: "usize \<Rightarrow> u8 \<times> u8 \<times> u8 \<Rightarrow> memory \<Rightarrow> memory" where
  "write_rgb p rgb m = (case rgb of (a, b, c) \<Rightarrow> m(p := a, p + 1 := b, p + 2 := c))"

definition write_pixel :: "Framebuffer \<Rightarrow> usize \<Rightarrow> Color \<Rightarrow> memory \<Rightarrow> bool \<times> memory" where
  "write_pixel fb pixel_index color m =
     (case (case fb_format fb of
              Rgb \<Rightarrow> Some (red color, green color, blue color)
            | Bgr \<Rightarrow> Some (blue color, green color, red color)
            | _ \<Rightarrow> None) of
        None \<Rightarrow> (False, m)
      | Some rgb \<Rightarrow>
         (case checked_mul pixel_index 4 of
            None \<Rightarrow> (False, m)
          | Some offset \<Rightarrow>
             (case checked_add offset 4 of
                None \<Rightarrow> (False, m)
              | Some e \<Rightarrow>
                 if e > fb_byte_len fb then (False, m)
                 else (True, write_rgb (fb_ptr fb + offset) rgb m))))"

definition scroll_rows :: "Framebuffer \<Rightarrow> usize \<Rightarrow> memory \<Rightarrow> memory" where
  "scroll_rows fb rows m =
     (if \<not> is_drawable fb \<or> rows = 0 then m
      else let row_bytes = fb_stride fb * 4 in
        if rows \<ge> fb_height fb
        then mem_set (fb_ptr fb) 0 (fb_stride fb * fb_height fb * 4) m
        else let moved_bytes = (fb_height fb - rows) * row_bytes;
                 cleared_bytes = rows * row_bytes;
                 m = mem_copy (fb_ptr fb + rows * row_bytes) (fb_ptr fb) moved_bytes m
             in mem_set (fb_ptr fb + moved_bytes) 0 cleared_bytes m)"

section \<open>Primitives\<close>

text \<open>Writing one pixel after another; \<open>write_pixel\<close>'s result is ignored.\<close>

definition paint :: "Framebuffer \<Rightarrow> Color \<Rightarrow> usize list \<Rightarrow> memory \<Rightarrow> memory" where
  "paint fb color is m = fold (\<lambda>i m. snd (write_pixel fb i color m)) is m"

definition clear_background :: "Framebuffer \<Rightarrow> Color \<Rightarrow> memory \<Rightarrow> memory" where
  "clear_background fb color m =
     (if \<not> is_drawable fb then m
      else paint fb color
        [row * fb_stride fb + col. row \<leftarrow> word_range 0 (fb_height fb), col \<leftarrow> word_range 0 (fb_width fb)] m)"

definition draw_rec :: "Framebuffer \<Rightarrow> PixelCoord \<Rightarrow> PixelSize \<Rightarrow> Color \<Rightarrow> memory \<Rightarrow> memory" where
  "draw_rec fb origin dims color m =
     (if \<not> is_drawable fb then m
      else let x = at_x origin; y = at_y origin in
        case (checked_add x (size_width dims), checked_add y (size_height dims)) of
          (Some x2, Some y2) \<Rightarrow>
            if x2 > fb_width fb \<or> y2 > fb_height fb then m
            else paint fb color [row * fb_stride fb + col. row \<leftarrow> word_range y y2, col \<leftarrow> word_range x x2] m
        | _ \<Rightarrow> m)"

text \<open>\<open>isize::try_from\<close>, \<open>i64::try_from\<close> and the checked operations on these types.\<close>

definition in_i64 :: "int \<Rightarrow> int option" where
  "in_i64 i = (if - (2 ^ 63) \<le> i \<and> i < 2 ^ 63 then Some i else None)"

definition signed_of :: "usize \<Rightarrow> int option" where
  "signed_of w = in_i64 (uint w)"

text \<open>The body of the loops of \<open>draw_circle\<close>.\<close>

definition circle_pixel ::
  "Framebuffer \<Rightarrow> Color \<Rightarrow> int \<Rightarrow> int \<times> int \<Rightarrow> int \<times> int \<Rightarrow> int \<times> int \<Rightarrow> memory \<Rightarrow> memory" where
  "circle_pixel fb color radius_squared center bounds d m =
     (case do { xx \<leftarrow> in_i64 (fst d * fst d); yy \<leftarrow> in_i64 (snd d * snd d); in_i64 (yy + xx) } of
        None \<Rightarrow> m
      | Some distance_squared \<Rightarrow>
         (case (in_i64 (fst center + fst d), in_i64 (snd center + snd d)) of
            (Some x, Some y) \<Rightarrow>
              if distance_squared \<le> radius_squared \<and> x \<ge> 0 \<and> y \<ge> 0 \<and> x < fst bounds \<and> y < snd bounds
              then snd (write_pixel fb (word_of_int y * fb_stride fb + word_of_int x) color m)
              else m
          | _ \<Rightarrow> m))"

definition draw_circle :: "Framebuffer \<Rightarrow> usize \<Rightarrow> PixelCoord \<Rightarrow> Color \<Rightarrow> memory \<Rightarrow> memory" where
  "draw_circle fb radius center color m =
     (if \<not> is_drawable fb then m
      else case do {
             r \<leftarrow> signed_of radius; cx \<leftarrow> signed_of (at_x center); cy \<leftarrow> signed_of (at_y center);
             w \<leftarrow> signed_of (fb_width fb); h \<leftarrow> signed_of (fb_height fb);
             rr \<leftarrow> in_i64 (r * r);
             Some (r, cx, cy, w, h, rr) } of
        None \<Rightarrow> m
      | Some (r, cx, cy, w, h, rr) \<Rightarrow>
          fold (circle_pixel fb color rr (cx, cy) (w, h)) [(dx, dy). dy \<leftarrow> [- r..r], dx \<leftarrow> [- r..r]] m)"

section \<open>Lines\<close>

record LineSetup =
  ln_width :: int
  ln_height :: int
  ln_x2 :: int
  ln_y2 :: int
  ln_delta_x :: int
  ln_delta_y :: int
  ln_step_x :: int
  ln_step_y :: int

text \<open>
  One round of the loop of \<open>draw_line\<close> at \<open>(x, y)\<close> with the current error: the memory after it and,
  unless the loop ends, the next position and error.
\<close>

definition line_plot :: "Framebuffer \<Rightarrow> Color \<Rightarrow> LineSetup \<Rightarrow> int \<Rightarrow> int \<Rightarrow> memory \<Rightarrow> memory" where
  "line_plot fb color ln x y m =
     (if x \<ge> 0 \<and> y \<ge> 0 \<and> x < ln_width ln \<and> y < ln_height ln
      then snd (write_pixel fb (word_of_int y * fb_stride fb + word_of_int x) color m) else m)"

definition line_step_x :: "LineSetup \<Rightarrow> int \<Rightarrow> int \<times> int \<Rightarrow> (int \<times> int) option" where
  "line_step_x ln doubled_error s =
     (if doubled_error > - ln_delta_y ln
      then do { e \<leftarrow> in_i64 (fst s - ln_delta_y ln); x \<leftarrow> in_i64 (snd s + ln_step_x ln); Some (e, x) }
      else Some s)"

definition line_step_y :: "LineSetup \<Rightarrow> int \<Rightarrow> int \<times> int \<Rightarrow> (int \<times> int) option" where
  "line_step_y ln doubled_error s =
     (if doubled_error < ln_delta_x ln
      then do { e \<leftarrow> in_i64 (fst s + ln_delta_x ln); y \<leftarrow> in_i64 (snd s + ln_step_y ln); Some (e, y) }
      else Some s)"

definition line_next :: "LineSetup \<Rightarrow> int \<Rightarrow> int \<Rightarrow> int \<Rightarrow> (int \<times> int \<times> int) option" where
  "line_next ln x y err = do {
     doubled_error \<leftarrow> in_i64 (err * 2);
     sx \<leftarrow> line_step_x ln doubled_error (err, x);
     sy \<leftarrow> line_step_y ln doubled_error (fst sx, y);
     Some (snd sx, snd sy, fst sy)
   }"

text \<open>A loop that never ends would be \<open>None\<close>.\<close>

partial_function (option) line_loop ::
  "Framebuffer \<Rightarrow> Color \<Rightarrow> LineSetup \<Rightarrow> int \<Rightarrow> int \<Rightarrow> int \<Rightarrow> memory \<Rightarrow> memory option" where
  "line_loop fb color ln x y err m =
     (let m = line_plot fb color ln x y m in
      if x = ln_x2 ln \<and> y = ln_y2 ln then Some m
      else case line_next ln x y err of
             None \<Rightarrow> Some m
           | Some s \<Rightarrow> line_loop fb color ln (fst s) (fst (snd s)) (snd (snd s)) m)"

definition draw_line :: "Framebuffer \<Rightarrow> PixelCoord \<Rightarrow> PixelCoord \<Rightarrow> Color \<Rightarrow> memory \<Rightarrow> memory option" where
  "draw_line fb start stop color m =
     (if \<not> is_drawable fb then Some m
      else case do {
             w \<leftarrow> signed_of (fb_width fb); h \<leftarrow> signed_of (fb_height fb);
             x2 \<leftarrow> signed_of (at_x stop); y2 \<leftarrow> signed_of (at_y stop);
             x \<leftarrow> signed_of (at_x start); y \<leftarrow> signed_of (at_y start);
             dx \<leftarrow> in_i64 \<bar>x - x2\<bar>; dy \<leftarrow> in_i64 \<bar>y - y2\<bar>;
             Some (x, y, \<lparr>ln_width = w, ln_height = h, ln_x2 = x2, ln_y2 = y2, ln_delta_x = dx, ln_delta_y = dy,
                          ln_step_x = (if x < x2 then 1 else - 1), ln_step_y = (if y < y2 then 1 else - 1)\<rparr>) } of
        None \<Rightarrow> Some m
      | Some (x, y, ln) \<Rightarrow> line_loop fb color ln x y (ln_delta_x ln - ln_delta_y ln) m)"

section \<open>Text\<close>

text \<open>
  The fonts of \<^verbatim>\<open>noto-sans-mono-bitmap\<close> are a parameter: the width of a glyph cell and the raster of
  a character, a matrix of intensities.
\<close>

datatype RasterHeight = Size16 | Size20 | Size24 | Size32

record Raster =
  raster_rows :: "u8 list list"
  raster_width :: usize

record Font =
  font_width :: "RasterHeight \<Rightarrow> usize"
  font_raster :: "nat \<Rightarrow> RasterHeight \<Rightarrow> Raster option"

definition FONT_HEIGHT :: RasterHeight where "FONT_HEIGHT = Size16"

definition cell_width :: "Font \<Rightarrow> RasterHeight \<Rightarrow> usize" where
  "cell_width font dims = font_width font dims"

fun raster_pixels :: "RasterHeight \<Rightarrow> usize" where
  "raster_pixels Size16 = 16"
| "raster_pixels Size20 = 20"
| "raster_pixels Size24 = 24"
| "raster_pixels Size32 = 32"

definition cell_height :: "RasterHeight \<Rightarrow> usize" where
  "cell_height dims = raster_pixels dims + 2"

definition blend :: "u8 \<Rightarrow> u8 \<Rightarrow> u8" where
  "blend channel intensity = ucast ((ucast channel :: u16) * ucast intensity div 255)"

definition glyph_pixel ::
  "Framebuffer \<Rightarrow> usize \<Rightarrow> usize \<Rightarrow> Color \<Rightarrow> nat \<times> nat \<times> u8 \<Rightarrow> memory \<Rightarrow> memory" where
  "glyph_pixel fb origin_x origin_y color cell m =
     (case cell of (row, col, intensity) \<Rightarrow>
        if intensity = 0 then m
        else case (checked_add origin_x (of_nat col), checked_add origin_y (of_nat row)) of
          (Some x, Some y) \<Rightarrow>
            if x \<ge> fb_width fb \<or> y \<ge> fb_height fb then m
            else snd (write_pixel fb (y * fb_stride fb + x)
                   \<lparr>red = blend (red color) intensity, green = blend (green color) intensity,
                    blue = blend (blue color) intensity\<rparr> m)
        | _ \<Rightarrow> m)"

definition draw_glyph :: "Framebuffer \<Rightarrow> Raster \<Rightarrow> usize \<Rightarrow> usize \<Rightarrow> Color \<Rightarrow> memory \<Rightarrow> memory" where
  "draw_glyph fb raster origin_x origin_y color m =
     fold (glyph_pixel fb origin_x origin_y color)
       [(row, col, row_data ! col).
          (row, row_data) \<leftarrow> enumerate 0 (raster_rows raster), col \<leftarrow> [0..<length row_data]] m"

text \<open>The loop over the characters of \<open>draw_text\<close>; \<open>63\<close> is the question mark, \<open>10\<close> the newline.\<close>

fun text_loop :: "Font \<Rightarrow> Framebuffer \<Rightarrow> RasterHeight \<Rightarrow> Color \<Rightarrow> usize \<Rightarrow> str \<Rightarrow> usize \<Rightarrow> memory \<Rightarrow> memory" where
  "text_loop font fb height color origin_y [] cursor_x m = m"
| "text_loop font fb height color origin_y (ch # text) cursor_x m =
     (if ch = 10 then m
      else case (case font_raster font ch height of
                   Some r \<Rightarrow> Some r
                 | None \<Rightarrow> font_raster font 63 FONT_HEIGHT) of
        None \<Rightarrow> text_loop font fb height color origin_y text cursor_x m
      | Some raster \<Rightarrow>
         (let m = draw_glyph fb raster cursor_x origin_y color m in
          case checked_add cursor_x (raster_width raster) of
            None \<Rightarrow> m
          | Some next_x \<Rightarrow> text_loop font fb height color origin_y text next_x m))"

definition draw_text ::
  "Font \<Rightarrow> Framebuffer \<Rightarrow> str \<Rightarrow> usize \<Rightarrow> usize \<Rightarrow> Color \<Rightarrow> RasterHeight option \<Rightarrow> memory \<Rightarrow> memory" where
  "draw_text font fb text column row color font_height m =
     (if \<not> is_drawable fb then m
      else let height = (case font_height of None \<Rightarrow> FONT_HEIGHT | Some h \<Rightarrow> h)
           in text_loop font fb height color (row * cell_height height) text
                (column * cell_width font height) m)"

section \<open>Pixels and bytes\<close>

definition visible :: "Framebuffer \<Rightarrow> usize \<Rightarrow> usize \<Rightarrow> bool" where
  "visible fb x y \<longleftrightarrow> x < fb_width fb \<and> y < fb_height fb"

abbreviation pixel_index :: "Framebuffer \<Rightarrow> usize \<Rightarrow> usize \<Rightarrow> usize" where
  "pixel_index fb x y \<equiv> y * fb_stride fb + x"

definition pixel_addr :: "Framebuffer \<Rightarrow> usize \<Rightarrow> usize \<Rightarrow> usize" where
  "pixel_addr fb x y = fb_ptr fb + 4 * pixel_index fb x y"

text \<open>The three bytes that hold the color of a pixel.\<close>

definition pixel_bytes :: "Framebuffer \<Rightarrow> usize \<Rightarrow> usize \<Rightarrow> usize set" where
  "pixel_bytes fb x y = {pixel_addr fb x y, pixel_addr fb x y + 1, pixel_addr fb x y + 2}"

definition color_bytes :: "Framebuffer \<Rightarrow> Color \<Rightarrow> u8 \<times> u8 \<times> u8" where
  "color_bytes fb c = (if fb_format fb = Rgb then (red c, green c, blue c) else (blue c, green c, red c))"

lemma is_drawableD:
  assumes "is_drawable fb"
  shows "unat (fb_width fb) \<le> unat (fb_stride fb)"
    "unat (fb_stride fb) * unat (fb_height fb) * 4 \<le> unat (fb_byte_len fb)"
    "fb_format fb = Rgb \<or> fb_format fb = Bgr"
proof -
  obtain req where req: "required_byte_len (fb_size fb) (fb_stride fb) = Some req" "req \<le> fb_byte_len fb"
    using assms by (auto simp: is_drawable_def split: option.splits)
  obtain rows where rows: "checked_mul (fb_stride fb) (fb_height fb) = Some rows" "checked_mul rows 4 = Some req"
    and w: "fb_width fb \<le> fb_stride fb"
    using req(1) by (auto simp: required_byte_len_def split: if_splits bind_splits)
  show "unat (fb_width fb) \<le> unat (fb_stride fb)" using w by (simp add: word_le_nat_alt)
  have "unat req = unat (fb_stride fb) * unat (fb_height fb) * 4"
    using rows by (simp add: checked_mul_Some_iff)
  with req(2) show "unat (fb_stride fb) * unat (fb_height fb) * 4 \<le> unat (fb_byte_len fb)"
    by (simp add: word_le_nat_alt)
  show "fb_format fb = Rgb \<or> fb_format fb = Bgr"
    using assms by (simp add: is_drawable_def drawable_format_def)
qed

lemma pixel_index_bounds:
  assumes "is_drawable fb" and "visible fb x y"
  shows "unat (y * fb_stride fb) = unat y * unat (fb_stride fb)"
    "unat (pixel_index fb x y) = unat y * unat (fb_stride fb) + unat x"
    "4 * (unat y * unat (fb_stride fb) + unat x) + 4 \<le> unat (fb_byte_len fb)"
proof -
  note d = is_drawableD [OF assms(1)]
  have x: "unat x < unat (fb_stride fb)" and y: "Suc (unat y) \<le> unat (fb_height fb)"
    using assms(2) d(1) by (auto simp: visible_def word_less_nat_alt)
  have "Suc (unat y) * unat (fb_stride fb) \<le> unat (fb_height fb) * unat (fb_stride fb)"
    using y by (rule mult_le_mono1)
  with x d(2) show le: "4 * (unat y * unat (fb_stride fb) + unat x) + 4 \<le> unat (fb_byte_len fb)"
    by (simp add: mult.commute)
  then have lt: "unat y * unat (fb_stride fb) + unat x < 2 ^ 64" using unat_bound [of "fb_byte_len fb"] by simp
  then show "unat (y * fb_stride fb) = unat y * unat (fb_stride fb)"
    by (intro unat_mult_exact) simp
  then show "unat (pixel_index fb x y) = unat y * unat (fb_stride fb) + unat x"
    using lt by (subst unat_add_exact) simp_all
qed

lemma pixel_index_eq_iff:
  assumes "is_drawable fb" and "visible fb x y" and "visible fb x' y'"
  shows "pixel_index fb x y = pixel_index fb x' y' \<longleftrightarrow> x = x' \<and> y = y'"
proof
  assume "pixel_index fb x y = pixel_index fb x' y'"
  then have eq: "unat y * unat (fb_stride fb) + unat x = unat y' * unat (fb_stride fb) + unat x'"
    using pixel_index_bounds(2) [OF assms(1,2)] pixel_index_bounds(2) [OF assms(1,3)] by simp
  have s: "unat x < unat (fb_stride fb)" "unat x' < unat (fb_stride fb)"
    using assms(2,3) is_drawableD(1) [OF assms(1)] by (auto simp: visible_def word_less_nat_alt)
  have "unat y = (unat y * unat (fb_stride fb) + unat x) div unat (fb_stride fb)" using s(1) by simp
  also have "\<dots> = unat y'" unfolding eq using s(2) by simp
  finally have "unat y = unat y'" .
  with eq show "x = x' \<and> y = y'" by (simp add: word_unat_eq_iff)
qed simp

lemma write_pixel_visible:
  assumes "is_drawable fb" and "visible fb x y"
  shows "write_pixel fb (pixel_index fb x y) c m = (True, write_rgb (pixel_addr fb x y) (color_bytes fb c) m)"
proof -
  note b = pixel_index_bounds [OF assms] and d = is_drawableD(3) [OF assms(1)]
  have lt: "4 * (unat y * unat (fb_stride fb) + unat x) + 4 < 2 ^ 64"
    using b(3) unat_bound [of "fb_byte_len fb"] by simp
  have four: "checked_mul (pixel_index fb x y) 4 = Some (4 * pixel_index fb x y)"
    using lt b(2) by (simp add: checked_mul_def mult.commute)
  have u: "unat (4 * pixel_index fb x y) = 4 * (unat y * unat (fb_stride fb) + unat x)"
    using lt b(2) by (subst unat_mult_exact) simp_all
  then have e: "checked_add (4 * pixel_index fb x y) 4 = Some (4 * pixel_index fb x y + 4)"
    using lt by (simp add: checked_add_def)
  have "unat (4 * pixel_index fb x y + 4) = 4 * (unat y * unat (fb_stride fb) + unat x) + 4"
    using lt u by (subst unat_add_exact) simp_all
  then have "\<not> fb_byte_len fb < 4 * pixel_index fb x y + 4"
    using b(3) by (simp add: word_less_nat_alt)
  with four e d show ?thesis
    by (auto simp: write_pixel_def color_bytes_def pixel_addr_def)
qed

lemma read_pixel_visible:
  assumes "is_drawable fb" and "visible fb x y"
  shows "color_bytes fb (read_pixel fb x y m) =
    (m (pixel_addr fb x y), m (pixel_addr fb x y + 1), m (pixel_addr fb x y + 2))"
proof -
  note b = pixel_index_bounds [OF assms] and d = is_drawableD(3) [OF assms(1)]
  have lt: "4 * (unat y * unat (fb_stride fb) + unat x) + 4 < 2 ^ 64"
    using b(3) unat_bound [of "fb_byte_len fb"] by simp
  have "checked_mul y (fb_stride fb) = Some (y * fb_stride fb)"
    "checked_add (y * fb_stride fb) x = Some (pixel_index fb x y)"
    "checked_mul (pixel_index fb x y) 4 = Some (4 * pixel_index fb x y)"
    using lt b(1,2) by (simp_all add: checked_mul_def checked_add_def mult.commute)
  moreover have u: "unat (4 * pixel_index fb x y) = 4 * (unat y * unat (fb_stride fb) + unat x)"
    using lt b(2) by (subst unat_mult_exact) simp_all
  then have "checked_add (4 * pixel_index fb x y) 4 = Some (4 * pixel_index fb x y + 4)"
    using lt by (simp add: checked_add_def)
  moreover have "unat (4 * pixel_index fb x y + 4) = 4 * (unat y * unat (fb_stride fb) + unat x) + 4"
    using lt u by (subst unat_add_exact) simp_all
  then have "\<not> fb_byte_len fb < 4 * pixel_index fb x y + 4"
    using b(3) by (simp add: word_less_nat_alt)
  ultimately show ?thesis
    using assms d by (auto simp: read_pixel_def visible_def color_bytes_def pixel_addr_def Let_def)
qed

lemma color_bytes_inj [simp]: "color_bytes fb c = color_bytes fb c' \<longleftrightarrow> c = c'"
  by (cases c; cases c') (auto simp: color_bytes_def)

lemma addr_offset:
  assumes "is_drawable fb" and "visible fb x y" and "i < 4"
  shows "unat (pixel_addr fb x y + of_nat i - fb_ptr fb) = 4 * (unat y * unat (fb_stride fb) + unat x) + i"
proof -
  note b = pixel_index_bounds [OF assms(1,2)]
  have lt: "4 * (unat y * unat (fb_stride fb) + unat x) + 4 < 2 ^ 64"
    using b(3) unat_bound [of "fb_byte_len fb"] by simp
  have u: "unat (4 * pixel_index fb x y) = 4 * (unat y * unat (fb_stride fb) + unat x)"
    using lt b(2) by (subst unat_mult_exact) simp_all
  have i: "unat (of_nat i :: usize) = i" using assms(3) by (simp add: unat_of_nat)
  have "pixel_addr fb x y + of_nat i - fb_ptr fb = 4 * pixel_index fb x y + of_nat i"
    by (simp add: pixel_addr_def)
  moreover have "unat (4 * pixel_index fb x y + of_nat i) = 4 * (unat y * unat (fb_stride fb) + unat x) + i"
    using lt assms(3) by (subst unat_add_exact) (simp_all only: u i, simp_all)
  ultimately show ?thesis by (simp only:)
qed

lemma pixel_bytes_disjoint:
  assumes "is_drawable fb" and "visible fb x y" and "visible fb x' y'" and "(x, y) \<noteq> (x', y')"
  shows "pixel_bytes fb x y \<inter> pixel_bytes fb x' y' = {}"
proof -
  have ne: "unat y * unat (fb_stride fb) + unat x \<noteq> unat y' * unat (fb_stride fb) + unat x'"
    using pixel_index_eq_iff [OF assms(1-3)] assms(4) pixel_index_bounds(2) [OF assms(1,2)]
      pixel_index_bounds(2) [OF assms(1,3)] by (metis word_unat_eq_iff)
  have "pixel_addr fb x y + of_nat i \<noteq> pixel_addr fb x' y' + of_nat j" if "i < 4" "j < 4" for i j
  proof
    assume "pixel_addr fb x y + of_nat i = pixel_addr fb x' y' + of_nat j"
    then have "4 * (unat y * unat (fb_stride fb) + unat x) + i = 4 * (unat y' * unat (fb_stride fb) + unat x') + j"
      using addr_offset [OF assms(1,2) that(1)] addr_offset [OF assms(1,3) that(2)] by simp
    with that ne show False by presburger
  qed
  from this [of 0 0] this [of 0 1] this [of 0 2] this [of 1 0] this [of 1 1] this [of 1 2] this [of 2 0] this [of 2 1]
    this [of 2 2] show ?thesis by (auto simp: pixel_bytes_def)
qed

lemma write_rgb_other: "a \<notin> {p, p + 1, p + 2} \<Longrightarrow> write_rgb p rgb m a = m a"
  by (cases rgb) (auto simp: write_rgb_def)

lemma write_rgb_here: "(write_rgb p rgb m p, write_rgb p rgb m (p + 1), write_rgb p rgb m (p + 2)) = rgb"
  by (cases rgb) (auto simp: write_rgb_def)

section \<open>Painting\<close>

text \<open>\<open>drawn fb P c m m'\<close>: \<open>m'\<close> is \<open>m\<close> with exactly the visible pixels in \<open>P\<close> set to \<open>c\<close>.\<close>

definition drawn :: "Framebuffer \<Rightarrow> (usize \<Rightarrow> usize \<Rightarrow> bool) \<Rightarrow> Color \<Rightarrow> memory \<Rightarrow> memory \<Rightarrow> bool" where
  "drawn fb P c m m' \<longleftrightarrow>
     (\<forall>x y. visible fb x y \<longrightarrow> read_pixel fb x y m' = (if P x y then c else read_pixel fb x y m)) \<and>
     (\<forall>a. (\<forall>x y. visible fb x y \<and> P x y \<longrightarrow> a \<notin> pixel_bytes fb x y) \<longrightarrow> m' a = m a)"

lemma drawn_none: "drawn fb (\<lambda>_ _. False) c m m"
  by (simp add: drawn_def)

lemma drawn_cong:
  assumes "drawn fb P c m m'" and eq: "\<And>x y. visible fb x y \<Longrightarrow> P x y = Q x y"
  shows "drawn fb Q c m m'"
  using assms(1) by (simp add: drawn_def eq cong: conj_cong imp_cong)

lemma drawn_trans:
  "drawn fb P c m m1 \<Longrightarrow> drawn fb Q c m1 m2 \<Longrightarrow> drawn fb (\<lambda>x y. P x y \<or> Q x y) c m m2"
  unfolding drawn_def by auto

lemma read_pixel_cong:
  assumes "is_drawable fb" and "visible fb x y" and "\<And>a. a \<in> pixel_bytes fb x y \<Longrightarrow> m' a = m a"
  shows "read_pixel fb x y m' = read_pixel fb x y m"
proof -
  have "color_bytes fb (read_pixel fb x y m') = color_bytes fb (read_pixel fb x y m)"
    using assms(3) by (simp add: read_pixel_visible [OF assms(1,2)] pixel_bytes_def)
  then show ?thesis by simp
qed

lemma drawn_pixel:
  assumes "is_drawable fb" and "visible fb x y"
  shows "drawn fb (\<lambda>u v. u = x \<and> v = y) c m (snd (write_pixel fb (pixel_index fb x y) c m))"
proof -
  let ?m = "write_rgb (pixel_addr fb x y) (color_bytes fb c) m"
  have "color_bytes fb (read_pixel fb x y ?m) = color_bytes fb c"
    by (simp only: read_pixel_visible [OF assms] write_rgb_here)
  moreover have "read_pixel fb u v ?m = read_pixel fb u v m" if "visible fb u v" "(u, v) \<noteq> (x, y)" for u v
  proof (rule read_pixel_cong [OF assms(1) that(1)])
    fix a assume "a \<in> pixel_bytes fb u v"
    then have "a \<notin> pixel_bytes fb x y" using pixel_bytes_disjoint [OF assms(1) that(1) assms(2) that(2)] by blast
    then show "?m a = m a" by (intro write_rgb_other) (simp add: pixel_bytes_def)
  qed
  moreover have "?m a = m a" if "a \<notin> pixel_bytes fb x y" for a
    using that by (intro write_rgb_other) (simp add: pixel_bytes_def)
  ultimately show ?thesis
    using assms(2) by (auto simp: drawn_def write_pixel_visible [OF assms])
qed

lemma drawn_paint:
  assumes "is_drawable fb" and "\<forall>(x, y) \<in> set ps. visible fb x y"
  shows "drawn fb (\<lambda>x y. (x, y) \<in> set ps) c m (paint fb c (map (\<lambda>(x, y). pixel_index fb x y) ps) m)"
  using assms(2)
proof (induction ps arbitrary: m)
  case Nil
  then show ?case by (simp add: paint_def drawn_none)
next
  case (Cons p ps)
  obtain x y where p: "p = (x, y)" by fastforce
  have "drawn fb (\<lambda>u v. u = x \<and> v = y) c m (snd (write_pixel fb (pixel_index fb x y) c m))"
    using Cons.prems p by (intro drawn_pixel assms(1)) simp
  moreover have "drawn fb (\<lambda>x y. (x, y) \<in> set ps) c (snd (write_pixel fb (pixel_index fb x y) c m))
      (paint fb c (map (\<lambda>(x, y). pixel_index fb x y) ps) (snd (write_pixel fb (pixel_index fb x y) c m)))"
    using Cons by simp
  ultimately have "drawn fb (\<lambda>u v. u = x \<and> v = y \<or> (u, v) \<in> set ps) c m
      (paint fb c (map (\<lambda>(x, y). pixel_index fb x y) ps) (snd (write_pixel fb (pixel_index fb x y) c m)))"
    by (rule drawn_trans)
  then have "drawn fb (\<lambda>u v. u = x \<and> v = y \<or> (u, v) \<in> set ps) c m
      (paint fb c (map (\<lambda>(x, y). pixel_index fb x y) (p # ps)) m)"
    by (simp add: p paint_def)
  then show ?case by (rule drawn_cong) (auto simp: p)
qed

lemma set_word_range [simp]: "set (word_range a b) = {x. a \<le> x \<and> x < b}"
proof (intro equalityI subsetI)
  fix x assume "x \<in> set (word_range a b)"
  then obtain i where i: "x = of_nat i" "unat a \<le> i" "i < unat b" by (auto simp: word_range_def)
  then have "unat x = i" using unat_bound [of b] by (simp add: unat_of_nat)
  with i show "x \<in> {x. a \<le> x \<and> x < b}" by (simp add: word_le_nat_alt word_less_nat_alt)
next
  fix x assume "x \<in> {x. a \<le> x \<and> x < b}"
  then have "unat x \<in> {unat a..<unat b}" by (simp add: word_le_nat_alt word_less_nat_alt)
  then show "x \<in> set (word_range a b)" unfolding word_range_def by (force intro: image_eqI [of _ _ "unat x"])
qed

lemma rows_and_columns:
  "[row * fb_stride fb + col. row \<leftarrow> rows, col \<leftarrow> cols] =
   map (\<lambda>(x, y). pixel_index fb x y) [(col, row). row \<leftarrow> rows, col \<leftarrow> cols]"
  by (induction rows) (simp_all add: comp_def)

lemma drawn_clear:
  assumes "is_drawable fb"
  shows "drawn fb (\<lambda>_ _. True) c m (clear_background fb c m)"
proof -
  let ?ps = "[(col, row). row \<leftarrow> word_range 0 (fb_height fb), col \<leftarrow> word_range 0 (fb_width fb)]"
  have "drawn fb (\<lambda>x y. (x, y) \<in> set ?ps) c m (paint fb c (map (\<lambda>(x, y). pixel_index fb x y) ?ps) m)"
    by (rule drawn_paint [OF assms]) (auto simp: visible_def)
  then have "drawn fb (\<lambda>x y. (x, y) \<in> set ?ps) c m (clear_background fb c m)"
    using assms by (simp add: clear_background_def rows_and_columns)
  then show ?thesis by (rule drawn_cong) (auto simp: visible_def)
qed

text \<open>The rectangle is drawn when it fits, otherwise nothing is.\<close>

definition rect_fits :: "Framebuffer \<Rightarrow> PixelCoord \<Rightarrow> PixelSize \<Rightarrow> bool" where
  "rect_fits fb origin dims \<longleftrightarrow> unat (at_x origin) + unat (size_width dims) \<le> unat (fb_width fb) \<and>
     unat (at_y origin) + unat (size_height dims) \<le> unat (fb_height fb)"

definition in_rect :: "PixelCoord \<Rightarrow> PixelSize \<Rightarrow> usize \<Rightarrow> usize \<Rightarrow> bool" where
  "in_rect origin dims x y \<longleftrightarrow>
     unat (at_x origin) \<le> unat x \<and> unat x < unat (at_x origin) + unat (size_width dims) \<and>
     unat (at_y origin) \<le> unat y \<and> unat y < unat (at_y origin) + unat (size_height dims)"

lemma draw_rec_misfit: "\<not> rect_fits fb origin dims \<Longrightarrow> draw_rec fb origin dims c m = m"
  by (auto simp: draw_rec_def rect_fits_def Let_def checked_add_Some_iff word_less_nat_alt not_le split: option.splits)

lemma drawn_rec:
  assumes "is_drawable fb"
  shows "drawn fb (\<lambda>x y. rect_fits fb origin dims \<and> in_rect origin dims x y) c m (draw_rec fb origin dims c m)"
proof (cases "rect_fits fb origin dims")
  case False
  then show ?thesis by (simp add: draw_rec_misfit drawn_none)
next
  case True
  let ?x = "at_x origin" and ?y = "at_y origin"
  have lt: "unat ?x + unat (size_width dims) < 2 ^ 64" "unat ?y + unat (size_height dims) < 2 ^ 64"
    using True unat_bound [of "fb_width fb"] unat_bound [of "fb_height fb"] by (auto simp: rect_fits_def)
  then obtain x2 y2 where e: "checked_add ?x (size_width dims) = Some x2" "checked_add ?y (size_height dims) = Some y2"
    and u: "unat x2 = unat ?x + unat (size_width dims)" "unat y2 = unat ?y + unat (size_height dims)"
    by (simp add: checked_add_def unat_add_exact)
  let ?ps = "[(col, row). row \<leftarrow> word_range ?y y2, col \<leftarrow> word_range ?x x2]"
  have "drawn fb (\<lambda>x y. (x, y) \<in> set ?ps) c m (paint fb c (map (\<lambda>(x, y). pixel_index fb x y) ?ps) m)"
    using True u by (intro drawn_paint assms) (auto simp: visible_def rect_fits_def word_less_nat_alt word_le_nat_alt)
  then have "drawn fb (\<lambda>x y. (x, y) \<in> set ?ps) c m (draw_rec fb origin dims c m)"
    using assms True e u by (simp add: draw_rec_def rows_and_columns rect_fits_def word_less_nat_alt)
  then show ?thesis
    by (rule drawn_cong) (auto simp: True in_rect_def u word_less_nat_alt word_le_nat_alt)
qed

section \<open>Disks\<close>

lemma drawn_fold:
  assumes "\<And>d m. d \<in> set ds \<Longrightarrow> drawn fb (Q d) c m (f d m)"
  shows "drawn fb (\<lambda>x y. \<exists>d \<in> set ds. Q d x y) c m (fold f ds m)"
  using assms
proof (induction ds arbitrary: m)
  case Nil
  then show ?case by (simp add: drawn_none)
next
  case (Cons d ds)
  have "drawn fb (\<lambda>x y. Q d x y \<or> (\<exists>d \<in> set ds. Q d x y)) c m (fold f ds (f d m))"
    by (rule drawn_trans [OF Cons.prems Cons.IH]) (use Cons.prems in auto)
  then have "drawn fb (\<lambda>x y. Q d x y \<or> (\<exists>d \<in> set ds. Q d x y)) c m (fold f (d # ds) m)" by simp
  then show ?case by (rule drawn_cong) auto
qed

lemma signed_of_Some: "signed_of w = Some i \<longleftrightarrow> i = uint w \<and> uint w < 2 ^ 63"
proof -
  have "- (2 ^ 63) \<le> uint w" by (rule order_trans [OF _ uint_ge_0]) simp
  then show ?thesis by (auto simp: signed_of_def in_i64_def)
qed

lemma in_i64_Some: "in_i64 i = Some j \<longleftrightarrow> j = i \<and> - (2 ^ 63) \<le> i \<and> i < 2 ^ 63"
  by (auto simp: in_i64_def)

lemma in_i64_cases: "in_i64 i = None \<or> in_i64 i = Some i"
  by (simp add: in_i64_def)

lemma in_i64_nonneg: "0 \<le> i \<Longrightarrow> in_i64 i = (if i < 2 ^ 63 then Some i else None)"
  by (simp add: in_i64_def)

text \<open>Plotting a point that passed the test against the visible size.\<close>

lemma drawn_point:
  assumes "is_drawable fb" and "0 \<le> x" "x < uint (fb_width fb)" "0 \<le> y" "y < uint (fb_height fb)"
  shows "drawn fb (\<lambda>u v. uint u = x \<and> uint v = y) c m
    (snd (write_pixel fb (word_of_int y * fb_stride fb + word_of_int x) c m))"
proof -
  have "x < 2 ^ 64" "y < 2 ^ 64" using assms uint_bounded [of "fb_width fb"] uint_bounded [of "fb_height fb"] by simp_all
  then have u: "uint (word_of_int x :: usize) = x" "uint (word_of_int y :: usize) = y"
    using assms by (simp_all add: take_bit_int_eq_self unsigned_of_int)
  then have "visible fb (word_of_int x) (word_of_int y)"
    using assms by (simp add: visible_def word_less_def)
  from drawn_pixel [OF assms(1) this] show ?thesis
    by (rule drawn_cong) (auto simp: u word_uint_eq_iff)
qed

definition in_disk :: "int \<Rightarrow> int \<times> int \<Rightarrow> int \<Rightarrow> int \<Rightarrow> bool" where
  "in_disk rr center x y \<longleftrightarrow> (x - fst center) * (x - fst center) + (y - snd center) * (y - snd center) \<le> rr"

lemma drawn_circle_pixel:
  assumes "is_drawable fb" and b: "uint (fb_width fb) < 2 ^ 63" "uint (fb_height fb) < 2 ^ 63"
    and rr: "rr < 2 ^ 63" and c: "0 \<le> fst cn" "fst cn < 2 ^ 63" "0 \<le> snd cn" "snd cn < 2 ^ 63"
    and d: "\<bar>fst d\<bar> < 2 ^ 63" "\<bar>snd d\<bar> < 2 ^ 63"
  shows "drawn fb (\<lambda>x y. uint x = fst cn + fst d \<and> uint y = snd cn + snd d \<and> in_disk rr cn (uint x) (uint y)) col m
    (circle_pixel fb col rr cn (uint (fb_width fb), uint (fb_height fb)) d m)"
    (is "drawn fb ?P col m ?m")
proof -
  let ?x = "fst cn + fst d" and ?y = "snd cn + snd d" and ?q = "fst d * fst d + snd d * snd d"
  have q0: "0 \<le> fst d * fst d" "0 \<le> snd d * snd d" by simp_all
  show ?thesis
  proof (cases "?q \<le> rr \<and> 0 \<le> ?x \<and> 0 \<le> ?y \<and> ?x < uint (fb_width fb) \<and> ?y < uint (fb_height fb)")
    case True
    then have "in_i64 (fst d * fst d) = Some (fst d * fst d)" "in_i64 (snd d * snd d) = Some (snd d * snd d)"
      "in_i64 (snd d * snd d + fst d * fst d) = Some (snd d * snd d + fst d * fst d)"
      "in_i64 ?x = Some ?x" "in_i64 ?y = Some ?y"
      using rr q0 b unfolding in_i64_Some by linarith+
    then have "?m = snd (write_pixel fb (word_of_int ?y * fb_stride fb + word_of_int ?x) col m)"
      using True by (simp add: circle_pixel_def add.commute)
    moreover have "drawn fb (\<lambda>u v. uint u = ?x \<and> uint v = ?y) col m
        (snd (write_pixel fb (word_of_int ?y * fb_stride fb + word_of_int ?x) col m))"
      using True by (intro drawn_point assms(1)) auto
    ultimately show ?thesis using True by (auto elim!: drawn_cong simp: in_disk_def)
  next
    case False
    have "?m = m"
    proof (rule ccontr)
      assume "?m \<noteq> m"
      then obtain q x y where "in_i64 (fst d * fst d) = Some (fst d * fst d)" "in_i64 (snd d * snd d) = Some (snd d * snd d)"
        "in_i64 (snd d * snd d + fst d * fst d) = Some q" "in_i64 ?x = Some x" "in_i64 ?y = Some y"
        "q \<le> rr \<and> 0 \<le> x \<and> 0 \<le> y \<and> x < uint (fb_width fb) \<and> y < uint (fb_height fb)"
        unfolding circle_pixel_def using in_i64_cases [of "fst d * fst d"] in_i64_cases [of "snd d * snd d"]
        by (auto simp: bind_eq_Some_conv split: option.splits if_splits)
      with False show False by (simp add: in_i64_Some add.commute)
    qed
    moreover have "\<not> ?P x y" if "visible fb x y" for x y
    proof
      assume P: "?P x y"
      then have "0 \<le> ?x" "0 \<le> ?y" by (metis uint_ge_0)+
      with P False that show False by (auto simp: in_disk_def visible_def word_less_def)
    qed
    ultimately show ?thesis by (auto intro: drawn_cong [OF drawn_none])
  qed
qed

text \<open>What a circle call draws: the disk when the numbers involved fit \<open>isize\<close>, otherwise nothing.\<close>

definition circle_ok :: "Framebuffer \<Rightarrow> usize \<Rightarrow> PixelCoord \<Rightarrow> bool" where
  "circle_ok fb radius center \<longleftrightarrow> uint radius * uint radius < 2 ^ 63 \<and>
     uint (at_x center) < 2 ^ 63 \<and> uint (at_y center) < 2 ^ 63 \<and>
     uint (fb_width fb) < 2 ^ 63 \<and> uint (fb_height fb) < 2 ^ 63"

lemma square_le_abs:
  fixes a r :: int
  assumes "0 \<le> r" and "a * a \<le> r * r"
  shows "\<bar>a\<bar> \<le> r"
  using assms abs_le_square_iff [of a r] by (simp add: power2_eq_square)

lemma drawn_circle:
  assumes "is_drawable fb"
  shows "drawn fb (\<lambda>x y. circle_ok fb radius center \<and>
      in_disk (uint radius * uint radius) (uint (at_x center), uint (at_y center)) (uint x) (uint y)) c m
    (draw_circle fb radius center c m)"
proof (cases "circle_ok fb radius center")
  case True
  let ?r = "uint radius" and ?cn = "(uint (at_x center), uint (at_y center))"
  let ?ds = "[(dx, dy). dy \<leftarrow> [- ?r..?r], dx \<leftarrow> [- ?r..?r]]"
  have r: "0 \<le> ?r" by simp
  have "?r < 2 ^ 63"
  proof (rule ccontr)
    assume "\<not> ?r < 2 ^ 63"
    then have "2 ^ 63 * 2 ^ 63 \<le> ?r * ?r" by (intro mult_mono) simp_all
    with True show False by (simp add: circle_ok_def)
  qed
  then have run: "draw_circle fb radius center c m =
      fold (circle_pixel fb c (?r * ?r) ?cn (uint (fb_width fb), uint (fb_height fb))) ?ds m"
    using True assms r by (simp add: draw_circle_def circle_ok_def signed_of_Some [THEN iffD2] in_i64_nonneg)
  have "drawn fb (\<lambda>x y. \<exists>d \<in> set ?ds. uint x = fst ?cn + fst d \<and> uint y = snd ?cn + snd d \<and>
      in_disk (?r * ?r) ?cn (uint x) (uint y)) c m
      (fold (circle_pixel fb c (?r * ?r) ?cn (uint (fb_width fb), uint (fb_height fb))) ?ds m)"
    using True \<open>?r < 2 ^ 63\<close> by (intro drawn_fold drawn_circle_pixel assms) (auto simp: circle_ok_def)
  then show ?thesis unfolding run
  proof (rule drawn_cong, goal_cases)
    case (1 x y)
    show ?case
    proof
      assume "circle_ok fb radius center \<and> in_disk (?r * ?r) ?cn (uint x) (uint y)"
      then have d: "in_disk (?r * ?r) ?cn (uint x) (uint y)" by simp
      have "0 \<le> (uint x - fst ?cn) * (uint x - fst ?cn)" "0 \<le> (uint y - snd ?cn) * (uint y - snd ?cn)"
        by simp_all
      with d have "(uint x - fst ?cn) * (uint x - fst ?cn) \<le> ?r * ?r" "(uint y - snd ?cn) * (uint y - snd ?cn) \<le> ?r * ?r"
        unfolding in_disk_def by linarith+
      then have "\<bar>uint x - fst ?cn\<bar> \<le> ?r" "\<bar>uint y - snd ?cn\<bar> \<le> ?r"
        using square_le_abs r by blast+
      then have "(uint x - fst ?cn, uint y - snd ?cn) \<in> set ?ds"
        by (auto simp: image_iff abs_le_iff)
      with d show "\<exists>d \<in> set ?ds. uint x = fst ?cn + fst d \<and> uint y = snd ?cn + snd d \<and>
          in_disk (?r * ?r) ?cn (uint x) (uint y)"
        by (intro bexI [of _ "(uint x - fst ?cn, uint y - snd ?cn)"]) simp_all
    qed (use True in auto)
  qed
next
  case False
  have "draw_circle fb radius center c m = m"
  proof (rule ccontr)
    assume "draw_circle fb radius center c m \<noteq> m"
    then show False using False
      by (auto simp: draw_circle_def circle_ok_def signed_of_Some in_i64_Some bind_eq_Some_conv split: option.splits if_splits)
  qed
  with False show ?thesis by (auto intro: drawn_cong [OF drawn_none])
qed

section \<open>Lines\<close>

lemma drawn_plot:
  assumes "is_drawable fb" and "ln_width ln = uint (fb_width fb)" "ln_height ln = uint (fb_height fb)"
  shows "drawn fb (\<lambda>u v. uint u = x \<and> uint v = y) c m (line_plot fb c ln x y m)"
proof (cases "0 \<le> x \<and> 0 \<le> y \<and> x < ln_width ln \<and> y < ln_height ln")
  case True
  with drawn_point [OF assms(1), of x y c m] assms(2,3) show ?thesis by (simp add: line_plot_def)
next
  case False
  have "\<not> (uint u = x \<and> uint v = y)" if "visible fb u v" for u v
  proof
    assume uv: "uint u = x \<and> uint v = y"
    then have "0 \<le> x" "0 \<le> y" by (metis uint_ge_0)+
    with uv False that assms(2,3) show False by (auto simp: visible_def word_less_def)
  qed
  then show ?thesis using False by (auto simp: line_plot_def intro: drawn_cong [OF drawn_none])
qed

text \<open>
  A line from \<open>(x1, y1)\<close>: after \<open>i\<close> horizontal and \<open>j\<close> vertical steps the loop is at \<open>line_at ln x1 y1 i j\<close>
  with error \<open>line_error ln i j\<close>.
\<close>

definition line_ok :: "LineSetup \<Rightarrow> int \<Rightarrow> int \<Rightarrow> bool" where
  "line_ok ln x1 y1 \<longleftrightarrow> 0 \<le> ln_delta_x ln \<and> 0 \<le> ln_delta_y ln \<and>
     ln_x2 ln = x1 + ln_delta_x ln * ln_step_x ln \<and> ln_y2 ln = y1 + ln_delta_y ln * ln_step_y ln \<and>
     \<bar>ln_step_x ln\<bar> = 1 \<and> \<bar>ln_step_y ln\<bar> = 1 \<and>
     0 \<le> x1 \<and> x1 < 2 ^ 61 \<and> 0 \<le> y1 \<and> y1 < 2 ^ 61 \<and>
     0 \<le> ln_x2 ln \<and> ln_x2 ln < 2 ^ 61 \<and> 0 \<le> ln_y2 ln \<and> ln_y2 ln < 2 ^ 61"

definition line_error :: "LineSetup \<Rightarrow> int \<Rightarrow> int \<Rightarrow> int" where
  "line_error ln i j = ln_delta_x ln - ln_delta_y ln - i * ln_delta_y ln + j * ln_delta_x ln"

definition line_inv :: "LineSetup \<Rightarrow> int \<Rightarrow> int \<Rightarrow> bool" where
  "line_inv ln i j \<longleftrightarrow> 0 \<le> i \<and> i \<le> ln_delta_x ln \<and> 0 \<le> j \<and> j \<le> ln_delta_y ln \<and>
     2 * \<bar>j * ln_delta_x ln - i * ln_delta_y ln\<bar> \<le> max (ln_delta_x ln) (ln_delta_y ln)"

text \<open>The arithmetic of one round, with the products as unknowns.\<close>

lemma linear_round:
  fixes dx dy r w :: int
  assumes "0 \<le> dx" "dx \<le> w" "0 \<le> dy" "dy \<le> w" "2 * \<bar>r\<bar> \<le> w"
  shows "2 * (dx - dy + r) > - dy \<Longrightarrow> 2 * (dx - dy + r) < dx \<Longrightarrow> 2 * \<bar>r + dx - dy\<bar> \<le> w"
    "\<not> 2 * (dx - dy + r) < dx \<Longrightarrow> 2 * \<bar>r - dy\<bar> \<le> w"
    "\<not> 2 * (dx - dy + r) > - dy \<Longrightarrow> 2 * \<bar>r + dx\<bar> \<le> w"
    "\<bar>dx - dy + r\<bar> \<le> 2 * w" "\<bar>dx - dy + r - dy\<bar> \<le> 3 * w"
proof -
  have r: "- w \<le> 2 * r" "2 * r \<le> w" using assms(5) by (simp_all add: abs_if split: if_splits)
  have abs2: "2 * \<bar>a\<bar> \<le> w" if "2 * a \<le> w" "- w \<le> 2 * a" for a
    using that by (simp add: abs_if)
  have abs1: "\<bar>a\<bar> \<le> v" if "a \<le> v" "- v \<le> a" for a v :: int
    using that by (simp add: abs_if)
  show "2 * (dx - dy + r) > - dy \<Longrightarrow> 2 * (dx - dy + r) < dx \<Longrightarrow> 2 * \<bar>r + dx - dy\<bar> \<le> w"
    using assms(1-4) by (intro abs2) simp_all
  show "\<not> 2 * (dx - dy + r) < dx \<Longrightarrow> 2 * \<bar>r - dy\<bar> \<le> w"
    using assms(1-4) r by (intro abs2) simp_all
  show "\<not> 2 * (dx - dy + r) > - dy \<Longrightarrow> 2 * \<bar>r + dx\<bar> \<le> w"
    using assms(1-4) r by (intro abs2) simp_all
  show "\<bar>dx - dy + r\<bar> \<le> 2 * w" "\<bar>dx - dy + r - dy\<bar> \<le> 3 * w"
    using assms(1-4) r by (intro abs1; simp)+
qed

lemma line_round:
  fixes dx dy i j :: int
  assumes "0 \<le> dx" "0 \<le> dy" "0 \<le> i" "i \<le> dx" "0 \<le> j" "j \<le> dy" "(i, j) \<noteq> (dx, dy)"
    and err: "2 * \<bar>j * dx - i * dy\<bar> \<le> max dx dy" and e: "e = dx - dy - i * dy + j * dx"
  shows "2 * e > - dy \<Longrightarrow> i < dx" "2 * e < dx \<Longrightarrow> j < dy" "2 * e > - dy \<or> 2 * e < dx"
    "2 * e > - dy \<Longrightarrow> 2 * e < dx \<Longrightarrow> 2 * \<bar>(j + 1) * dx - (i + 1) * dy\<bar> \<le> max dx dy"
    "2 * e > - dy \<Longrightarrow> \<not> 2 * e < dx \<Longrightarrow> 2 * \<bar>j * dx - (i + 1) * dy\<bar> \<le> max dx dy"
    "\<not> 2 * e > - dy \<Longrightarrow> 2 * e < dx \<Longrightarrow> 2 * \<bar>(j + 1) * dx - i * dy\<bar> \<le> max dx dy"
proof -
  show "i < dx" if "2 * e > - dy"
  proof (rule ccontr)
    assume "\<not> i < dx"
    with assms have i: "i = dx" "j \<le> dy - 1" by auto
    have "j * dx \<le> (dy - 1) * dx" using i(2) assms(1) by (rule mult_right_mono)
    then have "j * dx \<le> dx * dy - dx" by (simp add: algebra_simps)
    with that e i(1) assms(2) show False by simp
  qed
  show "j < dy" if "2 * e < dx"
  proof (rule ccontr)
    assume "\<not> j < dy"
    with assms have j: "j = dy" "i \<le> dx - 1" by auto
    have "i * dy \<le> (dx - 1) * dy" using j(2) assms(2) by (rule mult_right_mono)
    then have "i * dy \<le> dx * dy - dy" by (simp add: algebra_simps)
    with that e j(1) assms(1) show False by (simp add: mult.commute)
  qed
  show "2 * e > - dy \<or> 2 * e < dx" using assms by auto
  have w: "dx \<le> max dx dy" "dy \<le> max dx dy" by simp_all
  have d: "(j + 1) * dx - (i + 1) * dy = (j * dx - i * dy) + dx - dy" "j * dx - (i + 1) * dy = (j * dx - i * dy) - dy"
    "(j + 1) * dx - i * dy = (j * dx - i * dy) + dx" "e = dx - dy + (j * dx - i * dy)"
    using e by (simp_all add: algebra_simps)
  note r = linear_round [OF assms(1) w(1) assms(2) w(2) err]
  show "2 * e > - dy \<Longrightarrow> 2 * e < dx \<Longrightarrow> 2 * \<bar>(j + 1) * dx - (i + 1) * dy\<bar> \<le> max dx dy"
    unfolding d by (rule r(1))
  show "2 * e > - dy \<Longrightarrow> \<not> 2 * e < dx \<Longrightarrow> 2 * \<bar>j * dx - (i + 1) * dy\<bar> \<le> max dx dy"
    unfolding d by (rule r(2))
  show "\<not> 2 * e > - dy \<Longrightarrow> 2 * e < dx \<Longrightarrow> 2 * \<bar>(j + 1) * dx - i * dy\<bar> \<le> max dx dy"
    unfolding d by (rule r(3))
qed

lemma line_major:
  fixes dx dy i j :: int
  assumes "0 \<le> dx" "0 \<le> dy" "0 \<le> i" "i \<le> dx" "0 \<le> j" "j \<le> dy" "(i, j) \<noteq> (dx, dy)"
    and err: "2 * \<bar>j * dx - i * dy\<bar> \<le> max dx dy" and e: "e = dx - dy - i * dy + j * dx"
  shows "dy \<le> dx \<Longrightarrow> 2 * e > - dy" "dx \<le> dy \<Longrightarrow> 2 * e < dx"
proof -
  let ?r = "j * dx - i * dy"
  have r: "- max dx dy \<le> 2 * ?r" "2 * ?r \<le> max dx dy" using err by (simp_all add: abs_if split: if_splits)
  have diag: "e = 0 \<and> 0 < dx" if eq: "dx = dy"
  proof -
    have "0 < dx" using assms eq by (cases "dx = 0") auto
    have "i = j"
    proof (rule ccontr)
      assume "i \<noteq> j"
      then have "1 \<le> \<bar>j - i\<bar>" by simp
      then have "1 * dx \<le> \<bar>j - i\<bar> * dx" using assms(1) by (rule mult_right_mono)
      moreover have "?r = (j - i) * dx" using eq by (simp add: algebra_simps)
      then have "\<bar>?r\<bar> = \<bar>j - i\<bar> * dx" using assms(1) by (simp add: abs_mult)
      ultimately show False using err eq \<open>0 < dx\<close> by simp
    qed
    with e eq \<open>0 < dx\<close> show ?thesis by simp
  qed
  show "2 * e > - dy" if "dy \<le> dx"
  proof (cases "dx = dy")
    case False
    then have "- dx \<le> 2 * ?r" "dy < dx" using r(1) that by (simp_all add: max_def)
    with e show ?thesis by simp
  qed (use diag in simp)
  show "2 * e < dx" if "dx \<le> dy"
  proof (cases "dx = dy")
    case False
    then have "2 * ?r \<le> dy" "dx < dy" using r(2) that by (simp_all add: max_def split: if_splits)
    with e show ?thesis by simp
  qed (use diag in simp)
qed

lemma between:
  fixes x1 d s :: int
  assumes "0 \<le> i" "i \<le> d" "\<bar>s\<bar> = 1" "0 \<le> x1" "x1 < 2 ^ 61" "0 \<le> x1 + d * s" "x1 + d * s < 2 ^ 61"
  shows "0 \<le> x1 + i * s" "x1 + i * s < 2 ^ 61"
  using assms by (auto simp: abs_if split: if_splits)

lemma line_error_bound:
  assumes "line_ok ln x1 y1" and "line_inv ln i j"
  shows "in_i64 (line_error ln i j) = Some (line_error ln i j)"
    "in_i64 (line_error ln i j * 2) = Some (line_error ln i j * 2)"
    "in_i64 (line_error ln i j - ln_delta_y ln) = Some (line_error ln i j - ln_delta_y ln)"
proof -
  have s: "ln_step_x ln = 1 \<or> ln_step_x ln = - 1" "ln_step_y ln = 1 \<or> ln_step_y ln = - 1"
    using assms(1) by (auto simp: line_ok_def)
  have d: "0 \<le> ln_delta_x ln" "ln_delta_x ln \<le> 2 ^ 61 - 1" "0 \<le> ln_delta_y ln" "ln_delta_y ln \<le> 2 ^ 61 - 1"
    using assms(1) s by (auto simp: line_ok_def)
  have "2 * \<bar>j * ln_delta_x ln - i * ln_delta_y ln\<bar> \<le> 2 ^ 61 - 1"
    using assms(2) d unfolding line_inv_def by (meson max.bounded_iff order_trans)
  note b = linear_round(4,5) [OF d this]
  have e: "line_error ln i j = ln_delta_x ln - ln_delta_y ln + (j * ln_delta_x ln - i * ln_delta_y ln)"
    by (simp add: line_error_def)
  show "in_i64 (line_error ln i j) = Some (line_error ln i j)"
    "in_i64 (line_error ln i j * 2) = Some (line_error ln i j * 2)"
    "in_i64 (line_error ln i j - ln_delta_y ln) = Some (line_error ln i j - ln_delta_y ln)"
    using b unfolding e in_i64_Some by (simp_all add: abs_le_iff)
qed

lemma line_next_step:
  assumes ok: "line_ok ln x1 y1" and inv: "line_inv ln i j" and ne: "(i, j) \<noteq> (ln_delta_x ln, ln_delta_y ln)"
  shows "\<exists>i' j'. line_next ln (x1 + i * ln_step_x ln) (y1 + j * ln_step_y ln) (line_error ln i j) =
      Some (x1 + i' * ln_step_x ln, y1 + j' * ln_step_y ln, line_error ln i' j') \<and> line_inv ln i' j' \<and>
    (i' = i \<or> i' = i + 1) \<and> (j' = j \<or> j' = j + 1) \<and> (i', j') \<noteq> (i, j) \<and>
    (ln_delta_y ln \<le> ln_delta_x ln \<longrightarrow> i' = i + 1) \<and> (ln_delta_x ln \<le> ln_delta_y ln \<longrightarrow> j' = j + 1)"
proof -
  let ?dx = "ln_delta_x ln" and ?dy = "ln_delta_y ln" and ?e = "line_error ln i j"
  have e: "?e = ?dx - ?dy - i * ?dy + j * ?dx" by (simp add: line_error_def)
  have a: "0 \<le> ?dx" "0 \<le> ?dy" "0 \<le> i" "i \<le> ?dx" "0 \<le> j" "j \<le> ?dy" "2 * \<bar>j * ?dx - i * ?dy\<bar> \<le> max ?dx ?dy"
    using ok inv by (auto simp: line_ok_def line_inv_def)
  note r = line_round [OF a(1-6) ne a(7) e]
  note maj = line_major [OF a(1-6) ne a(7) e]
  note b = line_error_bound [OF ok inv]
  have x: "in_i64 (x1 + i * ln_step_x ln + ln_step_x ln) = Some (x1 + (i + 1) * ln_step_x ln)" if "i < ?dx"
    using between [of "i + 1" ?dx "ln_step_x ln" x1] ok a that by (auto simp: in_i64_Some line_ok_def algebra_simps)
  have y: "in_i64 (y1 + j * ln_step_y ln + ln_step_y ln) = Some (y1 + (j + 1) * ln_step_y ln)" if "j < ?dy"
    using between [of "j + 1" ?dy "ln_step_y ln" y1] ok a that by (auto simp: in_i64_Some line_ok_def algebra_simps)
  have up: "line_error ln (i + 1) j = ?e - ?dy" "line_error ln i (j + 1) = ?e + ?dx"
    "line_error ln (i + 1) (j + 1) = ?e - ?dy + ?dx"
    by (simp_all add: line_error_def algebra_simps)
  consider "2 * ?e > - ?dy" "2 * ?e < ?dx" | "2 * ?e > - ?dy" "\<not> 2 * ?e < ?dx" | "\<not> 2 * ?e > - ?dy" "2 * ?e < ?dx"
    using r(3) by blast
  then show ?thesis
  proof cases
    case 1
    then have inv': "line_inv ln (i + 1) (j + 1)" using r(1,2,4) a by (simp add: line_inv_def)
    with 1 show ?thesis
      using maj x [OF r(1)] y [OF r(2)] b line_error_bound(1) [OF ok inv']
      by - (rule exI [of _ "i + 1"], rule exI [of _ "j + 1"], auto simp: line_next_def line_step_x_def line_step_y_def up mult.commute)
  next
    case 2
    then have inv': "line_inv ln (i + 1) j" using r(1,5) a by (simp add: line_inv_def)
    with 2 show ?thesis
      using maj x [OF r(1)] b
      by - (rule exI [of _ "i + 1"], rule exI [of _ j], auto simp: line_next_def line_step_x_def line_step_y_def up mult.commute)
  next
    case 3
    then have inv': "line_inv ln i (j + 1)" using r(2,6) a by (simp add: line_inv_def)
    with 3 show ?thesis
      using maj y [OF r(2)] b line_error_bound(1) [OF ok inv']
      by - (rule exI [of _ i], rule exI [of _ "j + 1"], auto simp: line_next_def line_step_x_def line_step_y_def up mult.commute)
  qed
qed

text \<open>
  The ideal line of \<open>(x1, y1)\<close> and \<open>(x2, y2)\<close>: a point of the box they span that is at most half a
  pixel away from it, measured along the axis in which the points are nearer to each other.
\<close>

definition near_line :: "int \<times> int \<Rightarrow> int \<times> int \<Rightarrow> int \<times> int \<Rightarrow> bool" where
  "near_line a b p \<longleftrightarrow>
     min (fst a) (fst b) \<le> fst p \<and> fst p \<le> max (fst a) (fst b) \<and>
     min (snd a) (snd b) \<le> snd p \<and> snd p \<le> max (snd a) (snd b) \<and>
     2 * \<bar>(snd p - snd a) * (fst b - fst a) - (fst p - fst a) * (snd b - snd a)\<bar>
       \<le> max \<bar>fst b - fst a\<bar> \<bar>snd b - snd a\<bar>"

definition neighbours :: "int \<times> int \<Rightarrow> int \<times> int \<Rightarrow> bool" where
  "neighbours p q \<longleftrightarrow> p \<noteq> q \<and> \<bar>fst p - fst q\<bar> \<le> 1 \<and> \<bar>snd p - snd q\<bar> \<le> 1"

lemma near_line_at:
  assumes "line_ok ln x1 y1" and "line_inv ln i j"
  shows "near_line (x1, y1) (ln_x2 ln, ln_y2 ln) (x1 + i * ln_step_x ln, y1 + j * ln_step_y ln)"
proof -
  have s: "ln_step_x ln = 1 \<or> ln_step_x ln = - 1" "ln_step_y ln = 1 \<or> ln_step_y ln = - 1"
    using assms(1) by (auto simp: line_ok_def)
  have "\<bar>j * ln_step_y ln * (ln_delta_x ln * ln_step_x ln) - i * ln_step_x ln * (ln_delta_y ln * ln_step_y ln)\<bar> =
      \<bar>(ln_step_x ln * ln_step_y ln) * (j * ln_delta_x ln - i * ln_delta_y ln)\<bar>"
    by (simp add: algebra_simps)
  also have "\<dots> = \<bar>j * ln_delta_x ln - i * ln_delta_y ln\<bar>" using s by (auto simp: abs_mult)
  finally have "2 * \<bar>j * ln_step_y ln * (ln_delta_x ln * ln_step_x ln) - i * ln_step_x ln * (ln_delta_y ln * ln_step_y ln)\<bar>
      \<le> max (ln_delta_x ln) (ln_delta_y ln)"
    using assms(2) by (simp add: line_inv_def)
  moreover have "\<bar>ln_delta_x ln * ln_step_x ln\<bar> = ln_delta_x ln" "\<bar>ln_delta_y ln * ln_step_y ln\<bar> = ln_delta_y ln"
    using assms(1) by (simp_all add: line_ok_def abs_mult)
  ultimately show ?thesis
    using assms s by (auto simp: near_line_def line_ok_def line_inv_def)
qed

lemma line_loop_path:
  assumes fb: "is_drawable fb" "ln_width ln = uint (fb_width fb)" "ln_height ln = uint (fb_height fb)"
    and ok: "line_ok ln x1 y1" and "line_inv ln i j"
  shows "\<exists>m' ps. line_loop fb c ln (x1 + i * ln_step_x ln) (y1 + j * ln_step_y ln) (line_error ln i j) m = Some m' \<and>
    drawn fb (\<lambda>u v. (uint u, uint v) \<in> set ps) c m m' \<and>
    ps \<noteq> [] \<and> hd ps = (x1 + i * ln_step_x ln, y1 + j * ln_step_y ln) \<and> last ps = (ln_x2 ln, ln_y2 ln) \<and>
    successively neighbours ps \<and> (\<forall>p \<in> set ps. near_line (x1, y1) (ln_x2 ln, ln_y2 ln) p) \<and>
    int (length ps) = (if ln_delta_y ln \<le> ln_delta_x ln then ln_delta_x ln - i else ln_delta_y ln - j) + 1"
  using assms(5)
proof (induction "nat (ln_delta_x ln - i) + nat (ln_delta_y ln - j)" arbitrary: i j m rule: less_induct)
  case less
  let ?x = "x1 + i * ln_step_x ln" and ?y = "y1 + j * ln_step_y ln"
  let ?m = "line_plot fb c ln ?x ?y m"
  have plot: "drawn fb (\<lambda>u v. uint u = ?x \<and> uint v = ?y) c m ?m" by (rule drawn_plot [OF fb])
  have s: "ln_step_x ln \<noteq> 0" "ln_step_y ln \<noteq> 0" "\<bar>ln_step_x ln\<bar> = 1" "\<bar>ln_step_y ln\<bar> = 1"
    using ok by (auto simp: line_ok_def)
  have stop: "?x = ln_x2 ln \<and> ?y = ln_y2 ln \<longleftrightarrow> (i, j) = (ln_delta_x ln, ln_delta_y ln)"
    using ok s by (auto simp: line_ok_def)
  note near = near_line_at [OF ok less.prems]
  show ?case
  proof (cases "(i, j) = (ln_delta_x ln, ln_delta_y ln)")
    case True
    then have "line_loop fb c ln ?x ?y (line_error ln i j) m = Some ?m"
      using stop by (subst line_loop.simps) (simp add: Let_def)
    with plot near True stop show ?thesis
      by (intro exI [of _ ?m] exI [of _ "[(?x, ?y)]"]) (auto elim!: drawn_cong)
  next
    case False
    obtain i' j' where n: "line_next ln ?x ?y (line_error ln i j) =
        Some (x1 + i' * ln_step_x ln, y1 + j' * ln_step_y ln, line_error ln i' j')" "line_inv ln i' j'"
      "i' = i \<or> i' = i + 1" "j' = j \<or> j' = j + 1" "(i', j') \<noteq> (i, j)"
      "ln_delta_y ln \<le> ln_delta_x ln \<Longrightarrow> i' = i + 1" "ln_delta_x ln \<le> ln_delta_y ln \<Longrightarrow> j' = j + 1"
      using line_next_step [OF ok less.prems False] by blast
    let ?x' = "x1 + i' * ln_step_x ln" and ?y' = "y1 + j' * ln_step_y ln"
    have "nat (ln_delta_x ln - i') + nat (ln_delta_y ln - j') < nat (ln_delta_x ln - i) + nat (ln_delta_y ln - j)"
      using n(2-5) by (auto simp: line_inv_def)
    from less.hyps [OF this n(2), of ?m] obtain m' ps where ih:
      "line_loop fb c ln ?x' ?y' (line_error ln i' j') ?m = Some m'"
      "drawn fb (\<lambda>u v. (uint u, uint v) \<in> set ps) c ?m m'" "ps \<noteq> []" "hd ps = (?x', ?y')"
      "last ps = (ln_x2 ln, ln_y2 ln)" "successively neighbours ps"
      "\<forall>p \<in> set ps. near_line (x1, y1) (ln_x2 ln, ln_y2 ln) p"
      "int (length ps) = (if ln_delta_y ln \<le> ln_delta_x ln then ln_delta_x ln - i' else ln_delta_y ln - j') + 1"
      by blast
    have "line_loop fb c ln ?x ?y (line_error ln i j) m = Some m'"
      using ih(1) n(1) iffD1 [OF stop] False by (subst line_loop.simps) (auto simp: Let_def)
    moreover have "drawn fb (\<lambda>u v. (uint u, uint v) \<in> set ((?x, ?y) # ps)) c m m'"
      by (rule drawn_cong [OF drawn_trans [OF plot ih(2)]]) auto
    moreover have "neighbours (?x, ?y) (?x', ?y')"
      using n(3-5) s by (auto simp: neighbours_def abs_if algebra_simps)
    then have "successively neighbours ((?x, ?y) # ps)"
      using ih(3,4,6) by (simp add: successively_Cons)
    ultimately show ?thesis using ih(3-) near n(6,7)
      by (intro exI [of _ m'] exI [of _ "(?x, ?y) # ps"]) auto
  qed
qed

text \<open>C26: with coordinates below \<open>2\<close>^\<open>61\<close> \<open>draw_line\<close> ends, and what it draws is one connected line: it sets
  exactly the visible pixels of a path from the start to the end point that moves one pixel at a time,
  has as many pixels as the longer side of the box they span, and at every pixel is within half a pixel of
  the ideal line. Points off the screen are skipped and no other byte of memory changes.\<close>

theorem draw_line_path:
  assumes "is_drawable fb" and "uint (fb_width fb) < 2 ^ 63" "uint (fb_height fb) < 2 ^ 63"
    and "uint (at_x start) < 2 ^ 61" "uint (at_y start) < 2 ^ 61" "uint (at_x stop) < 2 ^ 61" "uint (at_y stop) < 2 ^ 61"
  defines "a \<equiv> (uint (at_x start), uint (at_y start))" and "b \<equiv> (uint (at_x stop), uint (at_y stop))"
  shows "\<exists>m' ps. draw_line fb start stop c m = Some m' \<and>
    drawn fb (\<lambda>u v. (uint u, uint v) \<in> set ps) c m m' \<and>
    ps \<noteq> [] \<and> hd ps = a \<and> last ps = b \<and> successively neighbours ps \<and> (\<forall>p \<in> set ps. near_line a b p) \<and>
    int (length ps) = max \<bar>fst b - fst a\<bar> \<bar>snd b - snd a\<bar> + 1"
proof -
  let ?x = "uint (at_x start)" and ?y = "uint (at_y start)" and ?x2 = "uint (at_x stop)" and ?y2 = "uint (at_y stop)"
  let ?ln = "\<lparr>ln_width = uint (fb_width fb), ln_height = uint (fb_height fb), ln_x2 = ?x2, ln_y2 = ?y2,
    ln_delta_x = \<bar>?x - ?x2\<bar>, ln_delta_y = \<bar>?y - ?y2\<bar>,
    ln_step_x = (if ?x < ?x2 then 1 else - 1), ln_step_y = (if ?y < ?y2 then 1 else - 1)\<rparr>"
  have ge: "0 \<le> ?x" "0 \<le> ?y" "0 \<le> ?x2" "0 \<le> ?y2" by simp_all
  have ok: "line_ok ?ln ?x ?y" using assms(4-7) ge by (simp add: line_ok_def)
  have diff: "\<bar>p - q\<bar> < 2 ^ 61" if "0 \<le> p" "p < 2 ^ 61" "0 \<le> q" "q < 2 ^ 61" for p q :: int
    using that by (simp add: abs_less_iff)
  have "\<bar>?x - ?x2\<bar> < 2 ^ 61" "\<bar>?y - ?y2\<bar> < 2 ^ 61" using assms(4-7) ge by (blast intro: diff)+
  then have "in_i64 \<bar>?x - ?x2\<bar> = Some \<bar>?x - ?x2\<bar>" "in_i64 \<bar>?y - ?y2\<bar> = Some \<bar>?y - ?y2\<bar>"
    by (simp_all add: in_i64_nonneg)
  then have "draw_line fb start stop c m = line_loop fb c ?ln ?x ?y (line_error ?ln 0 0) m"
    using assms(1-7) by (simp add: draw_line_def signed_of_Some [THEN iffD2] line_error_def)
  moreover have "line_inv ?ln 0 0" by (simp add: line_inv_def)
  from line_loop_path [OF assms(1) _ _ ok this, of c m] obtain m' ps where
    "line_loop fb c ?ln ?x ?y (line_error ?ln 0 0) m = Some m'" "drawn fb (\<lambda>u v. (uint u, uint v) \<in> set ps) c m m'"
    "ps \<noteq> []" "hd ps = (?x, ?y)" "last ps = (?x2, ?y2)" "successively neighbours ps"
    "\<forall>p \<in> set ps. near_line (?x, ?y) (?x2, ?y2) p"
    "int (length ps) = (if \<bar>?y - ?y2\<bar> \<le> \<bar>?x - ?x2\<bar> then \<bar>?x - ?x2\<bar> else \<bar>?y - ?y2\<bar>) + 1"
    by auto
  moreover have "(if \<bar>?y - ?y2\<bar> \<le> \<bar>?x - ?x2\<bar> then \<bar>?x - ?x2\<bar> else \<bar>?y - ?y2\<bar>) = max \<bar>?x2 - ?x\<bar> \<bar>?y2 - ?y\<bar>"
    by (simp add: max_def abs_minus_commute)
  ultimately show ?thesis unfolding a_def b_def by auto
qed

text \<open>A screen of 8 by 4 pixels at address \<open>4096\<close>, and a line from its corner to a point off the screen.\<close>

definition sample_screen :: Framebuffer where
  "sample_screen = \<lparr>fb_ptr = 4096, fb_size = \<lparr>size_width = 8, size_height = 4\<rparr>, fb_stride = 8, fb_format = Bgr,
     fb_byte_len = 128\<rparr>"

lemma sample_screen_drawable: "is_drawable sample_screen"
  by (simp add: is_drawable_def sample_screen_def drawable_format_def required_byte_len_def checked_mul_def
      word_less_nat_alt word_le_nat_alt)

lemma draw_line_path_witness:
  "\<exists>m' ps. draw_line sample_screen \<lparr>at_x = 0, at_y = 0\<rparr> \<lparr>at_x = 10, at_y = 3\<rparr> WHITE (\<lambda>_. 0) = Some m' \<and>
     length ps = 11 \<and> hd ps = (0 :: int, 0 :: int) \<and> last ps = (10, 3)"
proof -
  have "\<exists>m' ps. draw_line sample_screen \<lparr>at_x = 0, at_y = 0\<rparr> \<lparr>at_x = 10, at_y = 3\<rparr> WHITE (\<lambda>_. 0) = Some m' \<and>
    drawn sample_screen (\<lambda>u v. (uint u, uint v) \<in> set ps) WHITE (\<lambda>_. 0) m' \<and>
    ps \<noteq> [] \<and> hd ps = (0, 0) \<and> last ps = (10, 3) \<and> successively neighbours ps \<and>
    (\<forall>p \<in> set ps. near_line (0, 0) (10, 3) p) \<and> int (length ps) = max \<bar>10 - 0\<bar> \<bar>3 - 0\<bar> + 1"
    using draw_line_path [OF sample_screen_drawable, of "\<lparr>at_x = 0, at_y = 0\<rparr>" "\<lparr>at_x = 10, at_y = 3\<rparr>" WHITE "\<lambda>_. 0"]
    by (simp add: sample_screen_def)
  then show ?thesis by fastforce
qed

section \<open>Scrolling\<close>

lemma mem_copy_down: "mem_copy (p + s) p n m a = (if unat (a - p) < unat n then m (a + s) else m a)"
  by (simp add: mem_copy_def word_less_nat_alt algebra_simps)

lemma mem_set_at:
  assumes "unat d + unat n < 2 ^ 64"
  shows "mem_set (p + d) v n m a = (if unat d \<le> unat (a - p) \<and> unat (a - p) < unat d + unat n then v else m a)"
proof -
  have sub: "unat (w - d) = (if unat d \<le> unat w then unat w - unat d else unat w + 2 ^ 64 - unat d)" for w
    by (simp add: unat_sub_if' word_le_nat_alt)
  have "a - (p + d) = (a - p) - d" by simp
  then have "unat (a - (p + d)) = (if unat d \<le> unat (a - p) then unat (a - p) - unat d else unat (a - p) + 2 ^ 64 - unat d)"
    by (simp only: sub)
  then show ?thesis using assms unat_bound [of "a - p"] by (simp add: mem_set_def word_less_nat_alt) linarith
qed

lemma scroll_bytes:
  fixes rows :: usize
  assumes "is_drawable fb"
  defines "t \<equiv> unat (fb_stride fb) * unat (fb_height fb) * 4"
    and "r \<equiv> unat (fb_stride fb) * unat rows * 4"
  shows "unat rows < unat (fb_height fb) \<Longrightarrow> scroll_rows fb rows m a =
      (if unat (a - fb_ptr fb) < t - r then m (a + rows * (fb_stride fb * 4))
       else if unat (a - fb_ptr fb) < t then (if rows = 0 then m a else 0) else m a)"
    "\<not> unat rows < unat (fb_height fb) \<Longrightarrow> scroll_rows fb rows m a =
      (if unat (a - fb_ptr fb) < t then (if rows = 0 then m a else 0) else m a)"
proof -
  have t: "t < 2 ^ 64" using is_drawableD(2) [OF assms(1)] unat_bound [of "fb_byte_len fb"] by (simp add: t_def)
  have span: "unat (fb_stride fb * fb_height fb * 4) = t"
  proof -
    have "unat (fb_stride fb * fb_height fb) = unat (fb_stride fb) * unat (fb_height fb)"
      using t by (intro unat_mult_exact) (simp add: t_def)
    then show ?thesis using t by (subst unat_mult_exact) (simp_all add: t_def)
  qed
  show "scroll_rows fb rows m a =
      (if unat (a - fb_ptr fb) < t - r then m (a + rows * (fb_stride fb * 4))
       else if unat (a - fb_ptr fb) < t then (if rows = 0 then m a else 0) else m a)"
    if lt: "unat rows < unat (fb_height fb)"
  proof -
    let ?b = "fb_stride fb * 4" and ?h = "unat (fb_height fb)" and ?s = "unat (fb_stride fb)"
    have "1 \<le> ?h" using lt by simp
    then have "?s * 4 \<le> t" using mult_le_mono2 [of 1 ?h "?s * 4"] by (simp add: t_def algebra_simps)
    then have b: "unat ?b = ?s * 4" using t by (intro unat_mult_exact [THEN trans]) simp_all
    have sub: "unat (fb_height fb - rows) = ?h - unat rows" using lt by (simp add: unat_sub word_le_nat_alt)
    have le: "(?h - unat rows) * (?s * 4) \<le> t" "unat rows * (?s * 4) \<le> t"
      using lt by (simp_all add: t_def algebra_simps)
    have eq: "(?h - unat rows) * (?s * 4) = t - r" "unat rows * (?s * 4) = r"
      by (simp_all add: t_def r_def diff_mult_distrib diff_mult_distrib2 mult.commute mult.left_commute)
    have "unat ((fb_height fb - rows) * ?b) = (?h - unat rows) * (?s * 4)" "unat (rows * ?b) = unat rows * (?s * 4)"
      using t le unfolding b [symmetric] sub [symmetric] by (intro unat_mult_exact; simp)+
    then have mv: "unat ((fb_height fb - rows) * ?b) = t - r" and cl: "unat (rows * ?b) = r"
      by (simp_all only: eq)
    have "r \<le> t" using lt by (simp add: r_def t_def)
    then have fits: "unat ((fb_height fb - rows) * ?b) + unat (rows * ?b) < 2 ^ 64"
      using t by (simp only: mv cl)
    have "scroll_rows fb rows m a = (if rows = 0 then m a else
        mem_set (fb_ptr fb + (fb_height fb - rows) * ?b) 0 (rows * ?b)
          (mem_copy (fb_ptr fb + rows * ?b) (fb_ptr fb) ((fb_height fb - rows) * ?b) m) a)"
      using assms(1) lt by (simp add: scroll_rows_def Let_def word_le_nat_alt)
    then show ?thesis
      using \<open>r \<le> t\<close> unfolding mem_set_at [OF fits] mem_copy_down mv cl by auto
  qed
  show "scroll_rows fb rows m a = (if unat (a - fb_ptr fb) < t then (if rows = 0 then m a else 0) else m a)"
    if "\<not> unat rows < unat (fb_height fb)"
  proof -
    have "scroll_rows fb rows m a = (if rows = 0 then m a else mem_set (fb_ptr fb) 0 (fb_stride fb * fb_height fb * 4) m a)"
      using assms(1) that by (simp add: scroll_rows_def Let_def word_le_nat_alt)
    then show ?thesis by (simp add: mem_set_def word_less_nat_alt span)
  qed
qed

lemma scroll_pixels:
  assumes "is_drawable fb"
  shows "visible fb x y \<Longrightarrow> read_pixel fb x y (scroll_rows fb rows m) =
      (if unat y + unat rows < unat (fb_height fb) then read_pixel fb x (y + rows) m else BLACK)"
    "unat (fb_stride fb) * unat (fb_height fb) * 4 \<le> unat (a - fb_ptr fb) \<Longrightarrow> scroll_rows fb rows m a = m a"
proof -
  let ?h = "unat (fb_height fb)" and ?s = "unat (fb_stride fb)"
  have out: "scroll_rows fb rows m a = m a" if "?s * ?h * 4 \<le> unat (a - fb_ptr fb)"
    using that scroll_bytes [OF assms, of rows m a] by (cases "unat rows < ?h") auto
  then show "scroll_rows fb rows m a = m a" if "unat (fb_stride fb) * unat (fb_height fb) * 4 \<le> unat (a - fb_ptr fb)"
    using that .
  assume v: "visible fb x y"
  then have xy: "unat x < ?s" "unat y < ?h"
    using is_drawableD(1) [OF assms] by (auto simp: visible_def word_less_nat_alt)
  have byte: "scroll_rows fb rows m (pixel_addr fb x y + of_nat i) =
      (if unat y + unat rows < ?h then m (pixel_addr fb x y + of_nat i + rows * (fb_stride fb * 4)) else 0)"
    if "i < 4" for i
  proof -
    let ?o = "4 * (unat y * ?s + unat x) + i"
    have o: "unat (pixel_addr fb x y + of_nat i - fb_ptr fb) = ?o" by (rule addr_offset [OF assms v that])
    have "(unat y + 1) * ?s \<le> ?h * ?s" using xy(2) by (intro mult_le_mono1) simp
    then have in_span: "?o < ?s * ?h * 4" using xy(1) that by (simp add: algebra_simps)
    have low: "?o < ?s * ?h * 4 - ?s * unat rows * 4 \<longleftrightarrow> unat y + unat rows < ?h" if lt: "unat rows < ?h"
    proof -
      have "?s * ?h * 4 - ?s * unat rows * 4 = (?h - unat rows) * ?s * 4" using lt by (simp add: algebra_simps diff_mult_distrib2)
      moreover have "?o < (?h - unat rows) * ?s * 4" if "unat y < ?h - unat rows"
      proof -
        have "(unat y + 1) * ?s \<le> (?h - unat rows) * ?s" using that by (intro mult_le_mono1) simp
        then show ?thesis using xy(1) \<open>i < 4\<close> by (simp add: algebra_simps)
      qed
      moreover have "\<not> ?o < (?h - unat rows) * ?s * 4" if "\<not> unat y < ?h - unat rows"
      proof -
        have "(?h - unat rows) * ?s * 4 \<le> unat y * ?s * 4" using that by (intro mult_le_mono1) simp
        moreover have "unat y * ?s * 4 \<le> ?o" by simp
        ultimately show ?thesis by (meson le_less_trans not_less order_trans)
      qed
      ultimately show ?thesis by (metis less_diff_conv)
    qed
    have zero: "rows = 0 \<Longrightarrow> unat y + unat rows < ?h" using xy(2) by simp
    show ?thesis
      using scroll_bytes [OF assms, of rows m "pixel_addr fb x y + of_nat i"] low in_span zero unfolding o
      by (cases "unat rows < ?h") auto
  qed
  show "read_pixel fb x y (scroll_rows fb rows m) =
      (if unat y + unat rows < unat (fb_height fb) then read_pixel fb x (y + rows) m else BLACK)"
  proof (cases "unat y + unat rows < ?h")
    case True
    then have "unat (y + rows) = unat y + unat rows" using unat_bound [of "fb_height fb"] by (intro unat_add_exact) simp
    then have v': "visible fb x (y + rows)" using v True by (simp add: visible_def word_less_nat_alt)
    have "pixel_addr fb x (y + rows) = pixel_addr fb x y + rows * (fb_stride fb * 4)"
      by (simp add: pixel_addr_def algebra_simps)
    then have "color_bytes fb (read_pixel fb x y (scroll_rows fb rows m)) = color_bytes fb (read_pixel fb x (y + rows) m)"
      using byte [of 0] byte [of 1] byte [of 2] True
      by (simp only: read_pixel_visible [OF assms v] read_pixel_visible [OF assms v']) (simp add: algebra_simps)
    with True show ?thesis by simp
  next
    case False
    then have "color_bytes fb (read_pixel fb x y (scroll_rows fb rows m)) = color_bytes fb BLACK"
      using byte [of 0] byte [of 1] byte [of 2]
      by (simp add: read_pixel_visible [OF assms v]) (simp add: color_bytes_def BLACK_def)
    with False show ?thesis by simp
  qed
qed

text \<open>Scrolling moves the picture: after \<open>scroll_rows\<close> by any number of rows each visible pixel has the
  color that the pixel this many rows below it had, and is black where there is none; bytes outside the
  rows of the framebuffer are unchanged, also when all rows are scrolled away.\<close>

theorem scroll_rows_exact:
  assumes "is_drawable fb"
  shows "(\<forall>x y. visible fb x y \<longrightarrow> read_pixel fb x y (scroll_rows fb rows m) =
      (if unat y + unat rows < unat (fb_height fb) then read_pixel fb x (y + rows) m else BLACK)) \<and>
    (\<forall>a. unat (fb_stride fb) * unat (fb_height fb) * 4 \<le> unat (a - fb_ptr fb) \<longrightarrow> scroll_rows fb rows m a = m a)"
  using scroll_pixels [OF assms] by blast

lemma scroll_rows_exact_witness:
  "read_pixel sample_screen 3 1 (scroll_rows sample_screen 2 ucast) = read_pixel sample_screen 3 3 ucast \<and>
   read_pixel sample_screen 3 2 (scroll_rows sample_screen 2 ucast) = BLACK \<and>
   scroll_rows sample_screen 2 ucast 4224 = 128"
  using scroll_rows_exact [OF sample_screen_drawable, of 2 ucast]
  by (simp add: visible_def sample_screen_def word_less_nat_alt)

section \<open>Filled shapes\<close>



end
