(* ===== verification/Cursor.thy ===== *)
theory Cursor
  imports Graphics
begin

text \<open>
  The software mouse cursor, \<^verbatim>\<open>src/src/mouse/mod.rs\<close>: a white square that saves the pixels it covers and
  puts them back when it is erased. The lock around the cursor's state is not modelled.
\<close>

definition MOUSE_CURSOR_SIZE :: PixelSize where
  "MOUSE_CURSOR_SIZE = \<lparr>size_width = 5, size_height = 5\<rparr>"

definition MOUSE_CURSOR_PIXELS :: nat where "MOUSE_CURSOR_PIXELS = 25"

record MouseCursor =
  cur_position :: "(usize \<times> usize) option"
  saved_under :: "Color list"

definition initial_cursor :: MouseCursor where
  "initial_cursor = \<lparr>cur_position = None, saved_under = replicate MOUSE_CURSOR_PIXELS BLACK\<rparr>"

text \<open>The rows and columns of the two loops, and the index of a cell in the saved pixels.\<close>

definition cursor_cells :: "(usize \<times> usize) list" where
  "cursor_cells = [(row, col). row \<leftarrow> word_range 0 (size_height MOUSE_CURSOR_SIZE),
     col \<leftarrow> word_range 0 (size_width MOUSE_CURSOR_SIZE)]"

definition cell_index :: "usize \<times> usize \<Rightarrow> nat" where
  "cell_index cell = unat (fst cell * size_width MOUSE_CURSOR_SIZE + snd cell)"

definition save_pixels :: "Framebuffer \<Rightarrow> usize \<Rightarrow> usize \<Rightarrow> memory \<Rightarrow> Color list \<Rightarrow> Color list" where
  "save_pixels fb x y m saved =
     fold (\<lambda>cell saved. saved[cell_index cell := read_pixel fb (x + snd cell) (y + fst cell) m]) cursor_cells saved"

definition draw_mouse_cursor :: "Framebuffer \<Rightarrow> PixelCoord \<Rightarrow> MouseCursor \<times> memory \<Rightarrow> MouseCursor \<times> memory" where
  "draw_mouse_cursor fb origin s =
     (let x = at_x origin; y = at_y origin; cursor = fst s; m = snd s in
      case (checked_add x (size_width MOUSE_CURSOR_SIZE), checked_add y (size_height MOUSE_CURSOR_SIZE)) of
        (Some right, Some bottom) \<Rightarrow>
          if \<not> is_drawable fb \<or> right > fb_width fb \<or> bottom > fb_height fb then s
          else (cursor\<lparr>saved_under := save_pixels fb x y m (saved_under cursor), cur_position := Some (x, y)\<rparr>,
                draw_rec fb \<lparr>at_x = x, at_y = y\<rparr> MOUSE_CURSOR_SIZE WHITE m)
      | _ \<Rightarrow> s)"

definition erase_mouse_cursor :: "Framebuffer \<Rightarrow> MouseCursor \<times> memory \<Rightarrow> MouseCursor \<times> memory" where
  "erase_mouse_cursor fb s =
     (case cur_position (fst s) of
        None \<Rightarrow> s
      | Some (x, y) \<Rightarrow>
          ((fst s)\<lparr>cur_position := None\<rparr>,
           fold (\<lambda>cell m. snd (write_pixel fb ((y + fst cell) * fb_stride fb + (x + snd cell))
                                (saved_under (fst s) ! cell_index cell) m)) cursor_cells (snd s)))"

section \<open>Saving and restoring\<close>

definition cursor_ok :: "MouseCursor \<Rightarrow> bool" where
  "cursor_ok c \<longleftrightarrow> length (saved_under c) = MOUSE_CURSOR_PIXELS"

lemma fold_update_length [simp]: "length (fold (\<lambda>p s. s[f p := g p]) ps s) = length s"
  by (induction ps arbitrary: s) auto

lemma fold_update_other: "i \<notin> f ` set ps \<Longrightarrow> fold (\<lambda>p s. s[f p := g p]) ps s ! i = s ! i"
  by (induction ps arbitrary: s) auto

lemma fold_update_nth:
  assumes "inj_on f (set ps)" and "f p < length s" and "p \<in> set ps"
  shows "fold (\<lambda>p s. s[f p := g p]) ps s ! f p = g p"
  using assms
proof (induction ps arbitrary: s)
  case (Cons q ps)
  show ?case
  proof (cases "p \<in> set ps")
    case True
    with Cons show ?thesis by simp
  next
    case False
    then have "p = q" "f p \<notin> f ` set ps" using Cons.prems by auto
    then show ?thesis using Cons.prems by (simp add: fold_update_other)
  qed
qed simp

text \<open>Writing a color of its own into each of some pixels.\<close>

lemma write_each_all:
  assumes "is_drawable fb" and "\<forall>(u, v) \<in> set ps. visible fb u v"
  shows "(\<forall>u v. visible fb u v \<longrightarrow>
      read_pixel fb u v (fold (\<lambda>(u, v) m. snd (write_pixel fb (pixel_index fb u v) (C u v) m)) ps m) =
      (if (u, v) \<in> set ps then C u v else read_pixel fb u v m)) \<and>
    (\<forall>a. (\<forall>(u, v) \<in> set ps. a \<notin> pixel_bytes fb u v) \<longrightarrow>
      fold (\<lambda>(u, v) m. snd (write_pixel fb (pixel_index fb u v) (C u v) m)) ps m a = m a)"
  using assms(2)
proof (induction ps arbitrary: m)
  case (Cons p ps)
  obtain x y where p: "p = (x, y)" by fastforce
  with Cons.prems have vis: "visible fb x y" "\<forall>(u, v) \<in> set ps. visible fb u v" by simp_all
  from drawn_pixel [OF assms(1) vis(1), of "C x y" m] Cons.IH [OF vis(2)] show ?case
    by (auto simp: p drawn_def)
qed simp

lemmas write_each = write_each_all [THEN conjunct1, THEN spec, THEN spec, THEN mp]
  write_each_all [THEN conjunct2, THEN spec, THEN mp]

lemma cursor_cells_iff: "(row, col) \<in> set cursor_cells \<longleftrightarrow> row < 5 \<and> col < 5"
  by (auto simp: cursor_cells_def MOUSE_CURSOR_SIZE_def)

lemma cell_index_eq: "row < 5 \<Longrightarrow> col < 5 \<Longrightarrow> cell_index (row, col) = unat row * 5 + unat col"
  by (simp add: cell_index_def MOUSE_CURSOR_SIZE_def unat_add_exact unat_mult_exact word_less_nat_alt)

lemma cell_index_inj: "inj_on cell_index (set cursor_cells)"
proof (rule inj_onI)
  fix p q assume "p \<in> set cursor_cells" "q \<in> set cursor_cells" "cell_index p = cell_index q"
  moreover obtain r c r' c' where "p = (r, c)" "q = (r', c')" by fastforce
  ultimately have pq: "p = (r, c)" "q = (r', c')" "r < 5" "c < 5" "r' < 5" "c' < 5"
    by (simp_all add: cursor_cells_iff)
  with \<open>cell_index p = cell_index q\<close> have "unat r * 5 + unat c = unat r' * 5 + unat c'" by (simp add: cell_index_eq)
  moreover have "unat c < 5" "unat c' < 5" using pq by (simp_all add: word_less_nat_alt)
  ultimately have "unat r = unat r'" "unat c = unat c'" by presburger+
  then show "p = q" using pq by (simp add: word_unat_eq_iff)
qed

lemma saved_pixel:
  assumes "row < 5" "col < 5" "length saved = MOUSE_CURSOR_PIXELS"
  shows "save_pixels fb x y m saved ! cell_index (row, col) = read_pixel fb (x + col) (y + row) m"
proof -
  have "unat row < 5" "unat col < 5" using assms by (simp_all add: word_less_nat_alt)
  then have "cell_index (row, col) < length saved" using assms by (simp add: cell_index_eq MOUSE_CURSOR_PIXELS_def)
  from fold_update_nth [OF cell_index_inj this] assms(1,2) show ?thesis
    unfolding save_pixels_def by (simp add: cursor_cells_iff)
qed

lemma offset_less:
  fixes x u n :: usize
  assumes "unat x + unat n < 2 ^ 64"
  shows "u - x < n \<longleftrightarrow> unat x \<le> unat u \<and> unat u < unat x + unat n"
  using assms unat_bound [of u] by (auto simp: word_less_nat_alt unat_sub_if' word_le_nat_alt)

abbreviation under_cursor :: "usize \<times> usize \<Rightarrow> usize \<Rightarrow> usize \<Rightarrow> bool" where
  "under_cursor p u v \<equiv> in_rect \<lparr>at_x = fst p, at_y = snd p\<rparr> MOUSE_CURSOR_SIZE u v"

abbreviation cursor_fits :: "Framebuffer \<Rightarrow> usize \<times> usize \<Rightarrow> bool" where
  "cursor_fits fb p \<equiv> rect_fits fb \<lparr>at_x = fst p, at_y = snd p\<rparr> MOUSE_CURSOR_SIZE"

lemma in_cursor_iff:
  assumes "cursor_fits fb (x, y)"
  shows "(u, v) \<in> (\<lambda>cell. (x + snd cell, y + fst cell)) ` set cursor_cells \<longleftrightarrow> under_cursor (x, y) u v"
    "under_cursor (x, y) u v \<Longrightarrow> visible fb u v \<and> v - y < 5 \<and> u - x < 5"
proof -
  have five: "unat (5 :: usize) = 5" by simp
  have lt: "unat x + unat (5 :: usize) < 2 ^ 64" "unat y + unat (5 :: usize) < 2 ^ 64"
    using assms unat_bound [of "fb_width fb"] unat_bound [of "fb_height fb"]
    by (auto simp: rect_fits_def MOUSE_CURSOR_SIZE_def)
  have "(u, v) \<in> (\<lambda>cell. (x + snd cell, y + fst cell)) ` set cursor_cells \<longleftrightarrow> v - y < 5 \<and> u - x < 5"
  proof
    assume "v - y < 5 \<and> u - x < 5"
    then show "(u, v) \<in> (\<lambda>cell. (x + snd cell, y + fst cell)) ` set cursor_cells"
      by (intro image_eqI [of _ _ "(v - y, u - x)"]) (simp_all add: cursor_cells_iff)
  qed (auto simp: cursor_cells_iff)
  then show "(u, v) \<in> (\<lambda>cell. (x + snd cell, y + fst cell)) ` set cursor_cells \<longleftrightarrow> under_cursor (x, y) u v"
    by (auto simp: offset_less [OF lt(1)] offset_less [OF lt(2)] in_rect_def MOUSE_CURSOR_SIZE_def)
  show "visible fb u v \<and> v - y < 5 \<and> u - x < 5" if "under_cursor (x, y) u v"
  proof -
    have "v - y < 5 \<and> u - x < 5"
      using that by (simp add: offset_less [OF lt(1)] offset_less [OF lt(2)] in_rect_def MOUSE_CURSOR_SIZE_def)
    moreover have "visible fb u v"
      using that assms by (simp add: in_rect_def MOUSE_CURSOR_SIZE_def rect_fits_def visible_def word_less_nat_alt)
    ultimately show ?thesis by simp
  qed
qed

lemma erase_restores:
  assumes fb: "is_drawable fb" and fits: "cursor_fits fb (x, y)" and at: "cur_position c = Some (x, y)"
    and saved: "\<And>row col. row < 5 \<Longrightarrow> col < 5 \<Longrightarrow> saved_under c ! cell_index (row, col) = S (x + col) (y + row)"
  shows "visible fb u v \<Longrightarrow> read_pixel fb u v (snd (erase_mouse_cursor fb (c, m))) =
      (if under_cursor (x, y) u v then S u v else read_pixel fb u v m)"
    "(\<And>u v. under_cursor (x, y) u v \<Longrightarrow> a \<notin> pixel_bytes fb u v) \<Longrightarrow> snd (erase_mouse_cursor fb (c, m)) a = m a"
    "fst (erase_mouse_cursor fb (c, m)) = c\<lparr>cur_position := None\<rparr>"
proof -
  let ?ps = "map (\<lambda>cell. (x + snd cell, y + fst cell)) cursor_cells"
  let ?C = "\<lambda>u v. saved_under c ! cell_index (v - y, u - x)"
  have run: "snd (erase_mouse_cursor fb (c, m)) =
      fold (\<lambda>(u, v) m. snd (write_pixel fb (pixel_index fb u v) (?C u v) m)) ?ps m"
    using at by (simp add: erase_mouse_cursor_def fold_map comp_def)
  have set: "(u, v) \<in> set ?ps \<longleftrightarrow> under_cursor (x, y) u v" for u v using in_cursor_iff(1) [OF fits] by simp
  have vis: "\<forall>(u, v) \<in> set ?ps. visible fb u v" using in_cursor_iff(2) [OF fits] set by blast
  show "read_pixel fb u v (snd (erase_mouse_cursor fb (c, m))) =
      (if under_cursor (x, y) u v then S u v else read_pixel fb u v m)" if "visible fb u v"
    using write_each(1) [OF fb vis that, of ?C m] saved [of "v - y" "u - x"] in_cursor_iff(2) [OF fits, of u v]
    unfolding run set by simp
  show "snd (erase_mouse_cursor fb (c, m)) a = m a" if "\<And>u v. under_cursor (x, y) u v \<Longrightarrow> a \<notin> pixel_bytes fb u v"
    unfolding run using that set by (intro write_each(2) [OF fb vis]) blast
  show "fst (erase_mouse_cursor fb (c, m)) = c\<lparr>cur_position := None\<rparr>"
    using at by (simp add: erase_mouse_cursor_def)
qed

lemma draw_cursor_cases:
  assumes "is_drawable fb"
  shows "\<not> cursor_fits fb (at_x p, at_y p) \<Longrightarrow> draw_mouse_cursor fb p s = s"
    "cursor_fits fb (at_x p, at_y p) \<Longrightarrow> draw_mouse_cursor fb p (c, m) =
      (c\<lparr>saved_under := save_pixels fb (at_x p) (at_y p) m (saved_under c), cur_position := Some (at_x p, at_y p)\<rparr>,
       draw_rec fb \<lparr>at_x = at_x p, at_y = at_y p\<rparr> MOUSE_CURSOR_SIZE WHITE m)"
  using assms unat_bound [of "fb_width fb"] unat_bound [of "fb_height fb"]
  by (auto simp: draw_mouse_cursor_def rect_fits_def Let_def checked_add_def unat_add_exact word_less_nat_alt
      MOUSE_CURSOR_SIZE_def not_less split: option.splits)

lemma draw_erase:
  assumes "is_drawable fb" and "cursor_ok c" and "cur_position c = None"
  shows "let (c1, m1) = draw_mouse_cursor fb p (c, m); (c2, m2) = erase_mouse_cursor fb (c1, m1) in
      m2 = m \<and> cursor_ok c2 \<and> erase_mouse_cursor fb (c2, m2) = (c2, m2) \<and>
      (cursor_fits fb (at_x p, at_y p) \<longrightarrow>
        drawn fb (under_cursor (at_x p, at_y p)) WHITE m m1 \<and>
        (\<forall>m' u v. visible fb u v \<longrightarrow> read_pixel fb u v (snd (erase_mouse_cursor fb (c1, m'))) =
           read_pixel fb u v (if under_cursor (at_x p, at_y p) u v then m else m'))) \<and>
      (\<not> cursor_fits fb (at_x p, at_y p) \<longrightarrow> m1 = m)"
proof (cases "cursor_fits fb (at_x p, at_y p)")
  case False
  with assms show ?thesis
    by (simp add: draw_cursor_cases(1) erase_mouse_cursor_def)
next
  case fits: True
  let ?x = "at_x p" and ?y = "at_y p"
  let ?c1 = "c\<lparr>saved_under := save_pixels fb ?x ?y m (saved_under c), cur_position := Some (?x, ?y)\<rparr>"
  let ?m1 = "draw_rec fb \<lparr>at_x = ?x, at_y = ?y\<rparr> MOUSE_CURSOR_SIZE WHITE m"
  have d: "drawn fb (under_cursor (?x, ?y)) WHITE m ?m1"
    by (rule drawn_cong [OF drawn_rec [OF assms(1)]]) (use fits in simp)
  have saved: "saved_under ?c1 ! cell_index (row, col) = (\<lambda>u v. read_pixel fb u v m) (?x + col) (?y + row)"
    if "row < 5" "col < 5" for row col
    using saved_pixel [OF that] assms(2) by (simp add: cursor_ok_def)
  have at: "cur_position ?c1 = Some (?x, ?y)" by simp
  note e = erase_restores [OF assms(1) fits at saved]
  let ?m2 = "snd (erase_mouse_cursor fb (?c1, ?m1))"
  have "?m2 = m"
  proof
    fix a
    show "?m2 a = m a"
    proof (cases "\<exists>u v. under_cursor (?x, ?y) u v \<and> a \<in> pixel_bytes fb u v")
      case True
      then obtain u v where uv: "under_cursor (?x, ?y) u v" "a \<in> pixel_bytes fb u v" by blast
      then have vis: "visible fb u v" using in_cursor_iff(2) [OF fits] by blast
      have "read_pixel fb u v ?m2 = read_pixel fb u v m" using e(1) [OF _ _ vis, of ?m1] uv(1) by simp
      then have "color_bytes fb (read_pixel fb u v ?m2) = color_bytes fb (read_pixel fb u v m)" by simp
      with uv(2) show ?thesis by (auto simp: read_pixel_visible [OF assms(1) vis] pixel_bytes_def)
    next
      case False
      then have "?m2 a = ?m1 a" by (intro e(2)) auto
      also have "\<dots> = m a" using False d by (auto simp: drawn_def)
      finally show ?thesis .
    qed
  qed
  moreover have "erase_mouse_cursor fb (?c1, ?m1) = (?c1\<lparr>cur_position := None\<rparr>, ?m2)"
    using e(3) [of ?m1] by (metis prod.collapse)
  moreover have "read_pixel fb u v (snd (erase_mouse_cursor fb (?c1, m'))) =
      read_pixel fb u v (if under_cursor (?x, ?y) u v then m else m')" if "visible fb u v" for m' u v
    using e(1) [OF _ _ that, of m'] by simp
  ultimately show ?thesis
    using draw_cursor_cases(2) [OF assms(1) fits, of c m] d assms(2) fits
    by (simp add: cursor_ok_def erase_mouse_cursor_def [of fb "(_\<lparr>cur_position := None\<rparr>, _)"] save_pixels_def)
qed

text \<open>The cursor leaves no trace: drawing it and erasing it gives the memory back byte for byte, and what
  else was drawn in between stays: every pixel that was not under the cursor keeps the color it was given,
  and the 25 pixels under it get back the color they had before. A cursor that does not fit the screen
  is not drawn, and erasing twice is erasing once.\<close>

theorem cursor_roundtrip:
  assumes "is_drawable fb" and "cursor_ok c" and "cur_position c = None"
  shows "let (c1, m1) = draw_mouse_cursor fb p (c, m); (c2, m2) = erase_mouse_cursor fb (c1, m1) in
      m2 = m \<and> cursor_ok c2 \<and> erase_mouse_cursor fb (c2, m2) = (c2, m2) \<and>
      (cursor_fits fb (at_x p, at_y p) \<longrightarrow>
        drawn fb (under_cursor (at_x p, at_y p)) WHITE m m1 \<and>
        (\<forall>m' u v. visible fb u v \<longrightarrow> read_pixel fb u v (snd (erase_mouse_cursor fb (c1, m'))) =
           read_pixel fb u v (if under_cursor (at_x p, at_y p) u v then m else m'))) \<and>
      (\<not> cursor_fits fb (at_x p, at_y p) \<longrightarrow> m1 = m)"
  by (rule draw_erase [OF assms])

text \<open>A screen of 7 by 7 pixels.\<close>

definition small_screen :: Framebuffer where
  "small_screen = \<lparr>fb_ptr = 4096, fb_size = \<lparr>size_width = 7, size_height = 7\<rparr>, fb_stride = 7, fb_format = Rgb,
     fb_byte_len = 196\<rparr>"

lemma cursor_roundtrip_witness:
  "snd (erase_mouse_cursor small_screen (draw_mouse_cursor small_screen \<lparr>at_x = 1, at_y = 1\<rparr> (initial_cursor, ucast))) = ucast \<and>
   read_pixel small_screen 2 2 (snd (draw_mouse_cursor small_screen \<lparr>at_x = 1, at_y = 1\<rparr> (initial_cursor, ucast))) = WHITE"
proof -
  have fb: "is_drawable small_screen"
    by (simp add: is_drawable_def small_screen_def drawable_format_def required_byte_len_def checked_mul_def
        word_less_nat_alt word_le_nat_alt)
  have "cursor_ok initial_cursor" "cur_position initial_cursor = None" by (simp_all add: cursor_ok_def initial_cursor_def)
  from cursor_roundtrip [OF fb this, of "\<lparr>at_x = 1, at_y = 1\<rparr>" ucast]
  have r: "let (c1, m1) = draw_mouse_cursor small_screen \<lparr>at_x = 1, at_y = 1\<rparr> (initial_cursor, ucast);
        (c2, m2) = erase_mouse_cursor small_screen (c1, m1) in
      m2 = ucast \<and> drawn small_screen (under_cursor (1, 1)) WHITE ucast m1"
    by (simp add: rect_fits_def small_screen_def MOUSE_CURSOR_SIZE_def Let_def split_beta)
  have "visible small_screen 2 2" "under_cursor (1, 1) 2 2"
    by (simp_all add: visible_def small_screen_def word_less_nat_alt in_rect_def MOUSE_CURSOR_SIZE_def)
  with r show ?thesis by (simp add: Let_def split_beta drawn_def)
qed

end
