(* ===== verification/Commands.thy ===== *)
theory Commands
  imports Graphics
begin

text \<open>
  Shell commands, \<^verbatim>\<open>src/src/commands/\<close>: splitting a line into a command, arguments and flags, unique
  prefix completion, and dispatch. What a command does is the effect it requests from the other subsystems.
\<close>

section \<open>Text\<close>

text \<open>\<open>char::is_whitespace\<close>: the characters with the Unicode property \<open>White_Space\<close>.\<close>

definition is_whitespace :: "nat \<Rightarrow> bool" where
  "is_whitespace c \<longleftrightarrow>
     0x9 \<le> c \<and> c \<le> 0xd \<or> c = 0x20 \<or> c = 0x85 \<or> c = 0xa0 \<or> c = 0x1680 \<or> 0x2000 \<le> c \<and> c \<le> 0x200a \<or>
     c = 0x2028 \<or> c = 0x2029 \<or> c = 0x202f \<or> c = 0x205f \<or> c = 0x3000"

text \<open>\<open>str::split_whitespace\<close>: the maximal runs of characters that are not whitespace.\<close>

function split_whitespace :: "str \<Rightarrow> str list" where
  "split_whitespace s =
     (case dropWhile is_whitespace s of
        [] \<Rightarrow> []
      | c # cs \<Rightarrow> takeWhile (Not \<circ> is_whitespace) (c # cs) #
                  split_whitespace (dropWhile (Not \<circ> is_whitespace) (c # cs)))"
  by pat_completeness auto
termination
proof (relation "measure length", simp, goal_cases)
  case (1 s c cs)
  then have "\<not> is_whitespace c" by (metis dropWhile_eq_Cons_conv)
  moreover have "length (c # cs) \<le> length s" using length_dropWhile_le [of is_whitespace s] 1 by simp
  ultimately show ?case using length_dropWhile_le [of "Not \<circ> is_whitespace" cs] by (auto simp: le_less_trans)
qed

declare split_whitespace.simps [simp del]

definition starts_with :: "str \<Rightarrow> str \<Rightarrow> bool" where
  "starts_with s p \<longleftrightarrow> take (length p) s = p"

section \<open>Parsing\<close>

datatype Command =
  Help | About | History | Echo | Meminfo | Taskinfo | Font | Clear | Shutdown | EmptyLine | Unknown | Uptime

definition command_names :: "str list" where
  "command_names = map lit COMMAND_NAMES"

definition complete_command :: "str \<Rightarrow> str option" where
  "complete_command prefix =
     (if prefix = [] \<or> list_ex is_whitespace prefix then None
      else case filter (\<lambda>command. starts_with command prefix) command_names of
             [] \<Rightarrow> None
           | command # others \<Rightarrow> if others = [] then Some command else None)"

record ParsedCommand =
  pc_command :: Command
  pc_args :: "str list"
  pc_flags :: "str list"

definition classify :: "str \<Rightarrow> Command" where
  "classify verb =
     (if verb = lit ''help'' then Help
      else if verb = lit ''about'' then About
      else if verb = lit ''history'' then History
      else if verb = lit ''echo'' then Echo
      else if verb = lit ''meminfo'' then Meminfo
      else if verb = lit ''taskinfo'' then Taskinfo
      else if verb = lit ''font'' then Font
      else if verb = lit ''clear'' then Clear
      else if verb = lit ''shutdown'' then Shutdown
      else if verb = lit ''uptime'' then Uptime
      else if verb = [] then EmptyLine
      else Unknown)"

text \<open>The loop that sorts the tokens after the verb into arguments and flags.\<close>

fun sort_tokens :: "str list \<Rightarrow> str list \<Rightarrow> str list \<Rightarrow> str list \<times> str list" where
  "sort_tokens [] args flags = (args, flags)"
| "sort_tokens (token # tokens) args flags =
     (if starts_with token (lit ''-'') then sort_tokens tokens args (flags @ [token])
      else sort_tokens tokens (args @ [token]) flags)"

definition parse :: "str \<Rightarrow> ParsedCommand" where
  "parse input =
     (let tokens = split_whitespace input;
          verb = (case tokens of [] \<Rightarrow> [] | t # _ \<Rightarrow> t);
          (args, flags) = sort_tokens (tl tokens) [] []
      in \<lparr>pc_command = classify verb, pc_args = args, pc_flags = flags\<rparr>)"

section \<open>Dispatch\<close>

text \<open>
  What \<open>run_command\<close> asks for: a line on the console, the prints of other subsystems, a font size, a
  cleared console, or the end.
\<close>

datatype Effect =
  PrintLine str | PrintHistory | PrintMeminfo | PrintTaskinfo
| SetFontSize RasterHeight | ResetConsole | ExitQemu u32 | PrintUptime

fun join :: "str \<Rightarrow> str list \<Rightarrow> str" where
  "join sep [] = []"
| "join sep [t] = t"
| "join sep (t # ts) = t @ sep @ join sep ts"

text \<open>The lines printed for one topic and, for a word that is no command, the word in the line; the whole list.\<close>

fun topic_lines :: "Command \<Rightarrow> str \<Rightarrow> str list" where
  "topic_lines Help cmd =
     [lit ''help - show available commands'',
      lit ''usage: help [command]'',
      lit ''example: help echo'']"
| "topic_lines Echo cmd =
     [lit ''echo - print text to the screen'',
      lit ''usage: echo <text>'',
      lit ''example: echo hello world'']"
| "topic_lines Clear cmd =
     [lit ''clear - clear the screen and reset cursor'',
      lit ''usage: clear'']"
| "topic_lines About cmd =
     [lit ''about - show information about AgnostOS'',
      lit ''usage: about'']"
| "topic_lines History cmd =
     [lit ''history - reprint visible screen history'',
      lit ''usage: history'']"
| "topic_lines Font cmd =
     [lit ''font - change the font size'',
      lit ''usage: font <16|20|24|32>'',
      lit ''example: font 24'']"
| "topic_lines Meminfo cmd =
     [lit ''meminfo - show heap memory information'',
      lit ''usage: meminfo'']"
| "topic_lines Taskinfo cmd =
     [lit ''taskinfo - show scheduler task statistics'',
      lit ''usage: taskinfo'']"
| "topic_lines Uptime cmd =
     [lit ''uptime - tells how long the system has been running for'',
      lit ''usage: uptime'']"
| "topic_lines Shutdown cmd =
     [lit ''shutdown - shuts the machine down instantly'',
      lit ''usage: shutdown'']"
| "topic_lines Unknown cmd = [lit ''unknown command: '' @ cmd]"
| "topic_lines EmptyLine cmd = []"

definition overview_lines :: "str list" where
  "overview_lines =
     [lit ''AgnostOS shell - available commands:'',
      [],
      lit ''  help      show this message, or help for a specific command'',
      lit ''  echo      print text to the screen'',
      lit ''  clear     clear the screen'',
      lit ''  about     show OS information'',
      lit ''  history   reprint screen history'',
      lit ''  font      change font size'',
      lit ''  meminfo   show heap memory information'',
      lit ''  taskinfo  show scheduler task statistics'',
      lit ''  uptime    tells how long the system has been running for'',
      lit ''  shutdown  shuts the machine down'',
      [],
      lit ''tip: type 'help <command>' for more details'',
      lit ''tip: ctrl+c to cancel, ctrl+plus/minus to zoom'']"

definition print_help :: "str list \<Rightarrow> Effect list" where
  "print_help args =
     map PrintLine (case args of [] \<Rightarrow> overview_lines | cmd # _ \<Rightarrow> topic_lines (pc_command (parse cmd)) cmd)"

definition font_size_of :: "str \<Rightarrow> RasterHeight option" where
  "font_size_of arg =
     (if arg = lit ''16'' then Some Size16
      else if arg = lit ''20'' then Some Size20
      else if arg = lit ''24'' then Some Size24
      else if arg = lit ''32'' then Some Size32
      else None)"

definition run_command :: "str \<Rightarrow> Effect list" where
  "run_command command =
     (let parsed = parse command; args = pc_args parsed in
      case pc_command parsed of
        Help \<Rightarrow> print_help args
      | About \<Rightarrow> [PrintLine (lit (''AgnostOS v0.1 - written in Rust '' @ [CHR 0x0a] @ '' codeberg.com/guru901/agnostos''))]
      | History \<Rightarrow> [PrintHistory]
      | Echo \<Rightarrow> [PrintLine (join (lit '' '') args)]
      | Meminfo \<Rightarrow> [PrintMeminfo]
      | Taskinfo \<Rightarrow> [PrintTaskinfo]
      | Font \<Rightarrow>
         (case font_size_of (case args of [] \<Rightarrow> [] | a # _ \<Rightarrow> a) of
            Some height \<Rightarrow> [SetFontSize height]
          | None \<Rightarrow> [PrintLine (lit ''usage: font <16|20|24|32>'')])
      | Clear \<Rightarrow> [ResetConsole]
      | Shutdown \<Rightarrow> [ExitQemu 0]
      | Uptime \<Rightarrow> [PrintUptime]
      | EmptyLine \<Rightarrow> []
      | Unknown \<Rightarrow> [PrintLine (lit ''Unknown command'')])"

section \<open>Tokens\<close>

text \<open>
  A line as its tokens, each with the whitespace before it. Every token is a nonempty run of
  characters that are not whitespace; the whitespace is nonempty except perhaps before the first.
\<close>

definition spaced :: "(str \<times> str) list \<Rightarrow> bool" where
  "spaced ps \<longleftrightarrow>
     (\<forall>(g, t) \<in> set ps. list_all is_whitespace g \<and> t \<noteq> [] \<and> list_all (Not \<circ> is_whitespace) t) \<and>
     (\<forall>(g, t) \<in> set (tl ps). g \<noteq> [])"

definition line_of :: "(str \<times> str) list \<Rightarrow> str \<Rightarrow> str" where
  "line_of ps trail = concat (map (\<lambda>(g, t). g @ t) ps) @ trail"

lemma split_whitespace_blank: "list_all is_whitespace w \<Longrightarrow> split_whitespace w = []"
  by (subst split_whitespace.simps) (simp add: list_all_iff dropWhile_eq_Nil_conv [THEN iffD2])

lemma split_whitespace_token:
  assumes "list_all is_whitespace g" and "t \<noteq> []" and "list_all (Not \<circ> is_whitespace) t"
    and "rest = [] \<or> is_whitespace (hd rest)"
  shows "split_whitespace (g @ t @ rest) = t # split_whitespace rest"
proof -
  obtain c cs where t: "t = c # cs" using assms(2) by (cases t) auto
  have drop: "dropWhile is_whitespace (g @ t @ rest) = t @ rest"
    using assms(1,3) t by (simp add: dropWhile_append2 list_all_iff)
  have "takeWhile (Not \<circ> is_whitespace) (t @ rest) = t" "dropWhile (Not \<circ> is_whitespace) (t @ rest) = rest"
    using assms(3,4) by (cases rest; simp add: takeWhile_append2 dropWhile_append2 list_all_iff)+
  then show ?thesis
    unfolding split_whitespace.simps [of "g @ t @ rest"] drop by (simp add: t split: if_splits)
qed

lemma spaced_Cons:
  "spaced (p # ps) \<longleftrightarrow> list_all is_whitespace (fst p) \<and> snd p \<noteq> [] \<and> list_all (Not \<circ> is_whitespace) (snd p) \<and>
     spaced ps \<and> (ps \<noteq> [] \<longrightarrow> fst (hd ps) \<noteq> [])"
  by (cases p; cases ps) (auto simp: spaced_def)

lemma split_whitespace_line:
  assumes "spaced ps" and "list_all is_whitespace trail"
  shows "split_whitespace (line_of ps trail) = map snd ps"
  using assms
proof (induction ps)
  case Nil
  then show ?case by (simp add: line_of_def split_whitespace_blank)
next
  case (Cons p ps)
  obtain g t where p: "p = (g, t)" by fastforce
  have "line_of ps trail = [] \<or> is_whitespace (hd (line_of ps trail))"
  proof (cases ps)
    case Nil
    with Cons.prems(2) show ?thesis by (cases trail) (auto simp: line_of_def)
  next
    case (Cons q qs)
    then have "fst q \<noteq> []" "list_all is_whitespace (fst q)" using \<open>spaced (p # ps)\<close> by (simp_all add: spaced_Cons)
    with Cons show ?thesis by (cases q; cases "fst q") (auto simp: line_of_def)
  qed
  with Cons p split_whitespace_token [of g t "line_of ps trail"] show ?case
    by (simp add: spaced_Cons line_of_def)
qed

lemma sort_tokens_filter:
  "sort_tokens ts args flags =
     (args @ filter (\<lambda>t. \<not> starts_with t (lit ''-'')) ts, flags @ filter (\<lambda>t. starts_with t (lit ''-'')) ts)"
  by (induction ts arbitrary: args flags) auto

text \<open>Parsing depends only on the tokens of a line, however they are spaced: the first token is the
  command, and of the others those that start with a dash are the flags and the rest the arguments,
  each in the order typed and none lost. A blank line parses to the empty command.\<close>

theorem parse_tokens:
  assumes "spaced ps" and "list_all is_whitespace trail"
  shows "parse (line_of ps trail) =
    (case map snd ps of
       [] \<Rightarrow> \<lparr>pc_command = EmptyLine, pc_args = [], pc_flags = []\<rparr>
     | verb # ts \<Rightarrow> \<lparr>pc_command = classify verb,
         pc_args = filter (\<lambda>t. take 1 t \<noteq> [45]) ts, pc_flags = filter (\<lambda>t. take 1 t = [45]) ts\<rparr>)"
  using assms
  by (cases ps) (auto simp: parse_def split_whitespace_line sort_tokens_filter starts_with_def lit_def classify_def)

text \<open>The line \<^verbatim>\<open>  font --temporary 24 \<close>.\<close>

lemma parse_tokens_witness:
  "parse (lit ''  font --temporary 24 '') =
     \<lparr>pc_command = Font, pc_args = [lit ''24''], pc_flags = [lit ''--temporary'']\<rparr>"
proof -
  let ?ps = "[(lit ''  '', lit ''font''), (lit '' '', lit ''--temporary''), (lit '' '', lit ''24'')]"
  have "spaced ?ps" "list_all is_whitespace (lit '' '')"
    by (simp_all add: spaced_Cons lit_def is_whitespace_def spaced_def [of "[]"])
  from parse_tokens [OF this] show ?thesis by (simp add: line_of_def lit_def classify_def)
qed

section \<open>Completion\<close>

lemma filter_single: "distinct xs \<Longrightarrow> (case filter P xs of [] \<Rightarrow> None | y # ys \<Rightarrow> if ys = [] then Some y else None) = Some c
  \<longleftrightarrow> {x \<in> set xs. P x} = {c}"
proof -
  assume d: "distinct xs"
  have eq: "{x \<in> set xs. P x} = set (filter P xs)" by auto
  show ?thesis
  proof (cases "filter P xs")
    case Nil
    then show ?thesis by (simp add: eq del: set_filter)
  next
    case (Cons y ys)
    have "distinct (y # ys)" using distinct_filter [OF d, of P] Cons by simp
    with Cons show ?thesis by (cases ys) (auto simp: eq simp del: set_filter)
  qed
qed

lemma command_names_eq:
  "command_names =
    [[97, 98, 111, 117, 116],
     [99, 108, 101, 97, 114],
     [101, 99, 104, 111],
     [102, 111, 110, 116],
     [104, 101, 108, 112],
     [104, 105, 115, 116, 111, 114, 121],
     [109, 101, 109, 105, 110, 102, 111],
     [115, 104, 117, 116, 100, 111, 119, 110],
     [116, 97, 115, 107, 105, 110, 102, 111],
     [117, 112, 116, 105, 109, 101]]"
  by (simp add: command_names_def COMMAND_NAMES_def lit_def)

lemma parse_word:
  assumes "t \<noteq> []" and "list_all (Not \<circ> is_whitespace) t"
  shows "parse t = \<lparr>pc_command = classify t, pc_args = [], pc_flags = []\<rparr>"
proof -
  have "split_whitespace t = [t]"
    using split_whitespace_line [of "[([], t)]" "[]"] assms by (simp add: spaced_def line_of_def)
  then show ?thesis by (simp add: parse_def)
qed

lemma command_names_facts:
  assumes "c \<in> set command_names"
  shows "complete_command c = Some c" "parse c = \<lparr>pc_command = classify c, pc_args = [], pc_flags = []\<rparr>"
    "classify c \<noteq> Unknown" "classify c \<noteq> EmptyLine"
proof -
  have "list_all (\<lambda>c. complete_command c = Some c) command_names"
    unfolding complete_command_def command_names_eq by (simp add: starts_with_def is_whitespace_def)
  then show "complete_command c = Some c" using assms by (simp add: list_all_iff)
  have "list_all (\<lambda>c. c \<noteq> [] \<and> list_all (Not \<circ> is_whitespace) c) command_names"
    unfolding command_names_eq by (simp add: is_whitespace_def)
  then show "parse c = \<lparr>pc_command = classify c, pc_args = [], pc_flags = []\<rparr>"
    using assms by (simp add: list_all_iff parse_word)
  have "list_all (\<lambda>c. classify c \<noteq> Unknown \<and> classify c \<noteq> EmptyLine) command_names"
    unfolding command_names_eq by (simp add: classify_def lit_def)
  then show "classify c \<noteq> Unknown" "classify c \<noteq> EmptyLine" using assms by (simp_all add: list_all_iff)
qed

lemma command_names_distinct: "distinct command_names"
  by (simp add: command_names_eq)

text \<open>Tab completes to a command exactly when the typed text is nonempty, has no whitespace and is a
  prefix of that one command name only; the completed name is a command that the parser knows, and
  completing it again gives it back.\<close>

theorem complete_unique:
  "(complete_command p = Some c \<longleftrightarrow>
     p \<noteq> [] \<and> \<not> list_ex is_whitespace p \<and> {n \<in> set command_names. take (length p) n = p} = {c}) \<and>
   (complete_command p = Some c \<longrightarrow>
     complete_command c = Some c \<and> pc_command (parse c) \<notin> {Unknown, EmptyLine} \<and> pc_args (parse c) = [])"
proof -
  have iff: "complete_command p = Some c \<longleftrightarrow>
     p \<noteq> [] \<and> \<not> list_ex is_whitespace p \<and> {n \<in> set command_names. take (length p) n = p} = {c}"
    using filter_single [OF command_names_distinct, of "\<lambda>n. take (length p) n = p" c]
    by (simp add: complete_command_def starts_with_def)
  moreover have "complete_command c = Some c \<and> pc_command (parse c) \<notin> {Unknown, EmptyLine} \<and> pc_args (parse c) = []"
    if "complete_command p = Some c"
  proof -
    from that iff have "c \<in> set command_names" by blast
    from command_names_facts [OF this] show ?thesis by simp
  qed
  ultimately show ?thesis by blast
qed

lemma complete_unique_witness:
  "complete_command (lit ''upt'') = Some (lit ''uptime'') \<and> pc_command (parse (lit ''uptime'')) \<noteq> Unknown"
proof -
  have "complete_command (lit ''upt'') = Some (lit ''uptime'')"
    by (simp add: complete_command_def command_names_eq starts_with_def is_whitespace_def lit_def)
  with complete_unique [of "lit ''upt''" "lit ''uptime''"] show ?thesis by simp
qed

section \<open>Help\<close>

definition first_word :: "str \<Rightarrow> str" where
  "first_word line = takeWhile (Not \<circ> is_whitespace) (dropWhile is_whitespace line)"

lemma overview_words:
  "map first_word (filter (\<lambda>l. take 2 l = lit ''  '') overview_lines) =
     map lit [''help'', ''echo'', ''clear'', ''about'', ''history'', ''font'', ''meminfo'', ''taskinfo'', ''uptime'', ''shutdown'']"
  by (simp add: overview_lines_def first_word_def is_whitespace_def lit_def)

lemma topic_first_words:
  assumes "c \<in> set command_names"
  shows "\<exists>line rest. topic_lines (classify c) c = line # rest \<and> first_word line = c \<and>
    (\<exists>l \<in> set rest. take (7 + length c) l = lit ''usage: '' @ c)"
proof -
  have "list_all (\<lambda>c. case topic_lines (classify c) c of [] \<Rightarrow> False
      | line # rest \<Rightarrow> first_word line = c \<and> list_ex (\<lambda>l. take (7 + length c) l = lit ''usage: '' @ c) rest) command_names"
    unfolding command_names_eq by (simp add: classify_def lit_def first_word_def is_whitespace_def)
  then show ?thesis using assms by (cases "topic_lines (classify c) c") (auto simp: list_all_iff list_ex_iff)
qed

lemma parse_help_topic:
  assumes "c \<in> set command_names"
  shows "parse (lit ''help '' @ c) = \<lparr>pc_command = Help,
    pc_args = (if take 1 c = [45] then [] else [c]), pc_flags = (if take 1 c = [45] then [c] else [])\<rparr>"
proof -
  have "list_all (\<lambda>c. c \<noteq> [] \<and> list_all (Not \<circ> is_whitespace) c) command_names"
    unfolding command_names_eq by (simp add: is_whitespace_def)
  then have "spaced [([], lit ''help''), (lit '' '', c)]"
    using assms by (auto simp: spaced_def list_all_iff lit_def is_whitespace_def)
  from split_whitespace_line [OF this, of "[]"]
  have "split_whitespace (lit ''help '' @ c) = [lit ''help'', c]" by (simp add: line_of_def lit_def)
  then show ?thesis by (simp add: parse_def classify_def starts_with_def lit_def)
qed

text \<open>Help knows every command and no other: the indented lines of the overview start with the command
  names, each exactly once, and \<^verbatim>\<open>help\<close> with a command name prints a block whose first line starts with
  that name and which has a usage line for it. Neither touches anything but the console.\<close>

theorem help_complete:
  "(\<exists>lines. run_command (lit ''help'') = map PrintLine lines \<and>
      (let words = map first_word (filter (\<lambda>l. take 2 l = lit ''  '') lines) in
       distinct words \<and> set words = set command_names)) \<and>
   (\<forall>c \<in> set command_names. \<exists>line rest. run_command (lit ''help '' @ c) = map PrintLine (line # rest) \<and>
      first_word line = c \<and> (\<exists>l \<in> set rest. take (7 + length c) l = lit ''usage: '' @ c))"
proof (intro conjI ballI)
  have "run_command (lit ''help'') = map PrintLine overview_lines"
    using parse_word [of "lit ''help''"]
    by (simp add: run_command_def print_help_def lit_def is_whitespace_def classify_def)
  moreover have "let words = map first_word (filter (\<lambda>l. take 2 l = lit ''  '') overview_lines) in
      distinct words \<and> set words = set command_names"
    unfolding overview_words command_names_eq Let_def by (auto simp: lit_def)
  ultimately show "\<exists>lines. run_command (lit ''help'') = map PrintLine lines \<and>
      (let words = map first_word (filter (\<lambda>l. take 2 l = lit ''  '') lines) in
       distinct words \<and> set words = set command_names)" by blast
next
  fix c assume c: "c \<in> set command_names"
  have "list_all (\<lambda>c. take 1 c \<noteq> [45]) command_names" by (simp add: command_names_eq)
  then have "run_command (lit ''help '' @ c) = map PrintLine (topic_lines (classify c) c)"
    using c parse_help_topic [OF c] command_names_facts(2) [OF c]
    by (simp add: run_command_def print_help_def list_all_iff)
  with topic_first_words [OF c] show "\<exists>line rest. run_command (lit ''help '' @ c) = map PrintLine (line # rest) \<and>
    first_word line = c \<and> (\<exists>l \<in> set rest. take (7 + length c) l = lit ''usage: '' @ c)" by metis
qed

lemma help_complete_witness:
  "\<exists>line rest. run_command (lit ''help '' @ lit ''font'') = map PrintLine (line # rest) \<and> first_word line = lit ''font''"
proof -
  have "lit ''font'' \<in> set command_names" by (simp add: command_names_eq lit_def)
  with help_complete show ?thesis by metis
qed

end
