(* ===== verification/Console.thy ===== *)
theory Console
  imports Commands
begin

text \<open>
  The console, \<^verbatim>\<open>src/src/console/mod.rs\<close>: the writer with its cursor, the cells of the current line and
  the history, editing of the input line, recall, zoom, and the writer for fatal exceptions. An
  operation takes the global writer (\<open>None\<close> before \<open>init\<close>) with the memory and returns them updated;
  operations that can panic return an option. Text is a list of characters, with the byte offsets of
  UTF-8 where the code computes with them. Columns and rows are machine words; counters that the length
  of a list bounds are natural numbers. The lock is not modelled.
\<close>

section \<open>Strings and byte offsets\<close>

definition utf8_len :: "nat \<Rightarrow> nat" where
  "utf8_len c = (if c < 0x80 then 1 else if c < 0x800 then 2 else if c < 0x10000 then 3 else 4)"

definition byte_len :: "str \<Rightarrow> nat" where
  "byte_len s = sum_list (map utf8_len s)"

fun indices_from :: "nat \<Rightarrow> str \<Rightarrow> (nat \<times> nat) list" where
  "indices_from i [] = []"
| "indices_from i (c # cs) = (i, c) # indices_from (i + utf8_len c) cs"

abbreviation char_indices :: "str \<Rightarrow> (nat \<times> nat) list" where
  "char_indices s \<equiv> indices_from 0 s"

definition nth_opt :: "'a list \<Rightarrow> nat \<Rightarrow> 'a option" where
  "nth_opt xs n = (if n < length xs then Some (xs ! n) else None)"

text \<open>The parts of a string before and after a byte offset; \<open>None\<close> inside a character or past the end, where
  \<open>String\<close>'s methods panic.\<close>

fun split_at_byte :: "str \<Rightarrow> nat \<Rightarrow> (str \<times> str) option" where
  "split_at_byte s 0 = Some ([], s)"
| "split_at_byte [] (Suc i) = None"
| "split_at_byte (c # cs) (Suc i) =
     (if Suc i < utf8_len c then None
      else map_option (\<lambda>(a, b). (c # a, b)) (split_at_byte cs (Suc i - utf8_len c)))"

definition string_insert :: "str \<Rightarrow> nat \<Rightarrow> nat \<Rightarrow> str option" where
  "string_insert s i c = map_option (\<lambda>(a, b). a @ c # b) (split_at_byte s i)"

definition remove_bytes :: "str \<Rightarrow> nat \<Rightarrow> nat \<Rightarrow> str option" where
  "remove_bytes s i j =
     (if i > j then None
      else do { p \<leftarrow> split_at_byte s i; q \<leftarrow> split_at_byte s j; Some (fst p @ snd q) })"

definition prompt :: str where "prompt = lit PROMPT"

section \<open>State\<close>

record Cell =
  cell_column :: usize
  cell_row :: usize

record KWriter =
  kw_fb :: Framebuffer
  kw_column :: usize
  kw_row :: usize
  glyph_cells :: "Cell list"
  kw_history :: "str list"
  current_line :: str
  input_cursor :: nat
  kw_font_size :: RasterHeight
  history_index :: "nat option"

type_synonym console = "KWriter option \<times> memory"

definition console_init :: "Framebuffer \<Rightarrow> KWriter" where
  "console_init fb = \<lparr>kw_fb = fb, kw_column = 0, kw_row = 0, glyph_cells = [], kw_history = [], current_line = [],
     input_cursor = 0, kw_font_size = Size16, history_index = None\<rparr>"

definition font_h :: "RasterHeight \<Rightarrow> usize" where
  "font_h dims = raster_pixels dims + 2"

definition font_w :: "Font \<Rightarrow> RasterHeight \<Rightarrow> usize" where
  "font_w font dims = font_width font dims"

definition PixelSize_new :: "usize \<Rightarrow> usize \<Rightarrow> PixelSize option" where
  "PixelSize_new width height =
     (if width \<noteq> 0 \<and> height \<noteq> 0 then Some \<lparr>size_width = width, size_height = height\<rparr> else None)"

section \<open>Output\<close>

definition kw_x :: "Font \<Rightarrow> KWriter \<Rightarrow> usize" where
  "kw_x font w = kw_column w * font_w font (kw_font_size w)"

definition kw_y :: "KWriter \<Rightarrow> usize" where
  "kw_y w = kw_row w * font_h (kw_font_size w)"

definition check_scroll :: "usize \<Rightarrow> KWriter \<times> memory \<Rightarrow> KWriter \<times> memory" where
  "check_scroll fh s =
     (let w = fst s; threshold = saturating_sub (fb_height (kw_fb w)) (3 * fh) in
      if kw_y w \<ge> threshold
      then let scroll_by = kw_y w - threshold + fh
           in (w\<lparr>kw_row := saturating_sub threshold fh div fh\<rparr>, scroll_rows (kw_fb w) scroll_by (snd s))
      else s)"

text \<open>One character of \<open>write_str\<close>; \<open>10\<close> is the newline.\<close>

definition write_char :: "Font \<Rightarrow> nat \<Rightarrow> KWriter \<times> memory \<Rightarrow> KWriter \<times> memory" where
  "write_char font ch s =
     (let w = fst s; width = fb_width (kw_fb w); fh = font_h (kw_font_size w); fw = font_w font (kw_font_size w) in
      if ch = 10
      then check_scroll fh (w\<lparr>kw_history := kw_history w @ [current_line w], current_line := [], glyph_cells := [],
                              kw_column := 0, kw_row := kw_row w + 1\<rparr>, snd s)
      else let w = w\<lparr>current_line := current_line w @ [ch]\<rparr>;
               w = (if (kw_column w + 1) * fw > width then w\<lparr>kw_column := 0, kw_row := kw_row w + 1\<rparr> else w);
               m = draw_text font (kw_fb w) [ch] (kw_column w) (kw_row w) WHITE (Some (kw_font_size w)) (snd s)
           in (w\<lparr>glyph_cells := glyph_cells w @ [\<lparr>cell_column = kw_column w, cell_row = kw_row w\<rparr>],
                 kw_column := kw_column w + 1\<rparr>, m))"

definition write_str :: "Font \<Rightarrow> str \<Rightarrow> KWriter \<times> memory \<Rightarrow> KWriter \<times> memory" where
  "write_str font text s = fold (write_char font) text s"

definition with_writer :: "(KWriter \<times> memory \<Rightarrow> KWriter \<times> memory) \<Rightarrow> console \<Rightarrow> console" where
  "with_writer f s = (case fst s of None \<Rightarrow> s | Some w \<Rightarrow> (case f (w, snd s) of (w, m) \<Rightarrow> (Some w, m)))"

definition kprint :: "Font \<Rightarrow> str \<Rightarrow> console \<Rightarrow> console" where
  "kprint font text = with_writer (write_str font text)"

definition kprintln :: "Font \<Rightarrow> str \<Rightarrow> console \<Rightarrow> console" where
  "kprintln font text = kprint font (text @ [10])"

definition reset :: "console \<Rightarrow> console" where
  "reset = with_writer (\<lambda>(w, m).
     (w\<lparr>kw_column := 0, kw_row := 0, glyph_cells := [], current_line := [], input_cursor := 0, history_index := None\<rparr>,
      clear_background (kw_fb w) BLACK m))"

definition set_font_size :: "RasterHeight \<Rightarrow> console \<Rightarrow> console" where
  "set_font_size font_size = with_writer (\<lambda>(w, m). (w\<lparr>kw_font_size := font_size\<rparr>, m))"

section \<open>The input line\<close>

definition insert_char_at :: "str \<Rightarrow> nat \<Rightarrow> nat \<Rightarrow> str option" where
  "insert_char_at line cursor ch =
     string_insert line (case nth_opt (char_indices line) cursor of None \<Rightarrow> byte_len line | Some p \<Rightarrow> fst p) ch"

definition remove_char_at :: "str \<Rightarrow> nat \<Rightarrow> str option" where
  "remove_char_at line cursor =
     (let cursor = min cursor (length line) in
      if cursor = 0 then Some line
      else let start = (case nth_opt (char_indices line) (cursor - 1) of None \<Rightarrow> 0 | Some p \<Rightarrow> fst p);
               e = (case nth_opt (char_indices line) cursor of None \<Rightarrow> byte_len line | Some p \<Rightarrow> fst p)
           in remove_bytes line start e)"

definition move_cursor_left :: "nat \<Rightarrow> nat" where
  "move_cursor_left cursor = cursor - 1"

definition move_cursor_right :: "nat \<Rightarrow> nat \<Rightarrow> nat" where
  "move_cursor_right cursor line_length = min (cursor + 1) line_length"

text \<open>A division by zero panics.\<close>

definition cell_position :: "nat \<Rightarrow> usize \<Rightarrow> usize \<Rightarrow> (usize \<times> usize) option" where
  "cell_position index cell_w framebuffer_width =
     (if cell_w = 0 \<or> framebuffer_width = 0 then None
      else let pixel_x = of_nat index * cell_w
           in Some (pixel_x mod framebuffer_width div cell_w, pixel_x div framebuffer_width))"

definition set_input_cursor :: "Font \<Rightarrow> KWriter \<Rightarrow> KWriter" where
  "set_input_cursor font w =
     (case nth_opt (glyph_cells w) (length prompt + input_cursor w) of
        Some cell \<Rightarrow> w\<lparr>kw_column := cell_column cell, kw_row := cell_row cell\<rparr>
      | None \<Rightarrow>
         (if glyph_cells w = [] then w
          else let cell = List.last (glyph_cells w);
                   w = w\<lparr>kw_column := cell_column cell + 1, kw_row := cell_row cell\<rparr>
               in if (kw_column w + 1) * font_w font (kw_font_size w) > fb_width (kw_fb w)
                  then w\<lparr>kw_column := 0, kw_row := kw_row w + 1\<rparr> else w))"

text \<open>The loop of \<open>redraw_input_line\<close> over the characters of the line and their indices.\<close>

fun redraw_loop :: "Font \<Rightarrow> usize \<Rightarrow> nat \<Rightarrow> str \<Rightarrow> KWriter \<times> memory \<Rightarrow> (KWriter \<times> memory) option" where
  "redraw_loop font start_row index [] s = Some s"
| "redraw_loop font start_row index (ch # text) s =
     (let w = fst s in
      case cell_position index (font_w font (kw_font_size w)) (fb_width (kw_fb w)) of
        None \<Rightarrow> None
      | Some (column, row_offset) \<Rightarrow>
         (let row = start_row + row_offset;
              m = draw_text font (kw_fb w) [ch] column row WHITE (Some (kw_font_size w)) (snd s)
          in redraw_loop font start_row (Suc index) text
               (w\<lparr>glyph_cells := glyph_cells w @ [\<lparr>cell_column = column, cell_row = row\<rparr>]\<rparr>, m)))"

definition redraw_input_line ::
  "Font \<Rightarrow> str \<Rightarrow> nat \<Rightarrow> KWriter \<times> memory \<Rightarrow> (KWriter \<times> memory) option" where
  "redraw_input_line font text cursor s =
     (let w = fst s; fh = font_h (kw_font_size w); fw = font_w font (kw_font_size w); width = fb_width (kw_fb w);
          start_row = (case glyph_cells w of [] \<Rightarrow> kw_row w | cell # _ \<Rightarrow> cell_row cell);
          total_chars = length prompt + length text
      in if width = 0 then None
         else let rows = (of_nat total_chars * fw + saturating_sub width 1) div width in
           do {
             dims \<leftarrow> PixelSize_new width (fh * max rows 1);
             let m = draw_rec (kw_fb w) \<lparr>at_x = 0, at_y = start_row * fh\<rparr> dims BLACK (snd s);
             s \<leftarrow> redraw_loop font start_row 0 (prompt @ text)
                   (w\<lparr>current_line := prompt @ text, input_cursor := cursor, glyph_cells := []\<rparr>, m);
             Some (set_input_cursor font ((fst s)\<lparr>kw_row := start_row\<rparr>), snd s)
           })"

definition redraw_current_input :: "Font \<Rightarrow> KWriter \<times> memory \<Rightarrow> (KWriter \<times> memory) option" where
  "redraw_current_input font s =
     (let line = current_line (fst s);
          text = (if starts_with line prompt then drop (length prompt) line else [])
      in redraw_input_line font text (input_cursor (fst s)) s)"

section \<open>Editing\<close>

text \<open>The shell's line is passed along. Without a writer nothing happens.\<close>

definition edit :: "(KWriter \<times> memory \<Rightarrow> (str \<times> KWriter \<times> memory) option) \<Rightarrow> str \<times> console \<Rightarrow> (str \<times> console) option" where
  "edit f s =
     (case fst (snd s) of
        None \<Rightarrow> Some s
      | Some w \<Rightarrow> map_option (\<lambda>(line, w, m). (line, Some w, m)) (f (w, snd (snd s))))"

definition backspace :: "Font \<Rightarrow> str \<times> console \<Rightarrow> (str \<times> console) option" where
  "backspace font s = edit (\<lambda>(w, m).
     let line = fst s; w = w\<lparr>input_cursor := min (input_cursor w) (length line)\<rparr> in
     if input_cursor w = 0 then Some (line, w, m)
     else do {
       line \<leftarrow> remove_char_at line (input_cursor w);
       let w = w\<lparr>input_cursor := input_cursor w - 1\<rparr>;
       r \<leftarrow> redraw_input_line font line (input_cursor w) (w, m);
       Some (line, r)
     }) s"

definition insert_char :: "Font \<Rightarrow> nat \<Rightarrow> str \<times> console \<Rightarrow> (str \<times> console) option" where
  "insert_char font ch s =
     (if length (fst s) \<ge> MAX_INPUT_CHARS then Some s
      else edit (\<lambda>(w, m).
        do {
          let w = w\<lparr>input_cursor := min (input_cursor w) (length (fst s))\<rparr>;
          line \<leftarrow> insert_char_at (fst s) (input_cursor w) ch;
          let w = w\<lparr>input_cursor := input_cursor w + 1\<rparr>;
          r \<leftarrow> redraw_input_line font line (input_cursor w) (w, m);
          Some (line, r)
        }) s)"

definition reset_input_cursor :: "console \<Rightarrow> console" where
  "reset_input_cursor = with_writer (\<lambda>(w, m). (w\<lparr>input_cursor := 0\<rparr>, m))"

text \<open>\<open>&command[line.len()..]\<close> panics inside a character and past the end.\<close>

definition auto_complete :: "Font \<Rightarrow> str \<times> console \<Rightarrow> (str \<times> console) option" where
  "auto_complete font s =
     (case complete_command (fst s) of
        None \<Rightarrow> Some s
      | Some command \<Rightarrow>
          do {
            parts \<leftarrow> split_at_byte command (byte_len (fst s));
            fold (\<lambda>ch s. Option.bind s (insert_char font ch)) (snd parts) (Some s)
          })"

definition arrow_right :: "Font \<Rightarrow> str \<times> console \<Rightarrow> (str \<times> console) option" where
  "arrow_right font s = edit (\<lambda>(w, m).
     let line_length = length (current_line w) - length prompt;
         w = w\<lparr>input_cursor := move_cursor_right (input_cursor w) line_length\<rparr>
     in map_option (Pair (fst s)) (redraw_current_input font (w, m))) s"

definition arrow_left :: "Font \<Rightarrow> str \<times> console \<Rightarrow> (str \<times> console) option" where
  "arrow_left font s = edit (\<lambda>(w, m).
     map_option (Pair (fst s))
       (redraw_current_input font (w\<lparr>input_cursor := move_cursor_left (input_cursor w)\<rparr>, m))) s"

definition command_history :: "str list \<Rightarrow> str list" where
  "command_history history =
     filter (\<lambda>line. starts_with line prompt \<and> line \<noteq> lit ''^C'' \<and> line \<noteq> []) history"

text \<open>\<open>trim_start_matches\<close> removes the prompt as often as it is there.\<close>

function trim_prompts :: "str \<Rightarrow> str" where
  "trim_prompts s = (if starts_with s prompt then trim_prompts (drop (length prompt) s) else s)"
  by pat_completeness auto
termination
proof (relation "measure length", simp, goal_cases)
  case (1 s)
  then have "s \<noteq> []" by (auto simp: starts_with_def prompt_def PROMPT_def lit_def)
  then show ?case by (simp add: prompt_def PROMPT_def lit_def)
qed

declare trim_prompts.simps [simp del]

definition arrow_up :: "Font \<Rightarrow> str \<times> console \<Rightarrow> (str \<times> console) option" where
  "arrow_up font s = edit (\<lambda>(w, m).
     let commands = command_history (kw_history w) in
     if commands = [] then Some (fst s, w, m)
     else let new_index = (case history_index w of None \<Rightarrow> length commands - 1 | Some i \<Rightarrow> i - 1);
              w = w\<lparr>history_index := Some new_index\<rparr>
          in do {
            entry \<leftarrow> nth_opt commands new_index;
            let recalled = trim_prompts entry;
            r \<leftarrow> redraw_input_line font recalled (length recalled) (w, m);
            Some (recalled, r)
          }) s"

definition arrow_down :: "Font \<Rightarrow> str \<times> console \<Rightarrow> (str \<times> console) option" where
  "arrow_down font s = edit (\<lambda>(w, m).
     let commands = command_history (kw_history w) in
     if commands = [] then Some (fst s, w, m)
     else case history_index w of
       None \<Rightarrow> Some (fst s, w, m)
     | Some i \<Rightarrow>
         (let (w, new_text) =
                (if i + 1 < length commands then (w\<lparr>history_index := Some (i + 1)\<rparr>, trim_prompts (commands ! (i + 1)))
                 else (w\<lparr>history_index := None\<rparr>, []))
          in do {
            r \<leftarrow> redraw_input_line font new_text (length new_text) (w, m);
            Some (new_text, r)
          })) s"

section \<open>The block cursor, history and zoom\<close>

definition draw_cursor :: "Font \<Rightarrow> console \<Rightarrow> console option" where
  "draw_cursor font s =
     (case fst s of
        None \<Rightarrow> Some s
      | Some w \<Rightarrow>
         (let fh = font_h (kw_font_size w); fw = font_w font (kw_font_size w);
              (w, m) = (if fb_width (kw_fb w) < kw_x font w + fw
                        then check_scroll fh (w\<lparr>kw_column := 0, kw_row := kw_row w + 1\<rparr>, snd s) else (w, snd s))
          in do {
            dims \<leftarrow> PixelSize_new fw (fh - 4);
            Some (Some w, draw_rec (kw_fb w) \<lparr>at_x = kw_x font w, at_y = kw_y w\<rparr> dims WHITE m)
          }))"

definition erase_cursor :: "Font \<Rightarrow> console \<Rightarrow> console option" where
  "erase_cursor font s =
     (case fst s of
        None \<Rightarrow> Some s
      | Some w \<Rightarrow>
          do {
            dims \<leftarrow> PixelSize_new (font_w font (kw_font_size w)) (font_h (kw_font_size w) - 4);
            Some (Some w, draw_rec (kw_fb w) \<lparr>at_x = kw_x font w, at_y = kw_y w\<rparr> dims BLACK (snd s))
          })"

text \<open>The loop of \<open>print_history\<close> with the pixel row \<open>y\<close>.\<close>

fun history_loop :: "Font \<Rightarrow> KWriter \<Rightarrow> str list \<Rightarrow> usize \<Rightarrow> memory \<Rightarrow> usize \<times> memory" where
  "history_loop font w [] y m = (y, m)"
| "history_loop font w (line # shown) y m =
     (let fh = font_h (kw_font_size w);
          m = draw_text font (kw_fb w) line 0 (y div fh) WHITE (Some (kw_font_size w)) m
      in history_loop font w shown (y + fh) m)"

definition print_history :: "Font \<Rightarrow> console \<Rightarrow> console" where
  "print_history font = with_writer (\<lambda>(w, m).
     let fh = font_h (kw_font_size w);
         max_lines = unat (fb_height (kw_fb w) div fh);
         shown = drop (length (kw_history w) - max_lines) (kw_history w);
         (y, m) = history_loop font w shown 0 m
     in (w\<lparr>kw_column := 0, kw_row := y div fh\<rparr>, m))"

fun larger :: "RasterHeight \<Rightarrow> RasterHeight" where
  "larger Size16 = Size20"
| "larger Size20 = Size24"
| "larger Size24 = Size32"
| "larger Size32 = Size32"

fun smaller :: "RasterHeight \<Rightarrow> RasterHeight" where
  "smaller Size32 = Size24"
| "smaller Size24 = Size20"
| "smaller Size20 = Size16"
| "smaller Size16 = Size16"

definition zoom :: "(RasterHeight \<Rightarrow> RasterHeight) \<Rightarrow> Font \<Rightarrow> str \<Rightarrow> console \<Rightarrow> console" where
  "zoom change font current_input s =
     (let s = with_writer (\<lambda>(w, m).
            let w = w\<lparr>kw_font_size := change (kw_font_size w)\<rparr>
            in (w\<lparr>current_line := []\<rparr>, clear_background (kw_fb w) BLACK m)) s;
          s = print_history font s
      in kprint font (prompt @ current_input) s)"

definition zoom_in :: "Font \<Rightarrow> str \<Rightarrow> console \<Rightarrow> console" where
  "zoom_in = zoom larger"

definition zoom_out :: "Font \<Rightarrow> str \<Rightarrow> console \<Rightarrow> console" where
  "zoom_out = zoom smaller"

section \<open>Fatal exceptions\<close>

text \<open>\<open>EmergencyWriter\<close>, which stops at the end of the screen. A glyph width of 0 would divide by zero.\<close>

fun emergency_loop :: "Font \<Rightarrow> Framebuffer \<Rightarrow> str \<Rightarrow> usize \<Rightarrow> usize \<Rightarrow> memory \<Rightarrow> memory" where
  "emergency_loop font fb [] column row m = m"
| "emergency_loop font fb (ch # text) column row m =
     (let max_columns = fb_width fb div Graphics.cell_width font Size16; max_rows = fb_height fb div cell_height Size16 in
      if ch = 10 then emergency_loop font fb text 0 (saturating_add row 1) m
      else let (column, row) = (if column \<ge> max_columns then (0, saturating_add row 1) else (column, row)) in
        if row \<ge> max_rows then m
        else emergency_loop font fb text (column + 1) row
               (draw_text font fb [ch] column row WHITE (Some Size16) m))"

definition emergency_print :: "Font \<Rightarrow> Framebuffer option \<Rightarrow> str \<Rightarrow> memory \<Rightarrow> memory option" where
  "emergency_print font framebuffer text m =
     (case framebuffer of
        None \<Rightarrow> Some m
      | Some fb \<Rightarrow>
          if Graphics.cell_width font Size16 = 0 then None else Some (emergency_loop font fb text 0 0 m))"

section \<open>Byte offsets of characters\<close>

lemma utf8_len_pos [simp]: "0 < utf8_len c"
  by (simp add: utf8_len_def)

lemma length_indices [simp]: "length (indices_from i s) = length s"
  by (induction s arbitrary: i) auto

lemma nth_indices: "n < length s \<Longrightarrow> indices_from i s ! n = (i + byte_len (take n s), s ! n)"
  by (induction s arbitrary: i n) (auto simp: nth_Cons byte_len_def split: nat.splits)

lemma byte_len_simps [simp]: "byte_len [] = 0" "byte_len (c # s) = utf8_len c + byte_len s"
  by (simp_all add: byte_len_def)

lemma split_at_byte_take: "split_at_byte s (byte_len (take n s)) = Some (take n s, drop n s)"
proof (induction s arbitrary: n)
  case (Cons c s)
  show ?case
  proof (cases n)
    case (Suc k)
    obtain d where "utf8_len c = Suc d" using utf8_len_pos [of c] gr0_implies_Suc by blast
    then show ?thesis using Cons.IH [of k] Suc by simp
  qed simp
qed simp

lemma char_offset:
  "(case nth_opt (char_indices s) n of None \<Rightarrow> byte_len s | Some p \<Rightarrow> fst p) = byte_len (take n s)"
  by (simp add: nth_opt_def nth_indices)

lemma byte_len_take_mono: "i \<le> j \<Longrightarrow> byte_len (take i s) \<le> byte_len (take j s)"
proof (induction s arbitrary: i j)
  case (Cons c s)
  then show ?case by (cases i; cases j) auto
qed simp

lemma insert_char_at_eq: "insert_char_at line cursor ch = Some (take cursor line @ ch # drop cursor line)"
  by (simp add: insert_char_at_def char_offset string_insert_def split_at_byte_take)

lemma remove_char_at_eq:
  "remove_char_at line cursor =
     Some (let c = min cursor (length line) in if c = 0 then line else take (c - 1) line @ drop c line)"
proof (cases "min cursor (length line) = 0")
  case False
  then obtain k where k: "min cursor (length line) = Suc k" by (cases "min cursor (length line)") auto
  then have "k < length line" by (simp add: min_def split: if_splits)
  then have start: "(case nth_opt (char_indices line) k of None \<Rightarrow> 0 | Some p \<Rightarrow> fst p) = byte_len (take k line)"
    by (simp add: nth_opt_def nth_indices)
  have "byte_len (take k line) \<le> byte_len (take (Suc k) line)" by (rule byte_len_take_mono) simp
  then show ?thesis
    by (simp add: remove_char_at_def k Let_def start char_offset remove_bytes_def split_at_byte_take)
qed (simp add: remove_char_at_def Let_def)

text \<open>C27: editing never splits a character: although the code works on byte offsets of UTF-8, inserting and
  removing at a character position always succeeds and has the effect of the list operation on the
  characters of the line; a stale cursor acts at the end of the line.\<close>

theorem editing_respects_utf8:
  "insert_char_at line cursor ch = Some (take cursor line @ ch # drop cursor line) \<and>
   remove_char_at line cursor =
     Some (if cursor = 0 then line
           else take (min cursor (length line) - 1) line @ drop (min cursor (length line)) line)"
  by (auto simp: insert_char_at_eq remove_char_at_eq Let_def)

section \<open>Redrawing the input line\<close>

lemma unat_of_nat64: "n < 2 ^ 64 \<Longrightarrow> unat (of_nat n :: usize) = n"
  by (simp add: unat_of_nat take_bit_nat_eq_self)

text \<open>What the redraw of a text needs in order not to panic.\<close>

definition redraw_ok :: "Font \<Rightarrow> KWriter \<Rightarrow> str \<Rightarrow> bool" where
  "redraw_ok font w text \<longleftrightarrow>
     font_w font (kw_font_size w) \<noteq> 0 \<and> fb_width (kw_fb w) \<noteq> 0 \<and>
     (length prompt + length text) * unat (font_w font (kw_font_size w)) + unat (fb_width (kw_fb w)) < 2 ^ 58"

definition line_cell :: "usize \<Rightarrow> usize \<Rightarrow> usize \<Rightarrow> nat \<Rightarrow> Cell" where
  "line_cell fw width start_row i =
     \<lparr>cell_column = of_nat i * fw mod width div fw, cell_row = start_row + of_nat i * fw div width\<rparr>"

lemma redraw_loop_run:
  assumes "font_w font (kw_font_size w) \<noteq> 0" and "fb_width (kw_fb w) \<noteq> 0"
  shows "\<exists>m'. redraw_loop font start_row index cs (w, m) =
    Some (w\<lparr>glyph_cells := glyph_cells w @
      map (line_cell (font_w font (kw_font_size w)) (fb_width (kw_fb w)) start_row) [index..<index + length cs]\<rparr>, m')"
  using assms
proof (induction cs arbitrary: index w m)
  case Nil
  then show ?case by simp
next
  case (Cons ch cs)
  let ?fw = "font_w font (kw_font_size w)" and ?width = "fb_width (kw_fb w)"
  let ?w = "w\<lparr>glyph_cells := glyph_cells w @ [line_cell ?fw ?width start_row index]\<rparr>"
  obtain m1 where
    "redraw_loop font start_row index (ch # cs) (w, m) = redraw_loop font start_row (Suc index) cs (?w, m1)"
    using Cons.prems by (simp add: cell_position_def Let_def line_cell_def)
  moreover obtain m' where "redraw_loop font start_row (Suc index) cs (?w, m1) =
      Some (?w\<lparr>glyph_cells := glyph_cells ?w @ map (line_cell ?fw ?width start_row) [Suc index..<Suc index + length cs]\<rparr>, m')"
    using Cons.IH [of ?w "Suc index" m1] Cons.prems by auto
  moreover have "[index..<index + length (ch # cs)] = index # [Suc index..<Suc index + length cs]"
    by (subst upt_conv_Cons) simp_all
  ultimately show ?case by simp
qed

lemma font_h_cases: "unat (font_h s) \<in> {18, 22, 26, 34}"
  by (cases s) (simp_all add: font_h_def)

lemma redraw_rows:
  assumes "redraw_ok font w text"
  defines "fw \<equiv> font_w font (kw_font_size w)" and "width \<equiv> fb_width (kw_fb w)"
  defines "rows \<equiv> (of_nat (length prompt + length text) * fw + saturating_sub width 1) div width"
  shows "unat rows = ((length prompt + length text) * unat fw + unat width - 1) div unat width"
    "unat (font_h s * max rows 1) = unat (font_h s) * max (unat rows) 1"
    "PixelSize_new width (font_h s * max rows 1) = Some \<lparr>size_width = width, size_height = font_h s * max rows 1\<rparr>"
proof -
  let ?n = "length prompt + length text"
  have lt: "?n * unat fw + unat width < 2 ^ 58" and nz: "fw \<noteq> 0" "width \<noteq> 0"
    using assms(1) by (simp_all add: redraw_ok_def fw_def width_def)
  have pos: "0 < unat fw" "0 < unat width" using nz by (simp_all add: unat_gt_0)
  have "?n * 1 \<le> ?n * unat fw" using pos by (intro mult_le_mono2) simp
  then have "?n \<le> ?n * unat fw" by (simp only: mult_1_right)
  moreover have "?n * unat fw < 2 ^ 58" using lt by (rule le_less_trans [rotated]) simp
  ultimately have "?n < 2 ^ 58" by (rule le_less_trans)
  then have "?n < 2 ^ 64" by simp
  then have n: "unat (of_nat ?n :: usize) = ?n" by (rule unat_of_nat64)
  have prod: "unat (of_nat ?n * fw) = ?n * unat fw" using lt n by (intro unat_mult_exact [THEN trans]) simp_all
  have one: "unat (saturating_sub width 1) = unat width - 1" by (simp add: unat_saturating_sub)
  have "unat (of_nat ?n * fw + saturating_sub width 1) = ?n * unat fw + unat width - 1"
    using lt prod one pos by (intro unat_add_exact [THEN trans]) simp_all
  then show r: "unat rows = (?n * unat fw + unat width - 1) div unat width"
    by (simp add: rows_def unat_div)
  then have "unat rows \<le> ?n * unat fw + unat width - 1" by simp
  then have small: "unat rows < 2 ^ 58" using lt by simp
  have mx: "unat (max rows 1) = max (unat rows) 1" by (simp add: max_def word_le_nat_alt)
  have le: "unat (font_h s) \<le> 34" "0 < unat (font_h s)" using font_h_cases [of s] by auto
  then have "unat (font_h s) * max (unat rows) 1 \<le> 34 * 2 ^ 58" using small by (intro mult_le_mono) simp_all
  then show h: "unat (font_h s * max rows 1) = unat (font_h s) * max (unat rows) 1"
    using mx by (intro unat_mult_exact [THEN trans]) simp_all
  have "unat (font_h s * max rows 1) \<noteq> 0" unfolding h using le by simp
  then have "font_h s * max rows 1 \<noteq> 0" by auto
  then show "PixelSize_new width (font_h s * max rows 1) = Some \<lparr>size_width = width, size_height = font_h s * max rows 1\<rparr>"
    using nz by (simp add: PixelSize_new_def)
qed

definition redraw_start :: "KWriter \<Rightarrow> usize" where
  "redraw_start w = (case glyph_cells w of [] \<Rightarrow> kw_row w | cell # _ \<Rightarrow> cell_row cell)"

lemma set_input_cursor_fields [simp]:
  "kw_fb (set_input_cursor font w) = kw_fb w" "glyph_cells (set_input_cursor font w) = glyph_cells w"
  "kw_history (set_input_cursor font w) = kw_history w" "current_line (set_input_cursor font w) = current_line w"
  "input_cursor (set_input_cursor font w) = input_cursor w" "kw_font_size (set_input_cursor font w) = kw_font_size w"
  "history_index (set_input_cursor font w) = history_index w"
  by (auto simp: set_input_cursor_def Let_def split: option.splits)

lemma redraw_input_line_run:
  assumes "redraw_ok font w text"
  shows "\<exists>w' m'. redraw_input_line font text cursor (w, m) = Some (w', m') \<and>
    kw_fb w' = kw_fb w \<and> kw_history w' = kw_history w \<and> kw_font_size w' = kw_font_size w \<and>
    history_index w' = history_index w \<and> current_line w' = prompt @ text \<and> input_cursor w' = cursor \<and>
    glyph_cells w' = map (line_cell (font_w font (kw_font_size w)) (fb_width (kw_fb w)) (redraw_start w))
      [0..<length prompt + length text]"
proof -
  let ?w = "w\<lparr>current_line := prompt @ text, input_cursor := cursor, glyph_cells := []\<rparr>"
  note rows = redraw_rows(3) [OF assms, of "kw_font_size w"]
  have nz: "font_w font (kw_font_size ?w) \<noteq> 0" "fb_width (kw_fb ?w) \<noteq> 0" using assms by (simp_all add: redraw_ok_def)
  have run: "redraw_input_line font text cursor (w, m) =
      map_option (\<lambda>s. (set_input_cursor font ((fst s)\<lparr>kw_row := redraw_start w\<rparr>), snd s))
        (redraw_loop font (redraw_start w) 0 (prompt @ text) (?w,
          draw_rec (kw_fb w) \<lparr>at_x = 0, at_y = redraw_start w * font_h (kw_font_size w)\<rparr>
            \<lparr>size_width = fb_width (kw_fb w), size_height = font_h (kw_font_size w) *
               max ((of_nat (length prompt + length text) * font_w font (kw_font_size w) +
                     saturating_sub (fb_width (kw_fb w)) 1) div fb_width (kw_fb w)) 1\<rparr> BLACK m))"
    using rows nz by (simp add: redraw_input_line_def Let_def redraw_start_def map_option_case split: option.split)
  obtain m' where "redraw_loop font (redraw_start w) 0 (prompt @ text) (?w,
          draw_rec (kw_fb w) \<lparr>at_x = 0, at_y = redraw_start w * font_h (kw_font_size w)\<rparr>
            \<lparr>size_width = fb_width (kw_fb w), size_height = font_h (kw_font_size w) *
               max ((of_nat (length prompt + length text) * font_w font (kw_font_size w) +
                     saturating_sub (fb_width (kw_fb w)) 1) div fb_width (kw_fb w)) 1\<rparr> BLACK m) =
      Some (?w\<lparr>glyph_cells := glyph_cells ?w @
        map (line_cell (font_w font (kw_font_size ?w)) (fb_width (kw_fb ?w)) (redraw_start w)) [0..<0 + length (prompt @ text)]\<rparr>, m')"
    using redraw_loop_run [OF nz] by blast
  with run show ?thesis by simp
qed

section \<open>The line editor\<close>

text \<open>What the console promises the shell: a text with a cursor, the log of completed lines and the place in it
  while the user browses.\<close>

record Editor =
  ed_text :: str
  ed_cursor :: nat
  ed_log :: "str list"
  ed_index :: "nat option"

definition ed_insert :: "nat \<Rightarrow> Editor \<Rightarrow> Editor" where
  "ed_insert ch e =
     (if length (ed_text e) \<ge> MAX_INPUT_CHARS then e
      else e\<lparr>ed_text := take (ed_cursor e) (ed_text e) @ ch # drop (ed_cursor e) (ed_text e),
             ed_cursor := ed_cursor e + 1\<rparr>)"

definition ed_backspace :: "Editor \<Rightarrow> Editor" where
  "ed_backspace e =
     (if ed_cursor e = 0 then e
      else e\<lparr>ed_text := take (ed_cursor e - 1) (ed_text e) @ drop (ed_cursor e) (ed_text e),
             ed_cursor := ed_cursor e - 1\<rparr>)"

definition ed_left :: "Editor \<Rightarrow> Editor" where "ed_left e = e\<lparr>ed_cursor := ed_cursor e - 1\<rparr>"

definition ed_right :: "Editor \<Rightarrow> Editor" where
  "ed_right e = e\<lparr>ed_cursor := min (ed_cursor e + 1) (length (ed_text e))\<rparr>"

definition ed_recall :: "str \<Rightarrow> nat option \<Rightarrow> Editor \<Rightarrow> Editor" where
  "ed_recall t i e = e\<lparr>ed_text := t, ed_cursor := length t, ed_index := i\<rparr>"

definition ed_up :: "Editor \<Rightarrow> Editor" where
  "ed_up e =
     (let cs = command_history (ed_log e); i = (case ed_index e of None \<Rightarrow> length cs - 1 | Some i \<Rightarrow> i - 1)
      in if cs = [] then e else ed_recall (trim_prompts (cs ! i)) (Some i) e)"

definition ed_down :: "Editor \<Rightarrow> Editor" where
  "ed_down e =
     (let cs = command_history (ed_log e) in
      case ed_index e of
        None \<Rightarrow> e
      | Some i \<Rightarrow> if cs = [] then e
                  else if i + 1 < length cs then ed_recall (trim_prompts (cs ! (i + 1))) (Some (i + 1)) e
                  else ed_recall [] None e)"

definition ed_complete :: "Editor \<Rightarrow> Editor" where
  "ed_complete e =
     (case complete_command (ed_text e) of
        None \<Rightarrow> e
      | Some command \<Rightarrow> fold ed_insert (drop (length (ed_text e)) command) e)"

definition editor_of :: "str \<Rightarrow> KWriter \<Rightarrow> Editor" where
  "editor_of line w = \<lparr>ed_text = line, ed_cursor = input_cursor w, ed_log = kw_history w, ed_index = history_index w\<rparr>"

text \<open>The shell's line and the console agree, and the place in the history exists.\<close>

definition editor_ok :: "str \<Rightarrow> KWriter \<Rightarrow> bool" where
  "editor_ok line w \<longleftrightarrow>
     current_line w = prompt @ line \<and> input_cursor w \<le> length line \<and>
     (case history_index w of None \<Rightarrow> True | Some i \<Rightarrow> i < length (command_history (kw_history w)))"

text \<open>The lines that a redraw may have to show are not absurdly long for the screen.\<close>

definition editor_fits :: "Font \<Rightarrow> str \<Rightarrow> KWriter \<Rightarrow> bool" where
  "editor_fits font line w \<longleftrightarrow>
     redraw_ok font w line \<and> redraw_ok font w (replicate MAX_INPUT_CHARS 0) \<and> (\<forall>t \<in> set (kw_history w). redraw_ok font w t)"

lemma redraw_ok_shorter:
  assumes "redraw_ok font w t" and "length s \<le> length t"
  shows "redraw_ok font w s"
proof -
  let ?fw = "unat (font_w font (kw_font_size w))" and ?width = "unat (fb_width (kw_fb w))"
  have "(length prompt + length s) * ?fw + ?width \<le> (length prompt + length t) * ?fw + ?width"
    using assms(2) by (intro add_right_mono mult_le_mono1) simp
  also have "\<dots> < 2 ^ 58" using assms(1) unfolding redraw_ok_def by blast
  finally show ?thesis using assms(1) unfolding redraw_ok_def by blast
qed

lemma same_cursor [simp]: "input_cursor w = c \<Longrightarrow> w\<lparr>input_cursor := c\<rparr> = w"
  by (cases w) simp

lemma redraw_ok_same:
  "kw_fb w' = kw_fb w \<Longrightarrow> kw_font_size w' = kw_font_size w \<Longrightarrow> redraw_ok font w' t = redraw_ok font w t"
  by (simp add: redraw_ok_def)

text \<open>\<open>edits font f g\<close>: on a line the console agrees with, the operation \<open>f\<close> ends without panic and acts on the
  editor as \<open>g\<close>.\<close>

definition edits :: "Font \<Rightarrow> (str \<times> console \<Rightarrow> (str \<times> console) option) \<Rightarrow> (Editor \<Rightarrow> Editor) \<Rightarrow> bool" where
  "edits font f g \<longleftrightarrow> (\<forall>line w m. editor_ok line w \<and> editor_fits font line w \<longrightarrow>
     (\<exists>line' w' m'. f (line, Some w, m) = Some (line', Some w', m') \<and>
        editor_ok line' w' \<and> editor_fits font line' w' \<and> kw_fb w' = kw_fb w \<and>
        editor_of line' w' = g (editor_of line w)))"

text \<open>A redraw with a new text, cursor and place in the history.\<close>

lemma redraw_edits:
  assumes "editor_fits font line w" and "redraw_ok font w t" and "c \<le> length t"
    and "case history_index w1 of None \<Rightarrow> True | Some i \<Rightarrow> i < length (command_history (kw_history w))"
    and "kw_fb w1 = kw_fb w" "kw_font_size w1 = kw_font_size w" "kw_history w1 = kw_history w"
  shows "\<exists>w' m'. redraw_input_line font t c (w1, m) = Some (w', m') \<and>
    editor_ok t w' \<and> editor_fits font t w' \<and> kw_fb w' = kw_fb w \<and>
    editor_of t w' = \<lparr>ed_text = t, ed_cursor = c, ed_log = kw_history w, ed_index = history_index w1\<rparr>"
proof -
  have "redraw_ok font w1 t" using redraw_ok_same [of w1 w font t] assms(2,5,6) by simp
  from redraw_input_line_run [OF this, of c m] obtain w' m' where
    r: "redraw_input_line font t c (w1, m) = Some (w', m')" and
    w': "kw_fb w' = kw_fb w1" "kw_history w' = kw_history w1" "kw_font_size w' = kw_font_size w1"
    "history_index w' = history_index w1" "current_line w' = prompt @ t" "input_cursor w' = c"
    by blast
  have "editor_ok t w'" using w' assms(3,4,7) by (auto simp: editor_ok_def split: option.splits)
  moreover have "editor_fits font t w'"
    using assms(1,2) w' assms(5-7) redraw_ok_same [of w' w font] by (simp add: editor_fits_def)
  moreover have "editor_of t w' = \<lparr>ed_text = t, ed_cursor = c, ed_log = kw_history w, ed_index = history_index w1\<rparr>"
    using w' assms(7) by (simp add: editor_of_def)
  ultimately show ?thesis using r w' assms(5) by auto
qed

lemma insert_char_edits: "edits font (insert_char font ch) (ed_insert ch)"
  unfolding edits_def
proof (intro allI impI, elim conjE)
  fix line w and m :: memory
  assume ok: "editor_ok line w" and fits: "editor_fits font line w"
  let ?c = "input_cursor w" and ?t = "take (input_cursor w) line @ ch # drop (input_cursor w) line"
  let ?w = "w\<lparr>input_cursor := ?c + 1\<rparr>"
  have c: "?c \<le> length line" using ok by (simp add: editor_ok_def)
  show "\<exists>line' w' m'. insert_char font ch (line, Some w, m) = Some (line', Some w', m') \<and>
      editor_ok line' w' \<and> editor_fits font line' w' \<and> kw_fb w' = kw_fb w \<and>
      editor_of line' w' = ed_insert ch (editor_of line w)"
  proof (cases "length line \<ge> MAX_INPUT_CHARS")
    case True
    with ok fits show ?thesis by (simp add: insert_char_def ed_insert_def editor_of_def)
  next
    case False
    then have "length ?t \<le> length (replicate MAX_INPUT_CHARS (0 :: nat))" using c by simp
    then have t: "redraw_ok font w ?t" using fits redraw_ok_shorter unfolding editor_fits_def by blast
    from redraw_edits [OF fits t, of "?c + 1" ?w m] ok c obtain w' m' where
      r: "redraw_input_line font ?t (?c + 1) (?w, m) = Some (w', m')" "editor_ok ?t w'" "editor_fits font ?t w'"
      "kw_fb w' = kw_fb w"
      "editor_of ?t w' = \<lparr>ed_text = ?t, ed_cursor = ?c + 1, ed_log = kw_history w, ed_index = history_index w\<rparr>"
      by (auto simp: editor_ok_def)
    have "insert_char font ch (line, Some w, m) = Some (?t, Some w', m')"
      using False c r(1) by (simp add: insert_char_def edit_def insert_char_at_eq min_absorb1)
    with r False show ?thesis by (simp add: ed_insert_def editor_of_def)
  qed
qed

lemma backspace_edits: "edits font (backspace font) ed_backspace"
  unfolding edits_def
proof (intro allI impI, elim conjE)
  fix line w and m :: memory
  assume ok: "editor_ok line w" and fits: "editor_fits font line w"
  let ?c = "input_cursor w"
  let ?t = "take (?c - 1) line @ drop ?c line"
  let ?w = "w\<lparr>input_cursor := ?c - 1\<rparr>"
  have c: "?c \<le> length line" using ok by (simp add: editor_ok_def)
  show "\<exists>line' w' m'. backspace font (line, Some w, m) = Some (line', Some w', m') \<and>
      editor_ok line' w' \<and> editor_fits font line' w' \<and> kw_fb w' = kw_fb w \<and>
      editor_of line' w' = ed_backspace (editor_of line w)"
  proof (cases "?c = 0")
    case True
    with ok fits show ?thesis by (simp add: backspace_def edit_def ed_backspace_def editor_of_def Let_def)
  next
    case False
    have "length ?t \<le> length line" using c by simp
    then have t: "redraw_ok font w ?t" using fits redraw_ok_shorter unfolding editor_fits_def by blast
    have "?c - 1 \<le> length ?t" using c False by simp
    from redraw_edits [OF fits t this, of ?w m] ok obtain w' m' where
      r: "redraw_input_line font ?t (?c - 1) (?w, m) = Some (w', m')" "editor_ok ?t w'" "editor_fits font ?t w'"
      "kw_fb w' = kw_fb w"
      "editor_of ?t w' = \<lparr>ed_text = ?t, ed_cursor = ?c - 1, ed_log = kw_history w, ed_index = history_index w\<rparr>"
      by (auto simp: editor_ok_def)
    have "backspace font (line, Some w, m) = Some (?t, Some w', m')"
      using False c r(1) by (simp add: backspace_def edit_def remove_char_at_eq Let_def min_absorb1)
    with r False show ?thesis by (simp add: ed_backspace_def editor_of_def)
  qed
qed

lemma edits_fold:
  assumes "\<And>x. edits font (f x) (g x)" and "editor_ok line w" and "editor_fits font line w"
  shows "\<exists>line' w' m'. fold (\<lambda>x s. Option.bind s (f x)) xs (Some (line, Some w, m)) = Some (line', Some w', m') \<and>
    editor_ok line' w' \<and> editor_fits font line' w' \<and> kw_fb w' = kw_fb w \<and>
    editor_of line' w' = fold g xs (editor_of line w)"
  using assms(2,3)
proof (induction xs arbitrary: line w m)
  case (Cons x xs)
  from assms(1) [of x] Cons.prems obtain line' w' m' where
    s: "f x (line, Some w, m) = Some (line', Some w', m')" "editor_ok line' w'" "editor_fits font line' w'"
      "kw_fb w' = kw_fb w" "editor_of line' w' = g x (editor_of line w)"
    unfolding edits_def by blast
  from Cons.IH [OF s(2,3), of m'] s(1,4,5) show ?case by simp
qed simp

lemma complete_command_prefix:
  assumes "complete_command p = Some c"
  shows "take (length p) c = p" "c \<in> set command_names"
proof -
  have "filter (\<lambda>n. starts_with n p) command_names = [c]"
    using assms by (auto simp: complete_command_def split: if_splits list.splits)
  then have "c \<in> set (filter (\<lambda>n. starts_with n p) command_names)" by simp
  then show "take (length p) c = p" "c \<in> set command_names" by (simp_all add: starts_with_def)
qed

lemma auto_complete_edits: "edits font (auto_complete font) ed_complete"
  unfolding edits_def
proof (intro allI impI, elim conjE)
  fix line w and m :: memory
  assume ok: "editor_ok line w" and fits: "editor_fits font line w"
  show "\<exists>line' w' m'. auto_complete font (line, Some w, m) = Some (line', Some w', m') \<and>
      editor_ok line' w' \<and> editor_fits font line' w' \<and> kw_fb w' = kw_fb w \<and>
      editor_of line' w' = ed_complete (editor_of line w)"
  proof (cases "complete_command line")
    case None
    with ok fits show ?thesis by (simp add: auto_complete_def ed_complete_def editor_of_def)
  next
    case (Some c)
    have "byte_len line = byte_len (take (length line) c)" using complete_command_prefix(1) [OF Some] by simp
    then have split: "split_at_byte c (byte_len line) = Some (line, drop (length line) c)"
      using split_at_byte_take [of c "length line"] complete_command_prefix(1) [OF Some] by simp
    from edits_fold [OF insert_char_edits ok fits, where xs = "drop (length line) c" and m = m] Some split show ?thesis
      by (simp add: auto_complete_def ed_complete_def editor_of_def)
  qed
qed

lemma redraw_current_edits:
  assumes ok: "editor_ok line w" and fits: "editor_fits font line w" and "c \<le> length line"
  shows "\<exists>w' m'. redraw_current_input font (w\<lparr>input_cursor := c\<rparr>, m) = Some (w', m') \<and>
    editor_ok line w' \<and> editor_fits font line w' \<and> kw_fb w' = kw_fb w \<and>
    editor_of line w' = (editor_of line w)\<lparr>ed_cursor := c\<rparr>"
proof -
  let ?w = "w\<lparr>input_cursor := c\<rparr>"
  have "redraw_ok font w line" using fits by (simp add: editor_fits_def)
  from redraw_edits [OF fits this assms(3), of ?w m] ok show ?thesis
    by (simp add: redraw_current_input_def editor_ok_def starts_with_def editor_of_def)
qed

lemma arrow_left_edits: "edits font (arrow_left font) ed_left"
  unfolding edits_def
proof (intro allI impI, elim conjE)
  fix line w and m :: memory
  assume ok: "editor_ok line w" and fits: "editor_fits font line w"
  have "input_cursor w - 1 \<le> length line" using ok unfolding editor_ok_def by linarith
  from redraw_current_edits [OF ok fits this, of m]
  show "\<exists>line' w' m'. arrow_left font (line, Some w, m) = Some (line', Some w', m') \<and>
      editor_ok line' w' \<and> editor_fits font line' w' \<and> kw_fb w' = kw_fb w \<and>
      editor_of line' w' = ed_left (editor_of line w)"
    by (auto simp: arrow_left_def edit_def move_cursor_left_def ed_left_def editor_of_def)
qed

lemma arrow_right_edits: "edits font (arrow_right font) ed_right"
  unfolding edits_def
proof (intro allI impI, elim conjE)
  fix line w and m :: memory
  assume ok: "editor_ok line w" and fits: "editor_fits font line w"
  have "min (input_cursor w + 1) (length line) \<le> length line" by simp
  from redraw_current_edits [OF ok fits this, of m] ok
  show "\<exists>line' w' m'. arrow_right font (line, Some w, m) = Some (line', Some w', m') \<and>
      editor_ok line' w' \<and> editor_fits font line' w' \<and> kw_fb w' = kw_fb w \<and>
      editor_of line' w' = ed_right (editor_of line w)"
    by (auto simp: arrow_right_def edit_def move_cursor_right_def ed_right_def editor_of_def editor_ok_def Let_def)
qed

lemma length_trim_prompts: "length (trim_prompts s) \<le> length s"
proof (induction s rule: trim_prompts.induct)
  case (1 s)
  then show ?case by (subst trim_prompts.simps) (auto intro: order_trans)
qed

lemma recall_edits:
  assumes fits: "editor_fits font line w" and t: "t = [] \<or> (\<exists>i. i < length (command_history (kw_history w)) \<and>
      t = trim_prompts (command_history (kw_history w) ! i))"
    and i: "case i of None \<Rightarrow> True | Some i \<Rightarrow> i < length (command_history (kw_history w))"
  shows "\<exists>w' m'. redraw_input_line font t (length t) (w\<lparr>history_index := i\<rparr>, m) = Some (w', m') \<and>
    editor_ok t w' \<and> editor_fits font t w' \<and> kw_fb w' = kw_fb w \<and> editor_of t w' = ed_recall t i (editor_of line w)"
proof -
  have "redraw_ok font w t"
    using t
  proof
    assume "t = []"
    then show ?thesis using fits redraw_ok_shorter [of font w line "[]"] by (simp add: editor_fits_def)
  next
    assume "\<exists>i. i < length (command_history (kw_history w)) \<and> t = trim_prompts (command_history (kw_history w) ! i)"
    then obtain s where "s \<in> set (kw_history w)" "t = trim_prompts s"
      using nth_mem by (fastforce simp: command_history_def)
    then show ?thesis using fits redraw_ok_shorter length_trim_prompts unfolding editor_fits_def by blast
  qed
  from redraw_edits [OF fits this order_refl, of "w\<lparr>history_index := i\<rparr>" m] i show ?thesis
    by (simp add: ed_recall_def editor_of_def)
qed

lemma arrow_up_edits: "edits font (arrow_up font) ed_up"
  unfolding edits_def
proof (intro allI impI, elim conjE)
  fix line w and m :: memory
  assume ok: "editor_ok line w" and fits: "editor_fits font line w"
  let ?cs = "command_history (kw_history w)"
  let ?i = "case history_index w of None \<Rightarrow> length ?cs - 1 | Some i \<Rightarrow> i - 1"
  show "\<exists>line' w' m'. arrow_up font (line, Some w, m) = Some (line', Some w', m') \<and>
      editor_ok line' w' \<and> editor_fits font line' w' \<and> kw_fb w' = kw_fb w \<and>
      editor_of line' w' = ed_up (editor_of line w)"
  proof (cases "?cs = []")
    case True
    with ok fits show ?thesis by (simp add: arrow_up_def edit_def ed_up_def editor_of_def Let_def)
  next
    case False
    then have i: "?i < length ?cs" using ok by (auto simp: editor_ok_def split: option.splits)
    then have nth: "nth_opt ?cs ?i = Some (?cs ! ?i)" by (simp add: nth_opt_def)
    with i obtain w' m' where r:
      "redraw_input_line font (trim_prompts (?cs ! ?i)) (length (trim_prompts (?cs ! ?i))) (w\<lparr>history_index := Some ?i\<rparr>, m) = Some (w', m')"
      "editor_ok (trim_prompts (?cs ! ?i)) w'" "editor_fits font (trim_prompts (?cs ! ?i)) w'" "kw_fb w' = kw_fb w"
      "editor_of (trim_prompts (?cs ! ?i)) w' = ed_recall (trim_prompts (?cs ! ?i)) (Some ?i) (editor_of line w)"
      using recall_edits [OF fits, of "trim_prompts (?cs ! ?i)" "Some ?i" m] by auto
    have "arrow_up font (line, Some w, m) = Some (trim_prompts (?cs ! ?i), Some w', m')"
      using i False r(1) nth
      by (cases "history_index w") (simp_all add: arrow_up_def edit_def Let_def)
    moreover have "ed_up (editor_of line w) = ed_recall (trim_prompts (?cs ! ?i)) (Some ?i) (editor_of line w)"
      using False by (simp add: ed_up_def editor_of_def Let_def)
    ultimately show ?thesis using r(2-5) by auto
  qed
qed

lemma arrow_down_edits: "edits font (arrow_down font) ed_down"
  unfolding edits_def
proof (intro allI impI, elim conjE)
  fix line w and m :: memory
  assume ok: "editor_ok line w" and fits: "editor_fits font line w"
  let ?cs = "command_history (kw_history w)"
  show "\<exists>line' w' m'. arrow_down font (line, Some w, m) = Some (line', Some w', m') \<and>
      editor_ok line' w' \<and> editor_fits font line' w' \<and> kw_fb w' = kw_fb w \<and>
      editor_of line' w' = ed_down (editor_of line w)"
  proof (cases "?cs = [] \<or> history_index w = None")
    case True
    with ok fits show ?thesis
      by (auto simp: arrow_down_def edit_def ed_down_def editor_of_def Let_def split: option.split)
  next
    case False
    then obtain i where i: "?cs \<noteq> []" "history_index w = Some i" by auto
    show ?thesis
    proof (cases "i + 1 < length ?cs")
      case True
      with i obtain w' m' where
        "redraw_input_line font (trim_prompts (?cs ! (i + 1))) (length (trim_prompts (?cs ! (i + 1)))) (w\<lparr>history_index := Some (i + 1)\<rparr>, m) = Some (w', m')"
        "editor_ok (trim_prompts (?cs ! (i + 1))) w'" "editor_fits font (trim_prompts (?cs ! (i + 1))) w'" "kw_fb w' = kw_fb w"
        "editor_of (trim_prompts (?cs ! (i + 1))) w' = ed_recall (trim_prompts (?cs ! (i + 1))) (Some (i + 1)) (editor_of line w)"
        using recall_edits [OF fits, of "trim_prompts (?cs ! (i + 1))" "Some (i + 1)" m] by auto
      with i True show ?thesis
        by (auto simp: arrow_down_def edit_def ed_down_def editor_of_def Let_def)
    next
      case False
      with i obtain w' m' where
        "redraw_input_line font [] (length []) (w\<lparr>history_index := None\<rparr>, m) = Some (w', m')"
        "editor_ok [] w'" "editor_fits font [] w'" "kw_fb w' = kw_fb w"
        "editor_of [] w' = ed_recall [] None (editor_of line w)"
        using recall_edits [OF fits, of "[]" None m] by auto
      with i False show ?thesis
        by (auto simp: arrow_down_def edit_def ed_down_def editor_of_def Let_def)
    qed
  qed
qed

section \<open>The log\<close>

text \<open>Everything written since the start: the completed lines and the line in progress.\<close>

definition log_text :: "KWriter \<Rightarrow> str" where
  "log_text w = concat (map (\<lambda>l. l @ [10]) (kw_history w)) @ current_line w"

text \<open>One cell per character of the line in progress, each cell inside the width of the screen.\<close>

definition cells_ok :: "Font \<Rightarrow> KWriter \<Rightarrow> bool" where
  "cells_ok font w \<longleftrightarrow> length (glyph_cells w) = length (current_line w) \<and>
     (\<forall>c \<in> set (glyph_cells w).
        (unat (cell_column c) + 1) * unat (font_w font (kw_font_size w)) \<le> unat (fb_width (kw_fb w))) \<and>
     unat (kw_column w) * unat (font_w font (kw_font_size w)) \<le> unat (fb_width (kw_fb w))"

lemma check_scroll_fields [simp]:
  "kw_fb (fst (check_scroll fh s)) = kw_fb (fst s)" "kw_column (fst (check_scroll fh s)) = kw_column (fst s)"
  "glyph_cells (fst (check_scroll fh s)) = glyph_cells (fst s)" "kw_history (fst (check_scroll fh s)) = kw_history (fst s)"
  "current_line (fst (check_scroll fh s)) = current_line (fst s)" "input_cursor (fst (check_scroll fh s)) = input_cursor (fst s)"
  "kw_font_size (fst (check_scroll fh s)) = kw_font_size (fst s)" "history_index (fst (check_scroll fh s)) = history_index (fst s)"
  by (simp_all add: check_scroll_def Let_def)

lemma write_char_fields [simp]:
  "kw_fb (fst (write_char font ch s)) = kw_fb (fst s)" "kw_font_size (fst (write_char font ch s)) = kw_font_size (fst s)"
  "input_cursor (fst (write_char font ch s)) = input_cursor (fst s)" "history_index (fst (write_char font ch s)) = history_index (fst s)"
  by (simp_all add: write_char_def Let_def)

lemma write_char_line:
  "kw_history (fst (write_char font ch s)) = (if ch = 10 then kw_history (fst s) @ [current_line (fst s)] else kw_history (fst s))"
  "current_line (fst (write_char font ch s)) = (if ch = 10 then [] else current_line (fst s) @ [ch])"
  by (simp_all add: write_char_def Let_def)

lemma write_char_log: "log_text (fst (write_char font ch s)) = log_text (fst s) @ [ch]"
  by (simp add: log_text_def write_char_line)

lemma write_char_cells:
  assumes "unat (font_w font (kw_font_size (fst s))) \<le> unat (fb_width (kw_fb (fst s)))"
    and "2 * unat (fb_width (kw_fb (fst s))) < 2 ^ 64"
    and "0 < unat (font_w font (kw_font_size (fst s)))" and "cells_ok font (fst s)"
  shows "cells_ok font (fst (write_char font ch s))"
proof (cases "ch = 10")
  case True
  with assms(4) show ?thesis by (simp add: write_char_def Let_def cells_ok_def)
next
  case False
  let ?w = "fst s" and ?fw = "font_w font (kw_font_size (fst s))" and ?width = "fb_width (kw_fb (fst s))"
  let ?c = "kw_column ?w"
  have col: "unat ?c * unat ?fw \<le> unat ?width" using assms(4) by (simp add: cells_ok_def)
  have "unat ?c * 1 \<le> unat ?c * unat ?fw" using assms(3) by (intro mult_le_mono2) simp
  with col have "unat ?c \<le> unat ?width" by (simp only: mult_1_right)
  then have c1: "unat (?c + 1) = unat ?c + 1" using assms(2) by (intro unat_add_exact [THEN trans]) simp_all
  have prod: "(unat ?c + 1) * unat ?fw = unat ?c * unat ?fw + unat ?fw" by (simp add: algebra_simps)
  then have "unat ((?c + 1) * ?fw) = (unat ?c + 1) * unat ?fw"
    using col assms(1,2) c1 by (intro unat_mult_exact [THEN trans]) simp_all
  then have wrap: "(?c + 1) * ?fw > ?width \<longleftrightarrow> unat ?width < (unat ?c + 1) * unat ?fw" by (simp add: word_less_nat_alt)
  show ?thesis
    using False assms(1,4) wrap c1 prod by (auto simp: write_char_def Let_def cells_ok_def)
qed

text \<open>The console forgets nothing: printing appends exactly the printed text to the log, which is the
  completed lines of the history and the line in progress; a line in the history never holds a newline.
  Every character of the line in progress has its cell, and no cell reaches over the right edge, on any
  screen that is at least one character wide.\<close>

theorem write_str_log:
  fixes t :: str and m :: memory
  assumes "font_w font (kw_font_size w) \<noteq> 0" "font_w font (kw_font_size w) \<le> fb_width (kw_fb w)"
    and "fb_width (kw_fb w) < 2 ^ 63"
    and "cells_ok font w" and "\<forall>l \<in> set (current_line w # kw_history w). 10 \<notin> set l"
  defines "w' \<equiv> fst (write_str font t (w, m))"
  shows "log_text w' = log_text w @ t \<and> cells_ok font w' \<and> (\<forall>l \<in> set (current_line w' # kw_history w'). 10 \<notin> set l) \<and>
    (\<exists>ls. kw_history w' = kw_history w @ ls \<and> length ls = count_list t 10)"
proof -
  have "log_text (fst (write_str font t s)) = log_text (fst s) @ t \<and> cells_ok font (fst (write_str font t s)) \<and>
      (\<forall>l \<in> set (current_line (fst (write_str font t s)) # kw_history (fst (write_str font t s))). 10 \<notin> set l) \<and>
      (\<exists>ls. kw_history (fst (write_str font t s)) = kw_history (fst s) @ ls \<and> length ls = count_list t 10)"
    if "font_w font (kw_font_size (fst s)) \<noteq> 0" "font_w font (kw_font_size (fst s)) \<le> fb_width (kw_fb (fst s))"
      "fb_width (kw_fb (fst s)) < 2 ^ 63" "cells_ok font (fst s)"
      "\<forall>l \<in> set (current_line (fst s) # kw_history (fst s)). 10 \<notin> set l" for s
    using that
  proof (induction t arbitrary: s)
    case Nil
    then show ?case by (simp add: write_str_def)
  next
    case (Cons ch t)
    let ?s = "write_char font ch s"
    have "cells_ok font (fst ?s)"
      using Cons.prems by (intro write_char_cells) (auto simp: word_le_nat_alt word_less_nat_alt unat_gt_0)
    moreover have "\<forall>l \<in> set (current_line (fst ?s) # kw_history (fst ?s)). 10 \<notin> set l"
      using Cons.prems(5) by (auto simp: write_char_line)
    moreover have "write_str font (ch # t) s = write_str font t ?s" by (simp add: write_str_def)
    ultimately have "log_text (fst (write_str font (ch # t) s)) = log_text (fst s) @ ch # t"
      "cells_ok font (fst (write_str font (ch # t) s))"
      "\<forall>l \<in> set (current_line (fst (write_str font (ch # t) s)) # kw_history (fst (write_str font (ch # t) s))). 10 \<notin> set l"
      "\<exists>ls. kw_history (fst (write_str font (ch # t) s)) = kw_history (fst ?s) @ ls \<and> length ls = count_list t 10"
      using Cons.IH [of ?s] Cons.prems(1-3) by (simp_all add: write_char_log)
    then show ?case by (cases "ch = 10") (auto simp: write_char_line)
  qed
  from this [of "(w, m)"] assms(1-5) show ?thesis unfolding w'_def by simp
qed

section \<open>The cells of the input line\<close>

lemma line_cell_unat:
  assumes "redraw_ok font w t" and "i < length prompt + length t"
  defines "fw \<equiv> font_w font (kw_font_size w)" and "width \<equiv> fb_width (kw_fb w)"
  shows "unat (cell_column (line_cell fw width r i)) = i * unat fw mod unat width div unat fw"
    "unat (cell_row (line_cell fw width r i) - r) = i * unat fw div unat width"
proof -
  let ?n = "length prompt + length t"
  have lt: "?n * unat fw + unat width < 2 ^ 58" using assms(1) by (simp add: redraw_ok_def fw_def width_def)
  have "fw \<noteq> 0" using assms(1) by (simp add: redraw_ok_def fw_def)
  then have "i * 1 \<le> i * unat fw" by (intro mult_le_mono2) (simp add: Suc_le_eq unat_gt_0)
  moreover have "i * unat fw \<le> ?n * unat fw" using assms(2) by (intro mult_le_mono1) simp
  ultimately have small: "i * unat fw < 2 ^ 58" "i < 2 ^ 58" using lt by linarith+
  then have "unat (of_nat i :: usize) = i" by (intro unat_of_nat64) simp
  then have "unat (of_nat i * fw) = i * unat fw" using small(1) by (intro unat_mult_exact [THEN trans]) simp_all
  then show "unat (cell_column (line_cell fw width r i)) = i * unat fw mod unat width div unat fw"
    "unat (cell_row (line_cell fw width r i) - r) = i * unat fw div unat width"
    by (simp_all add: line_cell_def unat_div unat_mod)
qed

lemma position_inj:
  fixes f w :: nat
  assumes "0 < f" and "i * f div w = j * f div w" and "i * f mod w div f = j * f mod w div f"
  shows "i = j"
proof -
  have eq: "i * f = i * f div w * w + i * f mod w" "j * f = j * f div w * w + j * f mod w" by simp_all
  have cut: "x < x div f * f + f" "x div f * f \<le> x" for x
    using div_mult_mod_eq [of x f] mod_less_divisor [OF assms(1), of x] by linarith+
  have "i * f mod w < i * f mod w div f * f + f" "i * f mod w div f * f \<le> i * f mod w"
    "j * f mod w < j * f mod w div f * f + f" "j * f mod w div f * f \<le> j * f mod w"
    by (rule cut)+
  then have "i * f mod w < j * f mod w + f" "j * f mod w < i * f mod w + f"
    unfolding assms(3) by linarith+
  moreover have "i * f = j * f div w * w + i * f mod w" using eq(1) assms(2) by metis
  ultimately have "i * f < j * f + f" "j * f < i * f + f" using eq(2) by linarith+
  then have "i * f < Suc j * f" "j * f < Suc i * f" by simp_all
  then have "i < Suc j" "j < Suc i" unfolding mult_less_cancel2 by blast+
  then show ?thesis by simp
qed

lemma wrap_multiple:
  fixes f q i :: nat
  assumes "0 < f" and "0 < q"
  shows "i * f mod (q * f) div f = i mod q" "i * f div (q * f) = i div q" "(i * f mod (q * f) div f + 1) * f \<le> q * f"
proof -
  have "i * f mod (q * f) = (i mod q) * f" by (simp add: mult_mod_left)
  then show m: "i * f mod (q * f) div f = i mod q" using assms(1) by simp
  show "i * f div (q * f) = i div q" using assms(1) by simp
  have "i mod q + 1 \<le> q" using assms(2) by (simp add: Suc_leI)
  then show "(i * f mod (q * f) div f + 1) * f \<le> q * f" unfolding m by (rule mult_le_mono1)
qed

text \<open>Where the redraw of the input line puts the characters: from the row of its first cell on, in reading
  order, no two into the same cell, every one starting on the screen, and all of them inside the rows that
  are blacked out before. The character \<open>i\<close> is cut off at the right edge exactly when its cell would end
  behind it, which happens only when the width of the screen is not a multiple of the width of a cell;
  when it is one, the layout is that of the wrapped text.\<close>

theorem redraw_layout:
  assumes "redraw_ok font w t" and "i < length prompt + length t"
  defines "fw \<equiv> unat (font_w font (kw_font_size w))" and "width \<equiv> unat (fb_width (kw_fb w))"
  shows "\<exists>w' m'. redraw_input_line font t c (w, m) = Some (w', m') \<and> current_line w' = prompt @ t \<and>
    length (glyph_cells w') = length prompt + length t \<and>
    (let col = unat (cell_column (glyph_cells w' ! i)); row = unat (cell_row (glyph_cells w' ! i) - redraw_start w) in
      (\<forall>j < length (glyph_cells w'). glyph_cells w' ! j = glyph_cells w' ! i \<longrightarrow> j = i) \<and>
      col * fw < width \<and> row < ((length prompt + length t) * fw + width - 1) div width \<and>
      (width < (col + 1) * fw \<longrightarrow> \<not> fw dvd width) \<and>
      (fw dvd width \<longrightarrow> col = i mod (width div fw) \<and> row = i div (width div fw)))"
proof -
  let ?fw = "font_w font (kw_font_size w)" and ?width = "fb_width (kw_fb w)" and ?n = "length prompt + length t"
  have pos: "0 < fw" "0 < width" using assms(1) by (simp_all add: redraw_ok_def fw_def width_def unat_gt_0)
  obtain w' m' where r: "redraw_input_line font t c (w, m) = Some (w', m')" "current_line w' = prompt @ t"
    "glyph_cells w' = map (line_cell ?fw ?width (redraw_start w)) [0..<?n]"
    using redraw_input_line_run [OF assms(1)] by blast
  have at: "glyph_cells w' ! k = line_cell ?fw ?width (redraw_start w) k" if "k < ?n" for k
    using that r(3) by simp
  have col: "unat (cell_column (glyph_cells w' ! k)) = k * fw mod width div fw"
    and row: "unat (cell_row (glyph_cells w' ! k) - redraw_start w) = k * fw div width" if "k < ?n" for k
    using line_cell_unat [OF assms(1) that] at [OF that] by (simp_all add: fw_def width_def)
  have len: "length (glyph_cells w') = ?n" using r(3) by simp
  have inj: "j = i" if "j < ?n" "glyph_cells w' ! j = glyph_cells w' ! i" for j
    using position_inj [OF pos(1), of j width i] col [OF that(1)] col [OF assms(2)] row [OF that(1)] row [OF assms(2)] that(2)
    by simp
  have "i * fw mod width div fw * fw \<le> i * fw mod width" by simp
  also have "\<dots> < width" using pos(2) by simp
  finally have starts: "i * fw mod width div fw * fw < width" .
  have "i * fw + width \<le> ?n * fw + width - 1"
  proof -
    have "(i + 1) * fw \<le> ?n * fw" using assms(2) by (intro mult_le_mono1) simp
    then show ?thesis using pos(1) by simp
  qed
  then have "(i * fw + width) div width \<le> (?n * fw + width - 1) div width" by (rule div_le_mono)
  moreover have "(i * fw + width) div width = i * fw div width + 1"
    using div_add_self2 [of width "i * fw"] pos(2) by simp
  ultimately have below: "i * fw div width < (?n * fw + width - 1) div width" by linarith
  have mult: "i * fw mod width div fw = i mod (width div fw) \<and> i * fw div width = i div (width div fw) \<and>
      (i * fw mod width div fw + 1) * fw \<le> width" if "fw dvd width"
  proof -
    from that obtain q where q: "width = fw * q" unfolding dvd_def by blast
    then have "0 < q" using pos(2) by (cases "q = 0") simp_all
    then show ?thesis using wrap_multiple [OF pos(1), of q i] pos(1) unfolding q mult.commute [of fw q] by simp
  qed
  have "let col = unat (cell_column (glyph_cells w' ! i)); row = unat (cell_row (glyph_cells w' ! i) - redraw_start w) in
      (\<forall>j < length (glyph_cells w'). glyph_cells w' ! j = glyph_cells w' ! i \<longrightarrow> j = i) \<and>
      col * fw < width \<and> row < (?n * fw + width - 1) div width \<and>
      (width < (col + 1) * fw \<longrightarrow> \<not> fw dvd width) \<and>
      (fw dvd width \<longrightarrow> col = i mod (width div fw) \<and> row = i div (width div fw))"
    unfolding Let_def col [OF assms(2)] row [OF assms(2)] len
  proof (intro conjI)
    show "\<forall>j < ?n. glyph_cells w' ! j = glyph_cells w' ! i \<longrightarrow> j = i" using inj by blast
    show "width < (i * fw mod width div fw + 1) * fw \<longrightarrow> \<not> fw dvd width" using mult by (meson not_less)
    show "fw dvd width \<longrightarrow> i * fw mod width div fw = i mod (width div fw) \<and> i * fw div width = i div (width div fw)"
      using mult by blast
  qed (fact starts below)+
  with r(1,2) len show ?thesis by blast
qed

text \<open>A screen of 1280 by 800 pixels with characters 7 pixels wide: the character at index 182 is drawn in
  column 182 and ends one pixel behind the edge, while \<open>write_str\<close> would have wrapped it.\<close>

definition wide_screen :: Framebuffer where
  "wide_screen = \<lparr>fb_ptr = 4096, fb_size = \<lparr>size_width = 1280, size_height = 800\<rparr>, fb_stride = 1280, fb_format = Bgr,
     fb_byte_len = 4096000\<rparr>"

definition plain_font :: Font where
  "plain_font = \<lparr>font_width = (\<lambda>_. 7), font_raster = (\<lambda>c h. Some \<lparr>raster_rows = [[255]], raster_width = 7\<rparr>)\<rparr>"

lemma redraw_layout_witness:
  "\<exists>w' m'. redraw_input_line plain_font (replicate 200 65) 0 (console_init wide_screen, \<lambda>_. 0) = Some (w', m') \<and>
     cell_column (glyph_cells w' ! 182) = 182 \<and> 1280 < (182 + 1) * (7 :: nat)"
proof -
  let ?w = "console_init wide_screen"
  have p: "length prompt = 2" by (simp add: prompt_def PROMPT_def lit_def)
  have ok: "redraw_ok plain_font ?w (replicate 200 65)"
    by (simp add: redraw_ok_def console_init_def wide_screen_def plain_font_def font_w_def p)
  from redraw_layout [OF ok, of 182 0 "\<lambda>_. 0"] obtain w' m' where
    r: "redraw_input_line plain_font (replicate 200 65) 0 (?w, \<lambda>_. 0) = Some (w', m')"
    by (auto simp: p)
  from redraw_input_line_run [OF ok, of 0 "\<lambda>_. 0"] r have
    "glyph_cells w' = map (line_cell (font_w plain_font (kw_font_size ?w)) (fb_width (kw_fb ?w)) (redraw_start ?w)) [0..<202]"
    by (auto simp: p)
  then have "cell_column (glyph_cells w' ! 182) = 182"
    by (simp add: line_cell_def console_init_def wide_screen_def plain_font_def font_w_def)
  with r show ?thesis by simp
qed

text \<open>A printed line and the start of the next.\<close>

lemma write_str_log_witness:
  "log_text (fst (write_str plain_font (lit ''hi'' @ [10] @ lit ''> '') (console_init wide_screen, \<lambda>_. 0))) =
     lit ''hi'' @ [10] @ lit ''> ''"
proof -
  let ?w = "console_init wide_screen"
  have "font_w plain_font (kw_font_size ?w) \<noteq> 0" "font_w plain_font (kw_font_size ?w) \<le> fb_width (kw_fb ?w)"
    "fb_width (kw_fb ?w) < 2 ^ 63" "cells_ok plain_font ?w" "\<forall>l \<in> set (current_line ?w # kw_history ?w). 10 \<notin> set l"
    by (simp_all add: console_init_def wide_screen_def plain_font_def font_w_def cells_ok_def word_le_nat_alt word_less_nat_alt)
  from write_str_log [OF this, of "lit ''hi'' @ [10] @ lit ''> ''" "\<lambda>_. 0"]
  have "log_text (fst (write_str plain_font (lit ''hi'' @ [10] @ lit ''> '') (?w, \<lambda>_. 0))) =
      log_text ?w @ lit ''hi'' @ [10] @ lit ''> ''" by (rule conjunct1)
  moreover have "log_text ?w = []" by (simp add: log_text_def console_init_def)
  ultimately show ?thesis by simp
qed

section \<open>Scrolling at a newline\<close>

text \<open>The pixel row of the scroll threshold, three lines above the bottom.\<close>

definition scroll_threshold :: "KWriter \<Rightarrow> nat" where
  "scroll_threshold w = unat (fb_height (kw_fb w)) - 3 * unat (font_h (kw_font_size w))"

lemma unat_threshold:
  "unat (saturating_sub (fb_height (kw_fb w)) (3 * font_h (kw_font_size w))) = scroll_threshold w"
proof -
  have "unat (3 * font_h s) = 3 * unat (font_h s)" for s by (cases s) (simp_all add: font_h_def)
  then show ?thesis by (simp add: unat_saturating_sub scroll_threshold_def)
qed

text \<open>A console line never starts in the last three lines of the screen after \<open>check_scroll\<close>. When the
  cursor had reached them, the picture moves up by just as much as puts the line above the cursor two
  lines over the threshold, but the cursor's row is counted in whole lines: it ends the height of the
  screen modulo the height of a line above the bottom of the moved text, so that the next line overlaps
  the last one by that many pixels and joins it exactly when the height is a multiple.\<close>

theorem check_scroll_rows:
  fixes m :: memory
  assumes "4 * unat (font_h (kw_font_size w)) \<le> unat (fb_height (kw_fb w))"
    and "unat (kw_row w) * unat (font_h (kw_font_size w)) < 2 ^ 63"
  defines "fh \<equiv> unat (font_h (kw_font_size w))" and "y \<equiv> unat (kw_row w) * unat (font_h (kw_font_size w))"
  defines "s' \<equiv> check_scroll (font_h (kw_font_size w)) (w, m)"
  shows "unat (kw_row (fst s')) * fh < scroll_threshold w \<and>
    (y < scroll_threshold w \<longrightarrow> s' = (w, m)) \<and>
    (scroll_threshold w \<le> y \<longrightarrow>
      (\<exists>rows. snd s' = scroll_rows (kw_fb w) rows m \<and> unat rows = y + fh - scroll_threshold w \<and>
         unat (kw_row (fst s')) * fh + unat (fb_height (kw_fb w)) mod fh + unat rows = y))"
proof -
  let ?fh = "font_h (kw_font_size w)" and ?t = "saturating_sub (fb_height (kw_fb w)) (3 * font_h (kw_font_size w))"
  have fh: "18 \<le> fh" "fh \<le> 34" using font_h_cases [of "kw_font_size w"] unfolding fh_def by auto
  have t: "unat ?t = scroll_threshold w" by (rule unat_threshold)
  have yw: "unat (kw_y w) = y"
    using assms(2) by (simp add: kw_y_def y_def unat_mult_exact)
  have th: "fh \<le> scroll_threshold w" "scroll_threshold w = unat (fb_height (kw_fb w)) - 3 * fh"
    using assms(1) by (simp_all add: scroll_threshold_def fh_def)
  show ?thesis
  proof (cases "scroll_threshold w \<le> y")
    case False
    then have "\<not> kw_y w \<ge> ?t" by (simp add: word_le_nat_alt t yw)
    then have "s' = (w, m)" by (simp add: s'_def check_scroll_def Let_def)
    with False show ?thesis by (simp add: y_def fh_def)
  next
    case True
    let ?rows = "kw_y w - ?t + ?fh"
    have ge: "kw_y w \<ge> ?t" using True by (simp add: word_le_nat_alt t yw)
    have "unat (kw_y w - ?t) = y - scroll_threshold w" using ge by (simp add: unat_sub_exact t yw)
    then have rows: "unat ?rows = y + fh - scroll_threshold w"
      using assms(2) fh True by (subst unat_add_exact) (simp_all add: y_def fh_def)
    have "unat (saturating_sub ?t ?fh) = scroll_threshold w - fh" by (simp only: unat_saturating_sub [of ?t ?fh] t fh_def)
    then have row: "unat (saturating_sub ?t ?fh div ?fh) = (scroll_threshold w - fh) div fh" by (simp add: unat_div fh_def)
    have s': "s' = (w\<lparr>kw_row := saturating_sub ?t ?fh div ?fh\<rparr>, scroll_rows (kw_fb w) ?rows m)"
      using ge by (simp add: s'_def check_scroll_def Let_def)
    have "unat (fb_height (kw_fb w)) = (scroll_threshold w - fh) + 4 * fh" using th assms(1) by (simp add: fh_def)
    then have "unat (fb_height (kw_fb w)) mod fh = (scroll_threshold w - fh) mod fh" by simp
    moreover have "(scroll_threshold w - fh) div fh * fh + (scroll_threshold w - fh) mod fh = scroll_threshold w - fh"
      by (rule div_mult_mod_eq)
    ultimately have cut: "(scroll_threshold w - fh) div fh * fh + unat (fb_height (kw_fb w)) mod fh = scroll_threshold w - fh"
      by simp
    then have "(scroll_threshold w - fh) div fh * fh \<le> scroll_threshold w - fh" by linarith
    then have "(scroll_threshold w - fh) div fh * fh < scroll_threshold w" using th fh by linarith
    moreover have "(scroll_threshold w - fh) div fh * fh + unat (fb_height (kw_fb w)) mod fh + unat ?rows = y"
      unfolding cut rows using th True fh by linarith
    ultimately show ?thesis using True row rows unfolding s' by auto
  qed
qed

text \<open>On a screen of 800 pixel rows with 18 rows per line the next line overlaps the last one by 8 rows.\<close>

lemma check_scroll_rows_witness:
  "\<exists>rows. unat rows = 28 \<and> unat (kw_row (fst (check_scroll 18 ((console_init wide_screen)\<lparr>kw_row := 42\<rparr>, \<lambda>_. 0)))) * 18 + 8 + 28 = (756 :: nat) \<and>
     snd (check_scroll 18 ((console_init wide_screen)\<lparr>kw_row := 42\<rparr>, \<lambda>_. 0)) = scroll_rows wide_screen rows (\<lambda>_. 0)"
proof -
  let ?w = "(console_init wide_screen)\<lparr>kw_row := 42\<rparr>"
  have f: "font_h (kw_font_size ?w) = 18" "kw_fb ?w = wide_screen" "kw_row ?w = 42" "unat (fb_height wide_screen) = 800"
    by (simp_all add: console_init_def font_h_def wide_screen_def)
  have t: "scroll_threshold ?w = 746" unfolding scroll_threshold_def f by simp
  show ?thesis using check_scroll_rows [of ?w "\<lambda>_. 0"] unfolding f t by auto
qed

section \<open>What a redraw touches\<close>

text \<open>\<open>only_rows fb lo hi m m'\<close>: no byte changes but those of visible pixels in the pixel rows from \<open>lo\<close> to \<open>hi\<close>.\<close>

definition only_rows :: "Framebuffer \<Rightarrow> nat \<Rightarrow> nat \<Rightarrow> memory \<Rightarrow> memory \<Rightarrow> bool" where
  "only_rows fb lo hi m m' \<longleftrightarrow>
     (\<forall>a. (\<forall>x y. visible fb x y \<and> lo \<le> unat y \<and> unat y < hi \<longrightarrow> a \<notin> pixel_bytes fb x y) \<longrightarrow> m' a = m a)"

lemma only_rows_refl [simp]: "only_rows fb lo hi m m"
  by (simp add: only_rows_def)

lemma only_rows_trans: "only_rows fb lo hi m m1 \<Longrightarrow> only_rows fb lo hi m1 m2 \<Longrightarrow> only_rows fb lo hi m m2"
  by (simp add: only_rows_def)

lemma only_rows_mono:
  assumes "only_rows fb lo hi m m'" "lo' \<le> lo" "hi \<le> hi'"
  shows "only_rows fb lo' hi' m m'"
  using assms unfolding only_rows_def by (meson le_trans less_le_trans)

lemma only_rows_fold:
  assumes "\<And>x m. x \<in> set xs \<Longrightarrow> only_rows fb lo hi m (f x m)"
  shows "only_rows fb lo hi m (fold f xs m)"
  using assms by (induction xs arbitrary: m) (auto intro: only_rows_trans)

lemma only_rows_drawn:
  assumes "drawn fb P c m m'" and "\<And>x y. visible fb x y \<Longrightarrow> P x y \<Longrightarrow> lo \<le> unat y \<and> unat y < hi"
  shows "only_rows fb lo hi m m'"
  using assms unfolding drawn_def only_rows_def by blast

text \<open>The pixel rows outside keep their colors.\<close>

lemma only_rows_pixel:
  assumes "only_rows fb lo hi m m'" and "is_drawable fb" and "visible fb x y" and "unat y < lo \<or> hi \<le> unat y"
  shows "read_pixel fb x y m' = read_pixel fb x y m"
proof (rule read_pixel_cong [OF assms(2,3)])
  fix a assume a: "a \<in> pixel_bytes fb x y"
  have "a \<notin> pixel_bytes fb u v" if "visible fb u v" "lo \<le> unat v" "unat v < hi" for u v
    using pixel_bytes_disjoint [OF assms(2,3) that(1)] a assms(4) that(2,3) by fastforce
  then show "m' a = m a" using assms(1) by (simp add: only_rows_def)
qed

text \<open>No raster of the font is higher than its size says.\<close>

definition font_ok :: "Font \<Rightarrow> bool" where
  "font_ok font \<longleftrightarrow> (\<forall>c h r. font_raster font c h = Some r \<longrightarrow> length (raster_rows r) \<le> unat (raster_pixels h))"

lemma glyph_pixel_rows:
  assumes "is_drawable fb" and "row < n" and "unat oy + n \<le> hi" and "hi < 2 ^ 64"
  shows "only_rows fb (unat oy) hi m (glyph_pixel fb ox oy color (row, col, intensity) m)"
proof (cases "intensity = 0 \<or> checked_add ox (of_nat col) = None \<or> checked_add oy (of_nat row) = None")
  case True
  then show ?thesis by (auto simp: glyph_pixel_def split: option.splits)
next
  case False
  then obtain x y where xy: "checked_add ox (of_nat col) = Some x" "checked_add oy (of_nat row) = Some y" and i: "intensity \<noteq> 0"
    by auto
  have "unat (of_nat row :: usize) = row" using assms(2-4) by (intro unat_of_nat64) simp
  then have y: "unat y = unat oy + row" using xy(2) by (simp add: checked_add_Some_iff)
  let ?c = "\<lparr>red = blend (red color) intensity, green = blend (green color) intensity, blue = blend (blue color) intensity\<rparr>"
  show ?thesis
  proof (cases "visible fb x y")
    case True
    have "only_rows fb (unat oy) hi m (snd (write_pixel fb (pixel_index fb x y) ?c m))"
      by (rule only_rows_drawn [OF drawn_pixel [OF assms(1) True]]) (use y assms(2,3) in auto)
    then show ?thesis using xy i True by (simp add: glyph_pixel_def visible_def not_le)
  next
    case False
    then show ?thesis using xy i by (auto simp: glyph_pixel_def visible_def not_le)
  qed
qed

lemma draw_glyph_rows:
  assumes "is_drawable fb" and "unat oy + length (raster_rows raster) \<le> hi" and "hi < 2 ^ 64"
  shows "only_rows fb (unat oy) hi m (draw_glyph fb raster ox oy color m)"
  unfolding draw_glyph_def
proof (rule only_rows_fold)
  fix cell m
  assume "cell \<in> set [(row, col, row_data ! col). (row, row_data) \<leftarrow> enumerate 0 (raster_rows raster),
      col \<leftarrow> [0..<length row_data]]"
  then obtain row col intensity where "cell = (row, col, intensity)" "row < length (raster_rows raster)"
    by (auto simp: in_set_enumerate_eq)
  then show "only_rows fb (unat oy) hi m (glyph_pixel fb ox oy color cell m)"
    using glyph_pixel_rows [OF assms(1) _ assms(2,3)] by blast
qed

lemma text_loop_rows:
  assumes "is_drawable fb" and "font_ok font" and "unat oy + unat (raster_pixels height) \<le> hi" and "hi < 2 ^ 64"
  shows "only_rows fb (unat oy) hi m (text_loop font fb height color oy cs x m)"
proof (induction cs arbitrary: x m)
  case (Cons ch cs)
  have le: "unat (raster_pixels FONT_HEIGHT) \<le> unat (raster_pixels height)" by (cases height) (simp_all add: FONT_HEIGHT_def)
  show ?case
  proof (cases "case font_raster font ch height of Some r \<Rightarrow> Some r | None \<Rightarrow> font_raster font 63 FONT_HEIGHT")
    case None
    then show ?thesis using Cons.IH [of m x] by (auto simp: None)
  next
    case (Some raster)
    have "length (raster_rows raster) \<le> unat (raster_pixels height)"
      using Some assms(2) le unfolding font_ok_def by (auto split: option.splits intro: order_trans)
    then have "unat oy + length (raster_rows raster) \<le> hi" using assms(3) by simp
    from draw_glyph_rows [OF assms(1) this assms(4), of m x color]
    have g: "only_rows fb (unat oy) hi m (draw_glyph fb raster x oy color m)" .
    show ?thesis
    proof (cases "ch = 10")
      case False
      then show ?thesis using g only_rows_trans [OF g Cons.IH] Some
        by (auto simp: Let_def split: option.split)
    qed simp
  qed
qed simp

lemma draw_text_rows:
  assumes "is_drawable fb" and "font_ok font" and "unat row * unat (font_h height) + unat (font_h height) \<le> hi" and "hi < 2 ^ 64"
  shows "only_rows fb (unat row * unat (font_h height)) hi m (draw_text font fb cs col row color (Some height) m)"
proof -
  have ch: "cell_height height = font_h height" by (simp add: cell_height_def font_h_def)
  have y: "unat (row * font_h height) = unat row * unat (font_h height)"
    using assms(3,4) by (intro unat_mult_exact) simp
  have "unat (raster_pixels height) \<le> unat (font_h height)" by (cases height) (simp_all add: font_h_def)
  then have "unat (row * font_h height) + unat (raster_pixels height) \<le> hi" using assms(3) y by simp
  from text_loop_rows [OF assms(1,2) this assms(4)] show ?thesis
    using assms(1) by (simp add: draw_text_def Let_def ch y)
qed

lemma redraw_loop_rows:
  assumes "is_drawable (kw_fb w)" and "font_ok font" and "hi < 2 ^ 64"
    and "\<And>k. k < index + length cs \<Longrightarrow> index \<le> k \<Longrightarrow>
      lo \<le> unat (cell_row (line_cell (font_w font (kw_font_size w)) (fb_width (kw_fb w)) start_row k)) * unat (font_h (kw_font_size w)) \<and>
      unat (cell_row (line_cell (font_w font (kw_font_size w)) (fb_width (kw_fb w)) start_row k)) * unat (font_h (kw_font_size w))
        + unat (font_h (kw_font_size w)) \<le> hi"
    and "redraw_loop font start_row index cs (w, m) = Some (w', m')"
  shows "only_rows (kw_fb w) lo hi m m'"
  using assms
proof (induction cs arbitrary: index w m)
  case (Cons ch cs)
  let ?fw = "font_w font (kw_font_size w)" and ?width = "fb_width (kw_fb w)"
  let ?cell = "line_cell ?fw ?width start_row index"
  let ?w = "w\<lparr>glyph_cells := glyph_cells w @ [?cell]\<rparr>"
  let ?m = "draw_text font (kw_fb w) [ch] (cell_column ?cell) (cell_row ?cell) WHITE (Some (kw_font_size w)) m"
  have "?fw \<noteq> 0 \<and> ?width \<noteq> 0" using Cons.prems(5) by (auto simp: cell_position_def split: if_splits)
  then have step: "redraw_loop font start_row (Suc index) cs (?w, ?m) = Some (w', m')"
    using Cons.prems(5) by (simp add: cell_position_def Let_def line_cell_def)
  have "lo \<le> unat (cell_row ?cell) * unat (font_h (kw_font_size w))"
    "unat (cell_row ?cell) * unat (font_h (kw_font_size w)) + unat (font_h (kw_font_size w)) \<le> hi"
    using Cons.prems(4) [of index] by simp_all
  then have "only_rows (kw_fb w) lo hi m ?m"
    using draw_text_rows [OF Cons.prems(1,2) _ Cons.prems(3)] only_rows_mono by blast
  moreover have "only_rows (kw_fb ?w) lo hi ?m m'"
    by (rule Cons.IH [OF _ Cons.prems(2,3) _ step]) (use Cons.prems(1,4) in simp_all)
  ultimately show ?case by (simp add: only_rows_trans)
qed simp

text \<open>The row of a glyph of the edited line.\<close>

lemma glyph_row_in_line:
  assumes "redraw_ok font w t" and "k < length prompt + length t"
  defines "fw \<equiv> unat (font_w font (kw_font_size w))" and "width \<equiv> unat (fb_width (kw_fb w))"
    and "fh \<equiv> unat (font_h (kw_font_size w))" and "start \<equiv> unat (redraw_start w)"
  defines "rows \<equiv> ((length prompt + length t) * fw + width - 1) div width"
    and "row \<equiv> unat (cell_row (line_cell (font_w font (kw_font_size w)) (fb_width (kw_fb w)) (redraw_start w) k))"
  assumes "(start + rows) * fh < 2 ^ 64"
  shows "start * fh \<le> row * fh \<and> row * fh + fh \<le> (start + rows) * fh"
proof -
  let ?n = "length prompt + length t" and ?start = "redraw_start w"
  let ?row = "cell_row (line_cell (font_w font (kw_font_size w)) (fb_width (kw_fb w)) ?start k)"
  have pos: "0 < fw" "0 < width" "0 < fh" using assms(1) font_h_cases [of "kw_font_size w"]
    by (auto simp: redraw_ok_def fw_def width_def fh_def unat_gt_0)
  have off: "unat (?row - ?start) = k * fw div width"
    using line_cell_unat(2) [OF assms(1,2)] by (simp add: fw_def width_def)
  have "(k + 1) * fw \<le> ?n * fw" using assms(2) by (intro mult_le_mono1) simp
  then have "k * fw + width \<le> ?n * fw + width - 1" using pos(1) by simp
  then have "(k * fw + width) div width \<le> rows" unfolding rows_def by (rule div_le_mono)
  then have lt: "k * fw div width + 1 \<le> rows" using pos(2) div_add_self2 [of width "k * fw"] by simp
  have "(start + rows) * 1 \<le> (start + rows) * fh" using pos(3) by (intro mult_le_mono2) simp
  then have "start + rows < 2 ^ 64" using assms(9) by (simp only: mult_1_right)
  then have "unat (?start + (?row - ?start)) = start + k * fw div width"
    using lt off by (subst unat_add_exact) (simp_all add: start_def)
  then have row: "row = start + k * fw div width" by (simp add: row_def)
  have "(start + k * fw div width + 1) * fh \<le> (start + rows) * fh" using lt by (intro mult_le_mono1) simp
  then show ?thesis unfolding row by (simp add: algebra_simps)
qed

text \<open>C32: a redraw of the input line touches nothing but the rows of the new text: every pixel above its first row
  and below the last row that the new text itself needs keeps its color. In particular what a longer
  line left on further rows stays on the screen when a shorter one is recalled.\<close>

theorem redraw_confined:
  assumes "redraw_ok font w t" and "is_drawable (kw_fb w)" and "font_ok font"
  defines "fw \<equiv> unat (font_w font (kw_font_size w))" and "width \<equiv> unat (fb_width (kw_fb w))"
    and "fh \<equiv> unat (font_h (kw_font_size w))" and "start \<equiv> unat (redraw_start w)"
  defines "rows \<equiv> ((length prompt + length t) * fw + width - 1) div width"
  assumes "(start + rows) * fh < 2 ^ 64"
    and "redraw_input_line font t c (w, m) = Some (w', m')"
    and "visible (kw_fb w) x y" and "unat y < start * fh \<or> (start + rows) * fh \<le> unat y"
  shows "read_pixel (kw_fb w) x y m' = read_pixel (kw_fb w) x y m"
proof -
  let ?n = "length prompt + length t" and ?fw = "font_w font (kw_font_size w)" and ?width = "fb_width (kw_fb w)"
  let ?fh = "font_h (kw_font_size w)" and ?start = "redraw_start w"
  let ?rows = "(of_nat ?n * ?fw + saturating_sub ?width 1) div ?width"
  let ?origin = "\<lparr>at_x = 0, at_y = ?start * ?fh\<rparr>" and ?dims = "\<lparr>size_width = ?width, size_height = ?fh * max ?rows 1\<rparr>"
  let ?w = "w\<lparr>current_line := prompt @ t, input_cursor := c, glyph_cells := []\<rparr>"
  let ?m = "draw_rec (kw_fb w) ?origin ?dims BLACK m"
  note rr = redraw_rows [OF assms(1)]
  have pos: "0 < fw" "0 < width" "0 < fh" using assms(1) font_h_cases [of "kw_font_size w"]
    by (auto simp: redraw_ok_def fw_def width_def fh_def unat_gt_0)
  have "length prompt = 2" by (simp add: prompt_def PROMPT_def lit_def)
  then have "width \<le> ?n * fw + width - 1" using pos by (cases fw) auto
  then have "1 \<le> rows" unfolding rows_def using pos(2) by (simp add: Suc_le_eq div_greater_zero_iff)
  moreover have "unat ?rows = rows" using rr(1) by (simp add: rows_def fw_def width_def)
  ultimately have height: "unat (?fh * max ?rows 1) = fh * rows" using rr(2) [of "kw_font_size w"] by (simp add: fh_def max_def)
  have le: "start * fh \<le> (start + rows) * fh" by simp
  have top: "unat (?start * ?fh) = start * fh" using le_less_trans [OF le assms(9)] by (simp add: unat_mult_exact start_def fh_def)
  have rec: "only_rows (kw_fb w) (start * fh) ((start + rows) * fh) m ?m"
  proof (rule only_rows_drawn [OF drawn_rec [OF assms(2)]])
    fix u v assume "rect_fits (kw_fb w) ?origin ?dims \<and> in_rect ?origin ?dims u v"
    then have "start * fh \<le> unat v" "unat v < start * fh + fh * rows"
      unfolding in_rect_def PixelCoord.simps PixelSize.simps top height by blast+
    then show "start * fh \<le> unat v \<and> unat v < (start + rows) * fh" by (simp add: algebra_simps)
  qed
  obtain w1 where "redraw_loop font ?start 0 (prompt @ t) (?w, ?m) = Some (w1, m')"
    using assms(10) rr(3) [of "kw_font_size w"] pos(2)
    by (auto simp: redraw_input_line_def Let_def redraw_start_def bind_eq_Some_conv split: if_splits)
  moreover have "start * fh \<le> unat (cell_row (line_cell ?fw ?width ?start k)) * fh \<and>
      unat (cell_row (line_cell ?fw ?width ?start k)) * fh + fh \<le> (start + rows) * fh" if "k < ?n" for k
    using glyph_row_in_line [OF assms(1) that] assms(9) by (simp only: fw_def width_def fh_def start_def rows_def)
  ultimately have "only_rows (kw_fb ?w) (start * fh) ((start + rows) * fh) ?m m'"
    using assms(2,3,9) by (intro redraw_loop_rows [where w = ?w]) (auto simp: fh_def)
  with rec have "only_rows (kw_fb w) (start * fh) ((start + rows) * fh) m m'" by (simp add: only_rows_trans)
  from only_rows_pixel [OF this assms(2,11,12)] show ?thesis .
qed

lemma wide_screen_drawable: "is_drawable wide_screen"
  by (simp add: is_drawable_def wide_screen_def drawable_format_def required_byte_len_def checked_mul_def
      word_less_nat_alt word_le_nat_alt)

text \<open>An empty input line at the top of the screen; the second text row keeps what it shows.\<close>

lemma redraw_confined_witness:
  "\<exists>w' m'. redraw_input_line plain_font [] 0 (console_init wide_screen, ucast) = Some (w', m') \<and>
     read_pixel wide_screen 3 20 m' = read_pixel wide_screen 3 20 ucast"
proof -
  let ?w = "console_init wide_screen"
  have p: "length prompt = 2" by (simp add: prompt_def PROMPT_def lit_def)
  have f: "kw_fb ?w = wide_screen" "font_w plain_font (kw_font_size ?w) = 7" "font_h (kw_font_size ?w) = 18"
    "redraw_start ?w = 0" "fb_width wide_screen = 1280"
    by (simp_all add: console_init_def plain_font_def font_w_def font_h_def redraw_start_def wide_screen_def)
  have ok: "redraw_ok plain_font ?w []" by (simp add: redraw_ok_def f p)
  have font: "font_ok plain_font"
  proof -
    have "1 \<le> unat (raster_pixels h)" for h by (cases h) simp_all
    then show ?thesis by (auto simp: font_ok_def plain_font_def)
  qed
  have fb: "is_drawable (kw_fb ?w)" by (simp add: f wide_screen_drawable)
  obtain w' m' where r: "redraw_input_line plain_font [] 0 (?w, ucast) = Some (w', m')"
    using redraw_input_line_run [OF ok] by blast
  have v: "visible (kw_fb ?w) 3 20" by (simp add: f visible_def) (simp add: wide_screen_def)
  have "read_pixel (kw_fb ?w) 3 20 m' = read_pixel (kw_fb ?w) 3 20 ucast"
    by (rule redraw_confined [OF ok fb font _ r v]) (simp_all add: f p)
  with r show ?thesis unfolding f by blast
qed

end
