(* ===== verification/Shell.thy ===== *)
theory Shell
  imports Console Cursor Keyboard Mouse Scheduler Timer
begin

text \<open>
  The shell, \<^verbatim>\<open>src/src/shell/mod.rs\<close>: its two startup tasks and one iteration of its loop over mouse, tasks,
  dropped-input reports and keys. A command's effects act on the console here. \<open>None\<close> is a panic; the
  end of the machine by \<^verbatim>\<open>shutdown\<close> is \<open>Inl\<close> of the exit code. The lines that a report of another
  subsystem prints are a parameter, and so is what interrupts do between two steps.
\<close>

section \<open>Effects of commands\<close>

text \<open>\<open>reports\<close> gives the lines of \<^verbatim>\<open>meminfo\<close>, \<^verbatim>\<open>taskinfo\<close> and \<^verbatim>\<open>uptime\<close>.\<close>

fun perform :: "Font \<Rightarrow> (Effect \<Rightarrow> str list) \<Rightarrow> Effect \<Rightarrow> console \<Rightarrow> (u32, console) result" where
  "perform font reports (PrintLine line) s = Inr (kprintln font line s)"
| "perform font reports PrintHistory s = Inr (print_history font s)"
| "perform font reports (SetFontSize height) s = Inr (set_font_size height s)"
| "perform font reports ResetConsole s = Inr (reset s)"
| "perform font reports (ExitQemu code) s = Inl code"
| "perform font reports report s = Inr (fold (kprintln font) (reports report) s)"

fun perform_all :: "Font \<Rightarrow> (Effect \<Rightarrow> str list) \<Rightarrow> Effect list \<Rightarrow> console \<Rightarrow> (u32, console) result" where
  "perform_all font reports [] s = Inr s"
| "perform_all font reports (e # es) s = and_then (perform font reports e s) (perform_all font reports es)"

section \<open>Keys\<close>

type_synonym shell_line = "str \<times> console"

definition new_prompt :: "Font \<Rightarrow> console \<Rightarrow> console" where
  "new_prompt font s = reset_input_cursor (kprint font prompt s)"

definition enter_line :: "Font \<Rightarrow> (Effect \<Rightarrow> str list) \<Rightarrow> shell_line \<Rightarrow> (u32, shell_line) result" where
  "enter_line font reports s =
     and_then (perform_all font reports (run_command (fst s)) (kprintln font [] (snd s)))
       (\<lambda>c. Inr ([], new_prompt font c))"

fun match_key :: "Font \<Rightarrow> (Effect \<Rightarrow> str list) \<Rightarrow> KeyboardEvent \<Rightarrow> shell_line \<Rightarrow> (u32, shell_line) result option" where
  "match_key font reports (EvChar c) s =
     (if c = 10 then Some (enter_line font reports s)
      else if c = 8 then map_option Inr (backspace font s)
      else map_option Inr (insert_char font c s))"
| "match_key font reports CtrlC s = Some (Inr ([], new_prompt font (kprintln font (lit ''^C'') (snd s))))"
| "match_key font reports ZoomIn s = Some (Inr (fst s, zoom_in font (fst s) (snd s)))"
| "match_key font reports ZoomOut s = Some (Inr (fst s, zoom_out font (fst s) (snd s)))"
| "match_key font reports ArrowRight s = map_option Inr (arrow_right font s)"
| "match_key font reports ArrowLeft s = map_option Inr (arrow_left font s)"
| "match_key font reports ArrowUp s = map_option Inr (arrow_up font s)"
| "match_key font reports ArrowDown s = map_option Inr (arrow_down font s)"
| "match_key font reports CtrlL s = Some (Inr ([], kprint font prompt (reset (snd s))))"
| "match_key font reports Tab s = map_option Inr (auto_complete font s)"

definition shell_key ::
  "Font \<Rightarrow> (Effect \<Rightarrow> str list) \<Rightarrow> KeyboardEvent \<Rightarrow> shell_line \<Rightarrow> (u32, shell_line) result option" where
  "shell_key font reports key s =
     do {
       c \<leftarrow> erase_cursor font (snd s);
       r \<leftarrow> match_key font reports key (fst s, c);
       (case r of
          Inl code \<Rightarrow> Some (Inl code)
        | Inr s \<Rightarrow> do { c \<leftarrow> draw_cursor font (snd s); Some (Inr (fst s, c)) })
     }"

section \<open>The mouse\<close>

definition CURSOR_W :: usize where "CURSOR_W = 20"
definition CURSOR_H :: usize where "CURSOR_H = 20"

type_synonym i32 = "32 word"

text \<open>\<open>clamp\<close> panics when its bounds are out of order.\<close>

definition clamp :: "i32 \<Rightarrow> i32 \<Rightarrow> i32 \<Rightarrow> i32 option" where
  "clamp lo hi v =
     (if sint lo \<le> sint hi
      then Some (if sint v < sint lo then lo else if sint v > sint hi then hi else v) else None)"

record MouseState =
  mouse_x :: i32
  mouse_y :: i32
  mouse_cursor :: MouseCursor

definition move_mouse :: "Framebuffer \<Rightarrow> MouseEvent \<Rightarrow> MouseState \<times> memory \<Rightarrow> (MouseState \<times> memory) option" where
  "move_mouse fb event s =
     (let (cursor, m) = erase_mouse_cursor fb (mouse_cursor (fst s), snd s) in
      do {
        x \<leftarrow> clamp 0 (ucast (fb_width fb) - ucast CURSOR_W) (mouse_x (fst s) + scast (delta (ev_dx event)));
        y \<leftarrow> clamp 0 (ucast (fb_height fb) - ucast CURSOR_H) (mouse_y (fst s) + scast (delta (ev_dy event)));
        let (cursor, m) = draw_mouse_cursor fb \<lparr>at_x = scast x, at_y = scast y\<rparr> (cursor, m);
        Some (\<lparr>mouse_x = x, mouse_y = y, mouse_cursor = cursor\<rparr>, m)
      })"

text \<open>\<open>with_framebuffer\<close>: without a writer nothing happens.\<close>

definition shell_mouse :: "MouseEvent \<Rightarrow> MouseState \<times> console \<Rightarrow> (MouseState \<times> console) option" where
  "shell_mouse event s =
     (case fst (snd s) of
        None \<Rightarrow> Some s
      | Some w \<Rightarrow> map_option (\<lambda>(ms, m). (ms, Some w, m)) (move_mouse (kw_fb w) event (fst s, snd (snd s))))"

section \<open>The loop\<close>

text \<open>What the startup tasks can change: their two counters and the console.\<close>

type_synonym TaskWorld = "(usize \<times> usize) \<times> console"

record ('q, 'k, 'p) Shell =
  sh_console :: console
  sh_line :: str
  sh_mouse :: MouseState
  sh_keyboard :: "('q, 'k) Keyboard"
  sh_mouse_queue :: "'p MouseQueue"
  sh_packet :: PacketState
  sh_counts :: "usize \<times> usize"
  sh_scheduler :: "TaskWorld Scheduler"

definition task_ran :: "nat \<Rightarrow> usize \<Rightarrow> str" where
  "task_ran number shi = lit ''Task '' @ lit (decimal number) @ lit '' ran: #'' @ lit (decimal (unat shi))"

fun task_one :: "Font \<Rightarrow> TaskWorld \<Rightarrow> TaskAction \<times> TaskWorld" where
  "task_one font ((shi, other), c) =
     (if shi \<ge> 10 then (Exit, (shi + 1, other), c) else (Yield, (shi + 1, other), kprintln font (task_ran 1 shi) c))"

fun task_two :: "Font \<Rightarrow> TaskWorld \<Rightarrow> TaskAction \<times> TaskWorld" where
  "task_two font ((other, shi), c) =
     (if shi \<ge> 10 then (Exit, (other, shi + 1), c) else (Yield, (other, shi + 1), kprintln font (task_ran 2 shi) c))"

fun error_text :: "SchedulerError \<Rightarrow> str" where
  "error_text NoTaskSlots = lit ''no task slots available''"
| "error_text InvalidTask = lit ''invalid task identifier''"
| "error_text TaskNotFinished = lit ''task has not finished''"

definition run_tasks ::
  "Font \<Rightarrow> (nat \<Rightarrow> usize) \<Rightarrow> usize \<Rightarrow> u64 \<Rightarrow> ('q, 'k, 'p) Shell \<Rightarrow> ('q, 'k, 'p) Shell" where
  "run_tasks font stacks trampoline now s =
     (case run_ready stacks trampoline (sh_scheduler s) (sh_counts s, sh_console s) now TASK_BUDGET of
        (r, sched, counts, c) \<Rightarrow>
          s\<lparr>sh_scheduler := sched, sh_counts := counts,
            sh_console := (case r of Inr _ \<Rightarrow> c | Inl e \<Rightarrow> kprintln font (error_text e) c)\<rparr>)"

definition report_dropped :: "Font \<Rightarrow> u64 \<Rightarrow> ('q, 'k, 'p) Shell \<Rightarrow> ('q, 'k, 'p) Shell" where
  "report_dropped font now s =
     (if \<not> is_multiple_of now 100 then s
      else let q = key_queue (sh_keyboard s); n = kb_dropped q;
               s = s\<lparr>sh_keyboard := (sh_keyboard s)\<lparr>key_queue := q\<lparr>kb_dropped := 0\<rparr>\<rparr>,
                     sh_console := (if n > 0
                       then kprintln font (lit ''Dropped '' @ lit (decimal (unat n)) @ lit '' keyboard inputs'') (sh_console s)
                       else sh_console s)\<rparr>;
               p = sh_mouse_queue s; n = ms_dropped p
           in s\<lparr>sh_mouse_queue := p\<lparr>ms_dropped := 0\<rparr>,
                sh_console := (if n > 0
                  then kprintln font (lit ''Dropped '' @ lit (decimal (unat n)) @ lit '' mouse inputs'') (sh_console s)
                  else sh_console s)\<rparr>)"

text \<open>One iteration at the tick count \<open>now\<close>. The result says whether the processor halts until an interrupt.\<close>

definition shell_step ::
  "('q, KeyboardScancode) Ring \<Rightarrow> ('p, MouseByte) Ring \<Rightarrow> 'k Decoder \<Rightarrow> Font \<Rightarrow> (Effect \<Rightarrow> str list) \<Rightarrow>
   (nat \<Rightarrow> usize) \<Rightarrow> usize \<Rightarrow> u64 \<Rightarrow> ('q, 'k, 'p) Shell \<Rightarrow> (u32, bool \<times> ('q, 'k, 'p) Shell) result option" where
  "shell_step rbk rbm dec font reports stacks trampoline now s =
     do {
       let (event, q, packet) = mouse_poll rbm (sh_mouse_queue s, sh_packet s);
       let s = s\<lparr>sh_mouse_queue := q, sh_packet := packet\<rparr>;
       s \<leftarrow> (case event of
                None \<Rightarrow> Some s
              | Some e \<Rightarrow> map_option (\<lambda>(ms, c). s\<lparr>sh_mouse := ms, sh_console := c\<rparr>)
                             (shell_mouse e (sh_mouse s, sh_console s)));
       let s = report_dropped font now (run_tasks font stacks trampoline now s);
       let (key, kb) = keyboard_poll rbk dec (sh_keyboard s);
       let s = s\<lparr>sh_keyboard := kb\<rparr>;
       r \<leftarrow> (case key of
                None \<Rightarrow> Some (Inr s)
              | Some k \<Rightarrow> map_option (map_sum id (\<lambda>(line, c). s\<lparr>sh_line := line, sh_console := c\<rparr>))
                             (shell_key font reports k (sh_line s, sh_console s)));
       Some (map_sum id (\<lambda>s. (keyboard_queue_is_empty rbk (key_queue (sh_keyboard s)) \<and>
                               mouse_queue_is_empty rbm (sh_mouse_queue s), s)) r)
     }"

section \<open>Printed lines\<close>

text \<open>The completed lines and the line in progress after writing a text.\<close>

definition write_lines :: "str \<Rightarrow> str list \<times> str \<Rightarrow> str list \<times> str" where
  "write_lines t x = fold (\<lambda>ch (ls, cur). if ch = 10 then (ls @ [cur], []) else (ls, cur @ [ch])) t x"

lemma write_str_lines:
  "(kw_history (fst (write_str font t s)), current_line (fst (write_str font t s))) =
     write_lines t (kw_history (fst s), current_line (fst s))"
proof (induction t arbitrary: s)
  case (Cons ch t)
  then show ?case
    by (simp add: write_str_def write_lines_def write_char_line)
qed (simp add: write_str_def write_lines_def)

lemma write_str_fields [simp]:
  "kw_fb (fst (write_str font t s)) = kw_fb (fst s)" "kw_font_size (fst (write_str font t s)) = kw_font_size (fst s)"
  "input_cursor (fst (write_str font t s)) = input_cursor (fst s)" "history_index (fst (write_str font t s)) = history_index (fst s)"
  by (induction t arbitrary: s) (simp_all add: write_str_def)

lemma write_lines_prefix: "write_lines t (ls @ hs, cur) = (ls @ fst (write_lines t (hs, cur)), snd (write_lines t (hs, cur)))"
proof (induction t arbitrary: hs cur)
  case (Cons ch t)
  from Cons.IH [of "hs @ [cur]" "[]"] Cons.IH [of hs "cur @ [ch]"] show ?case by (simp add: write_lines_def)
qed (simp add: write_lines_def)

lemma write_lines_newline [simp]: "snd (write_lines (t @ [10]) x) = []"
  by (simp add: write_lines_def split_beta)

lemma write_lines_plain: "10 \<notin> set t \<Longrightarrow> write_lines t (ls, cur) = (ls, cur @ t)"
  by (induction t arbitrary: cur) (auto simp: write_lines_def)

text \<open>\<open>printed l\<close>: the lines that \<open>kprintln\<close> of \<open>l\<close> completes at the start of a line.\<close>

definition printed :: "str \<Rightarrow> str list" where
  "printed l = fst (write_lines (l @ [10]) ([], []))"

lemma printed_plain: "10 \<notin> set l \<Longrightarrow> printed l = [l]"
  by (simp add: printed_def write_lines_def) (use write_lines_plain [of l "[]" "[]"] in \<open>simp add: write_lines_def\<close>)

text \<open>A console on which some more lines were completed; the cursor, the browsing state and the screen are as
  before unless named.\<close>

definition console_after :: "KWriter \<Rightarrow> str list \<Rightarrow> str \<Rightarrow> console \<Rightarrow> bool" where
  "console_after w ls cur s \<longleftrightarrow> (\<exists>w' m'. s = (Some w', m') \<and> kw_fb w' = kw_fb w \<and> input_cursor w' = input_cursor w \<and>
     kw_font_size w' = kw_font_size w \<and> history_index w' = history_index w \<and>
     kw_history w' = kw_history w @ ls \<and> current_line w' = cur)"

lemma console_after_print:
  assumes "console_after w ls cur s"
  shows "console_after w (ls @ fst (write_lines t ([], cur))) (snd (write_lines t ([], cur))) (kprint font t s)"
proof -
  obtain w1 m1 where s: "s = (Some w1, m1)" and w1: "kw_fb w1 = kw_fb w" "input_cursor w1 = input_cursor w"
    "kw_font_size w1 = kw_font_size w" "history_index w1 = history_index w" "kw_history w1 = kw_history w @ ls" "current_line w1 = cur"
    using assms by (auto simp: console_after_def)
  have l: "(kw_history (fst (write_str font t (w1, m1))), current_line (fst (write_str font t (w1, m1)))) =
      write_lines t (kw_history w1 @ [], current_line w1)"
    using write_str_lines [of font t "(w1, m1)"] by simp
  then show ?thesis unfolding write_lines_prefix using w1
    by (auto simp: console_after_def s kprint_def with_writer_def split_beta)
qed

lemma console_after_println:
  assumes "console_after w ls cur s"
  shows "console_after w (ls @ fst (write_lines (t @ [10]) ([], cur))) [] (kprintln font t s)"
  using console_after_print [OF assms, of "t @ [10]" font] by (simp add: kprintln_def)

text \<open>\<open>effect_lines\<close>: the lines an effect of a command adds to the log.\<close>

fun effect_lines :: "(Effect \<Rightarrow> str list) \<Rightarrow> Effect \<Rightarrow> str list" where
  "effect_lines reports (PrintLine l) = printed l"
| "effect_lines reports PrintMeminfo = concat (map printed (reports PrintMeminfo))"
| "effect_lines reports PrintTaskinfo = concat (map printed (reports PrintTaskinfo))"
| "effect_lines reports PrintUptime = concat (map printed (reports PrintUptime))"
| "effect_lines reports e = []"

text \<open>At the start of a line: what matters of a console for the editor, up to the font size.\<close>

definition at_line_start :: "KWriter \<Rightarrow> str list \<Rightarrow> nat option \<Rightarrow> console \<Rightarrow> bool" where
  "at_line_start w ls i s \<longleftrightarrow> (\<exists>w' m'. s = (Some w', m') \<and> kw_fb w' = kw_fb w \<and> history_index w' = i \<and>
     kw_history w' = kw_history w @ ls \<and> current_line w' = [])"

lemma at_line_start_println:
  assumes "at_line_start w ls i s"
  shows "at_line_start w (ls @ printed t) i (kprintln font t s)"
proof -
  obtain w1 m1 where s: "s = (Some w1, m1)" "kw_fb w1 = kw_fb w" "history_index w1 = i" "kw_history w1 = kw_history w @ ls"
    "current_line w1 = []"
    using assms by (auto simp: at_line_start_def)
  have "console_after w1 [] [] s" using s by (simp add: console_after_def)
  from console_after_println [OF this, of t font] show ?thesis
    using s unfolding console_after_def at_line_start_def printed_def by auto
qed

lemma at_line_start_fold:
  "at_line_start w ls i s \<Longrightarrow> at_line_start w (ls @ concat (map printed ts)) i (fold (kprintln font) ts s)"
proof (induction ts arbitrary: ls s)
  case (Cons t ts)
  from Cons.IH [OF at_line_start_println [OF Cons.prems, of t font]] show ?case by simp
qed simp

lemma perform_lines:
  assumes "at_line_start w ls i s" and "perform font reports e s = Inr s'"
  shows "at_line_start w (ls @ effect_lines reports e) (if e = ResetConsole then None else i) s'"
proof (cases e)
  case (PrintLine l)
  with assms at_line_start_println [OF assms(1), of l font] show ?thesis by simp
next
  case PrintHistory
  with assms show ?thesis
    by (auto simp: at_line_start_def print_history_def with_writer_def Let_def split_beta)
next
  case PrintMeminfo
  with assms at_line_start_fold [OF assms(1), of "reports PrintMeminfo" font] show ?thesis by simp
next
  case PrintTaskinfo
  with assms at_line_start_fold [OF assms(1), of "reports PrintTaskinfo" font] show ?thesis by simp
next
  case PrintUptime
  with assms at_line_start_fold [OF assms(1), of "reports PrintUptime" font] show ?thesis by simp
qed (use assms in \<open>auto simp: at_line_start_def set_font_size_def reset_def with_writer_def\<close>)

lemma perform_all_lines:
  assumes "at_line_start w ls i s" and "perform_all font reports es s = Inr s'"
  shows "at_line_start w (ls @ concat (map (effect_lines reports) es)) (if ResetConsole \<in> set es then None else i) s'"
  using assms
proof (induction es arbitrary: ls i s)
  case (Cons e es)
  then obtain s1 where s1: "perform font reports e s = Inr s1" "perform_all font reports es s1 = Inr s'"
    by (auto simp: and_then_eq_Inr_iff)
  from Cons.IH [OF perform_lines [OF Cons.prems(1) s1(1)] s1(2)] show ?case
    by (auto split: if_splits)
qed simp

section \<open>The shell as a line editor\<close>

definition ed_clean :: "Editor \<Rightarrow> bool" where
  "ed_clean e \<longleftrightarrow> 10 \<notin> set (ed_text e) \<and> (\<forall>l \<in> set (ed_log e). 10 \<notin> set l)"

text \<open>What a key does to the line, the log and the place in the history; \<open>None\<close> is the end of the machine.\<close>

definition ed_enter :: "(Effect \<Rightarrow> str list) \<Rightarrow> Editor \<Rightarrow> Editor option" where
  "ed_enter reports e =
     (let effects = run_command (ed_text e) in
      if ExitQemu 0 \<in> set effects then None
      else Some (e\<lparr>ed_text := [], ed_cursor := 0,
                   ed_log := ed_log e @ [prompt @ ed_text e] @ concat (map (effect_lines reports) effects),
                   ed_index := (if ResetConsole \<in> set effects then None else ed_index e)\<rparr>))"

fun ed_key :: "(Effect \<Rightarrow> str list) \<Rightarrow> KeyboardEvent \<Rightarrow> Editor \<Rightarrow> Editor option" where
  "ed_key reports (EvChar c) e =
     (if c = 10 then ed_enter reports e else Some (if c = 8 then ed_backspace e else ed_insert c e))"
| "ed_key reports CtrlC e =
     Some (e\<lparr>ed_text := [], ed_cursor := 0, ed_log := ed_log e @ [prompt @ ed_text e @ lit ''^C'']\<rparr>)"
| "ed_key reports CtrlL e = Some (e\<lparr>ed_text := [], ed_cursor := 0, ed_index := None\<rparr>)"
| "ed_key reports ArrowLeft e = Some (ed_left e)"
| "ed_key reports ArrowRight e = Some (ed_right e)"
| "ed_key reports ArrowUp e = Some (ed_up e)"
| "ed_key reports ArrowDown e = Some (ed_down e)"
| "ed_key reports Tab e = Some (ed_complete e)"
| "ed_key reports _ e = Some e"

subsection \<open>Lines without newlines\<close>

lemma ed_clean_insert: "ed_clean e \<Longrightarrow> c \<noteq> 10 \<Longrightarrow> ed_clean (ed_insert c e)"
  by (auto simp: ed_clean_def ed_insert_def dest: in_set_takeD in_set_dropD)

lemma ed_clean_insert_fold: "ed_clean e \<Longrightarrow> 10 \<notin> set cs \<Longrightarrow> ed_clean (fold ed_insert cs e)"
  by (induction cs arbitrary: e) (auto intro: ed_clean_insert)

lemma ed_clean_complete: "ed_clean e \<Longrightarrow> ed_clean (ed_complete e)"
proof -
  assume e: "ed_clean e"
  have "list_all (\<lambda>n. 10 \<notin> set n) command_names" by (simp add: command_names_eq)
  then have "10 \<notin> set (drop (length (ed_text e)) c)" if "complete_command (ed_text e) = Some c" for c
    using complete_command_prefix(2) [OF that] by (auto simp: list_all_iff dest: in_set_dropD)
  with e show ?thesis by (auto simp: ed_complete_def intro: ed_clean_insert_fold split: option.splits)
qed

lemma set_trim_prompts: "set (trim_prompts s) \<subseteq> set s"
proof (induction s rule: trim_prompts.induct)
  case (1 s)
  then show ?case by (subst trim_prompts.simps) (auto dest: in_set_dropD)
qed

lemma ed_clean_recall:
  assumes "ed_clean e" and "i < length (command_history (ed_log e))"
  shows "ed_clean (ed_recall (trim_prompts (command_history (ed_log e) ! i)) j e)"
proof -
  have "command_history (ed_log e) ! i \<in> set (ed_log e)" using nth_mem [OF assms(2)] by (simp add: command_history_def)
  then show ?thesis using assms(1) set_trim_prompts by (fastforce simp: ed_clean_def ed_recall_def)
qed

lemma ed_clean_up_down:
  assumes "ed_clean e" and "case ed_index e of None \<Rightarrow> True | Some i \<Rightarrow> i < length (command_history (ed_log e))"
  shows "ed_clean (ed_up e)" "ed_clean (ed_down e)"
proof -
  have "(case ed_index e of None \<Rightarrow> length (command_history (ed_log e)) - 1 | Some i \<Rightarrow> i - 1) < length (command_history (ed_log e))"
    if "command_history (ed_log e) \<noteq> []" using that assms(2) by (auto split: option.splits)
  then show "ed_clean (ed_up e)" using assms(1) by (simp add: ed_up_def Let_def ed_clean_recall)
  have "ed_clean (ed_recall [] None e)" using assms(1) by (simp add: ed_clean_def ed_recall_def)
  then show "ed_clean (ed_down e)" using assms(1) by (simp add: ed_down_def Let_def ed_clean_recall split: option.split)
qed

definition lines_clean :: "str list \<times> str \<Rightarrow> bool" where
  "lines_clean x \<longleftrightarrow> list_all (\<lambda>l. 10 \<notin> set l) (fst x) \<and> 10 \<notin> set (snd x)"

lemma write_lines_clean: "lines_clean x \<Longrightarrow> lines_clean (write_lines t x)"
  unfolding write_lines_def
  by (rule fold_invariant [where Q = "\<lambda>_. True"]) (auto simp: lines_clean_def split: prod.splits if_splits)

lemma printed_clean: "l \<in> set (printed t) \<Longrightarrow> 10 \<notin> set l"
  using write_lines_clean [of "([], [])" "t @ [10]"] by (auto simp: printed_def lines_clean_def list_all_iff)

lemma effect_lines_clean: "l \<in> set (effect_lines reports e) \<Longrightarrow> 10 \<notin> set l"
  by (cases e) (auto dest: printed_clean)

subsection \<open>The block cursor\<close>

lemma cursor_runs:
  assumes "font_w font (kw_font_size w) \<noteq> 0"
  shows "\<exists>m'. erase_cursor font (Some w, m) = Some (Some w, m')"
    "\<exists>w' m'. draw_cursor font (Some w, m) = Some (Some w', m') \<and> kw_fb w' = kw_fb w \<and> kw_history w' = kw_history w \<and>
       current_line w' = current_line w \<and> input_cursor w' = input_cursor w \<and> kw_font_size w' = kw_font_size w \<and>
       history_index w' = history_index w"
proof -
  have h: "font_h s - 4 \<noteq> 0" for s by (cases s) (simp_all add: font_h_def)
  show "\<exists>m'. erase_cursor font (Some w, m) = Some (Some w, m')"
    using assms h by (simp add: erase_cursor_def PixelSize_new_def)
  show "\<exists>w' m'. draw_cursor font (Some w, m) = Some (Some w', m') \<and> kw_fb w' = kw_fb w \<and> kw_history w' = kw_history w \<and>
       current_line w' = current_line w \<and> input_cursor w' = input_cursor w \<and> kw_font_size w' = kw_font_size w \<and>
       history_index w' = history_index w"
  proof (cases "fb_width (kw_fb w) < kw_x font w + font_w font (kw_font_size w)")
    case True
    obtain w1 m1 where "check_scroll (font_h (kw_font_size w)) (w\<lparr>kw_column := 0, kw_row := kw_row w + 1\<rparr>, m) = (w1, m1)"
      by fastforce
    with True assms h show ?thesis
      using check_scroll_fields [of "font_h (kw_font_size w)" "(w\<lparr>kw_column := 0, kw_row := kw_row w + 1\<rparr>, m)"]
      by (simp add: draw_cursor_def PixelSize_new_def Let_def)
  qed (use assms h in \<open>simp add: draw_cursor_def PixelSize_new_def Let_def\<close>)
qed

subsection \<open>Every key\<close>

text \<open>The shell's line and its console show the editor \<open>e\<close>.\<close>

definition shell_shows :: "Framebuffer \<Rightarrow> Editor \<Rightarrow> shell_line \<Rightarrow> bool" where
  "shell_shows fb e s \<longleftrightarrow> (\<exists>w m. s = (fst s, Some w, m) \<and> editor_ok (fst s) w \<and> editor_of (fst s) w = e \<and> kw_fb w = fb)"

lemma edits_shows:
  assumes "edits font f g" and "editor_ok line w" and "editor_fits font line w"
  shows "\<exists>s. f (line, Some w, m) = Some s \<and> shell_shows (kw_fb w) (g (editor_of line w)) s"
  using assms unfolding edits_def shell_shows_def by (metis fst_conv)

lemma prompt_clean: "10 \<notin> set prompt"
  by (simp add: prompt_def PROMPT_def lit_def)

text \<open>A prompt, and the text behind it, on an empty line.\<close>

lemma prompt_shows:
  assumes "at_line_start w ls i s" and "10 \<notin> set t"
    and "case i of None \<Rightarrow> True | Some i \<Rightarrow> i < length (command_history (kw_history w @ ls))"
  shows "\<exists>w' m'. kprint font (prompt @ t) s = (Some w', m') \<and> current_line w' = prompt @ t \<and> kw_fb w' = kw_fb w \<and>
    kw_history w' = kw_history w @ ls \<and> history_index w' = i \<and> (\<forall>w1 m1. s = (Some w1, m1) \<longrightarrow> input_cursor w' = input_cursor w1)"
proof -
  obtain w1 m1 where s: "s = (Some w1, m1)" "kw_fb w1 = kw_fb w" "history_index w1 = i" "kw_history w1 = kw_history w @ ls"
    "current_line w1 = []"
    using assms(1) by (auto simp: at_line_start_def)
  have "write_lines (prompt @ t) ([], []) = ([], prompt @ t)"
    using write_lines_plain [of "prompt @ t" "[]" "[]"] assms(2) prompt_clean by simp
  moreover have "console_after w1 [] [] s" using s by (simp add: console_after_def)
  from console_after_print [OF this, of "prompt @ t" font] obtain w' m' where
    "kprint font (prompt @ t) s = (Some w', m')" "kw_fb w' = kw_fb w1" "input_cursor w' = input_cursor w1"
    "history_index w' = history_index w1" "kw_history w' = kw_history w1 @ fst (write_lines (prompt @ t) ([], []))"
    "current_line w' = snd (write_lines (prompt @ t) ([], []))"
    by (auto simp: console_after_def)
  ultimately show ?thesis using s by auto
qed

lemma new_prompt_shows:
  assumes "at_line_start w ls i s"
    and "case i of None \<Rightarrow> True | Some i \<Rightarrow> i < length (command_history (kw_history w @ ls))"
  shows "shell_shows (kw_fb w) \<lparr>ed_text = [], ed_cursor = 0, ed_log = kw_history w @ ls, ed_index = i\<rparr> ([], new_prompt font s)"
proof -
  obtain w' m' where "kprint font prompt s = (Some w', m')" "current_line w' = prompt" "kw_fb w' = kw_fb w"
    "kw_history w' = kw_history w @ ls" "history_index w' = i"
    using prompt_shows [OF assms(1) _ assms(2), of "[]" font] by auto
  then show ?thesis
    using assms(2) by (auto simp: shell_shows_def new_prompt_def reset_input_cursor_def with_writer_def editor_ok_def editor_of_def
        split: option.splits)
qed

lemma line_end:
  assumes "editor_ok line w" and "10 \<notin> set line" and "10 \<notin> set t"
  shows "at_line_start w [prompt @ line @ t] (history_index w) (kprintln font t (Some w, m))"
proof -
  have cur: "current_line w = prompt @ line" using assms(1) by (simp add: editor_ok_def)
  have "console_after w [] (prompt @ line) (Some w, m)" using cur by (simp add: console_after_def)
  from console_after_println [OF this, of t font]
  have "console_after w (fst (write_lines (t @ [10]) ([], prompt @ line))) [] (kprintln font t (Some w, m))" by simp
  moreover have "write_lines (t @ [10]) ([], prompt @ line) = ([prompt @ line @ t], [])"
    using write_lines_plain [OF assms(3), of "[]" "prompt @ line"] by (simp add: write_lines_def)
  ultimately show ?thesis unfolding console_after_def at_line_start_def by auto
qed

lemma index_kept:
  assumes "editor_ok line w"
  shows "case history_index w of None \<Rightarrow> True | Some i \<Rightarrow> i < length (command_history (kw_history w @ ls))"
  using assms by (auto simp: editor_ok_def command_history_def split: option.splits)

lemma perform_all_ends: "perform_all font reports es s = Inl code \<Longrightarrow> ExitQemu code \<in> set es"
proof (induction es arbitrary: s)
  case (Cons e es)
  then show ?case by (cases e) auto
qed simp

lemma perform_all_exits: "ExitQemu code \<in> set es \<Longrightarrow> \<exists>c. perform_all font reports es s = Inl c"
proof (induction es arbitrary: s)
  case (Cons e es)
  then show ?case by (cases e) auto
qed simp

lemma run_command_exit: "ExitQemu code \<in> set (run_command l) \<Longrightarrow> code = 0 \<and> pc_command (parse l) = Shutdown"
  by (auto simp: run_command_def print_help_def Let_def split: Command.splits option.splits)

lemma enter_shows:
  assumes ok: "editor_ok line w" and "10 \<notin> set line"
  shows "case ed_enter reports (editor_of line w) of
      None \<Rightarrow> enter_line font reports (line, Some w, m) = Inl 0
    | Some e \<Rightarrow> \<exists>s. enter_line font reports (line, Some w, m) = Inr s \<and> shell_shows (kw_fb w) e s"
proof (cases "ExitQemu 0 \<in> set (run_command line)")
  case True
  then obtain c where c: "perform_all font reports (run_command line) (kprintln font [] (Some w, m)) = Inl c"
    using perform_all_exits by blast
  then have "c = 0" using perform_all_ends run_command_exit by blast
  with True c show ?thesis by (simp add: ed_enter_def enter_line_def editor_of_def)
next
  case False
  have "perform_all font reports (run_command line) (kprintln font [] (Some w, m)) \<noteq> Inl c" for c
    using False perform_all_ends run_command_exit by blast
  then obtain s where s: "perform_all font reports (run_command line) (kprintln font [] (Some w, m)) = Inr s"
    by (cases "perform_all font reports (run_command line) (kprintln font [] (Some w, m))") auto
  have start: "at_line_start w [prompt @ line] (history_index w) (kprintln font [] (Some w, m))"
    using line_end [OF ok assms(2), of "[]"] by simp
  let ?ls = "[prompt @ line] @ concat (map (effect_lines reports) (run_command line))"
  let ?i = "if ResetConsole \<in> set (run_command line) then None else history_index w"
  have "case ?i of None \<Rightarrow> True | Some i \<Rightarrow> i < length (command_history (kw_history w @ ?ls))"
    using index_kept [OF ok, of ?ls] by simp
  from new_prompt_shows [OF perform_all_lines [OF start s] this, of font] s False show ?thesis
    by (auto simp: ed_enter_def enter_line_def editor_of_def Let_def)
qed

lemma zoom_shows:
  assumes ok: "editor_ok line w" and "10 \<notin> set line"
  shows "shell_shows (kw_fb w) (editor_of line w) (line, zoom change font line (Some w, m))"
proof -
  let ?s = "with_writer (\<lambda>(w, m). let w = w\<lparr>kw_font_size := change (kw_font_size w)\<rparr>
      in (w\<lparr>current_line := []\<rparr>, clear_background (kw_fb w) BLACK m)) (Some w, m)"
  obtain w1 m1 where s: "print_history font ?s = (Some w1, m1)" "kw_fb w1 = kw_fb w" "history_index w1 = history_index w"
    "kw_history w1 = kw_history w" "current_line w1 = []" "input_cursor w1 = input_cursor w"
    by (simp add: print_history_def with_writer_def Let_def split_beta)
  then have "at_line_start w [] (history_index w) (print_history font ?s)" by (simp add: at_line_start_def)
  from prompt_shows [OF this assms(2), of font] index_kept [OF ok, of "[]"] s(1,6) obtain w' m' where
    "kprint font (prompt @ line) (print_history font ?s) = (Some w', m')" "current_line w' = prompt @ line"
    "kw_fb w' = kw_fb w" "kw_history w' = kw_history w" "history_index w' = history_index w" "input_cursor w' = input_cursor w"
    by auto
  then show ?thesis
    using ok by (auto simp: shell_shows_def zoom_def editor_ok_def editor_of_def Let_def split: option.splits)
qed

lemma ctrl_l_shows:
  "shell_shows (kw_fb w) ((editor_of line w)\<lparr>ed_text := [], ed_cursor := 0, ed_index := None\<rparr>)
     ([], kprint font prompt (reset (Some w, m)))"
proof -
  obtain w1 m1 where s: "reset (Some w, m) = (Some w1, m1)" "kw_fb w1 = kw_fb w" "history_index w1 = None"
    "kw_history w1 = kw_history w" "current_line w1 = []" "input_cursor w1 = 0"
    by (simp add: reset_def with_writer_def)
  then have "at_line_start w [] None (reset (Some w, m))" by (simp add: at_line_start_def)
  from prompt_shows [OF this, of "[]" font] s(1,6) obtain w' m' where
    "kprint font prompt (reset (Some w, m)) = (Some w', m')" "current_line w' = prompt"
    "kw_fb w' = kw_fb w" "kw_history w' = kw_history w" "history_index w' = None" "input_cursor w' = 0"
    by auto
  then show ?thesis by (auto simp: shell_shows_def editor_ok_def editor_of_def)
qed

lemma match_key_shows:
  assumes ok: "editor_ok line w" and fits: "editor_fits font line w" and clean: "ed_clean (editor_of line w)"
  shows "case ed_key reports key (editor_of line w) of
      None \<Rightarrow> match_key font reports key (line, Some w, m) = Some (Inl 0)
    | Some e \<Rightarrow> \<exists>s. match_key font reports key (line, Some w, m) = Some (Inr s) \<and> shell_shows (kw_fb w) e s"
proof -
  have nl: "10 \<notin> set line" using clean by (simp add: ed_clean_def editor_of_def)
  note es = edits_shows [OF _ ok fits, of _ _ m]
  show ?thesis
  proof (cases key)
    case (EvChar c)
    then show ?thesis
      using enter_shows [OF ok nl, where reports = reports and font = font and m = m] es [OF backspace_edits] es [OF insert_char_edits, of c]
      by (auto split: option.splits)
  next
    case CtrlC
    have "10 \<notin> set (lit ''^C'')" by (simp add: lit_def)
    from new_prompt_shows [OF line_end [OF ok nl this] index_kept [OF ok], of font font m] CtrlC
    show ?thesis by (simp add: editor_of_def)
  next
    case CtrlL
    then show ?thesis using ctrl_l_shows [of w line font m] by simp
  next
    case Tab
    then show ?thesis using es [OF auto_complete_edits] by auto
  next
    case ArrowUp
    then show ?thesis using es [OF arrow_up_edits] by auto
  next
    case ArrowDown
    then show ?thesis using es [OF arrow_down_edits] by auto
  next
    case ArrowLeft
    then show ?thesis using es [OF arrow_left_edits] by auto
  next
    case ArrowRight
    then show ?thesis using es [OF arrow_right_edits] by auto
  qed (use zoom_shows [OF ok nl] in \<open>simp_all add: zoom_in_def zoom_out_def\<close>)
qed

lemma ed_key_clean:
  assumes "ed_clean e" and "case ed_index e of None \<Rightarrow> True | Some i \<Rightarrow> i < length (command_history (ed_log e))"
    and "ed_key reports key e = Some e'"
  shows "ed_clean e'"
proof -
  have bs: "ed_clean (ed_backspace e)" "ed_clean (ed_left e)" "ed_clean (ed_right e)"
    using assms(1) by (auto simp: ed_clean_def ed_backspace_def ed_left_def ed_right_def dest: in_set_takeD in_set_dropD)
  have "ed_clean e'" if "ed_enter reports e = Some e'"
    using that assms(1) prompt_clean by (auto simp: ed_enter_def ed_clean_def Let_def split: if_splits dest: effect_lines_clean)
  then show ?thesis
    using assms bs ed_clean_insert [OF assms(1)] ed_clean_complete [OF assms(1)] ed_clean_up_down [OF assms(1,2)] prompt_clean
    by (cases key) (auto simp: ed_clean_def lit_def split: if_splits)
qed


text \<open>The prompt on an empty screen, and a key.\<close>

definition prompt_writer :: KWriter where
  "prompt_writer = (console_init wide_screen)\<lparr>current_line := prompt\<rparr>"


section \<open>The mouse cursor on the screen\<close>

lemma sint_i32: "- (2 ^ 31) \<le> k \<Longrightarrow> k < 2 ^ 31 \<Longrightarrow> sint (word_of_int k :: i32) = k"
  by (simp add: signed_of_int signed_take_bit_int_eq_self)

lemma right_bound:
  assumes "20 \<le> uint w" and "uint w < 2 ^ 31"
  shows "sint (ucast w - 20 :: i32) = uint w - 20"
proof -
  have "(ucast w :: i32) - 20 = word_of_int (uint w) - word_of_int 20" by (simp only: ucast_eq word_of_int_numeral)
  also have "\<dots> = word_of_int (uint w - 20)" by (simp only: wi_hom_sub)
  finally have "sint (ucast w - 20 :: i32) = sint (word_of_int (uint w - 20) :: i32)" by (simp only:)
  also have "\<dots> = uint w - 20" using assms by (intro sint_i32) simp_all
  finally show ?thesis .
qed

lemma clamp_range:
  assumes "sint lo \<le> sint hi"
  shows "\<exists>r. clamp lo hi v = Some r \<and> sint lo \<le> sint r \<and> sint r \<le> sint hi"
  using assms by (simp add: clamp_def)

lemma unat_scast_i32:
  fixes r :: i32
  assumes "0 \<le> sint r"
  shows "unat (scast r :: usize) = nat (sint r)"
proof -
  have k: "uint (word_of_int k :: usize) = k" if "0 \<le> k" "k < 2 ^ 64" for k
    using that by (simp add: take_bit_int_eq_self unsigned_of_int)
  have "sint r < 2 ^ 64" using sint_lt [of r] by simp
  from k [OF assms this] show ?thesis by (simp only: scast_eq nat_uint_eq [symmetric])
qed

text \<open>The pointer is on the screen, and below it is the picture \<open>m0\<close>.\<close>

definition pointer_at :: "MouseState \<Rightarrow> usize \<times> usize" where
  "pointer_at ms = (scast (mouse_x ms), scast (mouse_y ms))"

definition mouse_ok :: "Framebuffer \<Rightarrow> memory \<Rightarrow> MouseState \<times> memory \<Rightarrow> bool" where
  "mouse_ok fb m0 s \<longleftrightarrow> cursor_ok (mouse_cursor (fst s)) \<and> snd (erase_mouse_cursor fb (mouse_cursor (fst s), snd s)) = m0"

lemma erase_cursor_state:
  "cursor_ok c \<Longrightarrow> cursor_ok (fst (erase_mouse_cursor fb (c, m))) \<and> cur_position (fst (erase_mouse_cursor fb (c, m))) = None"
  by (auto simp: erase_mouse_cursor_def cursor_ok_def split: option.splits)

lemma move_mouse_step:
  assumes fb: "is_drawable fb" and w: "20 \<le> uint (fb_width fb)" "uint (fb_width fb) < 2 ^ 31"
    and h: "20 \<le> uint (fb_height fb)" "uint (fb_height fb) < 2 ^ 31" and ok: "mouse_ok fb m0 s"
  shows "\<exists>s'. move_mouse fb e s = Some s' \<and> mouse_ok fb m0 s' \<and> cursor_fits fb (pointer_at (fst s')) \<and>
    drawn fb (under_cursor (pointer_at (fst s'))) WHITE m0 (snd s')"
proof -
  obtain c m1 where er: "erase_mouse_cursor fb (mouse_cursor (fst s), snd s) = (c, m1)" by fastforce
  have c: "cursor_ok c" "cur_position c = None" "m1 = m0"
    using ok er erase_cursor_state [of "mouse_cursor (fst s)" fb "snd s"] by (simp_all add: mouse_ok_def)
  let ?hx = "ucast (fb_width fb) - ucast CURSOR_W :: i32" and ?hy = "ucast (fb_height fb) - ucast CURSOR_H :: i32"
  have hi: "sint ?hx = uint (fb_width fb) - 20" "sint ?hy = uint (fb_height fb) - 20"
    using right_bound [OF w] right_bound [OF h] by (simp_all add: CURSOR_W_def CURSOR_H_def)
  have lo: "sint (0 :: i32) = 0" by simp
  obtain x where x: "clamp 0 ?hx (mouse_x (fst s) + scast (delta (ev_dx e))) = Some x" "0 \<le> sint x" "sint x \<le> sint ?hx"
    using clamp_range [of 0 ?hx "mouse_x (fst s) + scast (delta (ev_dx e))"] hi(1) w(1) unfolding lo by auto
  obtain y where y: "clamp 0 ?hy (mouse_y (fst s) + scast (delta (ev_dy e))) = Some y" "0 \<le> sint y" "sint y \<le> sint ?hy"
    using clamp_range [of 0 ?hy "mouse_y (fst s) + scast (delta (ev_dy e))"] hi(2) h(1) unfolding lo by auto
  have "int (unat (scast x :: usize)) = sint x" "int (unat (scast y :: usize)) = sint y"
    using x(2) y(2) by (simp_all only: unat_scast_i32 int_nat_eq if_True)
  moreover have "int (unat (fb_width fb)) = uint (fb_width fb)" "int (unat (fb_height fb)) = uint (fb_height fb)" by simp_all
  ultimately have "int (unat (scast x :: usize) + 5) \<le> int (unat (fb_width fb))"
    "int (unat (scast y :: usize) + 5) \<le> int (unat (fb_height fb))"
    using x(3) y(3) unfolding hi of_nat_add by linarith+
  then have "unat (scast x :: usize) + 5 \<le> unat (fb_width fb)" "unat (scast y :: usize) + 5 \<le> unat (fb_height fb)"
    unfolding of_nat_le_iff .
  then have fits: "cursor_fits fb (scast x, scast y)" by (simp add: rect_fits_def MOUSE_CURSOR_SIZE_def)
  obtain c1 m2 where d: "draw_mouse_cursor fb \<lparr>at_x = scast x, at_y = scast y\<rparr> (c, m0) = (c1, m2)" by fastforce
  obtain c2 m3 where e2: "erase_mouse_cursor fb (c1, m2) = (c2, m3)" by fastforce
  have r: "m3 = m0" "drawn fb (under_cursor (scast x, scast y)) WHITE m0 m2"
    using draw_erase [OF fb c(1,2), of "\<lparr>at_x = scast x, at_y = scast y\<rparr>" m0] fits d e2 by simp_all
  have "cursor_ok c1"
    using d draw_cursor_cases(2) [OF fb, of "\<lparr>at_x = scast x, at_y = scast y\<rparr>" c m0] fits c(1)
    by (auto simp: cursor_ok_def save_pixels_def)
  then have "mouse_ok fb m0 (\<lparr>mouse_x = x, mouse_y = y, mouse_cursor = c1\<rparr>, m2)"
    using e2 r(1) by (simp add: mouse_ok_def)
  moreover have "move_mouse fb e s = Some (\<lparr>mouse_x = x, mouse_y = y, mouse_cursor = c1\<rparr>, m2)"
    using er c(3) x(1) y(1) d by (simp add: move_mouse_def)
  ultimately show ?thesis using fits r(2) by (auto simp: pointer_at_def)
qed

text \<open>C31: however the mouse moves, it leaves no trail and stays on the screen: on a screen of at least 20 by 20
  pixels no sequence of mouse events panics, and after it the picture is the one before with the white
  square at the current position, which is wholly visible; erasing the cursor gives the picture back.\<close>

theorem mouse_leaves_no_trail:
  assumes "is_drawable fb" and "20 \<le> uint (fb_width fb)" "uint (fb_width fb) < 2 ^ 31"
    and "20 \<le> uint (fb_height fb)" "uint (fb_height fb) < 2 ^ 31"
    and "cursor_ok (mouse_cursor ms)" and "cur_position (mouse_cursor ms) = None"
  shows "\<exists>ms' m'. fold (\<lambda>e s. Option.bind s (move_mouse fb e)) es (Some (ms, m)) = Some (ms', m') \<and>
    snd (erase_mouse_cursor fb (mouse_cursor ms', m')) = m \<and>
    (es \<noteq> [] \<longrightarrow> cursor_fits fb (pointer_at ms') \<and> drawn fb (under_cursor (pointer_at ms')) WHITE m m')"
proof -
  have run: "\<exists>s'. fold (\<lambda>e s. Option.bind s (move_mouse fb e)) es (Some s) = Some s' \<and> mouse_ok fb m s' \<and>
      (es \<noteq> [] \<longrightarrow> cursor_fits fb (pointer_at (fst s')) \<and> drawn fb (under_cursor (pointer_at (fst s'))) WHITE m (snd s'))"
    if "mouse_ok fb m s" for s
    using that
  proof (induction es arbitrary: s)
    case (Cons e es)
    from move_mouse_step [OF assms(1-5) Cons.prems, of e] obtain s1 where s1: "move_mouse fb e s = Some s1" "mouse_ok fb m s1"
      "cursor_fits fb (pointer_at (fst s1))" "drawn fb (under_cursor (pointer_at (fst s1))) WHITE m (snd s1)"
      by blast
    with Cons.IH [OF s1(2)] show ?case by (cases es) auto
  qed simp
  have "mouse_ok fb m (ms, m)" using assms(6,7) by (simp add: mouse_ok_def erase_mouse_cursor_def)
  from run [OF this] show ?thesis by (fastforce simp: mouse_ok_def)
qed

text \<open>One movement on the wide screen.\<close>

lemma mouse_leaves_no_trail_witness:
  "\<exists>ms' m'. move_mouse wide_screen \<lparr>ev_dx = MouseDelta 9, ev_dy = MouseDelta 300, ev_left = False, ev_right = False, ev_middle = False\<rparr>
       (\<lparr>mouse_x = 0, mouse_y = 0, mouse_cursor = initial_cursor\<rparr>, ucast) = Some (ms', m') \<and>
     snd (erase_mouse_cursor wide_screen (mouse_cursor ms', m')) = ucast"
proof -
  let ?e = "\<lparr>ev_dx = MouseDelta 9, ev_dy = MouseDelta 300, ev_left = False, ev_right = False, ev_middle = False\<rparr>"
  let ?ms = "\<lparr>mouse_x = 0, mouse_y = 0, mouse_cursor = initial_cursor\<rparr>"
  have "20 \<le> uint (fb_width wide_screen)" "uint (fb_width wide_screen) < 2 ^ 31"
    "20 \<le> uint (fb_height wide_screen)" "uint (fb_height wide_screen) < 2 ^ 31"
    "cursor_ok (mouse_cursor ?ms)" "cur_position (mouse_cursor ?ms) = None"
    by (simp_all add: wide_screen_def cursor_ok_def initial_cursor_def)
  from mouse_leaves_no_trail [OF wide_screen_drawable this, of "[?e]" ucast] show ?thesis by auto
qed

end
