(* ===== verification/FreeList.thy ===== *)
theory FreeList
  imports Heap "HOL-Library.Monad_Syntax"
begin

text \<open>
  The allocator of the feature \<^verbatim>\<open>custom-allocator\<close>, \<^verbatim>\<open>src/src/allocator/mod.rs\<close>: a free list whose headers
  lie in the free memory itself. Memory is a function from addresses to bytes and a header is two words
  in it, little-endian: the size and the address of the next chunk, \<open>0\<close> for null. A pointer to a link is
  \<open>None\<close> for the head of the allocator and \<open>Some c\<close> for the field \<open>next\<close> of the chunk at \<open>c\<close>. The lock is
  not modelled; walks along the list that would never end are \<open>None\<close>.
\<close>

type_synonym heap_bytes = "usize \<Rightarrow> u8"

section \<open>Words in memory\<close>

definition load64 :: "usize \<Rightarrow> heap_bytes \<Rightarrow> usize" where
  "load64 a m = horner_sum of_bool 2 (map (\<lambda>n. bit (m (a + of_nat (n div 8))) (n mod 8)) [0..<64])"

definition store64 :: "usize \<Rightarrow> usize \<Rightarrow> heap_bytes \<Rightarrow> heap_bytes" where
  "store64 a v m = (\<lambda>x. if x - a < 8 then ucast (drop_bit (8 * unat (x - a)) v) else m x)"

section \<open>The allocator\<close>

text \<open>\<open>size_of\<close> and \<open>align_of\<close> of \<open>FreeChunk\<close>.\<close>

definition CHUNK_SIZE :: usize where "CHUNK_SIZE = 16"
definition CHUNK_ALIGN :: usize where "CHUNK_ALIGN = 8"

abbreviation chunk_size :: "usize \<Rightarrow> heap_bytes \<Rightarrow> usize" where "chunk_size c m \<equiv> load64 c m"
abbreviation chunk_next :: "usize \<Rightarrow> heap_bytes \<Rightarrow> usize" where "chunk_next c m \<equiv> load64 (c + 8) m"

record FreeHeap =
  fh_head :: usize
  fh_memory :: heap_bytes

definition set_size :: "usize \<Rightarrow> usize \<Rightarrow> FreeHeap \<Rightarrow> FreeHeap" where
  "set_size c v s = s\<lparr>fh_memory := store64 c v (fh_memory s)\<rparr>"

definition set_next :: "usize \<Rightarrow> usize \<Rightarrow> FreeHeap \<Rightarrow> FreeHeap" where
  "set_next c v s = s\<lparr>fh_memory := store64 (c + 8) v (fh_memory s)\<rparr>"

definition get_link :: "usize option \<Rightarrow> FreeHeap \<Rightarrow> usize" where
  "get_link l s = (case l of None \<Rightarrow> fh_head s | Some c \<Rightarrow> chunk_next c (fh_memory s))"

definition set_link :: "usize option \<Rightarrow> usize \<Rightarrow> FreeHeap \<Rightarrow> FreeHeap" where
  "set_link l v s = (case l of None \<Rightarrow> s\<lparr>fh_head := v\<rparr> | Some c \<Rightarrow> set_next c v s)"

definition allocator_init :: "HeapRegion \<Rightarrow> FreeHeap \<Rightarrow> (HeapError, unit) result \<times> FreeHeap" where
  "allocator_init region s =
     (let start = region_start region; len = region_size region in
      if len < CHUNK_SIZE then (Inl TooSmall, s)
      else if \<not> is_multiple_of start CHUNK_ALIGN then (Inl Misaligned, s)
      else (Inr (), (set_next start 0 (set_size start len s))\<lparr>fh_head := start\<rparr>))"

text \<open>The placement of an allocation in a chunk: the aligned address, the end of the allocation and the end
  of the chunk, unless one of them overflows.\<close>

definition placement :: "usize \<Rightarrow> usize \<Rightarrow> usize \<Rightarrow> usize \<Rightarrow> (usize \<times> usize \<times> usize) option" where
  "placement dims alignment_offset start len =
     do {
       aligned_unmasked \<leftarrow> checked_add start alignment_offset;
       let aligned = aligned_unmasked AND NOT alignment_offset;
       e \<leftarrow> checked_add aligned dims;
       chunk_end \<leftarrow> checked_add start len;
       Some (aligned, e, chunk_end)
     }"

text \<open>What \<open>alloc\<close> does in a chunk that fits.\<close>

definition take_chunk :: "usize option \<Rightarrow> usize \<Rightarrow> usize \<Rightarrow> usize \<Rightarrow> FreeHeap \<Rightarrow> FreeHeap" where
  "take_chunk prev chunk e chunk_end s =
     (let remainder_size = chunk_end - e in
      if remainder_size \<ge> CHUNK_SIZE
      then let s = set_size e remainder_size s;
               s = set_next e (chunk_next chunk (fh_memory s)) s
           in set_link prev e s
      else set_link prev (chunk_next chunk (fh_memory s)) s)"

partial_function (option) alloc_loop ::
  "usize \<Rightarrow> usize \<Rightarrow> usize option \<Rightarrow> usize option \<Rightarrow> FreeHeap \<Rightarrow> (usize \<times> FreeHeap) option" where
  "alloc_loop dims align prev current s =
     (let chunk = get_link current s in
      if chunk = 0 then Some (0, s)
      else case checked_sub align 1 of
        None \<Rightarrow> Some (0, s)
      | Some alignment_offset \<Rightarrow>
         (case placement dims alignment_offset chunk (chunk_size chunk (fh_memory s)) of
            None \<Rightarrow> alloc_loop dims align (Some chunk) (Some chunk) s
          | Some p \<Rightarrow>
              if fst (snd p) \<le> snd (snd p)
              then Some (fst p, take_chunk prev chunk (fst (snd p)) (snd (snd p)) s)
              else alloc_loop dims align (Some chunk) (Some chunk) s))"

text \<open>A layout is a size and an alignment; the result \<open>0\<close> is null.\<close>

definition heap_alloc :: "usize \<Rightarrow> usize \<Rightarrow> FreeHeap \<Rightarrow> (usize \<times> FreeHeap) option" where
  "heap_alloc layout_size layout_align s =
     alloc_loop (max layout_size CHUNK_SIZE) (max layout_align CHUNK_ALIGN) None None s"

partial_function (option) insert_link :: "usize \<Rightarrow> usize option \<Rightarrow> FreeHeap \<Rightarrow> usize option option" where
  "insert_link chunk link s =
     (if get_link link s \<noteq> 0 \<and> get_link link s < chunk then insert_link chunk (Some (get_link link s)) s
      else Some link)"

partial_function (option) find_previous :: "usize \<Rightarrow> usize \<Rightarrow> usize \<Rightarrow> FreeHeap \<Rightarrow> usize option" where
  "find_previous chunk previous current s =
     (if current \<noteq> 0 \<and> current \<noteq> chunk
      then find_previous chunk current (chunk_next current (fh_memory s)) s
      else Some previous)"

text \<open>Merging the chunk at \<open>b\<close> into the chunk at \<open>a\<close> when it begins where that one ends.\<close>

definition merge_chunks :: "usize \<Rightarrow> usize \<Rightarrow> FreeHeap \<Rightarrow> FreeHeap" where
  "merge_chunks a b s =
     (let m = fh_memory s in
      if checked_add a (chunk_size a m) = Some b
      then case checked_add (chunk_size a m) (chunk_size b m) of
             None \<Rightarrow> s
           | Some merged_size \<Rightarrow> set_next a (chunk_next b m) (set_size a merged_size s)
      else s)"

definition heap_dealloc :: "usize \<Rightarrow> usize \<Rightarrow> FreeHeap \<Rightarrow> FreeHeap option" where
  "heap_dealloc ptr layout_size s =
     do {
       let dims = max layout_size CHUNK_SIZE;
       let chunk = ptr;
       let s = set_size chunk dims s;
       link \<leftarrow> insert_link chunk None s;
       let s = set_next chunk (get_link link s) s;
       let s = set_link link chunk s;
       let next = chunk_next chunk (fh_memory s);
       let s = (if next \<noteq> 0 then merge_chunks chunk next s else s);
       previous \<leftarrow> find_previous chunk 0 (fh_head s) s;
       Some (if previous \<noteq> 0 then merge_chunks previous chunk s else s)
     }"

section \<open>Reading what was written\<close>

text \<open>The addresses of \<open>n\<close> bytes from \<open>a\<close> on, and a change of memory within a set of addresses.\<close>

definition span :: "usize \<Rightarrow> nat \<Rightarrow> usize set" where
  "span a n = {x. unat a \<le> unat x \<and> unat x < unat a + n}"

definition changed_in :: "usize set \<Rightarrow> heap_bytes \<Rightarrow> heap_bytes \<Rightarrow> bool" where
  "changed_in X m m' \<longleftrightarrow> (\<forall>x. x \<notin> X \<longrightarrow> m' x = m x)"

lemma changed_in_refl [simp]: "changed_in X m m"
  by (simp add: changed_in_def)

lemma changed_in_trans: "changed_in X m m1 \<Longrightarrow> changed_in Y m1 m2 \<Longrightarrow> changed_in (X \<union> Y) m m2"
  by (simp add: changed_in_def)

lemma changed_in_mono: "changed_in X m m' \<Longrightarrow> X \<subseteq> Y \<Longrightarrow> changed_in Y m m'"
  by (auto simp: changed_in_def)

lemma span_mono: "unat b \<le> unat a \<Longrightarrow> unat a + n \<le> unat b + k \<Longrightarrow> span a n \<subseteq> span b k"
  by (auto simp: span_def)

lemma bit_load64: "bit (load64 a m) n \<longleftrightarrow> n < 64 \<and> bit (m (a + of_nat (n div 8))) (n mod 8)"
  by (auto simp: load64_def bit_horner_sum_bit_word_iff)

lemma diff_less:
  fixes x a :: usize
  assumes "unat a + 8 \<le> 2 ^ 64"
  shows "x - a < 8 \<longleftrightarrow> unat a \<le> unat x \<and> unat x < unat a + 8"
  using assms unat_bound [of x] by (auto simp: word_less_nat_alt unat_sub_if' word_le_nat_alt)

lemma changed_store: "unat a + 8 \<le> 2 ^ 64 \<Longrightarrow> changed_in (span a 8) m (store64 a v m)"
  by (auto simp: changed_in_def store64_def span_def diff_less)

lemma load_store [simp]: "load64 a (store64 a v m) = v"
proof (rule bit_word_eqI)
  fix n assume "n < LENGTH(64)"
  then have n: "n < 64" "n div 8 < 8" by simp_all
  then have "unat (of_nat (n div 8) :: usize) = n div 8" by (simp add: unat_of_nat)
  moreover from this n(2) have "(of_nat (n div 8) :: usize) < 8" by (simp add: word_less_nat_alt)
  moreover have "8 * (n div 8) + n mod 8 = n" by simp
  ultimately show "bit (load64 a (store64 a v m)) n \<longleftrightarrow> bit v n"
    using n(1) by (simp add: bit_load64 store64_def bit_simps)
qed

lemma add_in_span:
  assumes "unat a + n \<le> 2 ^ 64" and "i < n"
  shows "a + of_nat i \<in> span a n"
proof -
  have "unat (of_nat i :: usize) = i" using assms by (simp add: unat_of_nat take_bit_nat_eq_self)
  then have "unat (a + of_nat i) = unat a + i" using assms by (subst unat_add_exact) simp_all
  then show ?thesis using assms(2) by (simp add: span_def)
qed

lemma load_changed:
  assumes "changed_in X m m'" and "span a 8 \<inter> X = {}" and "unat a + 8 \<le> 2 ^ 64"
  shows "load64 a m' = load64 a m"
proof (rule bit_word_eqI)
  fix n assume "n < LENGTH(64)"
  then have "a + of_nat (n div 8) \<in> span a 8" by (intro add_in_span assms(3)) simp
  then have "m' (a + of_nat (n div 8)) = m (a + of_nat (n div 8))" using assms(1,2) by (auto simp: changed_in_def)
  then show "bit (load64 a m') n \<longleftrightarrow> bit (load64 a m) n" by (simp add: bit_load64)
qed

section \<open>Chains\<close>

text \<open>\<open>chain p cs q m\<close>: following the links from \<open>p\<close> one meets the chunks \<open>cs\<close>, each with its size, and then \<open>q\<close>.\<close>

fun chain :: "usize \<Rightarrow> (usize \<times> usize) list \<Rightarrow> usize \<Rightarrow> heap_bytes \<Rightarrow> bool" where
  "chain p [] q m \<longleftrightarrow> p = q"
| "chain p ((a, n) # cs) q m \<longleftrightarrow> p = a \<and> a \<noteq> 0 \<and> chunk_size a m = n \<and> chain (chunk_next a m) cs q m"

text \<open>Chunks in address order between \<open>lo\<close> and \<open>hi\<close>, each with room for its header, none overlapping.\<close>

fun chunks_ok :: "nat \<Rightarrow> nat \<Rightarrow> (usize \<times> usize) list \<Rightarrow> bool" where
  "chunks_ok lo hi [] \<longleftrightarrow> lo \<le> hi"
| "chunks_ok lo hi ((a, n) # cs) \<longleftrightarrow> lo \<le> unat a \<and> 16 \<le> unat n \<and> chunks_ok (unat a + unat n) hi cs"

definition free_bytes :: "(usize \<times> usize) list \<Rightarrow> usize set" where
  "free_bytes cs = (\<Union>(a, n) \<in> set cs. span a (unat n))"

lemma free_bytes_simps [simp]:
  "free_bytes [] = {}" "free_bytes ((a, n) # cs) = span a (unat n) \<union> free_bytes cs"
  "free_bytes (xs @ ys) = free_bytes xs \<union> free_bytes ys"
  by (auto simp: free_bytes_def)

lemma chain_append: "chain p (xs @ ys) q m \<longleftrightarrow> (\<exists>r. chain p xs r m \<and> chain r ys q m)"
  by (induction p xs q m rule: chain.induct) auto

lemma chunks_ok_le: "chunks_ok lo hi cs \<Longrightarrow> lo \<le> hi"
  by (induction lo hi cs rule: chunks_ok.induct) auto

lemma chunks_ok_lower: "chunks_ok lo hi cs \<Longrightarrow> lo' \<le> lo \<Longrightarrow> chunks_ok lo' hi cs"
  by (cases cs) auto

text \<open>The end of a list of chunks.\<close>

definition chunks_end :: "nat \<Rightarrow> (usize \<times> usize) list \<Rightarrow> nat" where
  "chunks_end lo cs = (if cs = [] then lo else unat (fst (last cs)) + unat (snd (last cs)))"

lemma chunks_ok_append: "chunks_ok lo hi (xs @ ys) \<longleftrightarrow> chunks_ok lo (chunks_end lo xs) xs \<and> chunks_ok (chunks_end lo xs) hi ys"
proof (induction xs arbitrary: lo)
  case (Cons x xs)
  obtain a n where x: "x = (a, n)" by fastforce
  have "chunks_end lo (x # xs) = chunks_end (unat a + unat n) xs" by (simp add: chunks_end_def x)
  with Cons.IH [of "unat a + unat n"] show ?case by (auto simp: x)
qed (simp add: chunks_end_def)

lemma free_bytes_range: "chunks_ok lo hi cs \<Longrightarrow> x \<in> free_bytes cs \<Longrightarrow> lo \<le> unat x \<and> unat x < hi"
proof (induction cs arbitrary: lo)
  case (Cons c cs)
  obtain a n where c: "c = (a, n)" by fastforce
  from Cons.prems(1) have le: "unat a + unat n \<le> hi" by (auto simp: c dest: chunks_ok_le)
  from Cons.prems(2) consider "x \<in> span a (unat n)" | "x \<in> free_bytes cs" by (auto simp: c)
  then show ?case
  proof cases
    case 1
    with Cons.prems(1) le show ?thesis by (auto simp: c span_def)
  next
    case 2
    with Cons.IH [of "unat a + unat n"] Cons.prems(1) show ?thesis by (auto simp: c)
  qed
qed simp

lemma header_span:
  assumes "16 \<le> k"
  shows "span a 8 \<subseteq> span a k" "unat a + 16 \<le> 2 ^ 64 \<Longrightarrow> span (a + 8) 8 \<subseteq> span a k" "unat a + 16 \<le> 2 ^ 64 \<Longrightarrow> unat (a + 8) = unat a + 8"
proof -
  show "span a 8 \<subseteq> span a k" using assms by (intro span_mono) auto
  show eq: "unat (a + 8) = unat a + 8" if "unat a + 16 \<le> 2 ^ 64" using that by (subst unat_add_exact) simp_all
  show "span (a + 8) 8 \<subseteq> span a k" if "unat a + 16 \<le> 2 ^ 64" using assms eq [OF that] by (intro span_mono) auto
qed

lemma chain_changed:
  assumes "chunks_ok lo hi cs" and "hi < 2 ^ 64" and "changed_in X m m'" and "X \<inter> free_bytes cs = {}"
  shows "chain p cs q m' \<longleftrightarrow> chain p cs q m"
  using assms(1,4)
proof (induction cs arbitrary: lo p)
  case (Cons c cs)
  obtain a n where c: "c = (a, n)" by fastforce
  have n: "16 \<le> unat n" "unat a + unat n \<le> hi" using Cons.prems(1) by (auto simp: c dest: chunks_ok_le)
  note h = header_span [OF n(1), of a]
  have "unat a + 16 \<le> 2 ^ 64" using n assms(2) by simp
  then have "load64 a m' = load64 a m" "load64 (a + 8) m' = load64 (a + 8) m"
    using h Cons.prems(2) by (auto intro!: load_changed [OF assms(3)] simp: c)
  then show ?case using Cons.IH [of "unat a + unat n"] Cons.prems by (auto simp: c)
qed simp

section \<open>Links\<close>

definition link_after :: "(usize \<times> usize) list \<Rightarrow> usize option" where
  "link_after pre = (if pre = [] then None else Some (fst (last pre)))"

lemma link_after_simps [simp]: "link_after [] = None" "link_after (pre @ [c]) = Some (fst c)"
  by (simp_all add: link_after_def)

lemma get_link_after:
  assumes "chain (fh_head s) pre q (fh_memory s)"
  shows "get_link (link_after pre) s = q"
proof (cases pre rule: rev_cases)
  case (snoc xs c)
  with assms show ?thesis by (cases c) (auto simp: get_link_def chain_append)
qed (use assms in \<open>simp add: get_link_def\<close>)

lemma set_fields [simp]:
  "fh_memory (set_size c v s) = store64 c v (fh_memory s)" "fh_head (set_size c v s) = fh_head s"
  "fh_memory (set_next c v s) = store64 (c + 8) v (fh_memory s)" "fh_head (set_next c v s) = fh_head s"
  by (simp_all add: set_size_def set_next_def)

text \<open>A write into the header of a chunk, and the two words of it.\<close>

lemma write_header:
  assumes "16 \<le> k" and "unat a + k \<le> 2 ^ 64"
  shows "changed_in (span a k) m (store64 a v m)" "changed_in (span a k) m (store64 (a + 8) v m)"
    "load64 a (store64 (a + 8) v m) = load64 a m" "load64 (a + 8) (store64 a v m) = load64 (a + 8) m"
proof -
  have le: "unat a + 16 \<le> 2 ^ 64" using assms by simp
  note h = header_span [OF assms(1), of a] and a8 = header_span(3) [OF order_refl le]
  have c: "changed_in (span a 8) m (store64 a v m)" "changed_in (span (a + 8) 8) m (store64 (a + 8) v m)"
    using le a8 by (auto intro: changed_store)
  then show "changed_in (span a k) m (store64 a v m)" "changed_in (span a k) m (store64 (a + 8) v m)"
    using h le changed_in_mono by blast+
  have "span a 8 \<inter> span (a + 8) 8 = {}" using a8 by (auto simp: span_def)
  then show "load64 a (store64 (a + 8) v m) = load64 a m" "load64 (a + 8) (store64 a v m) = load64 (a + 8) m"
    using le a8 by (auto intro: load_changed [OF c(2)] load_changed [OF c(1)])
qed

lemma chunks_disjoint:
  assumes "chunks_ok lo hi (xs @ (a, n) # ys)"
  shows "span a (unat n) \<inter> free_bytes xs = {}" "span a (unat n) \<inter> free_bytes ys = {}" "free_bytes xs \<inter> free_bytes ys = {}"
    "16 \<le> unat n" "unat a + unat n \<le> hi"
proof -
  let ?e = "chunks_end lo xs"
  have xs: "chunks_ok lo ?e xs" and ys: "chunks_ok (unat a + unat n) hi ys" and a: "?e \<le> unat a" "16 \<le> unat n"
    using assms by (simp_all add: chunks_ok_append)
  show "span a (unat n) \<inter> free_bytes xs = {}" "span a (unat n) \<inter> free_bytes ys = {}" "free_bytes xs \<inter> free_bytes ys = {}"
    using a free_bytes_range [OF xs] free_bytes_range [OF ys] by (fastforce simp: span_def)+
  show "16 \<le> unat n" "unat a + unat n \<le> hi" using a(2) chunks_ok_le [OF ys] by simp_all
qed

lemma chain_set_link:
  assumes "chain (fh_head s) pre q (fh_memory s)" and "chunks_ok lo hi pre" and "hi < 2 ^ 64"
  shows "chain (fh_head (set_link (link_after pre) v s)) pre v (fh_memory (set_link (link_after pre) v s))"
    "changed_in (free_bytes pre) (fh_memory s) (fh_memory (set_link (link_after pre) v s))"
proof -
  have "chain (fh_head (set_link (link_after pre) v s)) pre v (fh_memory (set_link (link_after pre) v s)) \<and>
    changed_in (free_bytes pre) (fh_memory s) (fh_memory (set_link (link_after pre) v s))"
  proof (cases pre rule: rev_cases)
    case Nil
    then show ?thesis by (simp add: set_link_def)
  next
    case (snoc xs c)
    obtain a n where c: "c = (a, n)" by fastforce
    have pre: "chunks_ok lo hi (xs @ (a, n) # [])" using assms(2) snoc c by simp
    note d = chunks_disjoint [OF pre]
    have ch: "chain (fh_head s) xs a (fh_memory s)" "a \<noteq> 0" "chunk_size a (fh_memory s) = n"
      using assms(1) snoc c by (auto simp: chain_append)
    have le: "unat a + unat n \<le> 2 ^ 64" using d(5) assms(3) by simp
    note w = write_header [OF d(4) le]
    have "chunks_ok lo (chunks_end lo xs) xs" "chunks_end lo xs < 2 ^ 64"
      using pre assms(3) d by (auto simp: chunks_ok_append)
    then have "chain (fh_head s) xs a (store64 (a + 8) v (fh_memory s))"
      using chain_changed [OF _ _ w(2) d(1)] ch(1) by blast
    then show ?thesis
      using w ch snoc c changed_in_mono [OF w(2), of "free_bytes pre"] by (simp add: set_link_def chain_append)
  qed
  then show "chain (fh_head (set_link (link_after pre) v s)) pre v (fh_memory (set_link (link_after pre) v s))"
    "changed_in (free_bytes pre) (fh_memory s) (fh_memory (set_link (link_after pre) v s))"
    by blast+
qed

text \<open>The state of the allocator shows the chunks \<open>cs\<close>.\<close>

definition heap_shows :: "nat \<Rightarrow> nat \<Rightarrow> (usize \<times> usize) list \<Rightarrow> FreeHeap \<Rightarrow> bool" where
  "heap_shows lo hi cs s \<longleftrightarrow> chain (fh_head s) cs 0 (fh_memory s) \<and> chunks_ok lo hi cs \<and> 0 < lo \<and> hi < 2 ^ 64"

text \<open>Replacing the chunks between two parts of the list, after a change of memory that left those parts alone.\<close>

lemma replace_chunks:
  assumes s: "heap_shows lo hi (pre @ mid @ post) s"
    and m: "changed_in X (fh_memory s) (fh_memory s1)" "fh_head s1 = fh_head s" "X \<inter> free_bytes (pre @ post) = {}"
    and r: "chain r post 0 (fh_memory s)" and new: "chain v mid' r (fh_memory s1)"
    and ok: "chunks_ok lo hi (pre @ mid' @ post)" and free: "free_bytes pre \<inter> free_bytes mid' = {}"
  shows "heap_shows lo hi (pre @ mid' @ post) (set_link (link_after pre) v s1)"
    "changed_in (X \<union> free_bytes pre) (fh_memory s) (fh_memory (set_link (link_after pre) v s1))"
proof -
  have b: "hi < 2 ^ 64" "0 < lo" "chunks_ok lo hi (pre @ mid @ post)" using s by (simp_all add: heap_shows_def)
  obtain q where "chain (fh_head s) pre q (fh_memory s)" using s by (auto simp: heap_shows_def chain_append)
  moreover have pre: "chunks_ok lo (chunks_end lo pre) pre" "chunks_ok (chunks_end lo pre) hi (mid' @ post)"
    using ok by (simp_all add: chunks_ok_append)
  moreover have e: "chunks_end lo pre < 2 ^ 64" using chunks_ok_le [OF pre(2)] b(1) by simp
  ultimately have "chain (fh_head s1) pre q (fh_memory s1)"
    using chain_changed [OF pre(1) e m(1)] m(2,3) by auto
  note l = chain_set_link [OF this pre(1) e, of v]
  have rest: "chunks_ok (chunks_end lo pre) (chunks_end (chunks_end lo pre) mid') mid'"
    "chunks_ok (chunks_end (chunks_end lo pre) mid') hi post"
    using pre(2) by (simp_all add: chunks_ok_append)
  have "chain v mid' r (fh_memory (set_link (link_after pre) v s1))"
    using chain_changed [OF rest(1) _ l(2)] new free chunks_ok_le [OF rest(2)] b(1) by auto
  moreover have "chain r post 0 (fh_memory s1)"
    using chain_changed [OF rest(2) b(1) m(1)] m(3) r by auto
  moreover have "free_bytes pre \<inter> free_bytes post = {}"
    using free_bytes_range [OF pre(1)] free_bytes_range [OF rest(2)] chunks_ok_le [OF rest(1)] by fastforce
  ultimately have "chain v (mid' @ post) 0 (fh_memory (set_link (link_after pre) v s1))"
    using chain_changed [OF rest(2) b(1) l(2)] by (auto simp: chain_append)
  then show "heap_shows lo hi (pre @ mid' @ post) (set_link (link_after pre) v s1)"
    using l(1) ok b by (auto simp: heap_shows_def chain_append)
  show "changed_in (X \<union> free_bytes pre) (fh_memory s) (fh_memory (set_link (link_after pre) v s1))"
    using changed_in_trans [OF m(1) l(2)] .
qed

section \<open>Placing an allocation\<close>

definition align_up :: "nat \<Rightarrow> nat \<Rightarrow> nat" where
  "align_up k a = (a + 2 ^ k - 1) div 2 ^ k * 2 ^ k"

text \<open>An allocation of \<open>d\<close> bytes at a multiple of \<open>2\<close>^\<open>k\<close> fits the chunk.\<close>

definition fits :: "usize \<Rightarrow> nat \<Rightarrow> usize \<times> usize \<Rightarrow> bool" where
  "fits d k c \<longleftrightarrow> align_up k (unat (fst c)) + unat d \<le> unat (fst c) + unat (snd c)"

lemma align_up_bounds: "a \<le> align_up k a" "align_up k a \<le> a + 2 ^ k - 1" "2 ^ k dvd align_up k a"
proof -
  have "(a + 2 ^ k - 1) mod 2 ^ k < 2 ^ k" by simp
  then show "a \<le> align_up k a"
    using div_mult_mod_eq [of "a + 2 ^ k - 1" "2 ^ k"] unfolding align_up_def by linarith
  show "align_up k a \<le> a + 2 ^ k - 1" unfolding align_up_def by (rule div_times_less_eq_dividend)
  show "2 ^ k dvd align_up k a" by (simp add: align_up_def)
qed

lemma unat_pow2: "k < 64 \<Longrightarrow> unat (2 ^ k :: usize) = 2 ^ k"
proof -
  assume "k < 64"
  then have "(2 :: nat) ^ k < 2 ^ 64" by (intro power_strict_increasing) simp_all
  then have "unat (of_nat (2 ^ k) :: usize) = 2 ^ k" by (simp only: unat_of_nat) (simp add: take_bit_nat_eq_self)
  then show ?thesis by simp
qed

lemma dvd_room:
  fixes p x n :: nat
  assumes "p dvd x" and "p dvd n" and "x < n"
  shows "x + p \<le> n"
proof -
  from assms(1,2) obtain q r where "x = p * q" "n = p * r" unfolding dvd_def by blast
  with assms(3) have "q < r" by simp
  then have "p * (q + 1) \<le> p * r" by (intro mult_le_mono2) simp
  then show ?thesis using \<open>x = p * q\<close> \<open>n = p * r\<close> by simp
qed

lemma unat_round_down_pow:
  fixes x :: usize
  assumes "k < 64"
  shows "unat (x AND NOT (2 ^ k - 1)) = unat x div 2 ^ k * 2 ^ k"
proof -
  have m: "(2 ^ k - 1 :: usize) = mask k" by (simp add: mask_eq_exp_minus_1)
  have "unat x div 2 ^ k * 2 ^ k \<le> unat x" by (rule div_times_less_eq_dividend)
  moreover have "unat x < 2 ^ 64" using unat_bound [of x] by simp
  ultimately have "unat x div 2 ^ k * 2 ^ k < 2 ^ 64" by (rule le_less_trans)
  moreover have p: "unat (2 ^ k :: usize) = 2 ^ k" using assms by (rule unat_pow2)
  then have "unat (drop_bit k x) = unat x div 2 ^ k" by (simp add: drop_bit_eq_div unat_div)
  ultimately show ?thesis
    unfolding m round_down_mask push_bit_eq_mult using p by (subst unat_mult_exact) simp_all
qed

lemma placement_fits:
  assumes "unat a + unat n < 2 ^ 64" and "k < 64" and "0 < unat d"
  shows "fits d k (a, n) \<Longrightarrow> \<exists>p e ce. placement d (2 ^ k - 1) a n = Some (p, e, ce) \<and> e \<le> ce \<and>
      unat p = align_up k (unat a) \<and> unat e = align_up k (unat a) + unat d \<and> unat ce = unat a + unat n"
    "\<not> fits d k (a, n) \<Longrightarrow> case placement d (2 ^ k - 1) a n of None \<Rightarrow> True | Some p \<Rightarrow> \<not> fst (snd p) \<le> snd (snd p)"
proof -
  have pow: "unat (2 ^ k :: usize) = 2 ^ k" using assms(2) by (rule unat_pow2)
  have "(1 :: nat) \<le> 2 ^ k" by simp
  then have off: "unat (2 ^ k - 1 :: usize) = 2 ^ k - 1"
    using pow by (subst unat_sub_exact) (simp_all add: word_le_nat_alt)
  have k: "(2 :: nat) ^ k dvd 2 ^ 64" using assms(2) by (intro le_imp_power_dvd) simp
  have round: "unat ((a + (2 ^ k - 1)) AND NOT (2 ^ k - 1)) = align_up k (unat a)" if "unat a + (2 ^ k - 1) < 2 ^ 64"
    using that assms(2) off by (simp add: unat_round_down_pow unat_add_exact align_up_def)
  show "\<exists>p e ce. placement d (2 ^ k - 1) a n = Some (p, e, ce) \<and> e \<le> ce \<and>
      unat p = align_up k (unat a) \<and> unat e = align_up k (unat a) + unat d \<and> unat ce = unat a + unat n"
    if f: "fits d k (a, n)"
  proof -
    have lt: "align_up k (unat a) + unat d < 2 ^ 64" using f assms(1) by (simp add: fits_def)
    then have "align_up k (unat a) < 2 ^ 64" by simp
    then have "align_up k (unat a) + 2 ^ k \<le> 2 ^ 64" using align_up_bounds(3) k by (intro dvd_room)
    then have "unat a + (2 ^ k - 1) < 2 ^ 64" using align_up_bounds(1) [of "unat a" k] \<open>1 \<le> 2 ^ k\<close> by linarith
    note a = this
    have p: "unat ((a + (2 ^ k - 1)) AND NOT (2 ^ k - 1)) = align_up k (unat a)" using a by (rule round)
    have e: "unat (((a + (2 ^ k - 1)) AND NOT (2 ^ k - 1)) + d) = align_up k (unat a) + unat d"
      using p lt by (simp add: unat_add_exact)
    have ce: "unat (a + n) = unat a + unat n" using assms(1) by (simp add: unat_add_exact)
    have "placement d (2 ^ k - 1) a n =
        Some ((a + (2 ^ k - 1)) AND NOT (2 ^ k - 1), ((a + (2 ^ k - 1)) AND NOT (2 ^ k - 1)) + d, a + n)"
      using a lt assms(1) off p by (simp add: placement_def checked_add_def Let_def)
    then show ?thesis using p e ce f by (simp add: fits_def word_le_nat_alt)
  qed
  show "case placement d (2 ^ k - 1) a n of None \<Rightarrow> True | Some p \<Rightarrow> \<not> fst (snd p) \<le> snd (snd p)"
    if f: "\<not> fits d k (a, n)"
  proof (cases "unat a + (2 ^ k - 1) < 2 ^ 64")
    case True
    let ?p = "(a + (2 ^ k - 1)) AND NOT (2 ^ k - 1)"
    have p: "unat ?p = align_up k (unat a)" using True by (rule round)
    have "\<not> e \<le> ce" if "checked_add ?p d = Some e" "checked_add a n = Some ce" for e ce
      using that f p by (simp add: checked_add_Some_iff fits_def word_le_nat_alt)
    then show ?thesis
      using True off by (auto simp: placement_def checked_add_def [of a "2 ^ k - 1"] Let_def split: option.splits Option.bind_splits)
  next
    case False
    then have "checked_add a (2 ^ k - 1) = None" using off by (simp add: checked_add_None_iff)
    then show ?thesis by (simp add: placement_def)
  qed
qed

section \<open>Allocating\<close>

text \<open>What is left of a chunk behind an allocation that ends at \<open>e\<close>: the allocator keeps it when a header fits.\<close>

definition leftover :: "nat \<Rightarrow> usize \<times> usize \<Rightarrow> (usize \<times> usize) list" where
  "leftover e c = (let r = unat (fst c) + unat (snd c) - e in if 16 \<le> r then [(of_nat e, of_nat r)] else [])"

text \<open>First fit on the list of chunks: the address, \<open>0\<close> when nothing fits, and the chunks that stay free.\<close>

definition alloc_chunks :: "usize \<Rightarrow> nat \<Rightarrow> (usize \<times> usize) list \<Rightarrow> usize \<times> (usize \<times> usize) list" where
  "alloc_chunks d k cs =
     (case dropWhile (\<lambda>c. \<not> fits d k c) cs of
        [] \<Rightarrow> (0, cs)
      | c # post \<Rightarrow>
          (let p = align_up k (unat (fst c)) in
           (of_nat p, takeWhile (\<lambda>c. \<not> fits d k c) cs @ leftover (p + unat d) c @ post)))"

lemma unat_of_nat_small: "i < 2 ^ 64 \<Longrightarrow> unat (of_nat i :: usize) = i"
  by (simp add: unat_of_nat take_bit_nat_eq_self)

lemma take_chunk_shows:
  assumes s: "heap_shows lo hi (pre @ (a, n) # post) s"
    and e: "unat a + 16 \<le> unat e" "unat e \<le> unat ce" "unat ce = unat a + unat n"
  defines "cs \<equiv> pre @ leftover (unat e) (a, n) @ post"
  shows "heap_shows lo hi cs (take_chunk (link_after pre) a e ce s)"
    "changed_in (free_bytes cs) (fh_memory s) (fh_memory (take_chunk (link_after pre) a e ce s))"
proof -
  have b: "hi < 2 ^ 64" "0 < lo" and ok: "chunks_ok lo hi (pre @ (a, n) # post)" and s': "heap_shows lo hi (pre @ [(a, n)] @ post) s"
    using s by (simp_all add: heap_shows_def)
  note d = chunks_disjoint [OF ok]
  have top: "unat a + unat n \<le> 2 ^ 64" using d(5) b(1) by simp
  let ?r = "chunk_next a (fh_memory s)"
  have chain: "chain ?r post 0 (fh_memory s)" using s by (auto simp: heap_shows_def chain_append)
  have rem: "unat (ce - e) = unat a + unat n - unat e" using e by (simp add: unat_sub_exact word_le_nat_alt)
  have parts: "chunks_ok lo (chunks_end lo pre) pre" "chunks_end lo pre \<le> unat a" "chunks_ok (unat a + unat n) hi post"
    using ok by (simp_all add: chunks_ok_append)
  show "heap_shows lo hi cs (take_chunk (link_after pre) a e ce s)"
    "changed_in (free_bytes cs) (fh_memory s) (fh_memory (take_chunk (link_after pre) a e ce s))"
  proof (atomize(full), cases "CHUNK_SIZE \<le> ce - e")
    case True
    then have r: "16 \<le> unat (ce - e)" by (simp add: CHUNK_SIZE_def word_le_nat_alt)
    then have left: "leftover (unat e) (a, n) = [(e, ce - e)]"
      unfolding leftover_def Let_def fst_conv snd_conv rem [symmetric] by simp
    have es: "unat e + unat (ce - e) = unat a + unat n" using rem e by linarith
    note w = write_header [OF r, of e] and es' = top [folded es]
    define s1 where "s1 = set_next e ?r (set_size e (ce - e) s)"
    have X: "changed_in (span e (unat (ce - e))) (fh_memory s) (fh_memory (set_size e (ce - e) s))"
      "changed_in (span e (unat (ce - e))) (fh_memory s) (fh_memory s1)"
      using w(1) [OF es'] changed_in_trans [OF w(1) [OF es'] w(2) [OF es']] by (simp_all add: s1_def)
    have "span (a + 8) 8 \<inter> span e (unat (ce - e)) = {}" "unat (a + 8) + 8 \<le> 2 ^ 64"
      using header_span(3) [of 16 a] e(1) top d(4) by (auto simp: span_def)
    then have "chunk_next a (fh_memory (set_size e (ce - e) s)) = ?r" using load_changed [OF X(1)] by blast
    then have take: "take_chunk (link_after pre) a e ce s = set_link (link_after pre) e s1"
      using True by (simp add: take_chunk_def s1_def Let_def)
    have sub: "span e (unat (ce - e)) \<subseteq> span a (unat n)" using e rem by (intro span_mono) auto
    have new: "chain e [(e, ce - e)] ?r (fh_memory s1)"
      using e(1) es' w(3,4) by (auto simp: s1_def)
    have ok': "chunks_ok lo hi (pre @ [(e, ce - e)] @ post)"
      using parts r e(1) es by (simp add: chunks_ok_append [of lo hi pre])
    have "fh_head s1 = fh_head s" by (simp add: s1_def)
    note replace_chunks [OF s' X(2) this _ chain new ok']
    with sub d take left show "heap_shows lo hi cs (take_chunk (link_after pre) a e ce s) \<and>
        changed_in (free_bytes cs) (fh_memory s) (fh_memory (take_chunk (link_after pre) a e ce s))"
      unfolding cs_def by (auto intro: changed_in_mono)
  next
    case False
    then have r: "\<not> 16 \<le> unat (ce - e)" by (simp add: CHUNK_SIZE_def word_le_nat_alt)
    then have left: "leftover (unat e) (a, n) = []" using rem by (simp add: leftover_def)
    have take: "take_chunk (link_after pre) a e ce s = set_link (link_after pre) ?r s"
      using False by (simp add: take_chunk_def)
    have "chunks_ok lo hi (pre @ [] @ post)"
      using parts chunks_ok_lower [OF parts(3)] by (simp add: chunks_ok_append [of lo hi pre])
    from replace_chunks [OF s' changed_in_refl [of "{}"] refl _ chain _ this, of ?r]
    show "heap_shows lo hi cs (take_chunk (link_after pre) a e ce s) \<and>
        changed_in (free_bytes cs) (fh_memory s) (fh_memory (take_chunk (link_after pre) a e ce s))"
      unfolding cs_def by (auto simp: take left intro: changed_in_mono)
  qed
qed

lemma alloc_loop_run:
  assumes "heap_shows lo hi (pre @ rest) s" and "k < 64" and "16 \<le> unat d"
  shows "alloc_loop d (2 ^ k) (link_after pre) (link_after pre) s =
    (case dropWhile (\<lambda>c. \<not> fits d k c) rest of
       [] \<Rightarrow> Some (0, s)
     | (a, n) # post \<Rightarrow> Some (of_nat (align_up k (unat a)),
         take_chunk (link_after (pre @ takeWhile (\<lambda>c. \<not> fits d k c) rest)) a (of_nat (align_up k (unat a) + unat d)) (a + n) s))"
  using assms(1)
proof (induction rest arbitrary: pre)
  case Nil
  then have "get_link (link_after pre) s = 0" by (intro get_link_after) (simp add: heap_shows_def)
  then show ?case by (subst alloc_loop.simps) simp
next
  case (Cons c rest)
  obtain a n where c: "c = (a, n)" by fastforce
  obtain q where q: "chain (fh_head s) pre q (fh_memory s)" "chain q (c # rest) 0 (fh_memory s)"
    using Cons.prems by (auto simp: heap_shows_def chain_append)
  then have link: "get_link (link_after pre) s = a" and a: "a \<noteq> 0" "chunk_size a (fh_memory s) = n"
    by (auto simp: get_link_after c)
  have "chunks_ok lo hi (pre @ (a, n) # rest)" "hi < 2 ^ 64" using Cons.prems by (simp_all add: heap_shows_def c)
  from chunks_disjoint(5) [OF this(1)] this(2) have an: "unat a + unat n < 2 ^ 64" by simp
  have "(1 :: usize) \<le> 2 ^ k" using unat_pow2 [OF assms(2)] by (simp add: word_le_nat_alt)
  then have off: "checked_sub (2 ^ k) 1 = Some (2 ^ k - 1 :: usize)" by (simp add: checked_sub_def)
  have d: "0 < unat d" using assms(3) by simp
  show ?case
  proof (cases "fits d k c")
    case True
    with placement_fits(1) [OF an assms(2) d] obtain p e ce where p: "placement d (2 ^ k - 1) a n = Some (p, e, ce)" "e \<le> ce"
      "unat p = align_up k (unat a)" "unat e = align_up k (unat a) + unat d" "unat ce = unat a + unat n"
      unfolding c by blast
    have "p = of_nat (align_up k (unat a))" unfolding p(3) [symmetric] by simp
    moreover have "e = of_nat (align_up k (unat a) + unat d)" unfolding p(4) [symmetric] by simp
    moreover have "ce = a + n" using p(5) an by (simp add: word_unat_eq_iff unat_add_exact)
    ultimately have "placement d (2 ^ k - 1) a n =
        Some (of_nat (align_up k (unat a)), of_nat (align_up k (unat a) + unat d), a + n)"
      "of_nat (align_up k (unat a) + unat d) \<le> a + n"
      using p(1,2) by simp_all
    then show ?thesis using True link a off by (subst alloc_loop.simps) (simp add: c)
  next
    case False
    with placement_fits(2) [OF an assms(2) d]
    have "alloc_loop d (2 ^ k) (link_after pre) (link_after pre) s =
        alloc_loop d (2 ^ k) (link_after (pre @ [c])) (link_after (pre @ [c])) s"
      using link a off by (subst alloc_loop.simps) (auto simp: c split: option.splits)
    moreover have "pre @ takeWhile (\<lambda>c. \<not> fits d k c) (c # rest) = (pre @ [c]) @ takeWhile (\<lambda>c. \<not> fits d k c) rest"
      using False by simp
    moreover have "dropWhile (\<lambda>c. \<not> fits d k c) (c # rest) = dropWhile (\<lambda>c. \<not> fits d k c) rest"
      using False by simp
    ultimately show ?thesis using Cons.IH [of "pre @ [c]"] Cons.prems by (simp only: append_assoc append.simps)
  qed
qed

text \<open>Both operations raise the requested size to that of a header, and \<open>alloc\<close> the alignment to that of a header.\<close>

abbreviation block_size :: "usize \<Rightarrow> usize" where "block_size len \<equiv> max len CHUNK_SIZE"

lemma block_size_ge: "16 \<le> unat (block_size len)"
  by (simp add: CHUNK_SIZE_def max_def word_le_nat_alt)

lemma max_align: "k < 64 \<Longrightarrow> max (2 ^ k) CHUNK_ALIGN = (2 ^ max k 3 :: usize)"
proof -
  assume k: "k < 64"
  have al: "CHUNK_ALIGN = 2 ^ 3" by (simp add: CHUNK_ALIGN_def)
  have le: "(2 ^ k :: usize) \<le> 2 ^ j \<longleftrightarrow> k \<le> j" if "j < 64" for j
    using unat_pow2 [OF k] unat_pow2 [OF that] by (simp add: word_le_nat_alt)
  have "(2 ^ k :: usize) \<le> 2 ^ 3 \<longleftrightarrow> k \<le> 3" by (rule le) simp
  then show ?thesis unfolding al max_def by (cases "k \<le> 3") auto
qed

lemma fits_room: "fits d k c \<Longrightarrow> unat (fst c) \<le> align_up k (unat (fst c)) \<and>
    align_up k (unat (fst c)) + unat d \<le> unat (fst c) + unat (snd c)"
  using align_up_bounds(1) by (simp add: fits_def)

text \<open>The list of chunks after a first-fit allocation is the one the abstract allocator gives.\<close>

lemma alloc_loop_shows:
  assumes s: "heap_shows lo hi cs s" and k: "k < 64" and d: "16 \<le> unat d"
  shows "\<exists>s'. alloc_loop d (2 ^ k) None None s = Some (fst (alloc_chunks d k cs), s') \<and>
    heap_shows lo hi (snd (alloc_chunks d k cs)) s' \<and>
    changed_in (free_bytes (snd (alloc_chunks d k cs))) (fh_memory s) (fh_memory s')"
proof (cases "dropWhile (\<lambda>c. \<not> fits d k c) cs")
  case Nil
  have "alloc_loop d (2 ^ k) None None s = Some (0, s)"
    using alloc_loop_run [of lo hi "[]" cs s k d] assms by (simp only: Nil list.case append_Nil link_after_simps)
  moreover have "alloc_chunks d k cs = (0, cs)" unfolding alloc_chunks_def Nil by simp
  ultimately show ?thesis using s by simp
next
  case (Cons c post)
  obtain a n where c: "c = (a, n)" by fastforce
  let ?pre = "takeWhile (\<lambda>c. \<not> fits d k c) cs" and ?p = "align_up k (unat a)"
  have cs: "cs = ?pre @ (a, n) # post"
    using takeWhile_dropWhile_id [of "\<lambda>c. \<not> fits d k c" cs] Cons c by simp
  have "fits d k (a, n)" using Cons c by (metis (mono_tags) dropWhile_eq_Cons_conv)
  from fits_room [OF this] have p: "unat a \<le> ?p" "?p + unat d \<le> unat a + unat n" by simp_all
  have s': "heap_shows lo hi (?pre @ (a, n) # post) s" using s cs by simp
  then have "chunks_ok lo hi (?pre @ (a, n) # post)" "hi < 2 ^ 64" by (simp_all add: heap_shows_def)
  from chunks_disjoint(5) [OF this(1)] this(2) have an: "unat a + unat n < 2 ^ 64" by simp
  then have e: "unat (of_nat (?p + unat d) :: usize) = ?p + unat d" using p by (intro unat_of_nat_small) simp
  have ce: "unat (a + n) = unat a + unat n" using an by (simp add: unat_add_exact)
  let ?s = "take_chunk (link_after ?pre) a (of_nat (?p + unat d)) (a + n) s"
  have room: "unat a + 16 \<le> unat (of_nat (?p + unat d) :: usize)" "unat (of_nat (?p + unat d) :: usize) \<le> unat (a + n)"
    using e p d ce by simp_all
  note take = take_chunk_shows [OF s' room ce, unfolded e]
  have "alloc_loop d (2 ^ k) None None s = Some (of_nat ?p, ?s)"
    using alloc_loop_run [of lo hi "[]" cs s k d] assms Cons c by simp
  moreover have "alloc_chunks d k cs = (of_nat ?p, ?pre @ leftover (?p + unat d) (a, n) @ post)"
    using Cons c by (simp add: alloc_chunks_def Let_def)
  ultimately show ?thesis using take by simp
qed

text \<open>Where the block lies: in the first chunk that fits, whose bytes split into padding, the block, the
  bytes that stay free and slack.\<close>

definition slack :: "nat \<Rightarrow> usize \<times> usize \<Rightarrow> usize set" where
  "slack e c = {x. e \<le> unat x \<and> unat x < unat (fst c) + unat (snd c)} - free_bytes (leftover e c)"

lemma leftover_bytes:
  assumes "unat (fst c) + unat (snd c) < 2 ^ 64"
  shows "free_bytes (leftover e c) = (if 16 \<le> unat (fst c) + unat (snd c) - e
    then {x. e \<le> unat x \<and> unat x < unat (fst c) + unat (snd c)} else {})"
proof -
  let ?r = "unat (fst c) + unat (snd c) - e"
  have "unat (of_nat e :: usize) = e \<and> unat (of_nat ?r :: usize) = ?r" if "16 \<le> ?r"
    using that assms by (intro conjI unat_of_nat_small) linarith+
  then show ?thesis by (auto simp: leftover_def Let_def span_def simp del: of_nat_diff)
qed

lemma slack_small: "unat (fst c) + unat (snd c) < 2 ^ 64 \<Longrightarrow>
    slack e c = (if 16 \<le> unat (fst c) + unat (snd c) - e then {}
      else {x. e \<le> unat x \<and> unat x < unat (fst c) + unat (snd c)})"
  by (auto simp: slack_def leftover_bytes)

text \<open>The result of a successful allocation.\<close>

lemma chunks_within:
  assumes "chunks_ok lo hi cs" and "c \<in> set cs"
  shows "lo \<le> unat (fst c) \<and> 16 \<le> unat (snd c) \<and> unat (fst c) + unat (snd c) \<le> hi"
proof -
  obtain xs ys where cs: "cs = xs @ c # ys" using assms(2) by (auto simp: in_set_conv_decomp)
  obtain a n where c: "c = (a, n)" by fastforce
  have "chunks_ok lo (chunks_end lo xs) xs" "chunks_end lo xs \<le> unat a" using assms(1) by (simp_all add: cs c chunks_ok_append)
  then have "lo \<le> unat a" using chunks_ok_le order_trans by blast
  moreover have "chunks_ok lo hi (xs @ (a, n) # ys)" using assms(1) cs c by simp
  ultimately show ?thesis using chunks_disjoint(4,5) by (simp add: c)
qed

lemma first_fit:
  assumes "dropWhile (\<lambda>c. \<not> fits d k c) cs = c # post"
  shows "cs = takeWhile (\<lambda>c. \<not> fits d k c) cs @ (fst c, snd c) # post" "fits d k c"
    "alloc_chunks d k cs = (of_nat (align_up k (unat (fst c))),
      takeWhile (\<lambda>c. \<not> fits d k c) cs @ leftover (align_up k (unat (fst c)) + unat d) c @ post)"
proof -
  show "cs = takeWhile (\<lambda>c. \<not> fits d k c) cs @ (fst c, snd c) # post"
    using takeWhile_dropWhile_id [of "\<lambda>c. \<not> fits d k c" cs] assms by simp
  show "fits d k c" using assms by (metis (mono_tags) dropWhile_eq_Cons_conv)
qed (use assms in \<open>simp add: alloc_chunks_def Let_def\<close>)

lemma alloc_chunks_split:
  assumes ok: "chunks_ok lo hi cs" "0 < lo" "hi < 2 ^ 64" and d: "16 \<le> unat d"
    and r: "alloc_chunks d k cs = (p, cs')" "p \<noteq> 0"
  shows "\<exists>pre c post. cs = pre @ c # post \<and> (\<forall>c' \<in> set pre. \<not> fits d k c') \<and> fits d k c \<and>
    unat p = align_up k (unat (fst c)) \<and> cs' = pre @ leftover (unat p + unat d) c @ post \<and>
    unat (fst c) \<le> unat p \<and> unat p + unat d \<le> unat (fst c) + unat (snd c)"
proof (cases "dropWhile (\<lambda>c. \<not> fits d k c) cs")
  case Nil
  then have "alloc_chunks d k cs = (0, cs)" unfolding alloc_chunks_def by (simp only: list.case)
  with r show ?thesis by simp
next
  case (Cons c post)
  let ?pre = "takeWhile (\<lambda>c. \<not> fits d k c) cs"
  note cs = first_fit(1) [OF Cons] and f = first_fit(2) [OF Cons]
  note room = fits_room [OF f]
  have "chunks_ok lo hi (?pre @ (fst c, snd c) # post)" using ok(1) cs by simp
  from chunks_disjoint(5) [OF this] have "unat (fst c) + unat (snd c) < 2 ^ 64" using ok(3) by simp
  then have lt: "align_up k (unat (fst c)) < 2 ^ 64" using room by simp
  have "unat p = align_up k (unat (fst c))" "cs' = ?pre @ leftover (unat p + unat d) c @ post"
    using r(1) first_fit(3) [OF Cons] unat_of_nat_small [OF lt] by auto
  then show ?thesis using cs f room by (intro exI [of _ ?pre] exI [of _ c] exI [of _ post]) (auto dest: set_takeWhileD)
qed

lemma alloc_chunks_null:
  assumes ok: "chunks_ok lo hi cs" "0 < lo" "hi < 2 ^ 64" and d: "16 \<le> unat d"
  shows "fst (alloc_chunks d k cs) = 0 \<longleftrightarrow> (\<forall>c \<in> set cs. \<not> fits d k c)"
    "(\<forall>c \<in> set cs. \<not> fits d k c) \<Longrightarrow> alloc_chunks d k cs = (0, cs)"
proof -
  show none: "alloc_chunks d k cs = (0, cs)" if "\<forall>c \<in> set cs. \<not> fits d k c"
  proof -
    have "dropWhile (\<lambda>c. \<not> fits d k c) cs = []" using that by simp
    then show ?thesis unfolding alloc_chunks_def by (simp only: list.case)
  qed
  have "fst (alloc_chunks d k cs) \<noteq> 0" if c: "c \<in> set cs" "fits d k c" for c
  proof (cases "dropWhile (\<lambda>c. \<not> fits d k c) cs")
    case Nil
    then show ?thesis using c by simp
  next
    case (Cons c post)
    let ?pre = "takeWhile (\<lambda>c. \<not> fits d k c) cs"
    note cs = first_fit(1) [OF Cons] and f = first_fit(2) [OF Cons]
    have ok': "chunks_ok lo hi (?pre @ (fst c, snd c) # post)" using ok(1) cs by simp
    have "lo \<le> unat (fst c)" using chunks_within [OF ok', of "(fst c, snd c)"] by simp
    moreover have "align_up k (unat (fst c)) < 2 ^ 64"
      using fits_room [OF f] chunks_disjoint(5) [OF ok'] ok(3) by simp
    ultimately have "unat (of_nat (align_up k (unat (fst c))) :: usize) \<noteq> 0"
      using fits_room [OF f] ok(2) by (subst unat_of_nat_small) simp_all
    then show ?thesis using first_fit(3) [OF Cons] by (metis fst_conv unat_0)
  qed
  then show "fst (alloc_chunks d k cs) = 0 \<longleftrightarrow> (\<forall>c \<in> set cs. \<not> fits d k c)" using none by force
qed

section \<open>Releasing\<close>

text \<open>Joining a chunk with the one behind it, and the list of chunks after a block came back.\<close>

fun join_next :: "usize \<times> usize \<Rightarrow> (usize \<times> usize) list \<Rightarrow> (usize \<times> usize) list" where
  "join_next c [] = [c]"
| "join_next c (c' # cs) =
     (if unat (fst c) + unat (snd c) = unat (fst c') then (fst c, snd c + snd c') # cs else c # c' # cs)"

definition dealloc_chunks :: "usize \<Rightarrow> usize \<Rightarrow> (usize \<times> usize) list \<Rightarrow> (usize \<times> usize) list" where
  "dealloc_chunks p d cs =
     (let pre = takeWhile (\<lambda>c. fst c < p) cs;
          joined = join_next (p, d) (dropWhile (\<lambda>c. fst c < p) cs)
      in if pre = [] then joined else butlast pre @ join_next (last pre) joined)"

lemma insert_link_run:
  assumes "heap_shows lo hi (pre @ rest) s"
  shows "insert_link p (link_after pre) s = Some (link_after (pre @ takeWhile (\<lambda>c. fst c < p) rest))"
  using assms
proof (induction rest arbitrary: pre)
  case Nil
  then have "get_link (link_after pre) s = 0" by (intro get_link_after) (simp add: heap_shows_def)
  then show ?case by (subst insert_link.simps) simp
next
  case (Cons c rest)
  obtain a n where c: "c = (a, n)" by fastforce
  have "get_link (link_after pre) s = a" "a \<noteq> 0"
    using Cons.prems by (auto simp: heap_shows_def chain_append c get_link_after)
  then show ?case using Cons.IH [of "pre @ [c]"] Cons.prems by (subst insert_link.simps) (auto simp: c)
qed

lemma find_previous_run:
  assumes "chain current (rest @ (p, n) # post) 0 (fh_memory s)" and "\<forall>c \<in> set rest. fst c \<noteq> p"
  shows "find_previous p previous current s = Some (if rest = [] then previous else fst (last rest))"
  using assms
proof (induction rest arbitrary: previous current)
  case Nil
  then show ?case by (subst find_previous.simps) simp
next
  case (Cons c rest)
  obtain a n where c: "c = (a, n)" by fastforce
  then show ?case using Cons.IH [of "chunk_next a (fh_memory s)" a] Cons.prems by (subst find_previous.simps) auto
qed

lemma insert_chunk_ok:
  assumes "chunks_ok lo hi cs" and "lo \<le> unat p" and "unat p + unat d \<le> hi" and "16 \<le> unat d"
    and "span p (unat d) \<inter> free_bytes cs = {}"
  shows "chunks_ok lo hi (takeWhile (\<lambda>c. fst c < p) cs @ (p, d) # dropWhile (\<lambda>c. fst c < p) cs)"
  using assms(1,2,5)
proof (induction cs arbitrary: lo)
  case Nil
  then show ?case using assms(3,4) by simp
next
  case (Cons c cs)
  obtain a n where c: "c = (a, n)" by fastforce
  have n: "16 \<le> unat n" "lo \<le> unat a" "chunks_ok (unat a + unat n) hi cs" using Cons.prems(1) by (simp_all add: c)
  have dj: "span p (unat d) \<inter> span a (unat n) = {}" using Cons.prems(3) by (auto simp: c)
  have "a \<in> span a (unat n)" "p \<in> span p (unat d)" using n assms(4) by (simp_all add: span_def)
  then have apart: "\<not> (unat p \<le> unat a \<and> unat a < unat p + unat d)" "\<not> (unat a \<le> unat p \<and> unat p < unat a + unat n)"
    using dj by (auto simp: span_def)
  show ?case
  proof (cases "a < p")
    case True
    then have "unat a + unat n \<le> unat p" using apart(2) by (auto simp: word_less_nat_alt)
    then show ?thesis using True n Cons.IH [OF n(3)] Cons.prems(3) by (auto simp: c)
  next
    case False
    then have "unat p + unat d \<le> unat a" using apart(1) by (auto simp: word_less_nat_alt)
    then show ?thesis using False n Cons.prems(2) assms(4) by (auto simp: c)
  qed
qed

lemma join_next_first: "\<exists>n' cs'. join_next (a, n) cs = (a, n') # cs'"
  by (cases cs) auto

lemma join_next_ok:
  assumes "chunks_ok lo hi ((a, n) # cs)" and "hi < 2 ^ 64"
  shows "chunks_ok lo hi (join_next (a, n) cs)" "free_bytes (join_next (a, n) cs) = span a (unat n) \<union> free_bytes cs"
proof -
  have "chunks_ok lo hi (join_next (a, n) cs) \<and> free_bytes (join_next (a, n) cs) = span a (unat n) \<union> free_bytes cs"
  proof (cases cs)
    case (Cons c post)
    obtain b m where c: "c = (b, m)" by fastforce
    have m: "unat b + unat m < 2 ^ 64" using assms chunks_within [OF assms(1), of c] by (simp add: Cons c)
    show ?thesis
    proof (cases "unat a + unat n = unat b")
      case True
      then have "unat (n + m) = unat n + unat m" using m by (intro unat_add_exact) simp
      then show ?thesis using assms(1) True by (auto simp: Cons c span_def add.assoc [symmetric])
    qed (use assms(1) in \<open>auto simp: Cons c\<close>)
  qed (use assms(1) in simp)
  then show "chunks_ok lo hi (join_next (a, n) cs)" "free_bytes (join_next (a, n) cs) = span a (unat n) \<union> free_bytes cs"
    by blast+
qed

text \<open>Joining the chunk at \<open>a\<close> with the one behind it, wherever it is in the list.\<close>

lemma merge_chunks_shows:
  assumes s: "heap_shows lo hi (pre @ (a, n) # (b, m) # post) s"
  shows "heap_shows lo hi (pre @ join_next (a, n) ((b, m) # post)) (merge_chunks a b s)"
    "changed_in (span a (unat n)) (fh_memory s) (fh_memory (merge_chunks a b s))"
proof -
  let ?m = "fh_memory s"
  have b: "hi < 2 ^ 64" "0 < lo" and ok: "chunks_ok lo hi (pre @ (a, n) # (b, m) # post)"
    using s by (simp_all add: heap_shows_def)
  have parts: "chunks_ok lo (chunks_end lo pre) pre" "chunks_ok (chunks_end lo pre) hi ((a, n) # (b, m) # post)"
    "chunks_ok (unat b + unat m) hi post" "chunks_end lo pre < 2 ^ 64"
    using ok b(1) chunks_within [OF ok, of "(a, n)"] by (simp_all add: chunks_ok_append)
  note d = chunks_disjoint [OF ok] and within = chunks_within [OF ok, of "(b, m)"]
  have an: "unat a + unat n \<le> 2 ^ 64" using d(5) b(1) by simp
  have ch: "chain (fh_head s) pre a ?m" "a \<noteq> 0" "chunk_size a ?m = n" "chunk_next a ?m = b" "b \<noteq> 0"
    "chunk_size b ?m = m" "chain (chunk_next b ?m) post 0 ?m"
    using s by (auto simp: heap_shows_def chain_append)
  have "heap_shows lo hi (pre @ join_next (a, n) ((b, m) # post)) (merge_chunks a b s) \<and>
    changed_in (span a (unat n)) ?m (fh_memory (merge_chunks a b s))"
  proof (cases "unat a + unat n = unat b")
    case False
    then have "merge_chunks a b s = s" by (simp add: merge_chunks_def Let_def ch checked_add_Some_iff)
    then show ?thesis using False s by simp
  next
    case True
    let ?m' = "store64 (a + 8) (chunk_next b ?m) (store64 a (n + m) ?m)"
    have "unat b + unat m < 2 ^ 64" using within b(1) by simp
    then have "checked_add a n = Some b" "checked_add n m = Some (n + m)"
      using True unat_bound [of b] by (simp_all add: checked_add_Some_iff unat_add_exact)
    then have merge: "merge_chunks a b s = s\<lparr>fh_memory := ?m'\<rparr>"
      by (simp add: merge_chunks_def Let_def ch set_next_def set_size_def)
    note w = write_header [OF d(4) an]
    have X: "changed_in (span a (unat n)) ?m ?m'" using changed_in_trans [OF w(1) w(2)] by simp
    have "chain (fh_head s) pre a ?m'" using chain_changed [OF parts(1,4) X d(1)] ch(1) by simp
    moreover have "chain (chunk_next b ?m) post 0 ?m'"
      using chain_changed [OF parts(3) b(1) X] d(2) ch(7) by auto
    moreover have "chunk_size a ?m' = n + m" "chunk_next a ?m' = chunk_next b ?m" by (simp_all add: w(3))
    ultimately have "chain (fh_head s) (pre @ (a, n + m) # post) 0 ?m'" using ch(2) by (auto simp: chain_append)
    moreover have "chunks_ok lo hi (pre @ (a, n + m) # post)"
      using join_next_ok(1) [OF parts(2) b(1)] parts(1) True by (simp add: chunks_ok_append)
    ultimately show ?thesis using True X b by (simp add: merge heap_shows_def)
  qed
  then show "heap_shows lo hi (pre @ join_next (a, n) ((b, m) # post)) (merge_chunks a b s)"
    "changed_in (span a (unat n)) (fh_memory s) (fh_memory (merge_chunks a b s))" by blast+
qed

text \<open>The two merges of \<open>dealloc\<close>: with the chunk behind and with the chunk before.\<close>

lemma merge_next_shows:
  assumes "heap_shows lo hi (pre @ (p, d) # post) s"
  defines "s' \<equiv> (if chunk_next p (fh_memory s) \<noteq> 0 then merge_chunks p (chunk_next p (fh_memory s)) s else s)"
  shows "heap_shows lo hi (pre @ join_next (p, d) post) s'" "changed_in (span p (unat d)) (fh_memory s) (fh_memory s')"
proof -
  have ch: "chain (chunk_next p (fh_memory s)) post 0 (fh_memory s)"
    using assms(1) by (auto simp: heap_shows_def chain_append)
  have "heap_shows lo hi (pre @ join_next (p, d) post) s' \<and> changed_in (span p (unat d)) (fh_memory s) (fh_memory s')"
  proof (cases post)
    case Nil
    then show ?thesis using ch assms(1) by (simp add: s'_def)
  next
    case (Cons c cs)
    obtain b m where c: "c = (b, m)" by fastforce
    then have "chunk_next p (fh_memory s) = b" "b \<noteq> 0" using ch by (simp_all add: Cons)
    then have "s' = merge_chunks p b s" by (simp add: s'_def)
    moreover have "heap_shows lo hi (pre @ (p, d) # (b, m) # cs) s" using assms(1) by (simp add: Cons c)
    note merge_chunks_shows [OF this]
    ultimately show ?thesis by (simp add: Cons c)
  qed
  then show "heap_shows lo hi (pre @ join_next (p, d) post) s'" "changed_in (span p (unat d)) (fh_memory s) (fh_memory s')"
    by blast+
qed

lemma merge_previous_shows:
  assumes s: "heap_shows lo hi (pre @ (p, d) # post) s"
  shows "\<exists>q. find_previous p 0 (fh_head s) s = Some q \<and>
    (let s' = (if q \<noteq> 0 then merge_chunks q p s else s) in
     heap_shows lo hi (if pre = [] then (p, d) # post else butlast pre @ join_next (last pre) ((p, d) # post)) s' \<and>
     changed_in (free_bytes pre) (fh_memory s) (fh_memory s'))"
proof -
  have ok: "chunks_ok lo hi (pre @ (p, d) # post)" and ch: "chain (fh_head s) (pre @ (p, d) # post) 0 (fh_memory s)"
    using s by (simp_all add: heap_shows_def)
  have "fst c \<noteq> p" if c: "c \<in> set pre" for c
  proof -
    have "16 \<le> unat (snd c)" using chunks_within [OF ok, of c] c by simp
    then have "fst c \<in> span (fst c) (unat (snd c))" by (simp add: span_def)
    then have "fst c \<in> free_bytes pre" using c by (auto simp: free_bytes_def)
    moreover have "p \<in> span p (unat d)" using chunks_disjoint(4) [OF ok] by (simp add: span_def)
    ultimately show ?thesis using chunks_disjoint(1) [OF ok] by blast
  qed
  then have find: "find_previous p 0 (fh_head s) s = Some (if pre = [] then 0 else fst (last pre))"
    using find_previous_run [OF ch] by blast
  show ?thesis
  proof (cases pre rule: rev_cases)
    case Nil
    then show ?thesis using find s by simp
  next
    case (snoc xs c)
    obtain a n where c: "c = (a, n)" by fastforce
    have "heap_shows lo hi (xs @ (a, n) # (p, d) # post) s" using s by (simp add: snoc c)
    note merge_chunks_shows [OF this]
    moreover have "a \<noteq> 0" using ch by (auto simp: snoc c chain_append)
    moreover have "span a (unat n) \<subseteq> free_bytes pre" by (simp add: snoc c)
    ultimately show ?thesis using find by (auto simp: snoc c Let_def intro: changed_in_mono)
  qed
qed

lemma heap_dealloc_shows:
  assumes s: "heap_shows lo hi cs s" and p: "lo \<le> unat p" "unat p + unat d \<le> hi" "d = block_size len"
    and free: "span p (unat d) \<inter> free_bytes cs = {}"
  shows "\<exists>s'. heap_dealloc p len s = Some s' \<and> heap_shows lo hi (dealloc_chunks p d cs) s' \<and>
    changed_in (free_bytes cs \<union> span p (unat d)) (fh_memory s) (fh_memory s')"
proof -
  let ?pre = "takeWhile (\<lambda>c. fst c < p) cs" and ?post = "dropWhile (\<lambda>c. fst c < p) cs" and ?X = "span p (unat d)"
  have d: "16 \<le> unat d" using block_size_ge p(3) by simp
  have b: "hi < 2 ^ 64" "0 < lo" and ok: "chunks_ok lo hi cs" and ch: "chain (fh_head s) cs 0 (fh_memory s)"
    using s by (simp_all add: heap_shows_def)
  have "unat p + unat d \<le> 2 ^ 64" using p b by simp
  note w = write_header [OF d this]
  define s1 where "s1 = set_size p d s"
  have "chain (fh_head s1) cs 0 (fh_memory s1)"
    using chain_changed [OF ok b(1) w(1) free] ch by (simp add: s1_def)
  then have s1: "heap_shows lo hi ([] @ cs) s1" using ok b by (simp add: heap_shows_def)
  from insert_link_run [OF this, of p] have link: "insert_link p None s1 = Some (link_after ?pre)" by simp
  obtain r where r: "chain (fh_head s) ?pre r (fh_memory s)" "chain r ?post 0 (fh_memory s)"
    using ch chain_append [of _ ?pre ?post] by (metis takeWhile_dropWhile_id)
  have "chunks_ok lo (chunks_end lo ?pre) ?pre" "chunks_ok (chunks_end lo ?pre) hi ?post"
    using ok chunks_ok_append [of lo hi ?pre ?post] by simp_all
  then have bounds: "chunks_ok lo (chunks_end lo ?pre) ?pre" "chunks_end lo ?pre < 2 ^ 64"
    using chunks_ok_le b(1) by (blast, meson le_less_trans)
  have pre: "free_bytes ?pre \<subseteq> free_bytes cs" by (auto simp: free_bytes_def dest: set_takeWhileD)
  have sub: "?X \<inter> free_bytes (?pre @ ?post) = {}" using free by (simp only: takeWhile_dropWhile_id)
  from pre free have "?X \<inter> free_bytes ?pre = {}" by blast
  from chain_changed [OF bounds w(1) this] have "chain (fh_head s1) ?pre r (fh_memory s1)"
    using r(1) by (simp add: s1_def)
  then have get: "get_link (link_after ?pre) s1 = r" by (rule get_link_after)
  define s2 where "s2 = set_next p r s1"
  have X: "changed_in ?X (fh_memory s) (fh_memory s2)"
    using changed_in_trans [OF w(1) w(2)] by (simp add: s2_def s1_def)
  have new: "chain p [(p, d)] r (fh_memory s2)" using w(3) p(1) b(2) by (auto simp: s2_def s1_def)
  define s3 where "s3 = set_link (link_after ?pre) p s2"
  have s': "heap_shows lo hi (?pre @ [] @ ?post) s" and head: "fh_head s2 = fh_head s"
    using s by (simp_all add: s2_def s1_def)
  have ok': "chunks_ok lo hi (?pre @ [(p, d)] @ ?post)" using insert_chunk_ok [OF ok p(1,2) d free] by simp
  have "free_bytes ?pre \<inter> free_bytes [(p, d)] = {}" using pre free by auto
  note s3 = replace_chunks [OF s' X head sub r(2) new ok' this, folded s3_def, unfolded append_Cons append_Nil]
  define s4 where "s4 = (if chunk_next p (fh_memory s3) \<noteq> 0 then merge_chunks p (chunk_next p (fh_memory s3)) s3 else s3)"
  note s4 = merge_next_shows [OF s3(1), folded s4_def]
  obtain n' post' where join: "join_next (p, d) ?post = (p, n') # post'" using join_next_first by blast
  from merge_previous_shows [OF s4(1) [unfolded this]] obtain q where q: "find_previous p 0 (fh_head s4) s4 = Some q"
    "heap_shows lo hi (dealloc_chunks p d cs) (if q \<noteq> 0 then merge_chunks q p s4 else s4)"
    "changed_in (free_bytes ?pre) (fh_memory s4) (fh_memory (if q \<noteq> 0 then merge_chunks q p s4 else s4))"
    unfolding dealloc_chunks_def Let_def join by blast
  have "heap_dealloc p len s = Some (if q \<noteq> 0 then merge_chunks q p s4 else s4)"
    using link get q(1)
    by (simp add: heap_dealloc_def Let_def s4_def s3_def s2_def s1_def p(3) cong: if_cong)
  moreover from pre changed_in_trans [OF changed_in_trans [OF s3(2) s4(2)] q(3)]
  have "changed_in (free_bytes cs \<union> ?X) (fh_memory s) (fh_memory (if q \<noteq> 0 then merge_chunks q p s4 else s4))"
    by (auto intro: changed_in_mono)
  ultimately show ?thesis using q(2) by blast
qed

section \<open>Coalesced lists\<close>

text \<open>No chunk ends where the next one begins.\<close>

definition apart :: "(usize \<times> usize) list \<Rightarrow> bool" where
  "apart = successively (\<lambda>c c'. unat (fst c) + unat (snd c) < unat (fst c'))"

lemma apart_simps [simp]:
  "apart []" "apart [c]"
  "apart (c # c' # cs) \<longleftrightarrow> unat (fst c) + unat (snd c) < unat (fst c') \<and> apart (c' # cs)"
  by (simp_all add: apart_def)

lemma apart_append: "apart (xs @ ys) \<longleftrightarrow> apart xs \<and> apart ys \<and>
    (xs = [] \<or> ys = [] \<or> unat (fst (last xs)) + unat (snd (last xs)) < unat (fst (hd ys)))"
  by (simp add: apart_def successively_append_iff)

lemma join_next_apart:
  assumes "chunks_ok lo hi ((a, n) # cs)" and "hi < 2 ^ 64" and "apart cs"
  shows "apart (join_next (a, n) cs)"
proof (cases cs)
  case (Cons c post)
  obtain b m where c: "c = (b, m)" by fastforce
  have le: "unat a + unat n \<le> unat b" and m: "unat b + unat m < 2 ^ 64"
    using assms chunks_within [OF assms(1), of c] by (simp_all add: Cons c)
  show ?thesis
  proof (cases "unat a + unat n = unat b")
    case True
    then have "unat a + unat (n + m) = unat b + unat m" using m by (subst unat_add_exact) simp_all
    then show ?thesis using assms(3) True by (cases post) (simp_all add: Cons c)
  next
    case False
    then show ?thesis using le assms(3) by (simp add: Cons c)
  qed
qed simp

lemma dealloc_chunks_sound:
  assumes ok: "chunks_ok lo hi cs" and hi: "hi < 2 ^ 64" and p: "lo \<le> unat p" "unat p + unat d \<le> hi" and d: "16 \<le> unat d"
    and free: "span p (unat d) \<inter> free_bytes cs = {}"
  shows "free_bytes (dealloc_chunks p d cs) = free_bytes cs \<union> span p (unat d)"
    "apart cs \<Longrightarrow> apart (dealloc_chunks p d cs)"
proof -
  let ?pre = "takeWhile (\<lambda>c. fst c < p) cs" and ?post = "dropWhile (\<lambda>c. fst c < p) cs"
  have cs: "cs = ?pre @ ?post" by simp
  have ok': "chunks_ok lo hi (?pre @ (p, d) # ?post)" by (rule insert_chunk_ok [OF ok p d free])
  then have o: "chunks_ok lo (chunks_end lo ?pre) ?pre" "chunks_ok (chunks_end lo ?pre) hi ((p, d) # ?post)"
    by (simp_all add: chunks_ok_append)
  note j = join_next_ok [OF o(2) hi]
  have bytes: "free_bytes cs = free_bytes ?pre \<union> free_bytes ?post" using cs free_bytes_simps(3) by metis
  have ap: "apart ?pre \<and> apart ?post" if "apart cs" using that cs apart_append by metis
  have "free_bytes (dealloc_chunks p d cs) = free_bytes cs \<union> span p (unat d) \<and>
    (apart cs \<longrightarrow> apart (dealloc_chunks p d cs))"
  proof (cases ?pre rule: rev_cases)
    case Nil
    then have "dealloc_chunks p d cs = join_next (p, d) ?post" by (simp add: dealloc_chunks_def)
    then show ?thesis using j(2) bytes Nil join_next_apart [OF o(2) hi] ap by auto
  next
    case (snoc xs c)
    obtain a n where c: "c = (a, n)" by fastforce
    let ?join = "join_next (p, d) ?post"
    have new: "dealloc_chunks p d cs = xs @ join_next (a, n) ?join" by (simp add: dealloc_chunks_def snoc c Let_def)
    have "chunks_ok (chunks_end lo xs) hi ((a, n) # ?join)"
      using o(1) j(1) unfolding snoc c by (simp add: chunks_ok_append chunks_end_def)
    note jj = join_next_ok(2) [OF this hi] join_next_apart [OF this hi]
    have "free_bytes (dealloc_chunks p d cs) = free_bytes cs \<union> span p (unat d)"
      unfolding new bytes snoc c using jj(1) j(2) by auto
    moreover have "apart (dealloc_chunks p d cs)" if "apart cs"
    proof -
      have "apart ?pre" "apart ?post" using ap that by simp_all
      with jj(2) join_next_apart [OF o(2) hi] have "apart (join_next (a, n) ?join)" by blast
      moreover obtain n' cs' where "join_next (a, n) ?join = (a, n') # cs'" using join_next_first by blast
      ultimately show ?thesis using \<open>apart ?pre\<close> unfolding new snoc c by (auto simp: apart_append)
    qed
    ultimately show ?thesis by blast
  qed
  then show "free_bytes (dealloc_chunks p d cs) = free_bytes cs \<union> span p (unat d)"
    "apart cs \<Longrightarrow> apart (dealloc_chunks p d cs)" by blast+
qed

text \<open>A coalesced list is determined by its bytes.\<close>

lemma apart_canonical:
  assumes "chunks_ok lo hi cs" "apart cs" "chunks_ok lo' hi' ds" "apart ds" "hi < 2 ^ 64" "hi' < 2 ^ 64"
    and "free_bytes cs = free_bytes ds"
  shows "cs = ds"
  using assms
proof (induction cs arbitrary: ds lo lo')
  case Nil
  then show ?case
  proof (cases ds)
    case (Cons e es)
    then have "fst e \<in> free_bytes ds" using chunks_within [OF Nil.prems(3), of e] by (auto simp: span_def free_bytes_def)
    then show ?thesis using Nil.prems by simp
  qed simp
next
  case (Cons c cs)
  obtain a n where c: "c = (a, n)" by fastforce
  have n: "16 \<le> unat n" "chunks_ok (unat a + unat n) hi cs" using Cons.prems(1) by (simp_all add: c)
  have "a \<in> free_bytes (c # cs)" using n(1) by (simp add: c span_def)
  then have a: "a \<in> free_bytes ds" by (simp only: Cons.prems(7))
  then obtain e es where ds: "ds = e # es" by (cases ds) auto
  obtain b m where e: "e = (b, m)" by fastforce
  have m: "16 \<le> unat m" "chunks_ok (unat b + unat m) hi' es" using Cons.prems(3) by (simp_all add: ds e)
  have low: "chunks_ok (unat a) hi (c # cs)" "chunks_ok (unat b) hi' ds" using n m by (simp_all add: c ds e)
  have "b \<in> free_bytes ds" using m(1) by (simp add: ds e span_def)
  then have "b \<in> free_bytes (c # cs)" by (simp only: Cons.prems(7))
  then have "unat a = unat b"
    using a free_bytes_range [OF low(1)] free_bytes_range [OF low(2)] by (intro order_antisym) blast+
  then have ab: "a = b" by (simp add: word_unat_eq_iff)
  have gap: "\<not> unat n < unat m" if "chunks_ok (unat a + unat n) hi cs" "apart ((a, n) # cs)" "16 \<le> unat n"
      "unat a + unat m < 2 ^ 64" "span a (unat m) \<subseteq> free_bytes ((a, n) # cs)" "hi < 2 ^ 64"
    for n m cs and hi
  proof
    assume less: "unat n < unat m"
    have at: "unat (a + n) = unat a + unat n" using less that(4) by (intro unat_add_exact) simp
    then have "a + n \<in> span a (unat m)" using less by (simp add: span_def)
    then have "a + n \<in> free_bytes ((a, n) # cs)" using that(5) by blast
    then have x: "a + n \<in> free_bytes cs" using at by (simp add: span_def)
    then obtain e es where cs: "cs = e # es" by (cases cs) auto
    then have "chunks_ok (unat (fst e)) hi cs" using that(1) by (cases e) simp
    from free_bytes_range [OF this x] that(2) show False by (simp add: cs at)
  qed
  have lt: "unat a + unat m < 2 ^ 64" "unat a + unat n < 2 ^ 64"
    using chunks_ok_le [OF n(2)] chunks_ok_le [OF m(2)] Cons.prems(5,6) ab by simp_all
  have "\<not> unat n < unat m" by (rule gap [OF n(2) _ n(1) lt(1) _ Cons.prems(5)]) (use Cons.prems(2,7) in \<open>auto simp: c ds e ab\<close>)
  moreover have "\<not> unat m < unat n"
    by (rule gap [OF m(2) [folded ab] _ m(1) lt(2) _ Cons.prems(6)]) (use Cons.prems(4,7) in \<open>auto simp: c ds e ab\<close>)
  ultimately have nm: "n = m" by (simp add: word_unat_eq_iff)
  have "span a (unat n) \<inter> free_bytes cs = {}" "span a (unat n) \<inter> free_bytes es = {}"
    using free_bytes_range [OF n(2)] free_bytes_range [OF m(2)] by (fastforce simp: span_def ab nm)+
  then have "free_bytes cs = free_bytes es" using Cons.prems(7) by (auto simp: c ds e ab nm)
  moreover have "apart cs" "apart es" using Cons.prems(2,4) apart_append [of "[c]" cs] apart_append [of "[e]" es] by (simp_all add: ds)
  ultimately have "cs = es" using Cons.IH [OF n(2) _ m(2)] Cons.prems(5,6) by blast
  then show ?case by (simp add: c ds e ab nm)
qed

section \<open>Allocated blocks\<close>

lemma leftover_apart:
  assumes ok: "chunks_ok lo hi (pre @ c # post)" and ap: "apart (pre @ c # post)" and hi: "hi < 2 ^ 64" and e: "unat (fst c) \<le> e"
  shows "apart (pre @ leftover e c @ post)"
proof -
  obtain a n where c: "c = (a, n)" by fastforce
  have le: "unat a + unat n < 2 ^ 64" and n: "16 \<le> unat n" using chunks_within [OF ok, of c] hi by (simp_all add: c)
  let ?r = "unat a + unat n - e"
  have pre: "apart pre" and cp: "apart (c # post)" and gap: "pre = [] \<or> unat (fst (last pre)) + unat (snd (last pre)) < unat a"
    using ap by (auto simp: apart_append c)
  have post: "apart post" "post = [] \<or> unat a + unat n < unat (fst (hd post))"
    using cp by (cases post; simp add: c)+
  show ?thesis
  proof (cases "16 \<le> ?r")
    case True
    then have "unat (of_nat e :: usize) = e \<and> unat (of_nat ?r :: usize) = ?r"
      using le by (intro conjI unat_of_nat_small) linarith+
    moreover have "e + ?r = unat a + unat n" using True by simp
    moreover have "leftover e c = [(of_nat e, of_nat ?r)]" using True by (simp add: leftover_def c Let_def del: of_nat_diff)
    ultimately show ?thesis using pre post gap e by (cases post) (auto simp: apart_append c simp del: of_nat_diff)
  next
    case False
    then have "leftover e c = []" by (simp add: leftover_def c)
    then show ?thesis using pre post gap by (auto simp: apart_append)
  qed
qed

lemma alloc_chunks_sound:
  assumes ok: "chunks_ok lo hi cs" "0 < lo" "hi < 2 ^ 64" and d: "16 \<le> unat d" and r: "alloc_chunks d k cs = (p, cs')"
  shows "p \<noteq> 0 \<Longrightarrow> 2 ^ k dvd unat p \<and> lo \<le> unat p \<and> unat p + unat d \<le> hi"
    "p \<noteq> 0 \<Longrightarrow> span p (unat d) \<subseteq> free_bytes cs \<and> span p (unat d) \<inter> free_bytes cs' = {}"
    "free_bytes cs' \<subseteq> free_bytes cs" "apart cs \<Longrightarrow> apart cs'" "p = 0 \<Longrightarrow> cs' = cs"
proof -
  show same: "cs' = cs" if "p = 0"
    using alloc_chunks_null [OF ok d, of k] r that by simp
  {
    assume "p \<noteq> 0"
    from alloc_chunks_split [OF ok d r this] obtain pre c post where
      cs: "cs = pre @ c # post" and p: "unat p = align_up k (unat (fst c))" and cs': "cs' = pre @ leftover (unat p + unat d) c @ post"
      and room: "unat (fst c) \<le> unat p" "unat p + unat d \<le> unat (fst c) + unat (snd c)" by blast
    obtain a n where c: "c = (a, n)" by fastforce
    have ok': "chunks_ok lo hi (pre @ (a, n) # post)" using ok(1) cs c by simp
    note dj = chunks_disjoint [OF ok'] and within = chunks_within [OF ok', of "(a, n)"]
    have le: "unat a + unat n < 2 ^ 64" using within ok(3) by simp
    have sub: "span p (unat d) \<subseteq> span a (unat n)" using room by (intro span_mono) (simp_all add: c)
    have left: "free_bytes (leftover (unat p + unat d) c) \<subseteq> span a (unat n)"
      "span p (unat d) \<inter> free_bytes (leftover (unat p + unat d) c) = {}"
      using le room by (auto simp: leftover_bytes c span_def split: if_splits)
    have "2 ^ k dvd unat p" unfolding p by (rule align_up_bounds(3))
    moreover have "lo \<le> unat p" "unat p + unat d \<le> hi" using within room by (simp_all add: c)
    moreover have "span p (unat d) \<subseteq> free_bytes cs" using sub by (auto simp: cs c)
    moreover have "span p (unat d) \<inter> free_bytes cs' = {}" using sub dj(1,2) left by (auto simp: cs')
    moreover have "free_bytes cs' \<subseteq> free_bytes cs" using left(1) by (auto simp: cs cs' c)
    moreover have "apart cs'" if "apart cs"
      using leftover_apart [of lo hi pre c post] ok that room unfolding cs cs' by simp
    ultimately have "(2 ^ k dvd unat p \<and> lo \<le> unat p \<and> unat p + unat d \<le> hi) \<and>
      (span p (unat d) \<subseteq> free_bytes cs \<and> span p (unat d) \<inter> free_bytes cs' = {}) \<and>
      free_bytes cs' \<subseteq> free_bytes cs \<and> (apart cs \<longrightarrow> apart cs')"
      by blast
  }
  note ne = this
  show "p \<noteq> 0 \<Longrightarrow> 2 ^ k dvd unat p \<and> lo \<le> unat p \<and> unat p + unat d \<le> hi"
    "p \<noteq> 0 \<Longrightarrow> span p (unat d) \<subseteq> free_bytes cs \<and> span p (unat d) \<inter> free_bytes cs' = {}"
    "free_bytes cs' \<subseteq> free_bytes cs" "apart cs \<Longrightarrow> apart cs'"
    using ne same by (cases "p = 0"; blast)+
qed

section \<open>Histories of the allocator\<close>

lemma heap_alloc_loop: "k < 64 \<Longrightarrow> heap_alloc len (2 ^ k) s = alloc_loop (block_size len) (2 ^ max k 3) None None s"
  by (simp add: heap_alloc_def max_align)

lemma heap_alloc_shows:
  assumes "heap_shows lo hi cs s" and "k < 64" and "alloc_chunks (block_size len) (max k 3) cs = (p, cs')"
  shows "\<exists>s'. heap_alloc len (2 ^ k) s = Some (p, s') \<and> heap_shows lo hi cs' s' \<and>
    changed_in (free_bytes cs') (fh_memory s) (fh_memory s')"
  using alloc_loop_shows [OF assms(1) _ block_size_ge, of "max k 3" len] assms(2,3) by (simp add: heap_alloc_loop)

lemma allocator_init_shows:
  assumes "allocator_init region s = (Inr (), s')" and "region_start region \<noteq> 0"
    and "unat (region_start region) + unat (region_size region) < 2 ^ 64"
  shows "heap_shows (unat (region_start region)) (unat (region_start region) + unat (region_size region))
    [(region_start region, region_size region)] s'"
proof -
  have n: "16 \<le> unat (region_size region)"
    using assms(1) by (auto simp: allocator_init_def CHUNK_SIZE_def word_less_nat_alt Let_def split: if_splits)
  have s': "s' = (set_next (region_start region) 0 (set_size (region_start region) (region_size region) s))\<lparr>fh_head := region_start region\<rparr>"
    using assms(1) by (auto simp: allocator_init_def Let_def split: if_splits)
  note write_header(3) [OF n, of "region_start region"]
  then show ?thesis using assms(2,3) n by (simp add: heap_shows_def s' unat_gt_0)
qed

text \<open>
  What the kernel does with the allocator from its initialisation on: it allocates and frees blocks and writes
  into the blocks it holds. A block is its address and the size of its layout.
\<close>

inductive heap_run :: "HeapRegion \<Rightarrow> FreeHeap \<Rightarrow> (usize \<times> usize) list \<Rightarrow> bool" for region where
  start: "allocator_init region s = (Inr (), s') \<Longrightarrow> heap_run region s' []"
| alloc: "heap_run region s live \<Longrightarrow> k < 64 \<Longrightarrow> heap_alloc len (2 ^ k) s = Some (p, s') \<Longrightarrow>
    heap_run region s' (if p = 0 then live else (p, len) # live)"
| dealloc: "heap_run region s live \<Longrightarrow> (p, len) \<in> set live \<Longrightarrow> heap_dealloc p len s = Some s' \<Longrightarrow>
    heap_run region s' (remove1 (p, len) live)"
| use: "heap_run region s live \<Longrightarrow> (p, len) \<in> set live \<Longrightarrow> changed_in (span p (unat len)) (fh_memory s) m \<Longrightarrow>
    heap_run region (s\<lparr>fh_memory := m\<rparr>) live"

abbreviation block_bytes :: "usize \<times> usize \<Rightarrow> usize set" where
  "block_bytes b \<equiv> span (fst b) (unat (block_size (snd b)))"

definition heap_sound :: "nat \<Rightarrow> nat \<Rightarrow> (usize \<times> usize) list \<Rightarrow> FreeHeap \<Rightarrow> (usize \<times> usize) list \<Rightarrow> bool" where
  "heap_sound lo hi cs s live \<longleftrightarrow>
     heap_shows lo hi cs s \<and> apart cs \<and> sorted_wrt (\<lambda>b c. block_bytes b \<inter> block_bytes c = {}) live \<and>
     (\<forall>b \<in> set live. block_bytes b \<inter> free_bytes cs = {} \<and> 8 dvd unat (fst b) \<and>
        lo \<le> unat (fst b) \<and> unat (fst b) + unat (block_size (snd b)) \<le> hi)"

lemma sorted_wrt_remove1: "sorted_wrt R xs \<Longrightarrow> sorted_wrt R (remove1 x xs)"
  by (induction xs) (auto dest: in_set_remove1 [THEN iffD1, rotated] set_remove1_subset [THEN subsetD])

lemma heap_sound_alloc:
  assumes "heap_sound lo hi cs s live" and "k < 64" and "alloc_chunks (block_size len) (max k 3) cs = (p, cs')"
  shows "\<exists>s'. heap_alloc len (2 ^ k) s = Some (p, s') \<and>
    heap_sound lo hi cs' s' (if p = 0 then live else (p, len) # live) \<and>
    changed_in (free_bytes cs') (fh_memory s) (fh_memory s')"
proof -
  have s: "heap_shows lo hi cs s" and ap: "apart cs" and
    live: "sorted_wrt (\<lambda>b c. block_bytes b \<inter> block_bytes c = {}) live"
    "\<And>b. b \<in> set live \<Longrightarrow> block_bytes b \<inter> free_bytes cs = {} \<and> 8 dvd unat (fst b) \<and>
        lo \<le> unat (fst b) \<and> unat (fst b) + unat (block_size (snd b)) \<le> hi"
    using assms(1) by (auto simp: heap_sound_def)
  obtain s' where s': "heap_alloc len (2 ^ k) s = Some (p, s')" "heap_shows lo hi cs' s'"
    "changed_in (free_bytes cs') (fh_memory s) (fh_memory s')" using heap_alloc_shows [OF s assms(2,3)] by blast
  have ok: "chunks_ok lo hi cs" "0 < lo" "hi < 2 ^ 64" using s by (simp_all add: heap_shows_def)
  note new = alloc_chunks_sound [OF ok block_size_ge assms(3)]
  have "(2 :: nat) ^ 3 dvd 2 ^ max k 3" by (rule le_imp_power_dvd) simp
  then have "8 dvd unat p" if "p \<noteq> 0" using new(1) [OF that] dvd_trans by fastforce
  then have "heap_sound lo hi cs' s' (if p = 0 then live else (p, len) # live)"
    using s'(2) new ap live unfolding heap_sound_def by (auto; blast)
  then show ?thesis using s' by blast
qed

lemma sorted_wrt_remove1_split:
  "sorted_wrt R xs \<Longrightarrow> symp R \<Longrightarrow> x \<in> set xs \<Longrightarrow> y \<in> set (remove1 x xs) \<Longrightarrow> R x y"
  by (induction xs) (auto dest: sympD split: if_splits)

lemma heap_sound_dealloc:
  assumes "heap_sound lo hi cs s live" and b: "(p, len) \<in> set live"
  defines "cs' \<equiv> dealloc_chunks p (block_size len) cs"
  shows "\<exists>s'. heap_dealloc p len s = Some s' \<and> heap_sound lo hi cs' s' (remove1 (p, len) live) \<and>
    changed_in (free_bytes cs') (fh_memory s) (fh_memory s')"
    "free_bytes cs' = free_bytes cs \<union> block_bytes (p, len)"
proof -
  let ?d = "block_size len"
  have s: "heap_shows lo hi cs s" and ap: "apart cs" and
    sorted: "sorted_wrt (\<lambda>b c. block_bytes b \<inter> block_bytes c = {}) live" and
    live: "\<And>b. b \<in> set live \<Longrightarrow> block_bytes b \<inter> free_bytes cs = {} \<and> 8 dvd unat (fst b) \<and>
        lo \<le> unat (fst b) \<and> unat (fst b) + unat (block_size (snd b)) \<le> hi"
    using assms(1) by (auto simp: heap_sound_def)
  from live [OF b] have p: "lo \<le> unat p" "unat p + unat ?d \<le> hi" "span p (unat ?d) \<inter> free_bytes cs = {}" by simp_all
  have ok: "chunks_ok lo hi cs" "hi < 2 ^ 64" using s by (simp_all add: heap_shows_def)
  note new = dealloc_chunks_sound [OF ok p(1,2) block_size_ge p(3), folded cs'_def]
  then show bytes: "free_bytes cs' = free_bytes cs \<union> block_bytes (p, len)" by simp
  obtain s' where s': "heap_dealloc p len s = Some s'" "heap_shows lo hi cs' s'"
    "changed_in (free_bytes cs \<union> span p (unat ?d)) (fh_memory s) (fh_memory s')"
    using heap_dealloc_shows [OF s p(1,2) refl p(3)] by (auto simp: cs'_def)
  have "symp (\<lambda>b c. block_bytes b \<inter> block_bytes c = {})" by (auto simp: symp_def)
  from sorted_wrt_remove1_split [OF sorted this b]
  have "block_bytes c \<inter> free_bytes cs' = {}" if "c \<in> set (remove1 (p, len) live)" for c
    using that live [of c] set_remove1_subset [of "(p, len)" live] unfolding bytes by blast
  moreover have "c \<in> set live" if "c \<in> set (remove1 (p, len) live)" for c
    using that by (rule subsetD [OF set_remove1_subset])
  ultimately have "heap_sound lo hi cs' s' (remove1 (p, len) live)"
    using s'(2) new(2) [OF ap] sorted_wrt_remove1 [OF sorted] live unfolding heap_sound_def by blast
  then show "\<exists>s'. heap_dealloc p len s = Some s' \<and> heap_sound lo hi cs' s' (remove1 (p, len) live) \<and>
    changed_in (free_bytes cs') (fh_memory s) (fh_memory s')" using s' new(1) by auto
qed

lemma heap_sound_use:
  assumes "heap_sound lo hi cs s live" and "(p, len) \<in> set live" and "changed_in (span p (unat len)) (fh_memory s) m"
  shows "heap_sound lo hi cs (s\<lparr>fh_memory := m\<rparr>) live"
proof -
  have ok: "chunks_ok lo hi cs" "hi < 2 ^ 64" using assms(1) by (simp_all add: heap_sound_def heap_shows_def)
  have "span p (unat len) \<subseteq> block_bytes (p, len)" by (intro span_mono) (simp_all add: max_def word_le_nat_alt)
  then have "span p (unat len) \<inter> free_bytes cs = {}" using assms(1,2) by (fastforce simp: heap_sound_def)
  from chain_changed [OF ok assms(3) this] show ?thesis using assms(1) by (simp add: heap_sound_def heap_shows_def)
qed

lemma heap_run_sound:
  assumes "heap_run region s live" and "region_start region \<noteq> 0"
    and "unat (region_start region) + unat (region_size region) < 2 ^ 64"
  shows "\<exists>cs. heap_sound (unat (region_start region)) (unat (region_start region) + unat (region_size region)) cs s live"
  using assms(1)
proof induction
  case (start s s')
  from allocator_init_shows [OF start assms(2,3)] show ?case by (auto simp: heap_sound_def)
next
  case (alloc s live k len p s')
  then obtain cs where cs: "heap_sound (unat (region_start region)) (unat (region_start region) + unat (region_size region)) cs s live"
    by blast
  obtain q cs' where "alloc_chunks (block_size len) (max k 3) cs = (q, cs')" by fastforce
  from heap_sound_alloc [OF cs alloc(2) this] alloc(3) show ?case by fastforce
next
  case (dealloc s live p len s')
  then show ?case using heap_sound_dealloc(1) by fastforce
next
  case (use s live p len m)
  then show ?case using heap_sound_use by blast
qed

lemma bytes_lost:
  assumes "S = P \<union> B \<union> L \<union> K" "P \<inter> B = {}" "P \<inter> L = {}" "K \<inter> B = {}" "K \<inter> L = {}" "S \<inter> X = {}" "S \<inter> Y = {}"
  shows "X \<union> (L \<union> Y) \<union> B = X \<union> (S \<union> Y) - (P \<union> K)"
  using assms by blast

section \<open>Properties\<close>

text \<open>C9: the allocator implements first fit on the list of its free chunks: for every chunk list that its memory
  shows, alloc returns the address of the first chunk with room for the aligned block, or null when there is
  none, its memory then shows the list with that chunk replaced by what is left of it, and the only bytes it has
  written are in chunks that are still free.\<close>

theorem heap_alloc_first_fit:
  fixes len :: usize and cs :: "(usize \<times> usize) list"
  assumes "heap_shows lo hi cs s" and "k < 64"
  defines "r \<equiv> alloc_chunks (block_size len) (max k 3) cs"
  shows "\<exists>s'. heap_alloc len (2 ^ k) s = Some (fst r, s') \<and> heap_shows lo hi (snd r) s' \<and>
    changed_in (free_bytes (snd r)) (fh_memory s) (fh_memory s') \<and>
    (fst r = 0 \<longleftrightarrow> (\<forall>c \<in> set cs. \<not> fits (block_size len) (max k 3) c)) \<and>
    (fst r \<noteq> 0 \<longrightarrow> 2 ^ max k 3 dvd unat (fst r) \<and> span (fst r) (unat (block_size len)) \<subseteq> free_bytes cs - free_bytes (snd r))"
proof -
  obtain p cs' where r: "alloc_chunks (block_size len) (max k 3) cs = (p, cs')" by fastforce
  have ok: "chunks_ok lo hi cs" "0 < lo" "hi < 2 ^ 64" using assms(1) by (simp_all add: heap_shows_def)
  show ?thesis
    using heap_alloc_shows [OF assms(1,2) r] alloc_chunks_sound [OF ok block_size_ge r]
      alloc_chunks_null(1) [OF ok block_size_ge, of len "max k 3"] unfolding r_def r by auto
qed

text \<open>C10: dealloc of a block that is not free puts it into the list in address order and joins it with the free
  chunks it touches on either side: the free bytes are then exactly the old ones and those of the block, a list without
  touching chunks stays one, and no byte outside these chunks is written.\<close>

theorem heap_dealloc_coalesces:
  assumes "heap_shows lo hi cs s" and "lo \<le> unat p" and "unat p + unat (block_size len) \<le> hi"
    and "block_bytes (p, len) \<inter> free_bytes cs = {}"
  shows "\<exists>s'. heap_dealloc p len s = Some s' \<and> heap_shows lo hi (dealloc_chunks p (block_size len) cs) s' \<and>
    free_bytes (dealloc_chunks p (block_size len) cs) = free_bytes cs \<union> block_bytes (p, len) \<and>
    changed_in (free_bytes cs \<union> block_bytes (p, len)) (fh_memory s) (fh_memory s') \<and>
    (apart cs \<longrightarrow> apart (dealloc_chunks p (block_size len) cs))"
proof -
  have ok: "chunks_ok lo hi cs" "hi < 2 ^ 64" using assms(1) by (simp_all add: heap_shows_def)
  have free: "span p (unat (block_size len)) \<inter> free_bytes cs = {}" using assms(4) by simp
  from heap_dealloc_shows [OF assms(1-3) refl free] dealloc_chunks_sound [OF ok assms(2,3) block_size_ge free]
  show ?thesis by (simp only: fst_conv snd_conv) blast
qed

text \<open>C11: whatever the kernel has allocated, freed and written since the initialisation of the allocator, the blocks it
  holds are disjoint, aligned for a header and inside the heap region, every further allocation returns without
  changing a byte of them, and every one of them can be freed without changing a byte of the others.\<close>

theorem heap_blocks_exclusive:
  assumes "heap_run region s live" and "region_start region \<noteq> 0"
    and "unat (region_start region) + unat (region_size region) < 2 ^ 64"
  shows "sorted_wrt (\<lambda>b c. block_bytes b \<inter> block_bytes c = {}) live \<and>
    (\<forall>b \<in> set live. 8 dvd unat (fst b) \<and> unat (region_start region) \<le> unat (fst b) \<and>
      unat (fst b) + unat (block_size (snd b)) \<le> unat (region_start region) + unat (region_size region)) \<and>
    (\<forall>len k. k < 64 \<longrightarrow> (\<exists>p s'. heap_alloc len (2 ^ k) s = Some (p, s') \<and>
      (\<forall>b \<in> set live. \<forall>x \<in> block_bytes b. fh_memory s' x = fh_memory s x))) \<and>
    (\<forall>b \<in> set live. \<exists>s'. heap_dealloc (fst b) (snd b) s = Some s' \<and>
      (\<forall>c \<in> set (remove1 b live). \<forall>x \<in> block_bytes c. fh_memory s' x = fh_memory s x))"
proof -
  let ?lo = "unat (region_start region)" let ?hi = "?lo + unat (region_size region)"
  obtain cs where cs: "heap_sound ?lo ?hi cs s live" using heap_run_sound [OF assms] by blast
  have "\<exists>p s'. heap_alloc len (2 ^ k) s = Some (p, s') \<and>
      (\<forall>b \<in> set live. \<forall>x \<in> block_bytes b. fh_memory s' x = fh_memory s x)" if k: "k < 64" for len k
  proof -
    obtain p cs' where "alloc_chunks (block_size len) (max k 3) cs = (p, cs')" by fastforce
    from heap_sound_alloc [OF cs k this] obtain s' where s': "heap_alloc len (2 ^ k) s = Some (p, s')"
      "heap_sound ?lo ?hi cs' s' (if p = 0 then live else (p, len) # live)" "changed_in (free_bytes cs') (fh_memory s) (fh_memory s')"
      by blast
    then have "block_bytes b \<inter> free_bytes cs' = {}" if "b \<in> set live" for b using that by (auto simp: heap_sound_def split: if_splits)
    with s'(3) have "\<forall>b \<in> set live. \<forall>x \<in> block_bytes b. fh_memory s' x = fh_memory s x" unfolding changed_in_def by blast
    with s'(1) show ?thesis by blast
  qed
  moreover have "\<exists>s'. heap_dealloc (fst b) (snd b) s = Some s' \<and>
      (\<forall>c \<in> set (remove1 b live). \<forall>x \<in> block_bytes c. fh_memory s' x = fh_memory s x)" if "b \<in> set live" for b
  proof -
    obtain p len where b: "b = (p, len)" by fastforce
    from heap_sound_dealloc(1) [OF cs that [unfolded b]] obtain s' cs' where s': "heap_dealloc p len s = Some s'"
      "heap_sound ?lo ?hi cs' s' (remove1 (p, len) live)" "changed_in (free_bytes cs') (fh_memory s) (fh_memory s')"
      by blast
    from s'(2) have "block_bytes c \<inter> free_bytes cs' = {}" if "c \<in> set (remove1 b live)" for c
      using that by (simp add: heap_sound_def b)
    with s'(3) have "\<forall>c \<in> set (remove1 b live). \<forall>x \<in> block_bytes c. fh_memory s' x = fh_memory s x"
      unfolding changed_in_def by blast
    with s'(1) show ?thesis by (auto simp: b)
  qed
  ultimately show ?thesis using cs unfolding heap_sound_def by blast
qed

text \<open>A block that is allocated and freed again gives back its bytes but not what the allocation cut off from its
  chunk: the padding in front of the block and the fewer than 16 bytes behind it are lost for good, and when there
  are none the free list is what it was.\<close>

theorem alloc_dealloc_roundtrip:
  assumes "heap_shows lo hi cs s" and "apart cs" and "k < 64" and "heap_alloc len (2 ^ k) s = Some (p, s1)" and "p \<noteq> 0"
  shows "\<exists>c \<in> set cs. \<exists>s2 cs2. heap_dealloc p len s1 = Some s2 \<and> heap_shows lo hi cs2 s2 \<and> apart cs2 \<and>
    free_bytes cs2 = free_bytes cs - (span (fst c) (unat p - unat (fst c)) \<union> slack (unat p + unat (block_size len)) c) \<and>
    (unat p = unat (fst c) \<and> slack (unat p + unat (block_size len)) c = {} \<longrightarrow> cs2 = cs)"
proof -
  let ?d = "block_size len"
  obtain q cs1 where r: "alloc_chunks ?d (max k 3) cs = (q, cs1)" by fastforce
  with heap_alloc_shows [OF assms(1,3) r] assms(4) have q: "q = p" and s1: "heap_shows lo hi cs1 s1" by auto
  note r = r [unfolded q]
  have ok: "chunks_ok lo hi cs" "0 < lo" "hi < 2 ^ 64" using assms(1) by (simp_all add: heap_shows_def)
  note new = alloc_chunks_sound [OF ok block_size_ge r]
  have block: "lo \<le> unat p" "unat p + unat ?d \<le> hi" "span p (unat ?d) \<inter> free_bytes cs1 = {}" "apart cs1"
    using new(1,2) [OF assms(5)] new(4) [OF assms(2)] by simp_all
  obtain pre c post where cs: "cs = pre @ c # post" and cs1: "cs1 = pre @ leftover (unat p + unat ?d) c @ post"
    and room: "unat (fst c) \<le> unat p" "unat p + unat ?d \<le> unat (fst c) + unat (snd c)"
    using alloc_chunks_split [OF ok block_size_ge r assms(5)] by blast
  let ?cs2 = "dealloc_chunks p ?d cs1"
  obtain s2 where s2: "heap_dealloc p len s1 = Some s2" "heap_shows lo hi ?cs2 s2"
    using heap_dealloc_shows [OF s1 block(1,2) refl block(3)] by blast
  have ok1: "chunks_ok lo hi cs1" using s1 by (simp add: heap_shows_def)
  note freed = dealloc_chunks_sound [OF ok1 ok(3) block(1,2) block_size_ge block(3)]
  obtain a n where c: "c = (a, n)" by fastforce
  have ok': "chunks_ok lo hi (pre @ (a, n) # post)" using ok(1) cs c by simp
  note dj = chunks_disjoint [OF ok']
  have an: "unat (fst c) + unat (snd c) < 2 ^ 64" using dj(5) ok(3) by (simp add: c)
  let ?pad = "span a (unat p - unat a)" and ?left = "free_bytes (leftover (unat p + unat ?d) c)" and ?slack = "slack (unat p + unat ?d) c"
  have chunk: "span a (unat n) = ?pad \<union> span p (unat ?d) \<union> ?left \<union> ?slack"
    "?pad \<inter> span p (unat ?d) = {}" "?pad \<inter> ?left = {}" "?slack \<inter> span p (unat ?d) = {}" "?slack \<inter> ?left = {}"
    unfolding slack_small [OF an] leftover_bytes [OF an] using room by (auto simp: span_def c)
  have "free_bytes ?cs2 = free_bytes cs - (?pad \<union> ?slack)"
    using bytes_lost [OF chunk dj(1,2)] freed(1) unfolding cs1 cs c free_bytes_simps by (simp only:)
  moreover have "?cs2 = cs" if "unat p = unat (fst c)" "?slack = {}"
  proof -
    have "?pad = {}" using that(1) by (simp add: c span_def)
    with that(2) have "free_bytes ?cs2 = free_bytes cs" using calculation by simp
    moreover have "chunks_ok lo hi ?cs2" using s2(2) by (simp add: heap_shows_def)
    ultimately show ?thesis using apart_canonical [OF _ freed(2) [OF block(4)] ok(1) assms(2) ok(3) ok(3)] by blast
  qed
  ultimately show ?thesis using s2 freed(2) [OF block(4)] by (auto simp: cs c)
qed

section \<open>A small heap\<close>

text \<open>A heap of 64 bytes at 4096.\<close>

definition sample_region :: HeapRegion where
  "sample_region = \<lparr>region_start = 4096, region_size = 64\<rparr>"

definition sample_heap :: FreeHeap where
  "sample_heap = snd (allocator_init sample_region \<lparr>fh_head = 0, fh_memory = (\<lambda>_. 0)\<rparr>)"

lemma sample_init: "allocator_init sample_region \<lparr>fh_head = 0, fh_memory = (\<lambda>_. 0)\<rparr> = (Inr (), sample_heap)"
  by (simp add: sample_heap_def allocator_init_def sample_region_def CHUNK_SIZE_def CHUNK_ALIGN_def is_multiple_of_def Let_def)

lemma sample_shows: "heap_shows 4096 4160 [(4096, 64)] sample_heap"
  using allocator_init_shows [OF sample_init] by (simp add: sample_region_def)

lemmas alloc_eval = alloc_chunks_def fits_def align_up_def leftover_def CHUNK_SIZE_def Let_def

text \<open>17 bytes of it: the header of the rest is then at 4113.\<close>

lemma sample_alloc: "alloc_chunks (block_size 17) (max 3 3) [(4096, 64)] = (4096, [(4113, 47)])"
  by (simp add: alloc_eval)

lemma heap_alloc_first_fit_witness:
  "\<exists>s'. heap_alloc 17 (2 ^ 3) sample_heap = Some (4096, s') \<and> heap_shows 4096 4160 [(4113, 47)] s'"
  using heap_alloc_first_fit [OF sample_shows, of 3 17, unfolded sample_alloc] by auto

definition sample_gap :: FreeHeap where
  "sample_gap = set_next 4096 0 (set_size 4096 16 \<lparr>fh_head = 4096, fh_memory = (\<lambda>_. 0)\<rparr>)"

lemma sample_gap_shows: "heap_shows 4096 4160 [(4096, 16)] sample_gap"
  using write_header(3) [of 16 4096] by (simp add: heap_shows_def sample_gap_def)

text \<open>A block behind a free chunk: both come together.\<close>

lemma heap_dealloc_coalesces_witness:
  "\<exists>s'. heap_dealloc 4112 48 sample_gap = Some s' \<and> heap_shows 4096 4160 [(4096, 64)] s'"
proof -
  have d: "dealloc_chunks 4112 (block_size 48) [(4096, 16)] = [(4096, 64)]"
    by (simp add: dealloc_chunks_def CHUNK_SIZE_def)
  have "block_bytes (4112, 48) \<inter> free_bytes [(4096, 16)] = {}" by (auto simp: span_def CHUNK_SIZE_def)
  from heap_dealloc_coalesces [OF sample_gap_shows _ _ this] d show ?thesis by (auto simp: CHUNK_SIZE_def)
qed

lemma heap_blocks_exclusive_witness:
  "\<exists>s. heap_run sample_region s [(4096, 17)] \<and>
     (\<exists>p s'. heap_alloc 16 (2 ^ 4) s = Some (p, s') \<and> (\<forall>x \<in> block_bytes (4096, 17). fh_memory s' x = fh_memory s x))"
proof -
  have "heap_run sample_region sample_heap []" by (rule heap_run.start [OF sample_init])
  moreover obtain s where "heap_alloc 17 (2 ^ 3) sample_heap = Some (4096, s)"
    using heap_alloc_shows [OF sample_shows _ sample_alloc] by auto
  ultimately have run: "heap_run sample_region s [(4096, 17)]"
    using heap_run.alloc [of sample_region sample_heap "[]" 3 17 4096 s] by simp
  have "region_start sample_region \<noteq> 0" "unat (region_start sample_region) + unat (region_size sample_region) < 2 ^ 64"
    by (simp_all add: sample_region_def)
  from heap_blocks_exclusive [OF run this, THEN conjunct2, THEN conjunct2, THEN conjunct1, THEN spec, THEN spec, of 4 16]
  have "\<exists>p s'. heap_alloc 16 (2 ^ 4) s = Some (p, s') \<and>
      (\<forall>b \<in> set [(4096, 17)]. \<forall>x \<in> block_bytes b. fh_memory s' x = fh_memory s x)" by (rule mp) simp
  then have "\<exists>p s'. heap_alloc 16 (2 ^ 4) s = Some (p, s') \<and> (\<forall>x \<in> block_bytes (4096, 17). fh_memory s' x = fh_memory s x)"
    unfolding list.set by blast
  then show ?thesis using run by blast
qed

text \<open>56 bytes are allocated and freed: the last 8 bytes of the heap are gone.\<close>

lemma alloc_dealloc_roundtrip_witness:
  "\<exists>s1 s2 cs2. heap_alloc 56 (2 ^ 3) sample_heap = Some (4096, s1) \<and> heap_dealloc 4096 56 s1 = Some s2 \<and>
     heap_shows 4096 4160 cs2 s2 \<and> free_bytes cs2 = span 4096 56"
proof -
  have r: "alloc_chunks (block_size 56) (max 3 3) [(4096, 64)] = (4096, [])" by (simp add: alloc_eval)
  from heap_alloc_shows [OF sample_shows _ r] obtain s1 where s1: "heap_alloc 56 (2 ^ 3) sample_heap = Some (4096, s1)"
    by auto
  have sl: "slack (unat (4096 :: usize) + unat (block_size 56)) (4096, 64) = {x. 4152 \<le> unat x \<and> unat x < 4160}"
    by (subst slack_small) (simp_all add: CHUNK_SIZE_def)
  have lost: "free_bytes [(4096, 64)] - (span 4096 0 \<union> slack (unat (4096 :: usize) + unat (block_size 56)) (4096, 64)) = span 4096 56"
    unfolding sl free_bytes_simps span_def by auto
  have side: "apart [(4096, 64) :: usize \<times> usize]" "(3 :: nat) < 64" "(4096 :: usize) \<noteq> 0" by simp_all
  obtain c s2 cs2 where "c \<in> set [(4096, 64)]"
    "heap_dealloc 4096 56 s1 = Some s2" "heap_shows 4096 4160 cs2 s2"
    "free_bytes cs2 = free_bytes [(4096, 64)] -
      (span (fst c) (unat (4096 :: usize) - unat (fst c)) \<union> slack (unat (4096 :: usize) + unat (block_size 56)) c)"
    using alloc_dealloc_roundtrip [OF sample_shows side(1,2) s1 side(3)] by (elim bexE exE conjE) (rule that)
  note got = this
  from got(1) have c: "c = (4096, 64)" by simp
  have "free_bytes cs2 = span 4096 56" using got(4) unfolding c fst_conv diff_self_eq_0 lost .
  with s1 got(2,3) show ?thesis by blast
qed

end
