(* ===== verification/Interrupts.thy ===== *)
theory Interrupts
  imports Keyboard Mouse Timer
begin

text \<open>
  The interrupt subsystem, \<^verbatim>\<open>src/src/interrupts\<close>: the 8259 controllers (\<^verbatim>\<open>pic.rs\<close>) behind the trait of
  \<^verbatim>\<open>controller.rs\<close>, the interval timer (\<^verbatim>\<open>pit.rs\<close>), the descriptor table and the interrupt stacks (\<^verbatim>\<open>idt.rs\<close>,
  \<^verbatim>\<open>gdt.rs\<close>), the handlers (\<^verbatim>\<open>handlers.rs\<close>) and the start-up sequence (\<^verbatim>\<open>mod.rs\<close>). The feature \<^verbatim>\<open>mouse\<close> is the
  argument \<open>mouse\<close>. The controllers themselves are devices behind the ports; the section on the 8259 says, for
  the properties only, how one reads the bytes written to it. Descriptors and selectors, which only the CPU
  reads, are not modelled.
\<close>

section \<open>The interval timer\<close>

definition PIT_COMMAND_PORT :: u16 where "PIT_COMMAND_PORT = 0x43"
definition CHANNEL_0_PORT :: u16 where "CHANNEL_0_PORT = 0x40"
definition CHANNEL_0_MODE_3 :: u8 where "CHANNEL_0_MODE_3 = 0x36"

definition pit_divisor :: u16 where
  "pit_divisor = ucast (PIT_FREQUENCY div TIMER_FREQUENCY)"

definition pit_initialize :: "'w Ports \<Rightarrow> 'w Bus \<Rightarrow> 'w Bus" where
  "pit_initialize io b =
     (let b = outb io CHANNEL_0_MODE_3 PIT_COMMAND_PORT b;
          b = outb io (ucast (pit_divisor AND 0xff)) CHANNEL_0_PORT b
      in outb io (ucast (drop_bit 8 pit_divisor)) CHANNEL_0_PORT b)"

section \<open>The controllers\<close>

datatype Irq = IrqTimer | IrqKeyboard | IrqMouse

definition MASTER_OFFSET :: u8 where "MASTER_OFFSET = 32"
definition SLAVE_OFFSET :: u8 where "SLAVE_OFFSET = MASTER_OFFSET + 8"
definition MASTER_COMMAND :: u16 where "MASTER_COMMAND = 0x20"
definition MASTER_DATA :: u16 where "MASTER_DATA = 0x21"
definition SLAVE_COMMAND :: u16 where "SLAVE_COMMAND = 0xa0"
definition SLAVE_DATA :: u16 where "SLAVE_DATA = 0xa1"
definition EOI :: u8 where "EOI = 0x20"

lemmas pic_ports = MASTER_COMMAND_def MASTER_DATA_def SLAVE_COMMAND_def SLAVE_DATA_def

definition pic_initialize :: "'w Ports \<Rightarrow> 'w Bus \<Rightarrow> 'w Bus" where
  "pic_initialize io b =
     (let ICW1_INIT = 0x10; ICW1_ICW4 = 0x01; ICW4_8086 = 0x01;
          MASTER_IRQ_MASK = 0b11111111; SLAVE_IRQ_MASK = 0b11111111;
          b = outb io (ICW1_INIT OR ICW1_ICW4) MASTER_COMMAND b;
          b = outb io (ICW1_INIT OR ICW1_ICW4) SLAVE_COMMAND b;
          b = outb io MASTER_OFFSET MASTER_DATA b;
          b = outb io SLAVE_OFFSET SLAVE_DATA b;
          b = outb io 0x04 MASTER_DATA b;
          b = outb io 0x02 SLAVE_DATA b;
          b = outb io ICW4_8086 MASTER_DATA b;
          b = outb io ICW4_8086 SLAVE_DATA b;
          b = outb io MASTER_IRQ_MASK MASTER_DATA b
      in outb io SLAVE_IRQ_MASK SLAVE_DATA b)"

definition acknowledge_master :: "'w Ports \<Rightarrow> 'w Bus \<Rightarrow> 'w Bus" where
  "acknowledge_master io b = outb io EOI MASTER_COMMAND b"

definition acknowledge_slave :: "'w Ports \<Rightarrow> 'w Bus \<Rightarrow> 'w Bus" where
  "acknowledge_slave io b = outb io EOI MASTER_COMMAND (outb io EOI SLAVE_COMMAND b)"

fun pic_vector_for :: "Irq \<Rightarrow> u8" where
  "pic_vector_for IrqTimer = MASTER_OFFSET"
| "pic_vector_for IrqKeyboard = MASTER_OFFSET + 1"
| "pic_vector_for IrqMouse = SLAVE_OFFSET + 4"

fun pic_acknowledge :: "'w Ports \<Rightarrow> Irq \<Rightarrow> 'w Bus \<Rightarrow> 'w Bus" where
  "pic_acknowledge io IrqTimer b = acknowledge_master io b"
| "pic_acknowledge io IrqKeyboard b = acknowledge_master io b"
| "pic_acknowledge io IrqMouse b = acknowledge_slave io b"

definition pic_enable_runtime :: "'w Ports \<Rightarrow> 'w Bus \<Rightarrow> 'w Bus" where
  "pic_enable_runtime io b = outb io 0b11111101 MASTER_DATA b"

definition pic_enable_mouse :: "'w Ports \<Rightarrow> 'w Bus \<Rightarrow> 'w Bus" where
  "pic_enable_mouse io b = outb io 0b11101111 SLAVE_DATA (outb io 0b11111000 MASTER_DATA b)"

section \<open>Descriptors\<close>

definition NMI_IST_INDEX :: u16 where "NMI_IST_INDEX = 0"
definition DOUBLE_FAULT_IST_INDEX :: u16 where "DOUBLE_FAULT_IST_INDEX = 1"
definition MACHINE_CHECK_IST_INDEX :: u16 where "MACHINE_CHECK_IST_INDEX = 2"
definition IST_STACK_SIZE :: u64 where "IST_STACK_SIZE = 32 * 1024"

lemmas ist_defs = NMI_IST_INDEX_def DOUBLE_FAULT_IST_INDEX_def MACHINE_CHECK_IST_INDEX_def

text \<open>\<open>stacks\<close> is the address of the static array of interrupt stacks.\<close>

definition stack_top :: "u64 \<Rightarrow> u64 \<Rightarrow> u64" where
  "stack_top stacks index = stacks + index * IST_STACK_SIZE + IST_STACK_SIZE"

definition tss_install :: "u64 \<Rightarrow> u16 \<Rightarrow> u64" where
  "tss_install stacks = (\<lambda>_. 0)(NMI_IST_INDEX := stack_top stacks 0,
     DOUBLE_FAULT_IST_INDEX := stack_top stacks 1, MACHINE_CHECK_IST_INDEX := stack_top stacks 2)"

text \<open>The handlers: the ones that report and halt, with or without an error code, and the others.\<close>

datatype Handler =
  Fatal string | FatalCode string | Breakpoint | DoubleFault | PageFault | MachineCheck
| TimerHandler | KeyboardHandler | MouseHandler

type_synonym Idt = "u8 \<rightharpoonup> Handler \<times> u16 option"

text \<open>The fields of \<^verbatim>\<open>InterruptDescriptorTable\<close> are named after the exceptions; their vectors are those of the
  architecture.\<close>

definition exception_handlers :: Idt where
  "exception_handlers =
    [0 \<mapsto> (Fatal ''divide error'', None), 1 \<mapsto> (Fatal ''debug'', None),
     2 \<mapsto> (Fatal ''non-maskable interrupt'', Some NMI_IST_INDEX), 3 \<mapsto> (Breakpoint, None),
     4 \<mapsto> (Fatal ''overflow'', None), 5 \<mapsto> (Fatal ''bound range exceeded'', None),
     6 \<mapsto> (Fatal ''invalid opcode'', None), 7 \<mapsto> (Fatal ''device not available'', None),
     8 \<mapsto> (DoubleFault, Some DOUBLE_FAULT_IST_INDEX), 10 \<mapsto> (FatalCode ''invalid TSS'', None),
     11 \<mapsto> (FatalCode ''segment not present'', None), 12 \<mapsto> (FatalCode ''stack segment fault'', None),
     13 \<mapsto> (FatalCode ''general protection fault'', None), 14 \<mapsto> (PageFault, None),
     16 \<mapsto> (Fatal ''x87 floating point'', None), 17 \<mapsto> (FatalCode ''alignment check'', None),
     18 \<mapsto> (MachineCheck, Some MACHINE_CHECK_IST_INDEX), 19 \<mapsto> (Fatal ''SIMD floating point'', None),
     20 \<mapsto> (Fatal ''virtualization'', None), 21 \<mapsto> (FatalCode ''control protection exception'', None),
     28 \<mapsto> (Fatal ''hypervisor injection'', None), 29 \<mapsto> (FatalCode ''VMM communication exception'', None),
     30 \<mapsto> (FatalCode ''security exception'', None)]"

definition idt_install :: "(Irq \<Rightarrow> u8) \<Rightarrow> bool \<Rightarrow> Idt" where
  "idt_install vector_for mouse =
     (let idt = exception_handlers;
          idt = idt(vector_for IrqTimer \<mapsto> (TimerHandler, None));
          idt = idt(vector_for IrqKeyboard \<mapsto> (KeyboardHandler, None))
      in if mouse then idt(vector_for IrqMouse \<mapsto> (MouseHandler, None)) else idt)"

section \<open>The machine\<close>

text \<open>The state the subsystem keeps, with the interrupt flag of the CPU, the tables it has loaded and the ports.\<close>

record ('w, 'q, 'm) Machine =
  mc_bus :: "'w Bus"
  mc_flag :: bool
  mc_idt :: "Idt option"
  mc_tss :: "(u16 \<Rightarrow> u64) option"
  mc_hardware :: bool
  mc_ticks :: u64
  mc_keyboard :: "'q KeyboardQueue"
  mc_mouse :: "'m MouseQueue"

definition on_bus :: "('w Bus \<Rightarrow> 'w Bus) \<Rightarrow> ('w, 'q, 'm) Machine \<Rightarrow> ('w, 'q, 'm) Machine" where
  "on_bus f s = s\<lparr>mc_bus := f (mc_bus s)\<rparr>"

text \<open>\<open>without_interrupts\<close>; the operation returns \<open>None\<close> when it panics.\<close>

definition without_interrupts ::
  "(('w, 'q, 'm) Machine \<Rightarrow> ('w, 'q, 'm) Machine option) \<Rightarrow> ('w, 'q, 'm) Machine \<Rightarrow> ('w, 'q, 'm) Machine option" where
  "without_interrupts f s =
     (let enabled = mc_flag s in map_option (\<lambda>s. if enabled then s\<lparr>mc_flag := True\<rparr> else s) (f (s\<lparr>mc_flag := False\<rparr>)))"

definition setup_hardware :: "bool \<Rightarrow> 'w Ports \<Rightarrow> ('w, 'q, 'm) Machine \<Rightarrow> ('w, 'q, 'm) Machine" where
  "setup_hardware mouse io s =
     (if mc_hardware s then s
      else let s = on_bus (pic_initialize io) s;
               s = on_bus (pit_initialize io) s;
               s = (if mouse then on_bus (\<lambda>b. snd (initialize_controller io b)) s else s)
           in s\<lparr>mc_hardware := True\<rparr>)"

text \<open>The initialisation of the two input queues, which panics on a second call.\<close>

definition setup_queues ::
  "bool \<Rightarrow> ('q, KeyboardScancode) Ring \<Rightarrow> ('m, MouseByte) Ring \<Rightarrow> ('w, 'q, 'm) Machine \<Rightarrow> ('w, 'q, 'm) Machine option" where
  "setup_queues mouse rk rm s =
     (case init_keyboard rk (mc_keyboard s) of
        None \<Rightarrow> None
      | Some k \<Rightarrow>
          (let s = s\<lparr>mc_keyboard := k\<rparr>
           in if mouse then map_option (\<lambda>m. s\<lparr>mc_mouse := m\<rparr>) (init_mouse rm (mc_mouse s)) else Some s))"

definition interrupts_init ::
  "bool \<Rightarrow> 'w Ports \<Rightarrow> u64 \<Rightarrow> ('q, KeyboardScancode) Ring \<Rightarrow> ('m, MouseByte) Ring \<Rightarrow>
   ('w, 'q, 'm) Machine \<Rightarrow> ('w, 'q, 'm) Machine option" where
  "interrupts_init mouse io stacks rk rm s =
     map_option (\<lambda>s. s\<lparr>mc_flag := True\<rparr>)
       (without_interrupts (\<lambda>s.
          (let s = s\<lparr>mc_tss := Some (tss_install stacks)\<rparr>;
               s = s\<lparr>mc_idt := Some (idt_install pic_vector_for mouse)\<rparr>;
               s = setup_hardware mouse io s
           in map_option (on_bus (drain_ps2_output io)) (setup_queues mouse rk rm s))) s)"

section \<open>The exceptions\<close>

text \<open>
  What the CPU pushes on an exception, with the Debug text of the frame, which is the library's. A handler prints a text or
  nothing, and returns or halts; the page fault handler also has the flags of its error code and the faulting address.
\<close>

record InterruptFrame =
  if_instruction_pointer :: u64
  if_stack_pointer :: u64
  if_debug :: string

fun hex_text :: "nat \<Rightarrow> string" where
  "hex_text n = (if n < 16 then [''0123456789abcdef'' ! n] else hex_text (n div 16) @ [''0123456789abcdef'' ! (n mod 16)])"

declare hex_text.simps [simp del]

definition alternate_hex :: "u64 \<Rightarrow> string" where
  "alternate_hex x = ''0x'' @ hex_text (unat x)"

definition registers_text :: "InterruptFrame \<Rightarrow> string" where
  "registers_text f =
     ''RIP: '' @ alternate_hex (if_instruction_pointer f) @ '' RSP: '' @ alternate_hex (if_stack_pointer f) @ ''\<newline>'' @
     if_debug f @ ''\<newline>''"

definition fatal_exception :: "string \<Rightarrow> InterruptFrame \<Rightarrow> string option \<times> bool" where
  "fatal_exception name f = (Some (''EXCEPTION: '' @ name @ ''\<newline>'' @ registers_text f), False)"

definition fatal_exception_with_code :: "string \<Rightarrow> InterruptFrame \<Rightarrow> u64 \<Rightarrow> string option \<times> bool" where
  "fatal_exception_with_code name f error_code =
     (Some (''EXCEPTION: '' @ name @ '' (error code: '' @ alternate_hex error_code @ '')\<newline>'' @ registers_text f), False)"

fun run_exception :: "Handler \<Rightarrow> InterruptFrame \<Rightarrow> u64 \<Rightarrow> string \<Rightarrow> u64 \<Rightarrow> (string option \<times> bool) option" where
  "run_exception (Fatal name) f error_code flags address = Some (fatal_exception name f)"
| "run_exception (FatalCode name) f error_code flags address = Some (fatal_exception_with_code name f error_code)"
| "run_exception Breakpoint f error_code flags address = Some (Some (''BREAKPOINT\<newline>'' @ if_debug f @ ''\<newline>''), True)"
| "run_exception DoubleFault f error_code flags address = Some (None, False)"
| "run_exception PageFault f error_code flags address =
     Some (Some (''PAGE FAULT at '' @ alternate_hex address @ '' ('' @ flags @ '')\<newline>'' @ if_debug f @ ''\<newline>''), False)"
| "run_exception MachineCheck f error_code flags address = Some (None, False)"
| "run_exception _ f error_code flags address = None"

lemma exceptions_halt:
  assumes "exception_handlers v = Some (h, i)"
  shows "\<exists>printed. run_exception h f error_code flags address = Some (printed, v = 3)"
  using assms by (auto simp: exception_handlers_def fatal_exception_def fatal_exception_with_code_def split: if_splits)

section \<open>The handlers\<close>

definition timer_handler :: "'w Ports \<Rightarrow> ('w, 'q, 'm) Machine \<Rightarrow> ('w, 'q, 'm) Machine" where
  "timer_handler io s = on_bus (pic_acknowledge io IrqTimer) (s\<lparr>mc_ticks := mc_ticks s + 1\<rparr>)"

definition keyboard_handler ::
  "'w Ports \<Rightarrow> ('q, KeyboardScancode) Ring \<Rightarrow> ('w, 'q, 'm) Machine \<Rightarrow> ('w, 'q, 'm) Machine" where
  "keyboard_handler io rk s =
     (let (code, b) = inb io PS2_DATA (mc_bus s); s = s\<lparr>mc_bus := b\<rparr>
      in if code = 0xfa \<or> code = 0xfe then on_bus (pic_acknowledge io IrqKeyboard) s
         else let s = s\<lparr>mc_keyboard := push_keyboard_scancode rk (mc_keyboard s) (KeyboardScancode code)\<rparr>
              in on_bus (pic_acknowledge io IrqKeyboard) s)"

definition mouse_handler ::
  "'w Ports \<Rightarrow> ('m, MouseByte) Ring \<Rightarrow> ('w, 'q, 'm) Machine \<Rightarrow> ('w, 'q, 'm) Machine" where
  "mouse_handler io rm s =
     (let (byte, b) = inb io PS2_DATA (mc_bus s); s = s\<lparr>mc_bus := b\<rparr>;
          s = s\<lparr>mc_mouse := push_mouse_byte rm (mc_mouse s) (MouseByte byte)\<rparr>
      in on_bus (pic_acknowledge io IrqMouse) s)"

section \<open>Any interrupt controller\<close>

definition writes :: "(u16 \<times> u8) list \<Rightarrow> PortEvent list" where
  "writes xs = map (\<lambda>(p, v). Out p v) xs"

lemma outs_writes [simp]: "outs (writes xs) = xs"
  by (induction xs) (auto simp: writes_def outs_def)

lemma outb_log: "bus_log (outb io v p b) = bus_log b @ writes [(p, v)]"
  by (simp add: outb_def writes_def)

text \<open>What the descriptor table and the handlers owe to a controller behind the trait: the vectors of its lines differ
  and are not those of CPU exceptions, and an acknowledgement only ends the interrupt.\<close>

locale interrupt_controller =
  fixes vector_for :: "Irq \<Rightarrow> u8" and acknowledge :: "'w Ports \<Rightarrow> Irq \<Rightarrow> 'w Bus \<Rightarrow> 'w Bus"
    and ends :: "Irq \<Rightarrow> (u16 \<times> u8) list"
  assumes vectors_differ: "vector_for i = vector_for j \<Longrightarrow> i = j"
    and vectors_free: "32 \<le> vector_for i"
    and acknowledged: "bus_log (acknowledge io i b) = bus_log b @ writes (ends i)"
begin

lemma irq_installed:
  "idt_install vector_for mouse (vector_for IrqTimer) = Some (TimerHandler, None)"
  "idt_install vector_for mouse (vector_for IrqKeyboard) = Some (KeyboardHandler, None)"
  "idt_install vector_for True (vector_for IrqMouse) = Some (MouseHandler, None)"
  using vectors_differ by (auto simp: idt_install_def Let_def)

lemma exception_installed: "v < 32 \<Longrightarrow> idt_install vector_for mouse v = exception_handlers v"
  using vectors_free [of IrqTimer] vectors_free [of IrqKeyboard] vectors_free [of IrqMouse]
  by (auto simp: idt_install_def Let_def)

end

text \<open>The lines of the two controllers, and the bytes that end an interrupt: the slave is acknowledged first.\<close>

fun irq_line :: "Irq \<Rightarrow> nat" where
  "irq_line IrqTimer = 0"
| "irq_line IrqKeyboard = 1"
| "irq_line IrqMouse = 12"

fun irq_handler :: "Irq \<Rightarrow> Handler" where
  "irq_handler IrqTimer = TimerHandler"
| "irq_handler IrqKeyboard = KeyboardHandler"
| "irq_handler IrqMouse = MouseHandler"

definition ends_interrupt :: "Irq \<Rightarrow> (u16 \<times> u8) list" where
  "ends_interrupt i = (if irq_line i < 8 then [(MASTER_COMMAND, EOI)] else [(SLAVE_COMMAND, EOI), (MASTER_COMMAND, EOI)])"

interpretation legacy_pic: interrupt_controller pic_vector_for pic_acknowledge ends_interrupt
proof (unfold_locales, goal_cases)
  case (1 i j)
  then show ?case by (cases i; cases j) (simp_all add: MASTER_OFFSET_def SLAVE_OFFSET_def)
next
  case (2 i)
  show ?case by (cases i) (simp_all add: MASTER_OFFSET_def SLAVE_OFFSET_def)
next
  case (3 io i b)
  show ?case by (cases i) (simp_all add: acknowledge_master_def acknowledge_slave_def outb_log ends_interrupt_def writes_def)
qed

section \<open>Reading the bytes written to the controllers\<close>

text \<open>
  An 8259 as its manual describes it: a command byte with bit 4 set starts the initialisation, which opens all
  lines and waits for the vector base, the wiring and the mode on the data port; any other byte on the data
  port is the mask of closed lines.
\<close>

record Chip =
  chip_awaits :: nat
  chip_base :: u8
  chip_mask :: u8

definition chip_command :: "u8 \<Rightarrow> Chip \<Rightarrow> Chip" where
  "chip_command v c = (if bit v 4 then c\<lparr>chip_awaits := 3, chip_mask := 0\<rparr> else c)"

definition chip_data :: "u8 \<Rightarrow> Chip \<Rightarrow> Chip" where
  "chip_data v c =
     (if chip_awaits c = 0 then c\<lparr>chip_mask := v\<rparr>
      else let c = (if chip_awaits c = 3 then c\<lparr>chip_base := v\<rparr> else c) in c\<lparr>chip_awaits := chip_awaits c - 1\<rparr>)"

fun chips_write :: "Chip \<times> Chip \<Rightarrow> u16 \<times> u8 \<Rightarrow> Chip \<times> Chip" where
  "chips_write (m, s) (p, v) =
     (if p = MASTER_COMMAND then (chip_command v m, s) else if p = MASTER_DATA then (chip_data v m, s)
      else if p = SLAVE_COMMAND then (m, chip_command v s) else if p = SLAVE_DATA then (m, chip_data v s)
      else (m, s))"

definition chips_after :: "Chip \<times> Chip \<Rightarrow> PortEvent list \<Rightarrow> Chip \<times> Chip" where
  "chips_after c es = foldl chips_write c (outs es)"

text \<open>A line is open when its chip does not mask it and, for the lines of the slave, the master does not mask the
  line 2 behind which the slave sits; its interrupts come at this vector.\<close>

fun line_open :: "Chip \<times> Chip \<Rightarrow> nat \<Rightarrow> bool" where
  "line_open (m, s) n \<longleftrightarrow>
     (if n < 8 then \<not> bit (chip_mask m) n \<and> n \<noteq> 2 else n < 16 \<and> \<not> bit (chip_mask s) (n - 8) \<and> \<not> bit (chip_mask m) 2)"

fun line_vector :: "Chip \<times> Chip \<Rightarrow> nat \<Rightarrow> u8" where
  "line_vector (m, s) n = (if n < 8 then chip_base m + of_nat n else chip_base s + of_nat (n - 8))"

lemma chips_after_append: "chips_after c (xs @ ys) = chips_after (chips_after c xs) ys"
  by (simp add: chips_after_def)

lemma chips_after_other:
  "(\<forall>(p, v) \<in> set (outs es). p \<notin> {MASTER_COMMAND, MASTER_DATA, SLAVE_COMMAND, SLAVE_DATA}) \<Longrightarrow> chips_after c es = c"
proof -
  have "foldl chips_write c xs = c"
    if "\<forall>(p, v) \<in> set xs. p \<notin> {MASTER_COMMAND, MASTER_DATA, SLAVE_COMMAND, SLAVE_DATA}" for xs
    using that by (induction xs arbitrary: c) (auto split: prod.splits)
  then show "(\<forall>(p, v) \<in> set (outs es). p \<notin> {MASTER_COMMAND, MASTER_DATA, SLAVE_COMMAND, SLAVE_DATA}) \<Longrightarrow> ?thesis"
    by (simp add: chips_after_def)
qed

lemma lines_open: "{n. line_open c n} = set (filter (line_open c) [0..<16])"
  by (cases c) (auto split: if_splits)

section \<open>What the start-up sequence writes\<close>

text \<open>An operation on the ports that writes only to the ports \<open>P\<close>.\<close>

definition keeps_to :: "u16 set \<Rightarrow> ('w Bus \<Rightarrow> 'w Bus) \<Rightarrow> bool" where
  "keeps_to P f \<longleftrightarrow> (\<forall>b. \<exists>es. bus_log (f b) = bus_log b @ es \<and> fst ` set (outs es) \<subseteq> P)"

lemma keeps_to_comp:
  assumes "keeps_to P f" and "keeps_to P g"
  shows "keeps_to P (\<lambda>b. g (f b))"
  unfolding keeps_to_def
proof
  fix b
  obtain es where es: "bus_log (f b) = bus_log b @ es" "fst ` set (outs es) \<subseteq> P"
    using assms(1) unfolding keeps_to_def by blast
  obtain fs where fs: "bus_log (g (f b)) = bus_log (f b) @ fs" "fst ` set (outs fs) \<subseteq> P"
    using assms(2) unfolding keeps_to_def by blast
  show "\<exists>es. bus_log (g (f b)) = bus_log b @ es \<and> fst ` set (outs es) \<subseteq> P"
    using es fs by (intro exI [of _ "es @ fs"]) (simp add: image_Un)
qed

lemma keeps_to_id: "keeps_to P (\<lambda>b. b)"
  by (auto simp: keeps_to_def)

lemma keeps_to_inb: "keeps_to P (\<lambda>b. snd (inb io p b))"
  by (auto simp: keeps_to_def inb_def split: prod.splits)

lemma keeps_to_outb: "p \<in> P \<Longrightarrow> keeps_to P (outb io v p)"
  by (auto simp: keeps_to_def outb_def)

lemma keeps_to_if: "keeps_to P f \<Longrightarrow> keeps_to P g \<Longrightarrow> keeps_to P (\<lambda>b. if c b then f b else g b)"
  by (auto simp: keeps_to_def)

lemma keeps_to_then:
  assumes m: "keeps_to P (\<lambda>b. snd (m b))" and f: "\<And>x. keeps_to P (\<lambda>b. snd (f x b))"
  shows "keeps_to P (\<lambda>b. snd (ps2_then m f b))"
  unfolding keeps_to_def
proof
  fix b
  obtain r b1 where r: "m b = (r, b1)" by fastforce
  obtain es where es: "bus_log b1 = bus_log b @ es" "fst ` set (outs es) \<subseteq> P"
    using m r unfolding keeps_to_def by (metis snd_conv)
  show "\<exists>es. bus_log (snd (ps2_then m f b)) = bus_log b @ es \<and> fst ` set (outs es) \<subseteq> P"
  proof (cases r)
    case (Inl e)
    then show ?thesis using es r by (auto simp: ps2_then_def)
  next
    case (Inr x)
    obtain fs where "bus_log (snd (f x b1)) = bus_log b1 @ fs" "fst ` set (outs fs) \<subseteq> P"
      using f unfolding keeps_to_def by metis
    then show ?thesis using es r Inr by (intro exI [of _ "es @ fs"]) (simp add: ps2_then_def image_Un)
  qed
qed

lemma keeps_to_wait: "keeps_to P (\<lambda>b. snd (wait_status io ready n b))"
proof -
  have "\<exists>es. bus_log (snd (wait_status io ready n b)) = bus_log b @ es \<and> outs es = []" for b
  proof (induction n arbitrary: b)
    case (Suc n)
    obtain v b1 where v: "inb io PS2_STATUS b = (v, b1)" by fastforce
    then have log: "bus_log b1 = bus_log b @ [In PS2_STATUS v]" by (auto simp: inb_def split: prod.splits)
    obtain es where "bus_log (snd (wait_status io ready n b1)) = bus_log b1 @ es" "outs es = []" using Suc by blast
    then show ?case using v log by (auto intro: exI [of _ "In PS2_STATUS v # es"])
  qed simp
  then show ?thesis unfolding keeps_to_def by (metis empty_subsetI image_empty list.set(1))
qed

definition ps2_ports :: "u16 set" where "ps2_ports = {PS2_DATA, PS2_COMMAND}"

lemma handshake_keeps: "keeps_to ps2_ports (\<lambda>b. snd (initialize_controller io b))"
proof -
  have w: "keeps_to ps2_ports (\<lambda>b. snd (ps2_write_command io v b))" "keeps_to ps2_ports (\<lambda>b. snd (ps2_write_data io v b))" for v
    unfolding ps2_write_command_def ps2_write_data_def wait_write_ready_def
    by (auto intro!: keeps_to_then keeps_to_wait keeps_to_outb simp: ps2_ports_def)
  have r: "keeps_to ps2_ports (\<lambda>b. snd (ps2_read_data io b))"
    unfolding ps2_read_data_def wait_read_ready_def
    by (auto intro!: keeps_to_then keeps_to_wait keeps_to_inb simp: case_prod_unfold Let_def)
  show ?thesis unfolding initialize_controller_def
    by (intro keeps_to_then w r) (simp add: keeps_to_id)
qed

lemma drain_keeps: "keeps_to P (drain_ps2_output io)"
proof -
  have "keeps_to P (drain_loop io n)" for n
  proof (induction n)
    case (Suc n)
    then have "keeps_to P (\<lambda>b. drain_loop io n (snd (inb io PS2_DATA b)))" by (rule keeps_to_comp [OF keeps_to_inb])
    then have "keeps_to P (\<lambda>b. if fst (inb io PS2_STATUS b) AND 1 = 0 then snd (inb io PS2_STATUS b)
        else drain_loop io n (snd (inb io PS2_DATA (snd (inb io PS2_STATUS b)))))"
      by (intro keeps_to_if keeps_to_inb) (rule keeps_to_comp [OF keeps_to_inb])
    then show ?case by (simp add: case_prod_unfold Let_def)
  qed (simp add: keeps_to_id)
  then show ?thesis by (simp add: drain_ps2_output_def [abs_def])
qed

definition pic_bytes :: "(u16 \<times> u8) list" where
  "pic_bytes = [(MASTER_COMMAND, 0x11), (SLAVE_COMMAND, 0x11), (MASTER_DATA, 32), (SLAVE_DATA, 40),
     (MASTER_DATA, 4), (SLAVE_DATA, 2), (MASTER_DATA, 1), (SLAVE_DATA, 1), (MASTER_DATA, 0xff), (SLAVE_DATA, 0xff)]"

definition pit_bytes :: "(u16 \<times> u8) list" where
  "pit_bytes = [(PIT_COMMAND_PORT, 0x36), (CHANNEL_0_PORT, 0xa9), (CHANNEL_0_PORT, 0x04)]"

lemma writes_append: "writes (xs @ ys) = writes xs @ writes ys"
  by (simp add: writes_def)

lemma pic_initialize_log: "bus_log (pic_initialize io b) = bus_log b @ writes pic_bytes"
  by (simp add: pic_initialize_def Let_def outb_log pic_bytes_def MASTER_OFFSET_def SLAVE_OFFSET_def writes_def)

lemma pit_initialize_log: "bus_log (pit_initialize io b) = bus_log b @ writes pit_bytes"
proof -
  have d: "pit_divisor = 1193" by (simp add: pit_divisor_def PIT_FREQUENCY_def TIMER_FREQUENCY_def)
  have "(ucast (pit_divisor AND 0xff) :: u8) = 0xa9" "(ucast (drop_bit 8 pit_divisor) :: u8) = 0x04"
    unfolding d by simp_all
  then show ?thesis by (simp add: pit_initialize_def Let_def outb_log pit_bytes_def CHANNEL_0_MODE_3_def writes_def)
qed

lemma chips_initialized:
  "chips_after c (writes pic_bytes) = (\<lparr>chip_awaits = 0, chip_base = 32, chip_mask = 0xff\<rparr>, \<lparr>chip_awaits = 0, chip_base = 40, chip_mask = 0xff\<rparr>)"
proof -
  obtain m s where c: "c = (m, s)" by fastforce
  have "bit (0x11 :: u8) 4" by simp
  then show ?thesis
    by (simp add: chips_after_def c pic_bytes_def pic_ports chip_command_def chip_data_def Let_def)
qed

lemma setup_hardware_fields:
  "mc_flag (setup_hardware mouse io s) = mc_flag s" "mc_idt (setup_hardware mouse io s) = mc_idt s"
  "mc_tss (setup_hardware mouse io s) = mc_tss s" "mc_hardware (setup_hardware mouse io s)"
  "mc_ticks (setup_hardware mouse io s) = mc_ticks s" "mc_keyboard (setup_hardware mouse io s) = mc_keyboard s"
  "mc_mouse (setup_hardware mouse io s) = mc_mouse s"
  by (simp_all add: setup_hardware_def Let_def on_bus_def)

lemma setup_hardware_log:
  "\<exists>es. bus_log (mc_bus (setup_hardware mouse io s)) =
     bus_log (mc_bus s) @ (if mc_hardware s then [] else writes (pic_bytes @ pit_bytes)) @ es \<and> fst ` set (outs es) \<subseteq> ps2_ports"
proof (cases "mc_hardware s")
  case True
  then show ?thesis by (auto simp: setup_hardware_def)
next
  case False
  let ?b = "pit_initialize io (pic_initialize io (mc_bus s))"
  have log: "bus_log ?b = bus_log (mc_bus s) @ writes (pic_bytes @ pit_bytes)"
    by (simp add: pic_initialize_log pit_initialize_log writes_append)
  obtain es where "bus_log (snd (initialize_controller io ?b)) = bus_log ?b @ es" "fst ` set (outs es) \<subseteq> ps2_ports"
    using handshake_keeps [of io] unfolding keeps_to_def by blast
  then show ?thesis using False log
    by (cases mouse) (auto simp: setup_hardware_def Let_def on_bus_def intro: exI [of _ es] exI [of _ "[]"])
qed

lemma setup_queues_fields:
  assumes "setup_queues mouse rk rm s = Some s'"
  shows "mc_flag s' = mc_flag s" "mc_idt s' = mc_idt s" "mc_tss s' = mc_tss s" "mc_hardware s' = mc_hardware s"
    "mc_ticks s' = mc_ticks s" "mc_bus s' = mc_bus s" "init_keyboard rk (mc_keyboard s) = Some (mc_keyboard s')"
    "if mouse then init_mouse rm (mc_mouse s) = Some (mc_mouse s') else mc_mouse s' = mc_mouse s"
  using assms by (auto simp: setup_queues_def Let_def split: option.splits if_splits)

lemma interrupts_init_result:
  assumes "interrupts_init mouse io stacks rk rm s = Some s'"
  shows "mc_flag s'" "mc_idt s' = Some (idt_install pic_vector_for mouse)" "mc_tss s' = Some (tss_install stacks)"
    "mc_hardware s'" "mc_ticks s' = mc_ticks s" "init_keyboard rk (mc_keyboard s) = Some (mc_keyboard s')"
    "if mouse then init_mouse rm (mc_mouse s) = Some (mc_mouse s') else mc_mouse s' = mc_mouse s"
    "\<exists>es. bus_log (mc_bus s') = bus_log (mc_bus s) @ (if mc_hardware s then [] else writes (pic_bytes @ pit_bytes)) @ es \<and>
      fst ` set (outs es) \<subseteq> ps2_ports"
proof -
  define s0 where "s0 = s\<lparr>mc_flag := False, mc_tss := Some (tss_install stacks), mc_idt := Some (idt_install pic_vector_for mouse)\<rparr>"
  define s1 where "s1 = setup_hardware mouse io s0"
  obtain s2 where s2: "setup_queues mouse rk rm s1 = Some s2"
    and s': "s' = on_bus (drain_ps2_output io) s2\<lparr>mc_flag := True\<rparr>"
    using assms by (auto simp: interrupts_init_def without_interrupts_def Let_def s0_def s1_def on_bus_def split: if_splits)
  have m1: "mc_mouse s1 = mc_mouse s" by (simp add: s1_def setup_hardware_fields s0_def)
  note q = setup_queues_fields [OF s2, unfolded m1]
  show "mc_flag s'" "mc_idt s' = Some (idt_install pic_vector_for mouse)" "mc_tss s' = Some (tss_install stacks)"
    "mc_hardware s'" "mc_ticks s' = mc_ticks s" "init_keyboard rk (mc_keyboard s) = Some (mc_keyboard s')"
    "if mouse then init_mouse rm (mc_mouse s) = Some (mc_mouse s') else mc_mouse s' = mc_mouse s"
    using q by (simp_all add: s' on_bus_def s1_def setup_hardware_fields s0_def)
  obtain es where es: "bus_log (mc_bus s1) = bus_log (mc_bus s) @ (if mc_hardware s then [] else writes (pic_bytes @ pit_bytes)) @ es"
    "fst ` set (outs es) \<subseteq> ps2_ports"
    using setup_hardware_log [of mouse io s0] by (auto simp: s1_def s0_def)
  obtain fs where "bus_log (drain_ps2_output io (mc_bus s2)) = bus_log (mc_bus s2) @ fs" "fst ` set (outs fs) \<subseteq> ps2_ports"
    using drain_keeps [of ps2_ports io] unfolding keeps_to_def by blast
  then show "\<exists>es. bus_log (mc_bus s') = bus_log (mc_bus s) @ (if mc_hardware s then [] else writes (pic_bytes @ pit_bytes)) @ es \<and>
      fst ` set (outs es) \<subseteq> ps2_ports"
    using es q(6) by (intro exI [of _ "es @ fs"]) (simp add: s' on_bus_def image_Un)
qed

text \<open>The accesses to the ports since an earlier state.\<close>

definition events_since :: "('w, 'q, 'm) Machine \<Rightarrow> ('w, 'q, 'm) Machine \<Rightarrow> PortEvent list" where
  "events_since s s' = drop (length (bus_log (mc_bus s))) (bus_log (mc_bus s'))"

lemma events_since_eq: "bus_log (mc_bus s') = bus_log (mc_bus s) @ es \<Longrightarrow> events_since s s' = es"
  by (simp add: events_since_def)



section \<open>Interrupt stacks\<close>

text \<open>The descriptor table has a handler for every exception of the architecture and for the device interrupts and for
  nothing else. The three exceptions that may find the kernel stack damaged switch to stacks of 32 KiB of their own, which
  lie inside the static array and are pairwise disjoint.\<close>

theorem exception_stacks_disjoint:
  assumes "unat stacks + 3 * 32768 < 2 ^ 64"
  shows "dom (idt_install pic_vector_for mouse) =
      {0, 1, 2, 3, 4, 5, 6, 7, 8, 10, 11, 12, 13, 14, 16, 17, 18, 19, 20, 21, 28, 29, 30, 32, 33} \<union> (if mouse then {44} else {}) \<and>
    {v. \<exists>h i. idt_install pic_vector_for mouse v = Some (h, Some i)} = {2, 8, 18} \<and>
    (\<forall>v h i. idt_install pic_vector_for mouse v = Some (h, Some i) \<longrightarrow>
       unat stacks + 32768 \<le> unat (tss_install stacks i) \<and> unat (tss_install stacks i) \<le> unat stacks + 3 * 32768) \<and>
    (\<forall>v w h g i j. idt_install pic_vector_for mouse v = Some (h, Some i) \<longrightarrow>
       idt_install pic_vector_for mouse w = Some (g, Some j) \<longrightarrow> v \<noteq> w \<longrightarrow>
       unat (tss_install stacks i) + 32768 \<le> unat (tss_install stacks j) \<or>
       unat (tss_install stacks j) + 32768 \<le> unat (tss_install stacks i))"
proof -
  have vectors: "pic_vector_for IrqTimer = 32" "pic_vector_for IrqKeyboard = 33" "pic_vector_for IrqMouse = 44"
    by (simp_all add: MASTER_OFFSET_def SLAVE_OFFSET_def)
  have top: "unat (stack_top stacks k) = unat stacks + (unat k + 1) * 32768" if "k < 3" for k
  proof -
    have k: "unat k < 3" using that by (simp add: word_less_nat_alt)
    then have "unat (k * IST_STACK_SIZE) = unat k * 32768"
      by (subst unat_mult_exact) (simp_all add: IST_STACK_SIZE_def)
    then have "unat (stacks + k * IST_STACK_SIZE) = unat stacks + unat k * 32768"
      using assms k by (subst unat_add_exact) simp_all
    then show ?thesis using assms k by (simp add: stack_top_def unat_add_exact IST_STACK_SIZE_def)
  qed
  have ist: "(v = 2 \<and> i = 0) \<or> (v = 8 \<and> i = 1) \<or> (v = 18 \<and> i = 2)"
    if "idt_install pic_vector_for mouse v = Some (h, Some i)" for v h i
    using that by (auto simp: idt_install_def exception_handlers_def vectors ist_defs Let_def split: if_splits)
  have tss: "unat (tss_install stacks 0) = unat stacks + 32768" "unat (tss_install stacks 1) = unat stacks + 2 * 32768"
    "unat (tss_install stacks 2) = unat stacks + 3 * 32768"
    by (simp_all add: tss_install_def ist_defs top)
  have "dom (idt_install pic_vector_for mouse) =
      {0, 1, 2, 3, 4, 5, 6, 7, 8, 10, 11, 12, 13, 14, 16, 17, 18, 19, 20, 21, 28, 29, 30, 32, 33} \<union> (if mouse then {44} else {})"
    unfolding idt_install_def exception_handlers_def Let_def vectors by auto
  moreover have "idt_install pic_vector_for mouse 2 = Some (Fatal ''non-maskable interrupt'', Some 0)"
    "idt_install pic_vector_for mouse 8 = Some (DoubleFault, Some 1)"
    "idt_install pic_vector_for mouse 18 = Some (MachineCheck, Some 2)"
    by (simp_all add: legacy_pic.exception_installed exception_handlers_def ist_defs)
  with ist have "{v. \<exists>h i. idt_install pic_vector_for mouse v = Some (h, Some i)} = {2, 8, 18}" by fast
  moreover have "unat stacks + 32768 \<le> unat (tss_install stacks i) \<and> unat (tss_install stacks i) \<le> unat stacks + 3 * 32768"
    if "idt_install pic_vector_for mouse v = Some (h, Some i)" for v h i
    using ist [OF that] tss by auto
  moreover have "unat (tss_install stacks i) + 32768 \<le> unat (tss_install stacks j) \<or>
       unat (tss_install stacks j) + 32768 \<le> unat (tss_install stacks i)"
    if "idt_install pic_vector_for mouse v = Some (h, Some i)" "idt_install pic_vector_for mouse w = Some (g, Some j)" "v \<noteq> w"
    for v w h g i j
    using ist [OF that(1)] ist [OF that(2)] that(3) tss by auto
  ultimately show ?thesis by blast
qed

lemma exception_stacks_disjoint_witness:
  "unat (tss_install 65536 NMI_IST_INDEX) + 32768 \<le> unat (tss_install 65536 DOUBLE_FAULT_IST_INDEX) \<or>
   unat (tss_install 65536 DOUBLE_FAULT_IST_INDEX) + 32768 \<le> unat (tss_install 65536 NMI_IST_INDEX)"
proof -
  have "idt_install pic_vector_for True 2 = Some (Fatal ''non-maskable interrupt'', Some NMI_IST_INDEX)"
    "idt_install pic_vector_for True 8 = Some (DoubleFault, Some DOUBLE_FAULT_IST_INDEX)"
    by (simp_all add: legacy_pic.exception_installed exception_handlers_def)
  moreover have "unat (65536 :: u64) + 3 * 32768 < 2 ^ 64" "(2 :: u8) \<noteq> 8" by simp_all
  ultimately show ?thesis using exception_stacks_disjoint [of 65536 True] by blast
qed

section \<open>Interrupts and the shell together\<close>

text \<open>A schedule of interrupts and of reads by the shell. A run yields the scancodes and the mouse bytes that the shell got
  and the bytes that the handlers read from the data port.\<close>

datatype MachineEvent = Raise Irq | TakeKey | TakeByte

fun handle_irq :: "'w Ports \<Rightarrow> ('q, KeyboardScancode) Ring \<Rightarrow> ('m, MouseByte) Ring \<Rightarrow> Irq \<Rightarrow>
   ('w, 'q, 'm) Machine \<Rightarrow> ('w, 'q, 'm) Machine" where
  "handle_irq io rk rm IrqTimer s = timer_handler io s"
| "handle_irq io rk rm IrqKeyboard s = keyboard_handler io rk s"
| "handle_irq io rk rm IrqMouse s = mouse_handler io rm s"

record MachineTrace =
  tr_keys :: "KeyboardScancode list"
  tr_bytes :: "MouseByte list"
  tr_reads :: "(Irq \<times> u8) list"

fun machine_run :: "'w Ports \<Rightarrow> ('q, KeyboardScancode) Ring \<Rightarrow> ('m, MouseByte) Ring \<Rightarrow> MachineEvent list \<Rightarrow>
   ('w, 'q, 'm) Machine \<Rightarrow> MachineTrace \<times> ('w, 'q, 'm) Machine" where
  "machine_run io rk rm [] s = (\<lparr>tr_keys = [], tr_bytes = [], tr_reads = []\<rparr>, s)"
| "machine_run io rk rm (Raise irq # es) s =
     (let (t, s') = machine_run io rk rm es (handle_irq io rk rm irq s)
      in (if irq = IrqTimer then t else t\<lparr>tr_reads := (irq, fst (inb io PS2_DATA (mc_bus s))) # tr_reads t\<rparr>, s'))"
| "machine_run io rk rm (TakeKey # es) s =
     (let (r, k) = pop_keyboard_scancode rk (mc_keyboard s); (t, s') = machine_run io rk rm es (s\<lparr>mc_keyboard := k\<rparr>)
      in (case r of None \<Rightarrow> t | Some c \<Rightarrow> t\<lparr>tr_keys := c # tr_keys t\<rparr>, s'))"
| "machine_run io rk rm (TakeByte # es) s =
     (let (r, m) = pop_mouse_byte rm (mc_mouse s); (t, s') = machine_run io rk rm es (s\<lparr>mc_mouse := m\<rparr>)
      in (case r of None \<Rightarrow> t | Some c \<Rightarrow> t\<lparr>tr_bytes := c # tr_bytes t\<rparr>, s'))"

definition raised :: "MachineEvent list \<Rightarrow> Irq list" where
  "raised es = concat (map (\<lambda>e. case e of Raise irq \<Rightarrow> [irq] | _ \<Rightarrow> []) es)"

lemma raised_simps [simp]:
  "raised [] = []" "raised (Raise irq # es) = irq # raised es" "raised (TakeKey # es) = raised es" "raised (TakeByte # es) = raised es"
  by (simp_all add: raised_def)

definition reads_of :: "Irq \<Rightarrow> (Irq \<times> u8) list \<Rightarrow> u8 list" where
  "reads_of irq rs = map snd (filter (\<lambda>r. fst r = irq) rs)"

text \<open>Acknowledgements and resend requests of the device are no scancodes.\<close>

definition no_protocol :: "u8 \<Rightarrow> bool" where
  "no_protocol c \<longleftrightarrow> c \<noteq> 0xfa \<and> c \<noteq> 0xfe"

lemma handler_effects:
  "mc_ticks (timer_handler io s) = mc_ticks s + 1" "mc_keyboard (timer_handler io s) = mc_keyboard s" "mc_mouse (timer_handler io s) = mc_mouse s"
  "mc_ticks (keyboard_handler io rk s) = mc_ticks s" "mc_mouse (keyboard_handler io rk s) = mc_mouse s"
  "mc_keyboard (keyboard_handler io rk s) = (let c = fst (inb io PS2_DATA (mc_bus s)) in
     if no_protocol c then push_keyboard_scancode rk (mc_keyboard s) (KeyboardScancode c) else mc_keyboard s)"
  "mc_ticks (mouse_handler io rm s) = mc_ticks s" "mc_keyboard (mouse_handler io rm s) = mc_keyboard s"
  "mc_mouse (mouse_handler io rm s) = push_mouse_byte rm (mc_mouse s) (MouseByte (fst (inb io PS2_DATA (mc_bus s))))"
  by (auto simp: timer_handler_def keyboard_handler_def mouse_handler_def on_bus_def no_protocol_def Let_def split: prod.splits)

lemma handler_log:
  "\<exists>es. bus_log (mc_bus (handle_irq io rk rm irq s)) = bus_log (mc_bus s) @ es \<and> outs es = ends_interrupt irq"
proof -
  have log: "bus_log (snd (inb io p b)) = bus_log b @ [In p (fst (inb io p b))]" for p b
    by (auto simp: inb_def split: prod.splits)
  have "\<exists>es. bus_log (mc_bus (handle_irq io rk rm irq s)) = bus_log (mc_bus s) @ es @ writes (ends_interrupt irq) \<and> outs es = []"
  proof (cases irq)
    case IrqTimer
    then show ?thesis
      using legacy_pic.acknowledged [of io IrqTimer "mc_bus s"]
      by (auto simp: timer_handler_def on_bus_def intro: exI [of _ "[]"])
  next
    case IrqKeyboard
    let ?b = "snd (inb io PS2_DATA (mc_bus s))"
    have "bus_log (mc_bus (keyboard_handler io rk s)) = bus_log ?b @ writes (ends_interrupt IrqKeyboard)"
      using legacy_pic.acknowledged [of io IrqKeyboard ?b]
      by (simp add: keyboard_handler_def on_bus_def case_prod_unfold Let_def)
    then show ?thesis using log IrqKeyboard by (auto intro!: exI [of _ "[In PS2_DATA (fst (inb io PS2_DATA (mc_bus s)))]"])
  next
    case IrqMouse
    let ?b = "snd (inb io PS2_DATA (mc_bus s))"
    have "bus_log (mc_bus (mouse_handler io rm s)) = bus_log ?b @ writes (ends_interrupt IrqMouse)"
      using legacy_pic.acknowledged [of io IrqMouse ?b]
      by (simp add: mouse_handler_def on_bus_def case_prod_unfold Let_def)
    then show ?thesis using log IrqMouse by (auto intro!: exI [of _ "[In PS2_DATA (fst (inb io PS2_DATA (mc_bus s)))]"])
  qed
  then show ?thesis by (metis append_Nil outs_simps(4) outs_writes)
qed

text \<open>A run as seen by each part of the state: the two queues see a schedule of arrivals and reads.\<close>

definition run_parts ::
  "'w Ports \<Rightarrow> ('q, KeyboardScancode) Ring \<Rightarrow> ('m, MouseByte) Ring \<Rightarrow> MachineEvent list \<Rightarrow> ('w, 'q, 'm) Machine \<Rightarrow>
   MachineTrace \<Rightarrow> ('w, 'q, 'm) Machine \<Rightarrow> bool" where
  "run_parts io rk rm es s t s' \<longleftrightarrow> map fst (tr_reads t) = filter (\<lambda>irq. irq \<noteq> IrqTimer) (raised es) \<and>
    mc_ticks s' = mc_ticks s + of_nat (length (filter (\<lambda>irq. irq = IrqTimer) (raised es))) \<and>
    (\<exists>ks. channel_run (push_keyboard_scancode rk) (pop_keyboard_scancode rk) ks (mc_keyboard s) = (tr_keys t, mc_keyboard s') \<and>
      arrivals ks = map KeyboardScancode (filter no_protocol (reads_of IrqKeyboard (tr_reads t)))) \<and>
    (\<exists>ms. channel_run (push_mouse_byte rm) (pop_mouse_byte rm) ms (mc_mouse s) = (tr_bytes t, mc_mouse s') \<and>
      arrivals ms = map MouseByte (reads_of IrqMouse (tr_reads t))) \<and>
    (\<exists>ps. bus_log (mc_bus s') = bus_log (mc_bus s) @ ps \<and> outs ps = concat (map ends_interrupt (raised es)))"

lemma run_parts_raise:
  assumes run: "run_parts io rk rm es (handle_irq io rk rm irq s) t1 s'"
    and t: "t = (if irq = IrqTimer then t1 else t1\<lparr>tr_reads := (irq, fst (inb io PS2_DATA (mc_bus s))) # tr_reads t1\<rparr>)"
  shows "run_parts io rk rm (Raise irq # es) s t s'"
proof -
  let ?s = "handle_irq io rk rm irq s" and ?c = "fst (inb io PS2_DATA (mc_bus s))"
  note IH = run [unfolded run_parts_def]
  then obtain ks ms ps where
    ks: "channel_run (push_keyboard_scancode rk) (pop_keyboard_scancode rk) ks (mc_keyboard ?s) = (tr_keys t1, mc_keyboard s')"
      "arrivals ks = map KeyboardScancode (filter no_protocol (reads_of IrqKeyboard (tr_reads t1)))" and
    ms: "channel_run (push_mouse_byte rm) (pop_mouse_byte rm) ms (mc_mouse ?s) = (tr_bytes t1, mc_mouse s')"
      "arrivals ms = map MouseByte (reads_of IrqMouse (tr_reads t1))" and
    ps: "bus_log (mc_bus s') = bus_log (mc_bus ?s) @ ps" "outs ps = concat (map ends_interrupt (raised es))" by blast
  obtain qs where qs: "bus_log (mc_bus ?s) = bus_log (mc_bus s) @ qs" "outs qs = ends_interrupt irq" using handler_log by blast
  let ?ks = "if irq = IrqKeyboard \<and> no_protocol ?c then Arrive (KeyboardScancode ?c) # ks else ks"
  let ?ms = "if irq = IrqMouse then Arrive (MouseByte ?c) # ms else ms"
  have k: "mc_keyboard ?s = (if irq = IrqKeyboard \<and> no_protocol ?c
      then push_keyboard_scancode rk (mc_keyboard s) (KeyboardScancode ?c) else mc_keyboard s)"
    and m: "mc_mouse ?s = (if irq = IrqMouse then push_mouse_byte rm (mc_mouse s) (MouseByte ?c) else mc_mouse s)"
    and ticks: "mc_ticks ?s = (if irq = IrqTimer then mc_ticks s + 1 else mc_ticks s)"
    by (cases irq; simp add: handler_effects Let_def)+
  have same: "tr_keys t = tr_keys t1" "tr_bytes t = tr_bytes t1" by (simp_all add: t)
  have reads: "reads_of IrqKeyboard (tr_reads t) = (if irq = IrqKeyboard then ?c # reads_of IrqKeyboard (tr_reads t1) else reads_of IrqKeyboard (tr_reads t1))"
    "reads_of IrqMouse (tr_reads t) = (if irq = IrqMouse then ?c # reads_of IrqMouse (tr_reads t1) else reads_of IrqMouse (tr_reads t1))"
    by (simp_all add: t reads_of_def)
  have "channel_run (push_keyboard_scancode rk) (pop_keyboard_scancode rk) ?ks (mc_keyboard s) = (tr_keys t, mc_keyboard s')"
    "arrivals ?ks = map KeyboardScancode (filter no_protocol (reads_of IrqKeyboard (tr_reads t)))"
    using ks unfolding k same reads by (cases "irq = IrqKeyboard \<and> no_protocol ?c"; auto)+
  moreover have "channel_run (push_mouse_byte rm) (pop_mouse_byte rm) ?ms (mc_mouse s) = (tr_bytes t, mc_mouse s')"
    "arrivals ?ms = map MouseByte (reads_of IrqMouse (tr_reads t))"
    using ms unfolding m same reads by (simp_all split: if_splits)
  moreover have "bus_log (mc_bus s') = bus_log (mc_bus s) @ qs @ ps" "outs (qs @ ps) = concat (map ends_interrupt (raised (Raise irq # es)))"
    using ps qs by simp_all
  moreover have "mc_ticks s' = mc_ticks s + of_nat (length (filter (\<lambda>irq. irq = IrqTimer) (raised (Raise irq # es))))"
    "map fst (tr_reads t) = filter (\<lambda>irq. irq \<noteq> IrqTimer) (raised (Raise irq # es))"
    using IH [THEN conjunct1] IH [THEN conjunct2, THEN conjunct1] by (simp_all add: ticks t)
  ultimately show ?thesis unfolding run_parts_def by blast
qed

lemma run_parts_key:
  assumes run: "run_parts io rk rm es (s\<lparr>mc_keyboard := k\<rparr>) t1 s'" and p: "pop_keyboard_scancode rk (mc_keyboard s) = (r, k)"
    and t: "t = (case r of None \<Rightarrow> t1 | Some c \<Rightarrow> t1\<lparr>tr_keys := c # tr_keys t1\<rparr>)"
  shows "run_parts io rk rm (TakeKey # es) s t s'"
proof -
  note IH = run [unfolded run_parts_def, THEN conjunct2]
  from IH [THEN conjunct2, THEN conjunct1] obtain ks where
    "channel_run (push_keyboard_scancode rk) (pop_keyboard_scancode rk) ks k = (tr_keys t1, mc_keyboard s')"
      "arrivals ks = map KeyboardScancode (filter no_protocol (reads_of IrqKeyboard (tr_reads t1)))" by auto
  then have "channel_run (push_keyboard_scancode rk) (pop_keyboard_scancode rk) (Take # ks) (mc_keyboard s) = (tr_keys t, mc_keyboard s')"
    "arrivals (Take # ks) = map KeyboardScancode (filter no_protocol (reads_of IrqKeyboard (tr_reads t)))"
    using p by (auto simp: t split: option.splits)
  moreover have same: "tr_reads t = tr_reads t1" "tr_bytes t = tr_bytes t1" "raised (TakeKey # es) = raised es"
    by (auto simp: t split: option.splits)
  moreover note run [unfolded run_parts_def, unfolded same [symmetric], simplified]
  ultimately show ?thesis unfolding run_parts_def same by blast
qed

lemma run_parts_byte:
  assumes run: "run_parts io rk rm es (s\<lparr>mc_mouse := m\<rparr>) t1 s'" and p: "pop_mouse_byte rm (mc_mouse s) = (r, m)"
    and t: "t = (case r of None \<Rightarrow> t1 | Some c \<Rightarrow> t1\<lparr>tr_bytes := c # tr_bytes t1\<rparr>)"
  shows "run_parts io rk rm (TakeByte # es) s t s'"
proof -
  note IH = run [unfolded run_parts_def, THEN conjunct2]
  from IH [THEN conjunct2, THEN conjunct2, THEN conjunct1] obtain ms where
    "channel_run (push_mouse_byte rm) (pop_mouse_byte rm) ms m = (tr_bytes t1, mc_mouse s')"
      "arrivals ms = map MouseByte (reads_of IrqMouse (tr_reads t1))" by auto
  then have "channel_run (push_mouse_byte rm) (pop_mouse_byte rm) (Take # ms) (mc_mouse s) = (tr_bytes t, mc_mouse s')"
    "arrivals (Take # ms) = map MouseByte (reads_of IrqMouse (tr_reads t))"
    using p by (auto simp: t split: option.splits)
  moreover have same: "tr_reads t = tr_reads t1" "tr_keys t = tr_keys t1" "raised (TakeByte # es) = raised es"
    by (auto simp: t split: option.splits)
  moreover note run [unfolded run_parts_def, unfolded same [symmetric], simplified]
  ultimately show ?thesis unfolding run_parts_def same by blast
qed

lemma machine_run_parts: "machine_run io rk rm es s = (t, s') \<Longrightarrow> run_parts io rk rm es s t s'"
proof (induction es arbitrary: s t)
  case Nil
  then show ?case by (auto simp: run_parts_def reads_of_def intro: exI [of _ "[]"])
next
  case (Cons e es)
  show ?case
  proof (cases e)
    case (Raise irq)
    obtain t1 where "machine_run io rk rm es (handle_irq io rk rm irq s) = (t1, s')"
      "t = (if irq = IrqTimer then t1 else t1\<lparr>tr_reads := (irq, fst (inb io PS2_DATA (mc_bus s))) # tr_reads t1\<rparr>)"
      using Cons.prems Raise by (auto split: prod.splits)
    then show ?thesis using run_parts_raise [OF Cons.IH] Raise by simp
  next
    case TakeKey
    obtain r k where p: "pop_keyboard_scancode rk (mc_keyboard s) = (r, k)" by fastforce
    obtain t1 where "machine_run io rk rm es (s\<lparr>mc_keyboard := k\<rparr>) = (t1, s')"
      "t = (case r of None \<Rightarrow> t1 | Some c \<Rightarrow> t1\<lparr>tr_keys := c # tr_keys t1\<rparr>)"
      using Cons.prems TakeKey p by (auto split: prod.splits)
    then show ?thesis using run_parts_key [OF Cons.IH p] TakeKey by simp
  next
    case TakeByte
    obtain r m where p: "pop_mouse_byte rm (mc_mouse s) = (r, m)" by fastforce
    obtain t1 where "machine_run io rk rm es (s\<lparr>mc_mouse := m\<rparr>) = (t1, s')"
      "t = (case r of None \<Rightarrow> t1 | Some c \<Rightarrow> t1\<lparr>tr_bytes := c # tr_bytes t1\<rparr>)"
      using Cons.prems TakeByte p by (auto split: prod.splits)
    then show ?thesis using run_parts_byte [OF Cons.IH p] TakeByte by simp
  qed
qed

text \<open>C24: for every interleaving of interrupts and shell reads, every interrupt is acknowledged exactly once and in order,
  the mouse at the slave and then at the master, and nothing else is written to the ports; the tick counter counts the timer
  interrupts; the shell gets the bytes that the mouse handler read, and of the bytes that the keyboard handler read those that
  are no acknowledgement or resend request, in their order, while the queues hold the rest; bytes are lost only when 256 are
  waiting, and every loss is counted.\<close>

theorem interrupts_deliver_input:
  assumes "machine_run io rk rm es s = (t, s')"
    and "keyboard_inv (rk, mc_keyboard s)" and "mouse_inv (rm, mc_mouse s)"
  defines "codes \<equiv> map KeyboardScancode (filter no_protocol (reads_of IrqKeyboard (tr_reads t)))"
    and "bytes \<equiv> map MouseByte (reads_of IrqMouse (tr_reads t))"
  shows "map fst (tr_reads t) = filter (\<lambda>irq. irq \<noteq> IrqTimer) (raised es) \<and>
    mc_ticks s' = mc_ticks s + of_nat (length (filter (\<lambda>irq. irq = IrqTimer) (raised es))) \<and>
    (\<exists>ps. bus_log (mc_bus s') = bus_log (mc_bus s) @ ps \<and> outs ps = concat (map ends_interrupt (raised es))) \<and>
    (\<exists>acc. subseq acc codes \<and> keyboard_pending (rk, mc_keyboard s) @ acc = tr_keys t @ keyboard_pending (rk, mc_keyboard s') \<and>
       kb_dropped (mc_keyboard s') = kb_dropped (mc_keyboard s) + of_nat (length codes - length acc) \<and>
       (length (keyboard_pending (rk, mc_keyboard s)) + length codes \<le> RB_SIZE \<longrightarrow> acc = codes)) \<and>
    (\<exists>acc. subseq acc bytes \<and> mouse_pending (rm, mc_mouse s) @ acc = tr_bytes t @ mouse_pending (rm, mc_mouse s') \<and>
       ms_dropped (mc_mouse s') = ms_dropped (mc_mouse s) + of_nat (length bytes - length acc) \<and>
       (length (mouse_pending (rm, mc_mouse s)) + length bytes \<le> RB_SIZE \<longrightarrow> acc = bytes))"
proof -
  note parts = machine_run_parts [OF assms(1), unfolded run_parts_def]
  obtain ks where ks: "channel_run (push_keyboard_scancode rk) (pop_keyboard_scancode rk) ks (mc_keyboard s) = (tr_keys t, mc_keyboard s')"
    "arrivals ks = codes" using parts by (auto simp: codes_def)
  obtain ms where ms: "channel_run (push_mouse_byte rm) (pop_mouse_byte rm) ms (mc_mouse s) = (tr_bytes t, mc_mouse s')"
    "arrivals ms = bytes" using parts by (auto simp: bytes_def)
  have "channel_run (\<lambda>(rb, s) c. (rb, push_keyboard_scancode rb s c))
      (\<lambda>(rb, s). map_prod id (Pair rb) (pop_keyboard_scancode rb s)) ks (rk, mc_keyboard s) = (tr_keys t, (rk, mc_keyboard s'))"
    using ks(1) by (simp add: channel_run_param)
  note keyboard_channel.run_accounting [OF assms(2) this]
  moreover have "channel_run (\<lambda>(rb, s) c. (rb, push_mouse_byte rb s c))
      (\<lambda>(rb, s). map_prod id (Pair rb) (pop_mouse_byte rb s)) ms (rm, mc_mouse s) = (tr_bytes t, (rm, mc_mouse s'))"
    using ms(1) by (simp add: channel_run_param)
  note mouse_channel.run_accounting [OF assms(3) this]
  ultimately show ?thesis using parts ks(2) ms(2) by simp
qed

lemma interrupts_deliver_input_witness:
  "\<exists>t s'. machine_run eager_controller list_ring list_ring [Raise IrqTimer, Raise IrqKeyboard, Raise IrqMouse, TakeByte, TakeKey]
      \<lparr>mc_bus = \<lparr>bus_devices = (), bus_log = []\<rparr>, mc_flag = True, mc_idt = None, mc_tss = None, mc_hardware = True,
       mc_ticks = 0, mc_keyboard = \<lparr>kb_ring = Some [], kb_dropped = 0\<rparr>, mc_mouse = \<lparr>ms_ring = Some [], ms_dropped = 0\<rparr>\<rparr> = (t, s') \<and>
     tr_keys t = [] \<and> tr_bytes t = [MouseByte 0xfa] \<and> mc_ticks s' = 1 \<and>
     outs (bus_log (mc_bus s')) = [(0x20, 0x20), (0x20, 0x20), (0xa0, 0x20), (0x20, 0x20)]"
proof -
  define s where "s = \<lparr>mc_bus = \<lparr>bus_devices = (), bus_log = []\<rparr>, mc_flag = True, mc_idt = None, mc_tss = None, mc_hardware = True,
       mc_ticks = (0 :: u64), mc_keyboard = \<lparr>kb_ring = Some [] :: KeyboardScancode list option, kb_dropped = 0\<rparr>,
       mc_mouse = \<lparr>ms_ring = Some [] :: MouseByte list option, ms_dropped = 0\<rparr>\<rparr>"
  let ?es = "[Raise IrqTimer, Raise IrqKeyboard, Raise IrqMouse, TakeByte, TakeKey]"
  obtain t s' where run: "machine_run eager_controller list_ring list_ring ?es s = (t, s')" by fastforce
  have inv: "keyboard_inv (list_ring, mc_keyboard s)" "mouse_inv (list_ring, mc_mouse s)"
    using list_ring_ok by (simp_all add: s_def keyboard_inv_def mouse_inv_def)
  have "tr_keys t = [] \<and> tr_bytes t = [MouseByte 0xfa]"
    using run by (auto simp: s_def timer_handler_def keyboard_handler_def mouse_handler_def on_bus_def acknowledge_master_def
        acknowledge_slave_def eager_inb outb_def push_mouse_byte_def pop_mouse_byte_def pop_keyboard_scancode_def
        list_ring_def RB_SIZE_def PS2_DATA_def PS2_STATUS_def PS2_COMMAND_def Let_def)
  moreover note interrupts_deliver_input [OF run inv]
  then have "mc_ticks s' = mc_ticks s + of_nat 1"
    "\<exists>ps. bus_log (mc_bus s') = bus_log (mc_bus s) @ ps \<and> outs ps = concat (map ends_interrupt (raised ?es))" by simp_all
  then have "mc_ticks s' = 1" "outs (bus_log (mc_bus s')) = [(0x20, 0x20), (0x20, 0x20), (0xa0, 0x20), (0x20, 0x20)]"
    by (auto simp: s_def ends_interrupt_def EOI_def pic_ports)
  ultimately show ?thesis using run unfolding s_def by blast
qed

end
