(* ===== verification/Boot.thy ===== *)
theory Boot
  imports Paging FreeList Interrupts Shell
begin

text \<open>
  The start of the kernel, \<^verbatim>\<open>src/src/boot.rs\<close> and \<^verbatim>\<open>src/src/uefi_graphics/mod.rs\<close>, with the allocator of the feature
  \<^verbatim>\<open>custom-allocator\<close>: choosing a graphics mode, then console, heap, allocator, page tables and interrupts in this
  order. The firmware is the record \<open>Firmware\<close>; a status is its code, and what the kernel prints through the firmware is
  not modelled. The image size is 64 bits wide, so its conversion to \<open>usize\<close> cannot fail. The theorems say what the order
  achieves, memory that the heap hands out belongs to nobody else and is mapped, and which errors can be reported.
\<close>

section \<open>The firmware\<close>

definition UNSUPPORTED :: u64 where "UNSUPPORTED = 0x8000000000000003"

record ModeInfo =
  mode_width :: usize
  mode_height :: usize
  mode_stride :: usize
  mode_format :: PixelFormat

text \<open>
  The answers of the firmware: starting its helpers, base and size of the loaded image, the modes of the graphics
  protocol, setting a mode, base and size of the pixels of a mode, and the memory map when the boot services are left;
  with the addresses of the two stack markers.
\<close>

record Firmware =
  fw_helpers :: "u64 option"
  fw_image :: "(u64, usize \<times> u64) result"
  fw_modes :: "(u64, ModeInfo list) result"
  fw_set_mode :: "ModeInfo \<Rightarrow> u64 option"
  fw_frame_buffer :: "ModeInfo \<Rightarrow> usize \<times> usize"
  fw_memory_map :: "MemoryDescriptor list"
  fw_heap_marker :: usize
  fw_paging_marker :: usize

definition choose_mode :: "ModeInfo list \<Rightarrow> ModeInfo option" where
  "choose_mode modes =
     max_by_key (\<lambda>m. mode_width m * mode_height m) (filter (\<lambda>m. mode_width m \<le> 1920 \<and> mode_height m \<le> 1080) modes)"

definition init_gop :: "Firmware \<Rightarrow> (u64, ModeInfo) result" where
  "init_gop fw =
     and_then (fw_modes fw) (\<lambda>modes.
     and_then (ok_or (choose_mode modes) UNSUPPORTED) (\<lambda>mode.
       case fw_set_mode fw mode of Some status \<Rightarrow> Inl status | None \<Rightarrow> Inr mode))"

definition framebuffer_new :: "Firmware \<Rightarrow> ModeInfo \<Rightarrow> (FramebufferError, Framebuffer) result" where
  "framebuffer_new fw mode =
     and_then (ok_or (PixelSize_try_new (mode_width mode) (mode_height mode)) InvalidGeometry) (\<lambda>dims.
     and_then (ok_or (Stride_try_new (mode_stride mode)) InvalidGeometry) (\<lambda>stride.
       from_raw_parts (fst (fw_frame_buffer fw mode)) (snd (fw_frame_buffer fw mode)) dims stride (mode_format mode)))"

definition physical_range :: "Framebuffer \<Rightarrow> usize \<times> usize" where
  "physical_range fb = (fb_ptr fb, fb_byte_len fb)"

section \<open>The sequence\<close>

record ('w, 'q, 'm, 't) Kernel =
  kn_console :: console
  kn_boot :: BootState
  kn_heap :: FreeHeap
  kn_paging :: "'t PagingState"
  kn_machine :: "('w, 'q, 'm) Machine"

datatype FatalError = FatalHeap HeapError | FatalAllocator HeapError | FatalPaging PagingError

text \<open>The derived Debug texts of the errors.\<close>

fun heap_error_debug :: "HeapError \<Rightarrow> string" where
  "heap_error_debug HeapAlreadyInitialized = ''AlreadyInitialized''"
| "heap_error_debug NoConventionalMemory = ''NoConventionalMemory''"
| "heap_error_debug TooSmall = ''TooSmall''"
| "heap_error_debug Misaligned = ''Misaligned''"
| "heap_error_debug HeapMemoryMapUnavailable = ''MemoryMapUnavailable''"
| "heap_error_debug FrameAllocatorUnavailable = ''FrameAllocatorUnavailable''"
| "heap_error_debug MemoryReservationFailed = ''MemoryReservationFailed''"

fun frame_error_debug :: "FrameError \<Rightarrow> string" where
  "frame_error_debug FrameAlreadyInitialized = ''AlreadyInitialized''"
| "frame_error_debug MemoryMapUnavailable = ''MemoryMapUnavailable''"
| "frame_error_debug OutOfMemory = ''OutOfMemory''"
| "frame_error_debug InvalidAddress = ''InvalidAddress''"
| "frame_error_debug FreeRangeStorageFull = ''FreeRangeStorageFull''"

fun map_error_debug :: "MemoryMapError \<Rightarrow> string" where
  "map_error_debug MapAlreadyInitialized = ''AlreadyInitialized''"
| "map_error_debug MapEmpty = ''Empty''"
| "map_error_debug InvalidRange = ''InvalidRange''"
| "map_error_debug RangeNotFound = ''RangeNotFound''"
| "map_error_debug TooManyRanges = ''TooManyRanges''"
| "map_error_debug MapNotInitialized = ''NotInitialized''"

fun range_error_debug :: "VirtualRangeError \<Rightarrow> string" where
  "range_error_debug RangeEmpty = ''Empty''"
| "range_error_debug RangeMisaligned = ''Misaligned''"
| "range_error_debug NonCanonical = ''NonCanonical''"
| "range_error_debug RangeOverflow = ''Overflow''"

fun paging_error_debug :: "PagingError \<Rightarrow> string" where
  "paging_error_debug PagingAlreadyInitialized = ''AlreadyInitialized''"
| "paging_error_debug PagingNotInitialized = ''NotInitialized''"
| "paging_error_debug (PagingFrame e) = ''Frame('' @ frame_error_debug e @ '')''"
| "paging_error_debug (PagingMemoryMap e) = ''MemoryMap('' @ map_error_debug e @ '')''"
| "paging_error_debug AddressTooLarge = ''AddressTooLarge''"
| "paging_error_debug InvalidPageTableSize = ''InvalidPageTableSize''"
| "paging_error_debug MappingFailed = ''MappingFailed''"
| "paging_error_debug UnmappingFailed = ''UnmappingFailed''"
| "paging_error_debug NotDeviceMemory = ''NotDeviceMemory''"
| "paging_error_debug (PagingRange e) = ''Range('' @ range_error_debug e @ '')''"

fun fatal_text :: "FatalError \<Rightarrow> string" where
  "fatal_text (FatalHeap e) = ''heap initialization failed: '' @ heap_error_debug e"
| "fatal_text (FatalAllocator e) = ''global allocator initialization failed: '' @ heap_error_debug e"
| "fatal_text (FatalPaging e) = ''page-table initialization failed: '' @ paging_error_debug e"

text \<open>How the sequence ends: with a status for the firmware, halted after an error, or with the shell about to run.\<close>

datatype BootEnd = Returned u64 | Fatal_halt FatalError | Started

text \<open>
  \<open>fatal\<close> prints through the console, whose writer appends every character to a string on the heap: the first one asks
  the allocator for 8 bytes. Without them the kernel panics; since the panic handler prints through the console that
  panicked, whose lock is held, it never returns. \<open>None\<close> is a panic, here and below. What the later characters take from
  the heap is not followed.
\<close>

definition fatal :: "Font \<Rightarrow> FatalError \<Rightarrow> ('w, 'q, 'm, 't) Kernel \<Rightarrow> (BootEnd \<times> ('w, 'q, 'm, 't) Kernel) option" where
  "fatal font error k = do {
     (p, _) \<leftarrow> heap_alloc 8 1 (kn_heap k);
     if p = 0 then None
     else Some (Fatal_halt error, k\<lparr>kn_console := kprintln font (lit (fatal_text error)) (kn_console k)\<rparr>)
   }"

text \<open>The part after the framebuffer is known.\<close>

definition start_kernel ::
  "Font \<Rightarrow> bool \<Rightarrow> 'w Ports \<Rightarrow> u64 \<Rightarrow> ('q, KeyboardScancode) Ring \<Rightarrow> ('m, MouseByte) Ring \<Rightarrow> 't PagingEnv \<Rightarrow> Firmware \<Rightarrow>
   Framebuffer \<Rightarrow> usize \<times> usize \<Rightarrow> ('w, 'q, 'm, 't) Kernel \<Rightarrow> (BootEnd \<times> ('w, 'q, 'm, 't) Kernel) option" where
  "start_kernel font mouse io stacks rk rm env fw framebuffer kernel_image k =
     (let k = k\<lparr>kn_console := (Some (console_init framebuffer), snd (kn_console k))\<rparr> in
      case initialize_heap (kn_boot k) (fw_memory_map fw) (fw_heap_marker fw) (Some (physical_range framebuffer)) kernel_image of
        (Inl e, b) \<Rightarrow> fatal font (FatalHeap e) (k\<lparr>kn_boot := b\<rparr>)
      | (Inr heap_region, b) \<Rightarrow>
         (let k = k\<lparr>kn_boot := b\<rparr> in
          case allocator_init heap_region (kn_heap k) of
            (Inl e, h) \<Rightarrow> fatal font (FatalAllocator e) (k\<lparr>kn_heap := h\<rparr>)
          | (Inr _, h) \<Rightarrow>
             (let k = k\<lparr>kn_heap := h\<rparr> in
              do {
                (r, p) \<leftarrow> paging_initialize env (kn_paging k) (kn_boot k) (fw_paging_marker fw)
                  (physical_range framebuffer) kernel_image;
                let k = k\<lparr>kn_paging := p\<rparr>;
                (case r of
                   Inl e \<Rightarrow> fatal font (FatalPaging e) k
                 | Inr _ \<Rightarrow> do {
                     m \<leftarrow> interrupts_init mouse io stacks rk rm (kn_machine k);
                     Some (Started, k\<lparr>kn_machine := on_bus (pic_enable_runtime io) m\<rparr>)
                   })
              })))"

definition boot_initialize ::
  "Font \<Rightarrow> bool \<Rightarrow> 'w Ports \<Rightarrow> u64 \<Rightarrow> ('q, KeyboardScancode) Ring \<Rightarrow> ('m, MouseByte) Ring \<Rightarrow> 't PagingEnv \<Rightarrow> Firmware \<Rightarrow>
   ('w, 'q, 'm, 't) Kernel \<Rightarrow> (BootEnd \<times> ('w, 'q, 'm, 't) Kernel) option" where
  "boot_initialize font mouse io stacks rk rm env fw k =
     (case fw_helpers fw of
        Some status \<Rightarrow> Some (Returned status, k)
      | None \<Rightarrow>
         (case fw_image fw of
            Inl status \<Rightarrow> Some (Returned status, k)
          | Inr kernel_image \<Rightarrow>
             (case init_gop fw of
                Inl status \<Rightarrow> Some (Returned status, k)
              | Inr mode \<Rightarrow>
                 (case framebuffer_new fw mode of
                    Inl _ \<Rightarrow> Some (Returned UNSUPPORTED, k)
                  | Inr framebuffer \<Rightarrow> start_kernel font mouse io stacks rk rm env fw framebuffer kernel_image k))))"

section \<open>Panics\<close>

text \<open>
  The panic handler of \<^verbatim>\<open>src/src/main.rs\<close>, for the file, line and column of the panic, if known, and its message. After
  the boot services it prints through the console; \<open>None\<close> is the endless wait for the lock of the console when the panicking
  code holds it (\<open>held\<close>).
\<close>

definition panic_report :: "(string \<times> nat \<times> nat) option \<Rightarrow> string \<Rightarrow> string list" where
  "panic_report location message =
     [''========================================'',
      ''              KERNEL PANIC'',
      ''========================================'',
      []] @
     (case location of
        None \<Rightarrow> []
      | Some (file_name, line, column) \<Rightarrow> [''Location : '' @ file_name @ '':'' @ decimal line @ '':'' @ decimal column]) @
     [''Message  : '' @ message,
      [],
      ''System halted.'']"

definition panic_handler ::
  "Font \<Rightarrow> bool \<Rightarrow> (string \<times> nat \<times> nat) option \<Rightarrow> string \<Rightarrow> ('w, 'q, 'm, 't) Kernel \<Rightarrow> ('w, 'q, 'm, 't) Kernel option" where
  "panic_handler font held location message k =
     (if \<not> boot_services_exited (kn_boot k) then Some k
      else if held then None
      else Some (k\<lparr>kn_console := fold (kprintln font) (map lit (panic_report location message)) (kn_console k)\<rparr>))"

lemma panic_shows:
  assumes "at_line_start w ls i (kn_console k)" and "boot_services_exited (kn_boot k)"
  shows "\<exists>k'. panic_handler font False location message k = Some k' \<and>
    at_line_start w (ls @ concat (map (printed \<circ> lit) (panic_report location message))) i (kn_console k')"
  using assms at_line_start_fold [OF assms(1), of "map lit (panic_report location message)" font]
  by (simp add: panic_handler_def)

section \<open>What the order achieves\<close>

lemma fatal_Some: "fatal font e k = Some (r, k') \<longleftrightarrow> (\<exists>p h. heap_alloc 8 1 (kn_heap k) = Some (p, h) \<and> p \<noteq> 0) \<and>
    r = Fatal_halt e \<and> k' = k\<lparr>kn_console := kprintln font (lit (fatal_text e)) (kn_console k)\<rparr>"
  by (cases "heap_alloc 8 1 (kn_heap k)") (auto simp: fatal_def split: if_splits)

text \<open>A boot that reaches the shell.\<close>

lemma boot_started:
  assumes "boot_initialize font mouse io stacks rk rm env fw k = Some (Started, k')"
    and "fw_image fw = Inr img" and "init_gop fw = Inr mode" and "framebuffer_new fw mode = Inr fb"
  obtains region b0 h0 where "initialize_heap b0 (fw_memory_map fw) (fw_heap_marker fw) (Some (physical_range fb)) img
      = (Inr region, kn_boot k')"
    "allocator_init region h0 = (Inr (), kn_heap k')"
    "paging_initialize env (kn_paging k) (kn_boot k') (fw_paging_marker fw) (physical_range fb) img = Some (Inr (), kn_paging k')"
    "\<exists>m. interrupts_init mouse io stacks rk rm (kn_machine k) = Some m \<and> kn_machine k' = on_bus (pic_enable_runtime io) m"
  using assms unfolding boot_initialize_def start_kernel_def Let_def
  by (auto simp: bind_eq_Some_conv fatal_Some split: option.splits sum.splits prod.splits) (metis old.unit.exhaust sum.exhaust)

lemma low_page_index:
  assumes "unat (q :: u64) < 2 ^ 47"
  shows "p4_index q \<noteq> 510"
proof -
  have "unat (drop_bit 39 q) = unat q div 2 ^ 39" by (simp add: unat_drop_bit_eq drop_bit_eq_div unat_div)
  then have "unat (drop_bit 39 q) < 256" using assms by (simp add: less_mult_imp_div_less)
  moreover have "unat (drop_bit 39 q AND 511) \<le> unat (drop_bit 39 q)" using word_and_le2 [of "drop_bit 39 q" 511] by (simp add: word_le_nat_alt)
  ultimately have "unat (p4_index q) < 256" unfolding p4_index_def by linarith
  then show ?thesis by auto
qed

lemma containing_page_unat: "unat (containing_page a) = 4096 * (unat a div 4096)"
  unfolding containing_page_def by (rule unat_round_down)

lemma containing_page_touched:
  assumes "unat start \<le> unat a" and "unat a < unat start + unat len"
  shows "containing_page a \<in> touched_pages start len"
proof -
  have "4096 * (unat a div 4096) \<le> unat a" "unat a < 4096 * (unat a div 4096) + 4096"
    using mult_div_mod_eq [of 4096 "unat a"] mod_less_divisor [of 4096 "unat a"] by linarith+
  then show ?thesis using assms by (simp add: touched_pages_def containing_page_unat)
qed

lemma heap_run_start: "allocator_init region h0 = (Inr (), h) \<Longrightarrow> heap_run region h []"
  by (rule heap_run.start)

lemma mapped_heap_page:
  assumes env: "paging_env_ok env translate" "page_table_root st = None"
    and "paging_initialize env st boot marker fb img = Some (Inr (), st')"
    and low: "unat (fst img) + unat (snd img) \<le> 2 ^ 47" "unat (heap_start boot) + unat (heap_size boot) \<le> 2 ^ 47"
      "unat (fst fb) + unat (snd fb) \<le> 2 ^ 47"
    and marker: "unat marker + 31 * 4096 \<le> 2 ^ 47" "32 * 4096 \<le> unat marker"
    and a: "unat (heap_start boot) \<le> unat a" "unat a < unat (heap_start boot) + unat (heap_size boot)"
  shows "paging_active st' \<and> translate (table_memory st') (containing_page a) = Some (containing_page a, {PRESENT, WRITABLE, NO_EXECUTE})"
proof -
  have "heap_size boot \<noteq> 0" using a by auto
  then have page: "containing_page a \<in> heap_pages boot" using containing_page_touched [OF a] by (simp add: heap_pages_def)
  have "unat (containing_page a) \<le> unat a" by (simp add: containing_page_unat)
  then have index: "p4_index (containing_page a) \<noteq> 510" using a(2) low(2) by (intro low_page_index) linarith
  from paging_initialized [OF env low marker refl refl] assms(3) have
    "paging_active st'" "touched_pages (fst img) (snd img) \<inter> heap_pages boot = {}"
    "\<forall>q. p4_index q \<noteq> 510 \<longrightarrow> translate (table_memory st') q =
        (if q \<in> touched_pages (fst img) (snd img) then Some (q, {PRESENT, WRITABLE})
         else if q \<in> heap_pages boot then Some (q, {PRESENT, WRITABLE, NO_EXECUTE})
         else if q \<in> touched_pages (fst fb) (snd fb) then Some (q, {PRESENT, WRITABLE, NO_CACHE, NO_EXECUTE})
         else if q \<in> stack_pages marker then Some (q, {PRESENT, WRITABLE, NO_EXECUTE})
         else None)"
    by auto
  then show ?thesis using page index by auto
qed

text \<open>The heap region: its addresses, and that it is in the low half when the usable memory is.\<close>

lemma region_in_window:
  assumes "unat (region_start region) + unat (region_size region) < 2 ^ 64"
    and "unat (region_start region) \<le> unat a" "unat a < unat (region_start region) + unat (region_size region)"
  shows "in_window (region_start region, region_size region) a"
  using assms by (simp add: in_window_def word_le_nat_alt word_less_nat_alt unat_add_exact)

lemma heap_region_low:
  assumes "initialize_heap b0 entries marker fb img = (Inr region, b)" and "firmware_ok entries"
    and "\<forall>w. fb = Some w \<longrightarrow> window_aligned w" and "window_aligned img" and "\<forall>a. firmware_usable entries a \<longrightarrow> unat a < 2 ^ 47"
  shows "unat (region_start region) + unat (region_size region) \<le> 2 ^ 47"
proof -
  let ?hi = "unat (region_start region) + unat (region_size region)"
  note bounds = heap_region_bounds [OF assms(1-4)]
  have nz: "0 < unat (region_size region)" using bounds by (simp add: unat_gt_0)
  define a where "a = region_start region + (region_size region - 1)"
  have size: "unat (region_size region - 1) = unat (region_size region) - 1" using nz by (simp add: unat_minus_one unat_gt_0)
  then have "unat (region_start region) + unat (region_size region - 1) < 2 ^ 64" using bounds by linarith
  then have a: "unat a = ?hi - 1" using size nz unfolding a_def by (simp add: unat_add_exact)
  then have "in_window (region_start region, region_size region) a" using bounds nz by (intro region_in_window) simp_all
  from heap_region_owned [OF assms(1-4) this] have "unat a < 2 ^ 47" using assms(5) by blast
  then show ?thesis using a nz by linarith
qed

section \<open>Properties\<close>


section \<open>A concrete boot\<close>

text \<open>The mapper of \<^verbatim>\<open>Paging\<close> whose tables are the translation itself succeeds on pages that are not mapped.\<close>

definition unmapped_from :: "flat_tables PagingState \<Rightarrow> u64 \<Rightarrow> u64 \<Rightarrow> bool" where
  "unmapped_from st lo hi \<longleftrightarrow> (\<forall>q. lo \<le> q \<and> q < hi \<longrightarrow> table_memory st q = None)"

definition mapped_only :: "flat_tables PagingState \<Rightarrow> u64 \<Rightarrow> u64 \<Rightarrow> flat_tables PagingState \<Rightarrow> bool" where
  "mapped_only st lo hi st' \<longleftrightarrow> page_table_root st' \<noteq> None \<and> \<not> paging_active st' \<and>
     (\<forall>q. q < lo \<or> hi \<le> q \<longrightarrow> table_memory st' q = table_memory st q)"

lemma flat_map_loop:
  assumes "page_table_root st \<noteq> None" and "\<not> paging_active st" and "4096 dvd unat a"
    and "unat stop = unat a + 4096 * n" and "unat stop \<le> 2 ^ 47" and "unmapped_from st a stop"
  shows "\<exists>st'. map_loop flat_env a stop flags st = Some (Inr (), st') \<and> mapped_only st a stop st'"
  using assms
proof (induction n arbitrary: a st)
  case 0
  then have "\<not> a < stop" by (simp add: word_less_nat_alt)
  then have "map_loop flat_env a stop flags st = Some (Inr (), st)" by (subst map_loop.simps) simp
  then show ?case using 0 by (simp add: mapped_only_def)
next
  case (Suc n)
  from Suc.prems(4,5) have lt: "a < stop" and b: "unat a + 4096 \<le> 2 ^ 47" by (simp_all add: word_less_nat_alt)
  obtain root where rt: "page_table_root st = Some root" using Suc.prems(1) by blast
  have p: "a < 0x10000000000000" using b by (simp add: word_less_nat_alt)
  have free: "table_memory st a = None" using Suc.prems(6) lt by (simp add: unmapped_from_def)
  define st1 where "st1 = st\<lparr>page_table_root := Some root, table_memory := (table_memory st)(a \<mapsto> (a, flags))\<rparr>"
  have "map_page flat_env st a a flags = Some (Inr (), st1)"
    unfolding st1_def by (rule flat_map_page [OF low_page_range [OF Suc.prems(3) b] Suc.prems(3) p rt Suc.prems(2) free])
  with lt have step: "map_loop flat_env a stop flags st = map_loop flat_env (a + PAGE_SIZE) stop flags st1"
    by (subst map_loop.simps) simp
  have nx: "unat (a + PAGE_SIZE) = unat a + 4096" using b by (simp add: unat_add_exact)
  then have up: "a < a + PAGE_SIZE" "a + PAGE_SIZE \<le> stop" using Suc.prems(4) by (simp_all add: word_less_nat_alt word_le_nat_alt)
  have "unmapped_from st1 (a + PAGE_SIZE) stop"
    unfolding unmapped_from_def
  proof (intro allI impI)
    fix q assume q: "a + PAGE_SIZE \<le> q \<and> q < stop"
    then have "a < q" using up by (metis order.strict_trans2)
    then show "table_memory st1 q = None" using Suc.prems(6) q by (simp add: st1_def unmapped_from_def)
  qed
  moreover have "4096 dvd unat (a + PAGE_SIZE)" using Suc.prems(3) by (simp add: nx)
  moreover have "unat stop = unat (a + PAGE_SIZE) + 4096 * n" using Suc.prems(4) by (simp add: nx)
  ultimately obtain st' where IH: "map_loop flat_env (a + PAGE_SIZE) stop flags st1 = Some (Inr (), st')"
      "mapped_only st1 (a + PAGE_SIZE) stop st'"
    using Suc.IH [of st1 "a + PAGE_SIZE"] Suc.prems(2,5) by (auto simp: st1_def)
  have "table_memory st' q = table_memory st q" if "q < a \<or> stop \<le> q" for q
  proof -
    have "q < a + PAGE_SIZE \<or> stop \<le> q" "q \<noteq> a" using that up lt by auto
    then show ?thesis using IH(2) by (auto simp: mapped_only_def st1_def)
  qed
  then show ?case using IH step by (simp add: mapped_only_def)
qed

lemma unmapped_apart:
  assumes "mapped_only st lo hi st'" and "unmapped_from st a b" and "b \<le> lo \<or> hi \<le> a"
  shows "unmapped_from st' a b"
  unfolding unmapped_from_def
proof (intro allI impI)
  fix q assume q: "a \<le> q \<and> q < b"
  then have "q < lo \<or> hi \<le> q" using assms(3) by (meson order.strict_trans2 order.trans)
  then have "table_memory st' q = table_memory st q" using assms(1) by (auto simp: mapped_only_def)
  then show "table_memory st' q = None" using assms(2) q by (simp add: unmapped_from_def)
qed

lemma flat_map_step:
  assumes "mapped_only st0 lo0 hi0 st" and "4096 dvd unat a" and "unat stop = unat a + 4096 * n" and "unat stop \<le> 2 ^ 47"
    and "unmapped_from st a stop"
  obtains st' where "map_loop flat_env a stop flags st = Some (Inr (), st')" "mapped_only st a stop st'"
  using flat_map_loop [of st a stop n flags] assms by (auto simp: mapped_only_def)

text \<open>A firmware with one graphics mode of 128 by 128 pixels, and the kernel before it runs.\<close>

definition boot_firmware :: Firmware where
  "boot_firmware = \<lparr>fw_helpers = None, fw_image = Inr (0x9000, 0x1000),
     fw_modes = Inr [\<lparr>mode_width = 128, mode_height = 128, mode_stride = 128, mode_format = Rgb\<rparr>],
     fw_set_mode = (\<lambda>_. None), fw_frame_buffer = (\<lambda>_. (0x100000, 0x10000)), fw_memory_map = boot_entries,
     fw_heap_marker = 0x9800, fw_paging_marker = 0x900000\<rparr>"

definition boot_screen :: Framebuffer where
  "boot_screen = \<lparr>fb_ptr = 0x100000, fb_size = \<lparr>size_width = 128, size_height = 128\<rparr>, fb_stride = 128, fb_format = Rgb,
     fb_byte_len = 0x10000\<rparr>"

definition boot_kernel :: "(unit, KeyboardScancode list, MouseByte list, flat_tables) Kernel" where
  "boot_kernel = \<lparr>kn_console = (None, \<lambda>_. 0), kn_boot = initial_boot_state, kn_heap = \<lparr>fh_head = 0, fh_memory = (\<lambda>_. 0)\<rparr>,
     kn_paging = flat_state\<lparr>page_table_root := None\<rparr>,
     kn_machine = \<lparr>mc_bus = \<lparr>bus_devices = (), bus_log = []\<rparr>, mc_flag = False, mc_idt = None, mc_tss = None,
       mc_hardware = False, mc_ticks = 0, mc_keyboard = \<lparr>kb_ring = None, kb_dropped = 0\<rparr>,
       mc_mouse = \<lparr>ms_ring = None, ms_dropped = 0\<rparr>\<rparr>\<rparr>"

lemma boot_firmware_mode:
  "init_gop boot_firmware = Inr \<lparr>mode_width = 128, mode_height = 128, mode_stride = 128, mode_format = Rgb\<rparr>"
  "framebuffer_new boot_firmware \<lparr>mode_width = 128, mode_height = 128, mode_stride = 128, mode_format = Rgb\<rparr> = Inr boot_screen"
  by code_simp+

lemma boot_firmware_fields:
  "fw_helpers boot_firmware = None" "fw_image boot_firmware = Inr (0x9000, 0x1000)"
  "fw_memory_map boot_firmware = boot_entries" "fw_heap_marker boot_firmware = 0x9800"
  "fw_paging_marker boot_firmware = 0x900000" "physical_range boot_screen = (0x100000, 0x10000)"
  "kn_boot boot_kernel = initial_boot_state" "kn_paging boot_kernel = flat_state\<lparr>page_table_root := None\<rparr>"
  by (simp_all add: boot_kernel_def boot_firmware_def physical_range_def boot_screen_def)

lemma boot_machine: "interrupts_init True eager_controller 4096 list_ring list_ring (kn_machine boot_kernel) \<noteq> None"
  by (simp add: interrupts_init_def without_interrupts_def Let_def setup_queues_def setup_hardware_def on_bus_def
      init_keyboard_def init_mouse_def boot_kernel_def)

lemma flat_initialize:
  assumes "heap_start boot = 0x110000" and "heap_size boot = 0x1F0000"
  shows "\<exists>st'. paging_initialize flat_env (flat_state\<lparr>page_table_root := None\<rparr>) boot 0x900000 (0x100000, 0x10000) (0x9000, 0x1000)
    = Some (Inr (), st')"
proof -
  obtain owned where steps: "paging_initialize flat_env (flat_state\<lparr>page_table_root := None\<rparr>) boot 0x900000 (0x100000, 0x10000)
      (0x9000, 0x1000) = initialize_windows flat_env boot 0x900000 (0x100000, 0x10000) (0x9000, 0x1000)
        (rooted flat_env owned (flat_state\<lparr>page_table_root := None\<rparr>))" (is "_ = initialize_windows _ _ _ _ _ ?st")
    using paging_initialize_steps [OF flat_env_ok, of "flat_state\<lparr>page_table_root := None\<rparr>"] by fastforce
  have start: "page_table_root ?st \<noteq> None" "\<not> paging_active ?st" "table_memory ?st = (\<lambda>_. None)"
    by (simp_all add: rooted_def flat_state_def flat_env_def storage_address_def)
  note compute = map_window_def map_range_def checked_add_def saturating_sub_def checked_sub_def is_multiple_of_def PAGE_SIZE_def Let_def
  have ranges: "map_window flat_env st (0x9000, 0x1000) f = map_loop flat_env 0x9000 0xA000 f st"
    "map_range flat_env st 0x110000 0x1F0000 f = map_loop flat_env 0x110000 0x300000 f st"
    "map_window flat_env st (0x100000, 0x10000) f = map_loop flat_env 0x100000 0x110000 f st"
    "map_range flat_env st (fst (stack_mapping 0x900000)) (snd (stack_mapping 0x900000)) f = map_loop flat_env 0x8E1000 0x91F000 f st"
    for st f
    by (simp_all add: compute stack_mapping_def)
  let ?rw = "{PRESENT, WRITABLE}" and ?data = "{PRESENT, WRITABLE, NO_EXECUTE}" and ?dev = "{PRESENT, WRITABLE, NO_CACHE, NO_EXECUTE}"
  have free: "unmapped_from ?st a b" for a b using start(3) by (simp add: unmapped_from_def)
  have self: "mapped_only ?st 0 0 ?st" using start by (simp add: mapped_only_def)
  obtain st2 where st2: "map_loop flat_env 0x9000 0xA000 ?rw ?st = Some (Inr (), st2)" "mapped_only ?st 0x9000 0xA000 st2"
    by (rule flat_map_step [OF self _ _ _ free, where n = 1]) auto
  note free2 = unmapped_apart [OF st2(2) free]
  have heap2: "unmapped_from st2 0x110000 0x300000" by (rule free2) simp
  obtain st3 where st3: "map_loop flat_env 0x110000 0x300000 ?data st2 = Some (Inr (), st3)" "mapped_only st2 0x110000 0x300000 st3"
    by (rule flat_map_step [OF st2(2) _ _ _ heap2, where n = "0x1F0"]) auto
  note free3 = unmapped_apart [OF st3(2) free2]
  have screen3: "unmapped_from st3 0x100000 0x110000" by (rule free3) simp_all
  obtain st4 where st4: "map_loop flat_env 0x100000 0x110000 ?dev st3 = Some (Inr (), st4)" "mapped_only st3 0x100000 0x110000 st4"
    by (rule flat_map_step [OF st3(2) _ _ _ screen3, where n = "0x10"]) auto
  have stack4: "unmapped_from st4 0x8E1000 0x91F000" by (rule unmapped_apart [OF st4(2) free3]) simp_all
  obtain st5 where "map_loop flat_env 0x8E1000 0x91F000 ?data st4 = Some (Inr (), st5)" "mapped_only st4 0x8E1000 0x91F000 st5"
    by (rule flat_map_step [OF st4(2) _ _ _ stack4, where n = 62]) auto
  with st2 st3 st4 show ?thesis
    using assms by (simp add: steps initialize_windows_def and_map_def ranges)
qed

lemma boot_region:
  obtains b where "initialize_heap initial_boot_state boot_entries 0x9800 (Some (0x100000, 0x10000)) (0x9000, 0x1000)
      = (Inr \<lparr>region_start = 0x110000, region_size = 0x1F0000\<rparr>, b)" "heap_start b = 0x110000" "heap_size b = 0x1F0000"
proof -
  obtain b where b: "initialize_heap initial_boot_state boot_entries 0x9800 (Some (0x100000, 0x10000)) (0x9000, 0x1000)
      = (Inr \<lparr>region_start = 0x110000, region_size = 0x1F0000\<rparr>, b)" using boot_example by blast
  have "heap_start b = 0x110000" "heap_size b = 0x1F0000"
    using heap_region_bounds [OF b boot_firmware_ok] by (simp_all add: window_aligned_def)
  with b show thesis by (rule that)
qed

lemma boot_runs:
  "\<exists>k'. boot_initialize plain_font True eager_controller 4096 list_ring list_ring flat_env boot_firmware boot_kernel = Some (Started, k') \<and>
    heap_start (kn_boot k') = 0x110000 \<and> heap_size (kn_boot k') = 0x1F0000"
proof -
  obtain b where b: "initialize_heap initial_boot_state boot_entries 0x9800 (Some (0x100000, 0x10000)) (0x9000, 0x1000)
      = (Inr \<lparr>region_start = 0x110000, region_size = 0x1F0000\<rparr>, b)" "heap_start b = 0x110000" "heap_size b = 0x1F0000"
    by (rule boot_region)
  obtain p where p: "paging_initialize flat_env (flat_state\<lparr>page_table_root := None\<rparr>) b 0x900000 (0x100000, 0x10000) (0x9000, 0x1000)
      = Some (Inr (), p)"
    using flat_initialize [OF b(2,3)] by blast
  obtain m where m: "interrupts_init True eager_controller 4096 list_ring list_ring (kn_machine boot_kernel) = Some m"
    using boot_machine by blast
  obtain h where h: "allocator_init \<lparr>region_start = 0x110000, region_size = 0x1F0000\<rparr> (kn_heap boot_kernel) = (Inr (), h)"
    by (simp add: allocator_init_def Let_def is_multiple_of_def CHUNK_SIZE_def CHUNK_ALIGN_def)
  show ?thesis using m
    by (simp add: boot_initialize_def start_kernel_def boot_firmware_mode boot_firmware_fields b p h)
qed


section \<open>Reported errors\<close>

lemma heap_alloc_empty: "fh_head s = 0 \<Longrightarrow> heap_alloc dims al s = Some (0, s)"
  by (simp add: heap_alloc_def alloc_loop.simps get_link_def Let_def)

lemma fatal_empty: "fh_head (kn_heap k) = 0 \<Longrightarrow> fatal font e k = None"
  by (simp add: fatal_def heap_alloc_empty)

lemma allocator_init_refused: "allocator_init region s = (Inl e, s') \<Longrightarrow> s' = s"
  by (auto simp: allocator_init_def Let_def split: if_splits)

text \<open>The console that a boot error is printed on.\<close>

lemma console_error_log:
  assumes "font_w font Size16 \<noteq> 0" and "font_w font Size16 \<le> fb_width fb" and "fb_width fb < 2 ^ 63"
  shows "\<exists>w m'. kprintln font t (Some (console_init fb), m) = (Some w, m') \<and> log_text w = t @ [10]"
proof -
  let ?w = "console_init fb"
  have "log_text (fst (write_str font (t @ [10]) (?w, m))) = log_text ?w @ t @ [10]"
    by (rule write_str_log [THEN conjunct1]) (use assms in \<open>simp_all add: console_init_def cells_ok_def\<close>)
  moreover have "log_text ?w = []" by (simp add: log_text_def console_init_def)
  moreover obtain w m' where "write_str font (t @ [10]) (?w, m) = (w, m')" by fastforce
  ultimately show ?thesis by (intro exI [of _ w] exI [of _ m']) (simp add: kprintln_def kprint_def with_writer_def)
qed

lemma boot_fatal:
  assumes "boot_initialize font mouse io stacks rk rm env fw k = Some (Fatal_halt e, k')"
    and "fw_helpers fw = None" "fw_image fw = Inr img" "init_gop fw = Inr mode" "framebuffer_new fw mode = Inr fb"
    and "fh_head (kn_heap k) = 0"
  shows "\<exists>k1 p. kn_console k1 = (Some (console_init fb), snd (kn_console k)) \<and> kn_machine k1 = kn_machine k \<and>
    fatal font e k1 = Some (Fatal_halt e, k') \<and> e = FatalPaging p"
proof -
  let ?k1 = "k\<lparr>kn_console := (Some (console_init fb), snd (kn_console k))\<rparr>"
  have start: "start_kernel font mouse io stacks rk rm env fw fb img k = Some (Fatal_halt e, k')"
    using assms by (simp add: boot_initialize_def)
  obtain region b where region: "initialize_heap (kn_boot k) (fw_memory_map fw) (fw_heap_marker fw) (Some (physical_range fb)) img = (Inr region, b)"
    using start assms(6) by (auto simp: start_kernel_def Let_def fatal_empty split: sum.splits prod.splits)
  obtain h where heap: "allocator_init region (kn_heap k) = (Inr (), h)"
    using start assms(6) region allocator_init_refused by (fastforce simp: start_kernel_def Let_def fatal_empty split: sum.splits prod.splits)
  let ?k2 = "?k1\<lparr>kn_boot := b, kn_heap := h\<rparr>"
  obtain r p where paging: "paging_initialize env (kn_paging k) b (fw_paging_marker fw) (physical_range fb) img = Some (r, p)"
    using start region heap by (auto simp: start_kernel_def Let_def bind_eq_Some_conv)
  show ?thesis
  proof (cases r)
    case (Inl pe)
    then have "fatal font (FatalPaging pe) (?k2\<lparr>kn_paging := p\<rparr>) = Some (Fatal_halt e, k')"
      using start region heap paging by (simp add: start_kernel_def Let_def)
    moreover from this have "e = FatalPaging pe" unfolding fatal_Some by blast
    ultimately show ?thesis by (intro exI [of _ "?k2\<lparr>kn_paging := p\<rparr>"] exI [of _ pe]) simp
  next
    case (Inr u)
    then show ?thesis using start region heap paging by (auto simp: start_kernel_def Let_def bind_eq_Some_conv)
  qed
qed

text \<open>C16: errors during the start. When heap selection fails the message is never seen: the kernel panics, because the
  console needs the heap that is missing. A start that reports an error and halts has one from the page tables; its text
  is then the only line of the console, the heap is in place, and the interrupts were never set up.\<close>

theorem boot_error_reported:
  assumes "fw_helpers fw = None" and "fw_image fw = Inr img" and "init_gop fw = Inr mode" and "framebuffer_new fw mode = Inr fb"
    and "fh_head (kn_heap k) = 0"
    and "font_w font Size16 \<noteq> 0" "font_w font Size16 \<le> fb_width fb" "fb_width fb < 2 ^ 63"
  shows "(\<forall>e b. initialize_heap (kn_boot k) (fw_memory_map fw) (fw_heap_marker fw) (Some (physical_range fb)) img = (Inl e, b) \<longrightarrow>
      boot_initialize font mouse io stacks rk rm env fw k = None) \<and>
    (\<forall>e k'. boot_initialize font mouse io stacks rk rm env fw k = Some (Fatal_halt e, k') \<longrightarrow>
      (\<exists>p w. e = FatalPaging p \<and> fst (kn_console k') = Some w \<and> log_text w = lit (fatal_text e) @ [10]) \<and>
      fh_head (kn_heap k') \<noteq> 0 \<and> kn_machine k' = kn_machine k)"
proof -
  note console = console_error_log [OF assms(6-8)]
  have "(\<exists>p w. e = FatalPaging p \<and> fst (kn_console k') = Some w \<and> log_text w = lit (fatal_text e) @ [10]) \<and>
      fh_head (kn_heap k') \<noteq> 0 \<and> kn_machine k' = kn_machine k"
    if run: "boot_initialize font mouse io stacks rk rm env fw k = Some (Fatal_halt e, k')" for e k'
  proof -
    obtain k1 where k1: "kn_console k1 = (Some (console_init fb), snd (kn_console k))" "kn_machine k1 = kn_machine k"
        "fatal font e k1 = Some (Fatal_halt e, k')" "\<exists>p. e = FatalPaging p"
      using boot_fatal [OF run assms(1-5)] by blast
    then have "fh_head (kn_heap k1) \<noteq> 0" using fatal_empty by force
    with k1 console [of "lit (fatal_text e)" "snd (kn_console k)"] show ?thesis by (auto simp: fatal_Some)
  qed
  moreover have "boot_initialize font mouse io stacks rk rm env fw k = None"
    if "initialize_heap (kn_boot k) (fw_memory_map fw) (fw_heap_marker fw) (Some (physical_range fb)) img = (Inl e, b)" for e b
    using that assms(1-5) by (simp add: boot_initialize_def start_kernel_def Let_def fatal_empty)
  ultimately show ?thesis by blast
qed

lemma region_allocates:
  assumes "allocator_init \<lparr>region_start = 0x110000, region_size = 0x1F0000\<rparr> s = (Inr (), h)"
  shows "\<exists>p h'. heap_alloc 8 1 h = Some (p, h') \<and> p \<noteq> 0"
proof -
  have "h = set_next 0x110000 0 (set_size 0x110000 0x1F0000 s)\<lparr>fh_head := 0x110000\<rparr>"
    using assms by (simp add: allocator_init_def Let_def is_multiple_of_def CHUNK_SIZE_def CHUNK_ALIGN_def)
  then have "load64 0x110000 (fh_memory h) = 0x1F0000" "fh_head h = 0x110000"
    using write_header(3) [of 16 "0x110000"] by (simp_all add: set_size_def set_next_def)
  then show ?thesis
    by (simp add: heap_alloc_def alloc_loop.simps get_link_def placement_def checked_add_def checked_sub_def
        CHUNK_SIZE_def CHUNK_ALIGN_def Let_def max_def)
qed

lemma boot_error_reported_witness:
  "boot_initialize plain_font True eager_controller 4096 list_ring list_ring flat_env (boot_firmware\<lparr>fw_memory_map := []\<rparr>) boot_kernel = None \<and>
   (\<exists>k' w. boot_initialize plain_font True eager_controller 4096 list_ring list_ring flat_env boot_firmware
        (boot_kernel\<lparr>kn_paging := flat_state\<rparr>) = Some (Fatal_halt (FatalPaging PagingAlreadyInitialized), k') \<and>
      fst (kn_console k') = Some w \<and> log_text w = lit ''page-table initialization failed: AlreadyInitialized'' @ [10])"
proof (rule conjI)
  have font: "font_w plain_font Size16 \<noteq> 0" "font_w plain_font Size16 \<le> fb_width boot_screen" "fb_width boot_screen < 2 ^ 63"
    by (simp_all add: boot_screen_def plain_font_def font_w_def word_le_nat_alt)
  have mode: "init_gop (boot_firmware\<lparr>fw_memory_map := []\<rparr>) = Inr \<lparr>mode_width = 128, mode_height = 128, mode_stride = 128, mode_format = Rgb\<rparr>"
    "framebuffer_new (boot_firmware\<lparr>fw_memory_map := []\<rparr>) \<lparr>mode_width = 128, mode_height = 128, mode_stride = 128, mode_format = Rgb\<rparr> = Inr boot_screen"
    using boot_firmware_mode by (simp_all add: init_gop_def framebuffer_new_def boot_firmware_def)
  have head: "fh_head (kn_heap boot_kernel) = 0" by (simp add: boot_kernel_def)
  have fails: "fst (initialize_heap initial_boot_state [] 0x9800 (Some (0x100000, 0x10000)) (0x9000, 0x1000)) = Inl HeapMemoryMapUnavailable"
    by code_simp
  then obtain e b where empty: "initialize_heap (kn_boot boot_kernel) (fw_memory_map (boot_firmware\<lparr>fw_memory_map := []\<rparr>))
      (fw_heap_marker (boot_firmware\<lparr>fw_memory_map := []\<rparr>)) (Some (physical_range boot_screen)) (0x9000, 0x1000) = (Inl e, b)"
    by (auto simp: boot_kernel_def boot_firmware_def physical_range_def boot_screen_def prod_eq_iff)
  show "boot_initialize plain_font True eager_controller 4096 list_ring list_ring flat_env (boot_firmware\<lparr>fw_memory_map := []\<rparr>) boot_kernel = None"
    by (rule boot_error_reported [OF _ _ mode head font, THEN conjunct1, rule_format, OF _ _ empty]) (simp_all add: boot_firmware_def)
  let ?k = "boot_kernel\<lparr>kn_paging := flat_state\<rparr>"
  obtain b where b: "initialize_heap initial_boot_state boot_entries 0x9800 (Some (0x100000, 0x10000)) (0x9000, 0x1000)
      = (Inr \<lparr>region_start = 0x110000, region_size = 0x1F0000\<rparr>, b)" by (rule boot_region)
  obtain h where h: "allocator_init \<lparr>region_start = 0x110000, region_size = 0x1F0000\<rparr> (kn_heap boot_kernel) = (Inr (), h)"
    by (simp add: allocator_init_def Let_def is_multiple_of_def CHUNK_SIZE_def CHUNK_ALIGN_def)
  obtain p h' where "heap_alloc 8 1 h = Some (p, h')" "p \<noteq> 0" using region_allocates [OF h] by blast
  moreover have "paging_initialize flat_env flat_state b 0x900000 (0x100000, 0x10000) (0x9000, 0x1000)
      = Some (Inl PagingAlreadyInitialized, flat_state)" by (simp add: paging_initialize_def flat_state_def)
  ultimately obtain k' where k': "boot_initialize plain_font True eager_controller 4096 list_ring list_ring flat_env boot_firmware ?k
      = Some (Fatal_halt (FatalPaging PagingAlreadyInitialized), k')"
    using b h by (simp add: boot_initialize_def start_kernel_def boot_firmware_mode boot_firmware_fields fatal_def)
  have "fh_head (kn_heap ?k) = 0" using head by simp
  note boot_error_reported [OF boot_firmware_fields(1,2) boot_firmware_mode this font, THEN conjunct2, rule_format, OF k']
  then show "\<exists>k' w. boot_initialize plain_font True eager_controller 4096 list_ring list_ring flat_env boot_firmware ?k
        = Some (Fatal_halt (FatalPaging PagingAlreadyInitialized), k') \<and>
      fst (kn_console k') = Some w \<and> log_text w = lit ''page-table initialization failed: AlreadyInitialized'' @ [10]"
    using k' by auto
qed

end
