(* ===== verification/Idle.thy ===== *)
theory Idle
  imports Interrupts Shell
begin

text \<open>
  How the shell goes to sleep: the end of the loop of \<^verbatim>\<open>src/src/shell/mod.rs\<close> with the CPU operations of
  \<^verbatim>\<open>src/src/platform/mod.rs\<close>, against devices that may raise their interrupts between any two steps. The theorem is the
  comment beside that code: an interrupt that arrives after the queues were checked is not slept through.
\<close>

section \<open>CPU operations\<close>

definition disable_interrupts :: "('w, 'q, 'm) Machine \<Rightarrow> ('w, 'q, 'm) Machine" where
  "disable_interrupts s = s\<lparr>mc_flag := False\<rparr>"

definition enable_interrupts :: "('w, 'q, 'm) Machine \<Rightarrow> ('w, 'q, 'm) Machine" where
  "enable_interrupts s = s\<lparr>mc_flag := True\<rparr>"

definition interrupts_enabled :: "('w, 'q, 'm) Machine \<Rightarrow> bool" where
  "interrupts_enabled s = mc_flag s"

section \<open>The shell and its interrupts\<close>

text \<open>
  Where the shell is: working with the rest of its loop, behind \<open>disable_interrupts\<close>, behind the check of the keyboard
  queue, behind both checks, or halted. The check of the mouse queue is skipped when the keyboard queue is not empty.
\<close>

datatype ShellPhase = Working | Disabled | KeyboardChecked bool | Checked bool | Halted

record ('w, 'q, 'm) Idle =
  id_machine :: "('w, 'q, 'm) Machine"
  id_phase :: ShellPhase
  id_pending :: "Irq set"

text \<open>\<open>enable_and_hlt\<close> is \<^verbatim>\<open>sti; hlt\<close>: no interrupt is taken between the two, so it is one step, and it returns
  after the next interrupt.\<close>

definition enable_and_hlt :: "('w, 'q, 'm) Idle \<Rightarrow> ('w, 'q, 'm) Idle" where
  "enable_and_hlt s = s\<lparr>id_machine := enable_interrupts (id_machine s), id_phase := Halted\<rparr>"

text \<open>The next step of the code at the end of the loop.\<close>

definition idle_next ::
  "('q, KeyboardScancode) Ring \<Rightarrow> ('m, MouseByte) Ring \<Rightarrow> ('w, 'q, 'm) Idle \<Rightarrow> ('w, 'q, 'm) Idle option" where
  "idle_next rk rm s =
     (let m = id_machine s in
      case id_phase s of
        Working \<Rightarrow> Some (s\<lparr>id_machine := disable_interrupts m, id_phase := Disabled\<rparr>)
      | Disabled \<Rightarrow> Some (s\<lparr>id_phase := KeyboardChecked (keyboard_queue_is_empty rk (mc_keyboard m))\<rparr>)
      | KeyboardChecked keyboard_empty \<Rightarrow>
          Some (s\<lparr>id_phase := Checked (keyboard_empty \<and> mouse_queue_is_empty rm (mc_mouse m))\<rparr>)
      | Checked input_queues_empty \<Rightarrow>
          Some (if input_queues_empty then enable_and_hlt s
                else s\<lparr>id_machine := enable_interrupts m, id_phase := Working\<rparr>)
      | Halted \<Rightarrow> None)"

text \<open>A device raises its line at any time; the CPU takes a pending interrupt while its flag is set, which ends
  \<open>hlt\<close>; the working shell reads its queues.\<close>

inductive idle_step ::
  "'w Ports \<Rightarrow> ('q, KeyboardScancode) Ring \<Rightarrow> ('m, MouseByte) Ring \<Rightarrow> ('w, 'q, 'm) Idle \<Rightarrow> ('w, 'q, 'm) Idle \<Rightarrow> bool"
  for io rk rm where
  raise: "idle_step io rk rm s (s\<lparr>id_pending := insert irq (id_pending s)\<rparr>)"
| take_irq: "irq \<in> id_pending s \<Longrightarrow> interrupts_enabled (id_machine s) \<Longrightarrow>
    idle_step io rk rm s (s\<lparr>id_machine := handle_irq io rk rm irq (id_machine s), id_pending := id_pending s - {irq},
      id_phase := (if id_phase s = Halted then Working else id_phase s)\<rparr>)"
| take_key: "id_phase s = Working \<Longrightarrow> idle_step io rk rm s (s\<lparr>id_machine := (id_machine s)\<lparr>mc_keyboard :=
    snd (pop_keyboard_scancode rk (mc_keyboard (id_machine s)))\<rparr>\<rparr>)"
| take_byte: "id_phase s = Working \<Longrightarrow> idle_step io rk rm s (s\<lparr>id_machine := (id_machine s)\<lparr>mc_mouse :=
    snd (pop_mouse_byte rm (mc_mouse (id_machine s)))\<rparr>\<rparr>)"
| step: "idle_next rk rm s = Some s' \<Longrightarrow> idle_step io rk rm s s'"

inductive_cases idle_stepE: "idle_step io rk rm s s'"

inductive idle_reachable ::
  "'w Ports \<Rightarrow> ('q, KeyboardScancode) Ring \<Rightarrow> ('m, MouseByte) Ring \<Rightarrow> ('w, 'q, 'm) Machine \<Rightarrow> ('w, 'q, 'm) Idle \<Rightarrow> bool"
  for io rk rm m where
  start: "idle_reachable io rk rm m \<lparr>id_machine = m, id_phase = Working, id_pending = {}\<rparr>"
| move: "idle_reachable io rk rm m s \<Longrightarrow> idle_step io rk rm s s' \<Longrightarrow> idle_reachable io rk rm m s'"

section \<open>No input is slept through\<close>

definition queues_empty :: "('q, KeyboardScancode) Ring \<Rightarrow> ('m, MouseByte) Ring \<Rightarrow> ('w, 'q, 'm) Machine \<Rightarrow> bool" where
  "queues_empty rk rm m \<longleftrightarrow> keyboard_queue_is_empty rk (mc_keyboard m) \<and> mouse_queue_is_empty rm (mc_mouse m)"

text \<open>What each phase knows: the flag, and the queues as far as they were checked.\<close>

fun phase_inv :: "('q, KeyboardScancode) Ring \<Rightarrow> ('m, MouseByte) Ring \<Rightarrow> ShellPhase \<Rightarrow> ('w, 'q, 'm) Machine \<Rightarrow> bool" where
  "phase_inv rk rm Working m \<longleftrightarrow> mc_flag m"
| "phase_inv rk rm Disabled m \<longleftrightarrow> \<not> mc_flag m"
| "phase_inv rk rm (KeyboardChecked b) m \<longleftrightarrow> \<not> mc_flag m \<and> b = keyboard_queue_is_empty rk (mc_keyboard m)"
| "phase_inv rk rm (Checked b) m \<longleftrightarrow> \<not> mc_flag m \<and> b = queues_empty rk rm m"
| "phase_inv rk rm Halted m \<longleftrightarrow> mc_flag m \<and> queues_empty rk rm m"

abbreviation idle_inv :: "('q, KeyboardScancode) Ring \<Rightarrow> ('m, MouseByte) Ring \<Rightarrow> ('w, 'q, 'm) Idle \<Rightarrow> bool" where
  "idle_inv rk rm s \<equiv> phase_inv rk rm (id_phase s) (id_machine s)"

lemma handle_irq_flag [simp]: "mc_flag (handle_irq io rk rm irq m) = mc_flag m"
  by (cases irq) (auto simp: timer_handler_def keyboard_handler_def mouse_handler_def on_bus_def Let_def split: prod.splits)

lemma idle_next_inv: "idle_next rk rm s = Some s' \<Longrightarrow> idle_inv rk rm s \<Longrightarrow> idle_inv rk rm s'"
  by (cases "id_phase s") (auto simp: idle_next_def Let_def enable_and_hlt_def disable_interrupts_def enable_interrupts_def
      queues_empty_def split: if_splits)

lemma idle_step_inv: "idle_step io rk rm s s' \<Longrightarrow> idle_inv rk rm s \<Longrightarrow> idle_inv rk rm s'"
proof (induction rule: idle_step.induct)
  case (take_irq irq s)
  then show ?case by (cases "id_phase s") (auto simp: interrupts_enabled_def)
qed (auto intro: idle_next_inv)

lemma reachable_inv: "idle_reachable io rk rm m s \<Longrightarrow> mc_flag m \<Longrightarrow> idle_inv rk rm s"
  by (induction rule: idle_reachable.induct) (auto intro: idle_step_inv)

text \<open>A line stays raised until its interrupt is taken.\<close>

lemma idle_next_pending: "idle_next rk rm s = Some s' \<Longrightarrow> id_pending s' = id_pending s"
  by (cases "id_phase s") (auto simp: idle_next_def Let_def enable_and_hlt_def split: if_splits)

lemma pending_until_taken:
  assumes "idle_step io rk rm s s'" and "irq \<in> id_pending s" and "irq \<notin> id_pending s'"
  shows "interrupts_enabled (id_machine s) \<and> id_machine s' = handle_irq io rk rm irq (id_machine s)"
  using assms by (cases rule: idle_step.cases) (auto dest: idle_next_pending)

text \<open>The code switches interrupts on again after at most three more of its own steps.\<close>

lemma idle_next_enables:
  assumes "idle_inv rk rm s" and "\<not> interrupts_enabled (id_machine s)"
  shows "\<exists>n \<le> 3. \<exists>s'. ((\<lambda>r. Option.bind r (idle_next rk rm)) ^^ n) (Some s) = Some s' \<and> interrupts_enabled (id_machine s')"
proof (cases "id_phase s")
  case Disabled
  then show ?thesis by (intro exI [of _ 3]) (auto simp: numeral_eq_Suc idle_next_def Let_def enable_and_hlt_def enable_interrupts_def interrupts_enabled_def)
next
  case (KeyboardChecked b)
  then show ?thesis by (intro exI [of _ 2]) (auto simp: numeral_eq_Suc idle_next_def Let_def enable_and_hlt_def enable_interrupts_def interrupts_enabled_def)
next
  case (Checked b)
  then show ?thesis by (intro exI [of _ 1]) (auto simp: idle_next_def Let_def enable_and_hlt_def enable_interrupts_def interrupts_enabled_def)
qed (use assms in \<open>auto simp: interrupts_enabled_def\<close>)

text \<open>C28: the shell never sleeps through input. Whatever the devices do between its steps, when the processor is halted the
  interrupt flag is set and both input queues are empty; an interrupt that was raised before or during the sleep can be taken,
  a halted processor does nothing else, and taking it wakes the shell; a raised line is only cleared by running its handler;
  and when interrupts are off, the code switches them on within three of its own steps.\<close>

theorem idle_never_misses_input:
  assumes "idle_reachable io rk rm m s" and "mc_flag m"
  shows "(id_phase s = Halted \<longrightarrow> interrupts_enabled (id_machine s) \<and> queues_empty rk rm (id_machine s)) \<and>
    (\<forall>irq \<in> id_pending s. id_phase s = Halted \<longrightarrow>
       (\<exists>s'. idle_step io rk rm s s' \<and> id_phase s' = Working \<and> id_machine s' = handle_irq io rk rm irq (id_machine s))) \<and>
    (\<forall>s'. id_phase s = Halted \<longrightarrow> idle_step io rk rm s s' \<longrightarrow> id_machine s' = id_machine s \<and> id_phase s' = Halted \<or>
       (\<exists>irq \<in> id_pending s. id_machine s' = handle_irq io rk rm irq (id_machine s) \<and> id_phase s' = Working)) \<and>
    (\<forall>s' irq. idle_step io rk rm s s' \<longrightarrow> irq \<in> id_pending s - id_pending s' \<longrightarrow>
       id_machine s' = handle_irq io rk rm irq (id_machine s)) \<and>
    (\<not> interrupts_enabled (id_machine s) \<longrightarrow>
       (\<exists>n \<le> 3. \<exists>s'. ((\<lambda>r. Option.bind r (idle_next rk rm)) ^^ n) (Some s) = Some s' \<and> interrupts_enabled (id_machine s')))"
proof (intro conjI allI impI ballI)
  note inv = reachable_inv [OF assms]
  show "interrupts_enabled (id_machine s)" "queues_empty rk rm (id_machine s)" if "id_phase s = Halted"
    using inv that by (simp_all add: interrupts_enabled_def)
  show "\<exists>s'. idle_step io rk rm s s' \<and> id_phase s' = Working \<and> id_machine s' = handle_irq io rk rm irq (id_machine s)"
    if "irq \<in> id_pending s" "id_phase s = Halted" for irq
  proof -
    have "interrupts_enabled (id_machine s)" using inv that(2) by (simp add: interrupts_enabled_def)
    from idle_step.take_irq [OF that(1) this] that(2) show ?thesis by fastforce
  qed
  show "id_machine s' = id_machine s \<and> id_phase s' = Halted \<or>
      (\<exists>irq \<in> id_pending s. id_machine s' = handle_irq io rk rm irq (id_machine s) \<and> id_phase s' = Working)"
    if "id_phase s = Halted" "idle_step io rk rm s s'" for s'
    using that(2,1) by (cases rule: idle_step.cases) (auto simp: idle_next_def)
  show "id_machine s' = handle_irq io rk rm irq (id_machine s)"
    if "idle_step io rk rm s s'" "irq \<in> id_pending s - id_pending s'" for s' irq
    using pending_until_taken [OF that(1)] that(2) by simp
  show "\<exists>n \<le> 3. \<exists>s'. ((\<lambda>r. Option.bind r (idle_next rk rm)) ^^ n) (Some s) = Some s' \<and> interrupts_enabled (id_machine s')"
    if "\<not> interrupts_enabled (id_machine s)"
    by (rule idle_next_enables [OF inv that])
qed

text \<open>A key arrives after the keyboard queue was checked: the processor halts with the interrupt pending and wakes.\<close>

definition idle_machine :: "(unit, KeyboardScancode list, MouseByte list) Machine" where
  "idle_machine = \<lparr>mc_bus = \<lparr>bus_devices = (), bus_log = []\<rparr>, mc_flag = True, mc_idt = None, mc_tss = None, mc_hardware = True,
     mc_ticks = 0, mc_keyboard = \<lparr>kb_ring = Some [], kb_dropped = 0\<rparr>, mc_mouse = \<lparr>ms_ring = Some [], ms_dropped = 0\<rparr>\<rparr>"

lemma idle_never_misses_input_witness:
  "\<exists>s. idle_reachable eager_controller list_ring list_ring idle_machine s \<and>
     id_phase s = Halted \<and> id_pending s = {IrqKeyboard} \<and>
     (\<exists>s'. idle_step eager_controller list_ring list_ring s s' \<and> id_phase s' = Working)"
proof -
  let ?m = idle_machine
  let ?off = "?m\<lparr>mc_flag := False\<rparr>"
  have raised: "s' = s\<lparr>id_pending := insert IrqKeyboard (id_pending s)\<rparr> \<Longrightarrow> idle_step eager_controller list_ring list_ring s s'"
    for s s' :: "(unit, KeyboardScancode list, MouseByte list) Idle"
    using idle_step.raise by metis
  note idle = idle_machine_def idle_next_def disable_interrupts_def enable_interrupts_def enable_and_hlt_def list_ring_def
    keyboard_queue_is_empty_def mouse_queue_is_empty_def
  have "idle_reachable eager_controller list_ring list_ring ?m \<lparr>id_machine = ?off, id_phase = Disabled, id_pending = {}\<rparr>"
    by (rule idle_reachable.move [OF idle_reachable.start], rule idle_step.step) (simp add: idle)
  then have "idle_reachable eager_controller list_ring list_ring ?m \<lparr>id_machine = ?off, id_phase = KeyboardChecked True, id_pending = {}\<rparr>"
    by (rule idle_reachable.move, intro idle_step.step) (simp add: idle)
  then have "idle_reachable eager_controller list_ring list_ring ?m
      \<lparr>id_machine = ?off, id_phase = KeyboardChecked True, id_pending = {IrqKeyboard}\<rparr>"
    by (rule idle_reachable.move, intro raised) simp
  then have "idle_reachable eager_controller list_ring list_ring ?m
      \<lparr>id_machine = ?off, id_phase = Checked True, id_pending = {IrqKeyboard}\<rparr>"
    by (rule idle_reachable.move, intro idle_step.step) (simp add: idle)
  then have reach: "idle_reachable eager_controller list_ring list_ring ?m
      \<lparr>id_machine = ?m, id_phase = Halted, id_pending = {IrqKeyboard}\<rparr>" (is "idle_reachable _ _ _ _ ?s")
    by (rule idle_reachable.move, intro idle_step.step) (simp add: idle)
  moreover have "mc_flag ?m" by (simp add: idle_machine_def)
  note idle_never_misses_input [OF reach this, THEN conjunct2, THEN conjunct1, rule_format, of IrqKeyboard]
  ultimately show ?thesis by (intro exI [of _ ?s]) auto
qed

end
