(* ===== verification/Startup.thy ===== *)
theory Startup
  imports Shell Interrupts Heap
begin

text \<open>
  What runs before the loop of the shell, \<^verbatim>\<open>init\<close> in \<^verbatim>\<open>src/src/shell/mod.rs\<close>, and what the commands \<^verbatim>\<open>meminfo\<close>,
  \<^verbatim>\<open>taskinfo\<close> and \<^verbatim>\<open>uptime\<close> print about the other subsystems (\<^verbatim>\<open>src/src/memory.rs\<close>, \<^verbatim>\<open>src/src/task/mod.rs\<close>,
  \<^verbatim>\<open>src/src/timer/mod.rs\<close>). The features \<^verbatim>\<open>mouse\<close> and not \<^verbatim>\<open>profiling\<close> are on.
\<close>

section \<open>Reports\<close>

definition megabytes :: "u64 \<Rightarrow> string" where
  "megabytes n = decimal (unat (n div (1024 * 1024))) @ ''mb''"

definition meminfo :: "BootState \<Rightarrow> str list" where
  "meminfo boot = map lit (
     [''heap start: '' @ alternate_hex (heap_start boot),
      ''heap size:  '' @ megabytes (heap_size boot)] @
     (case memory_map boot of
        None \<Rightarrow> []
      | Some snapshot \<Rightarrow>
         (let summary = snapshot_summary snapshot in
          [''memory ranges: '' @ decimal (sum_ranges summary),
           ''usable:        '' @ megabytes (usable_bytes summary),
           ''kernel-owned:  '' @ megabytes (kernel_bytes summary),
           ''firmware:      '' @ megabytes (firmware_bytes summary),
           ''acpi:           '' @ megabytes (acpi_bytes summary),
           ''device/mmio:    '' @ megabytes (device_bytes summary),
           ''runtime:        '' @ megabytes (runtime_bytes summary),
           ''reserved:       '' @ megabytes (reserved_bytes summary),
           ''unusable:       '' @ megabytes (unusable_bytes summary)] @
          (case frame_allocator boot of
             None \<Rightarrow> []
           | Some frames \<Rightarrow>
              (let stats = frame_stats frames in
               [''frames total:   '' @ decimal (unat (st_total_frames stats)),
                ''frames free:    '' @ decimal (unat (st_free_frames stats)),
                ''frame ranges:   '' @ decimal (st_free_ranges stats)])))))"

definition taskinfo :: "'w Scheduler \<Rightarrow> str list" where
  "taskinfo scheduler = map lit (
     let stats = scheduler_stats scheduler in
     [''task slots:  '' @ decimal (ss_task_count stats) @ '' / '' @ decimal MAX_TASKS,
      ''ready:       '' @ decimal (ss_ready stats),
      ''sleeping:    '' @ decimal (ss_sleeping stats),
      ''blocked:     '' @ decimal (ss_blocked stats),
      ''running:     '' @ decimal (ss_running stats),
      ''finished:    '' @ decimal (ss_finished stats),
      ''cancelled:   '' @ decimal (ss_cancelled stats)])"

definition uptime :: "u64 \<Rightarrow> str" where
  "uptime ticks = lit (format_uptime (uptime_ms ticks))"

text \<open>The reports of a running kernel, which the commands of the shell print.\<close>

fun kernel_reports :: "BootState \<Rightarrow> 'w Scheduler \<Rightarrow> u64 \<Rightarrow> Effect \<Rightarrow> str list" where
  "kernel_reports boot scheduler ticks PrintMeminfo = meminfo boot"
| "kernel_reports boot scheduler ticks PrintTaskinfo = taskinfo scheduler"
| "kernel_reports boot scheduler ticks PrintUptime = [uptime ticks]"
| "kernel_reports boot scheduler ticks _ = []"

section \<open>Before the loop\<close>

definition console_clear_background :: "console \<Rightarrow> console" where
  "console_clear_background s =
     (case fst s of None \<Rightarrow> s | Some w \<Rightarrow> (Some w, clear_background (kw_fb w) BLACK (snd s)))"

text \<open>\<open>unwrap\<close> of a spawned task panics when there is no free slot.\<close>

definition spawn_unwrapped :: "('w \<Rightarrow> TaskAction \<times> 'w) \<Rightarrow> 'w Scheduler \<Rightarrow> 'w Scheduler option" where
  "spawn_unwrapped entry s = (case spawn s entry of (Inl _, s') \<Rightarrow> None | (Inr _, s') \<Rightarrow> Some s')"

definition startup_tasks ::
  "Font \<Rightarrow> (nat \<Rightarrow> usize) \<Rightarrow> usize \<Rightarrow> u64 \<Rightarrow> ('q, 'k, 'p) Shell \<Rightarrow> ('q, 'k, 'p) Shell option" where
  "startup_tasks font stacks trampoline now s = do {
     scheduler \<leftarrow> spawn_unwrapped (task_one font) (sh_scheduler s);
     scheduler \<leftarrow> spawn_unwrapped (task_two font) scheduler;
     (case run_ready stacks trampoline scheduler (sh_counts s, sh_console s) now 10 of
        (r, scheduler, counts, c) \<Rightarrow>
          Some (s\<lparr>sh_scheduler := scheduler, sh_counts := counts,
                  sh_console := (case r of Inr _ \<Rightarrow> c | Inl e \<Rightarrow> kprintln font (error_text e) c)\<rparr>))
   }"

text \<open>The bus is that of the interrupt controllers.\<close>

definition shell_init ::
  "'w Ports \<Rightarrow> Font \<Rightarrow> (nat \<Rightarrow> usize) \<Rightarrow> usize \<Rightarrow> u64 \<Rightarrow> 'w Bus \<times> ('q, 'k, 'p) Shell \<Rightarrow>
   ('w Bus \<times> ('q, 'k, 'p) Shell) option" where
  "shell_init io font stacks trampoline now s = do {
     let (bus, shell) = s;
     let shell = shell\<lparr>sh_console := console_clear_background (sh_console shell)\<rparr>;
     shell \<leftarrow> startup_tasks font stacks trampoline now shell;
     let shell = shell\<lparr>sh_line := [], sh_mouse := (sh_mouse shell)\<lparr>mouse_x := 0, mouse_y := 0\<rparr>\<rparr>;
     c \<leftarrow> draw_cursor font (kprint font prompt (sh_console shell));
     Some (pic_enable_mouse io bus, shell\<lparr>sh_console := c\<rparr>)
   }"

section \<open>Reports as log lines\<close>

lemma lit_clean: "CHR 0x0a \<notin> set t \<Longrightarrow> 10 \<notin> set (lit t)"
proof
  assume a: "CHR 0x0a \<notin> set t" "10 \<in> set (lit t)"
  then obtain c where "c \<in> set t" "of_char c = (10 :: nat)" by (auto simp: lit_def)
  moreover have "of_char (CHR 0x0a) = (10 :: nat)" by simp
  ultimately have "CHR 0x0a \<in> set t" using of_char_eq_iff [where ?'a = nat] by metis
  then show False using a(1) by simp
qed

lemma decimal_clean [simp]: "CHR 0x0a \<notin> set (decimal n)"
proof
  assume "CHR 0x0a \<in> set (decimal n)"
  then obtain d where "d < 10" "CHR 0x0a = char_of (48 + d :: nat)" using decimal_digits by (auto simp: is_digit_def)
  then have "of_char (CHR 0x0a) = (of_char (char_of (48 + d :: nat)) :: nat)" by simp
  then show False using \<open>d < 10\<close> by (simp add: of_char_of)
qed

lemma hex_text_clean [simp]: "CHR 0x0a \<notin> set (hex_text n)"
proof (induction n rule: hex_text.induct)
  case (1 n)
  have "CHR 0x0a \<noteq> ''0123456789abcdef'' ! k" if "k < 16" for k
    using that by (simp add: less_Suc_eq numeral_eq_Suc) auto
  then show ?case using 1 by (subst hex_text.simps) auto
qed

text \<open>A report adds exactly its lines to the log of the shell.\<close>

lemma report_lines:
  "effect_lines (kernel_reports boot scheduler ticks) PrintMeminfo = meminfo boot"
  "effect_lines (kernel_reports boot scheduler ticks) PrintTaskinfo = taskinfo scheduler"
  "effect_lines (kernel_reports boot scheduler ticks) PrintUptime = [uptime ticks]"
proof -
  have lines: "concat (map printed ls) = ls" if "\<forall>l \<in> set ls. 10 \<notin> set l" for ls
    using that by (induction ls) (simp_all add: printed_plain)
  have "\<forall>l \<in> set (meminfo boot). 10 \<notin> set l"
    by (auto simp: meminfo_def megabytes_def alternate_hex_def Let_def split: option.splits intro!: lit_clean)
  moreover have "\<forall>l \<in> set (taskinfo scheduler). 10 \<notin> set l"
    by (auto simp: taskinfo_def Let_def intro!: lit_clean)
  moreover have "10 \<notin> set (uptime ticks)"
    unfolding uptime_def by (rule lit_clean) (simp add: format_uptime_def Let_def)
  ultimately show "effect_lines (kernel_reports boot scheduler ticks) PrintMeminfo = meminfo boot"
    "effect_lines (kernel_reports boot scheduler ticks) PrintTaskinfo = taskinfo scheduler"
    "effect_lines (kernel_reports boot scheduler ticks) PrintUptime = [uptime ticks]"
    by (simp_all add: lines printed_plain)
qed

section \<open>The startup tasks\<close>

text \<open>The scheduler of the two tasks, in the states \<open>a\<close> and \<open>b\<close>, with the scan beginning at \<open>n\<close>.\<close>

definition two_tasks :: "Font \<Rightarrow> TaskState \<Rightarrow> TaskState \<Rightarrow> nat \<Rightarrow> TaskWorld Scheduler \<Rightarrow> bool" where
  "two_tasks font a b n s \<longleftrightarrow> scheduler_inv s \<and> sc_next s = n \<and>
     sc_tasks s ! 0 = Some \<lparr>tk_entry = task_one font, tk_state = a\<rparr> \<and>
     sc_tasks s ! 1 = Some \<lparr>tk_entry = task_two font, tk_state = b\<rparr> \<and> (\<forall>i < MAX_TASKS. 2 \<le> i \<longrightarrow> sc_tasks s ! i = None)"

definition awake :: "TaskState \<Rightarrow> bool" where
  "awake a \<longleftrightarrow> (\<forall>u. a \<noteq> Sleeping u)"

lemma wake_task_awake: "awake (tk_state t) \<Longrightarrow> wake_task now t = t"
  by (cases "tk_state t") (auto simp: awake_def wake_task_def)

lemma two_tasks_wake:
  assumes "two_tasks font a b n s" and "awake a" and "awake b"
  shows "two_tasks font a b n (wake_expired s now)"
proof -
  have inv: "scheduler_inv s" using assms(1) by (simp add: two_tasks_def)
  have "sc_tasks (wake_expired s now) ! i = sc_tasks s ! i" if "i < MAX_TASKS" for i
  proof (cases "sc_tasks s ! i")
    case (Some t)
    then have "awake (tk_state t)" using assms that by (cases "i = 0"; cases "i = 1") (auto simp: two_tasks_def)
    then show ?thesis using Some by (simp add: wake_expired_nth [OF inv that] wake_task_awake)
  qed (simp add: wake_expired_nth [OF inv that])
  then show ?thesis using assms(1) by (simp add: two_tasks_def wake_expired_inv MAX_TASKS_def)
qed

lemma two_tasks_ready:
  assumes "two_tasks font a b n s" and "i < MAX_TASKS"
  shows "is_ready (sc_tasks s ! i) \<longleftrightarrow> i = 0 \<and> a = Ready \<or> i = 1 \<and> b = Ready"
  using assms by (cases "i = 0"; cases "i = 1") (auto simp: two_tasks_def is_ready_def)

lemma two_tasks_next:
  assumes "two_tasks font a b n s" and "n < MAX_TASKS"
  shows "n \<in> {0, 2} \<Longrightarrow> a = Ready \<Longrightarrow> find_next_ready s = Some 0" and "n = 1 \<Longrightarrow> b = Ready \<Longrightarrow> find_next_ready s = Some 1"
    and "a \<noteq> Ready \<Longrightarrow> b \<noteq> Ready \<Longrightarrow> find_next_ready s = None"
proof -
  have nx: "sc_next s = n" using assms(1) by (simp add: two_tasks_def)
  note ready = two_tasks_ready [OF assms(1)]
  show "find_next_ready s = Some 0" if "n \<in> {0, 2}" "a = Ready"
    using that assms(2) ready by (subst find_next_ready_Some) (auto simp: nx ring_distance_def MAX_TASKS_def)
  show "find_next_ready s = Some 1" if "n = 1" "b = Ready"
    using that assms(2) ready by (subst find_next_ready_Some) (auto simp: nx ring_distance_def MAX_TASKS_def)
  show "find_next_ready s = None" if "a \<noteq> Ready" "b \<noteq> Ready"
    using that assms(2) ready by (subst find_next_ready_None) (auto simp: nx)
qed

lemma run_first:
  assumes "two_tasks font Ready b n s" and "n \<in> {0, 2}" and "awake b"
  shows "\<exists>id s'. run_next sb tr s w now = (Inr (Some id), s', snd (task_one font w)) \<and>
    two_tasks font (state_after (fst (task_one font w)) now) b 1 s'"
proof -
  let ?s = "wake_expired s now"
  have two: "two_tasks font Ready b n ?s" using two_tasks_wake [OF assms(1) _ assms(3)] by (simp add: awake_def)
  have "n < MAX_TASKS" using assms(2) by (auto simp: MAX_TASKS_def)
  then have next0: "find_next_ready ?s = Some 0" using two_tasks_next(1) [OF two] assms(2) by simp
  have inv: "scheduler_inv s" "scheduler_inv ?s" using assms(1) two by (simp_all add: two_tasks_def)
  then show ?thesis using two
    by (auto simp: run_next_eq Let_def next0 two_tasks_def dispatched_tasks dispatched_inv MAX_TASKS_def)
qed

lemma run_second:
  assumes "two_tasks font a Ready 1 s" and "awake a"
  shows "\<exists>id s'. run_next sb tr s w now = (Inr (Some id), s', snd (task_two font w)) \<and>
    two_tasks font a (state_after (fst (task_two font w)) now) 2 s'"
proof -
  let ?s = "wake_expired s now"
  have two: "two_tasks font a Ready 1 ?s" using two_tasks_wake [OF assms] by (simp add: awake_def)
  have next1: "find_next_ready ?s = Some 1" using two_tasks_next(2) [OF two] by (simp add: MAX_TASKS_def)
  have inv: "scheduler_inv s" "scheduler_inv ?s" using assms(1) two by (simp_all add: two_tasks_def)
  then show ?thesis using two
    by (auto simp: run_next_eq Let_def next1 two_tasks_def dispatched_tasks dispatched_inv MAX_TASKS_def)
qed

text \<open>The lines of the runs from \<open>k\<close> up to but not including \<open>n\<close>.\<close>

definition startup_lines :: "nat \<Rightarrow> nat \<Rightarrow> str list" where
  "startup_lines k n = concat (map (\<lambda>i. [task_ran 1 (of_nat i), task_ran 2 (of_nat i)]) [k..<n])"

lemma startup_lines_Suc: "k < n \<Longrightarrow> startup_lines k n = task_ran 1 (of_nat k) # task_ran 2 (of_nat k) # startup_lines (Suc k) n"
  by (simp add: startup_lines_def upt_rec [of k n])

lemma startup_lines_same [simp]: "startup_lines n n = []"
  by (simp add: startup_lines_def)

lemma task_ran_clean: "10 \<notin> set (task_ran n i)"
  using lit_clean [of "''Task '' @ decimal n @ '' ran: #'' @ decimal (unat i)"] by (simp add: task_ran_def lit_def)

lemma startup_lines_clean: "l \<in> set (startup_lines k n) \<Longrightarrow> 10 \<notin> set l"
  by (auto simp: startup_lines_def task_ran_clean)

text \<open>The runs number \<open>k\<close> to \<open>n - 1\<close> of both tasks.\<close>

lemma run_ready_pairs:
  assumes "two_tasks font Ready Ready b s" and "b \<in> {0, 2}" and "k \<le> n" and "n \<le> 10" and "d + 2 * (n - k) \<le> budget"
  shows "\<exists>s'. run_ready_loop sb tr s ((of_nat k, of_nat k), c) now budget d =
      run_ready_loop sb tr s' ((of_nat n, of_nat n), fold (kprintln font) (startup_lines k n) c) now budget (d + 2 * (n - k)) \<and>
    two_tasks font Ready Ready (if k = n then b else 2) s'"
  using assms
proof (induction "n - k" arbitrary: k b s c d)
  case 0
  then show ?case by auto
next
  case (Suc x)
  then have k: "k < n" "k < 10" "d + 1 < budget" by simp_all
  have small: "\<not> (of_nat k :: usize) \<ge> 10" using k(2) by (simp add: word_le_nat_alt unat_of_nat)
  have r: "awake Ready" by (simp add: awake_def)
  let ?c1 = "kprintln font (task_ran 1 (of_nat k)) c"
  obtain id1 s1 where s1: "run_next sb tr s ((of_nat k, of_nat k), c) now = (Inr (Some id1), s1, (of_nat (Suc k), of_nat k), ?c1)"
    "two_tasks font Ready Ready 1 s1"
    using run_first [OF Suc.prems(1,2) r, of sb tr "((of_nat k, of_nat k), c)" now] small by (auto simp: add.commute)
  obtain id2 s2 where s2: "run_next sb tr s1 ((of_nat (Suc k), of_nat k), ?c1) now =
      (Inr (Some id2), s2, (of_nat (Suc k), of_nat (Suc k)), kprintln font (task_ran 2 (of_nat k)) ?c1)"
    "two_tasks font Ready Ready 2 s2"
    using run_second [OF s1(2) r, of sb tr "((of_nat (Suc k), of_nat k), ?c1)" now] small by (auto simp: add.commute)
  have "run_ready_loop sb tr s ((of_nat k, of_nat k), c) now budget d =
      run_ready_loop sb tr s2 ((of_nat (Suc k), of_nat (Suc k)), kprintln font (task_ran 2 (of_nat k)) ?c1) now budget (d + 2)"
    using k(3) s1(1) s2(1) by (simp add: run_ready_loop.simps [of _ _ s] run_ready_loop.simps [of _ _ s1])
  moreover have "x = n - Suc k" "Suc k \<le> n" "d + 2 + 2 * (n - Suc k) \<le> budget" "d + 2 * (n - k) = d + 2 + 2 * (n - Suc k)"
    using Suc.hyps(2) Suc.prems(5) k(1) by simp_all
  ultimately show ?case
    using Suc.hyps(1) [of "Suc k", OF _ s2(2), of "d + 2" "kprintln font (task_ran 2 (of_nat k)) ?c1"] Suc.prems(4) k(1)
    by (simp add: startup_lines_Suc)
qed

text \<open>When both counters have reached ten, both tasks exit.\<close>

lemma run_ready_exits:
  assumes "two_tasks font Ready Ready b s" and "b \<in> {0, 2}" and "d + 2 < budget" and "w = ((10, 10), c)"
  shows "\<exists>s'. run_ready_loop sb tr s w now budget d = (Inr (d + 2), s', (11, 11), c) \<and> two_tasks font Finished Finished 2 s'"
proof -
  have r: "awake Ready" "awake Finished" by (simp_all add: awake_def)
  obtain id1 s1 where s1: "run_next sb tr s w now = (Inr (Some id1), s1, (11, 10), c)" "two_tasks font Finished Ready 1 s1"
    using run_first [OF assms(1,2) r(1), of sb tr w now] by (auto simp: assms(4))
  obtain id2 s2 where s2: "run_next sb tr s1 ((11, 10), c) now = (Inr (Some id2), s2, (11, 11), c)" "two_tasks font Finished Finished 2 s2"
    using run_second [OF s1(2) r(2), of sb tr "((11, 10), c)" now] by auto
  let ?s3 = "wake_expired s2 now"
  have "two_tasks font Finished Finished 2 ?s3" by (rule two_tasks_wake [OF s2(2) r(2,2)])
  moreover from this have "find_next_ready ?s3 = None" by (intro two_tasks_next(3)) (auto simp: MAX_TASKS_def)
  moreover have "scheduler_inv s2" using s2(2) by (simp add: two_tasks_def)
  ultimately show ?thesis using s1(1) s2(1) assms(3)
    by (simp add: run_ready_loop.simps [of _ _ s] run_ready_loop.simps [of _ _ s1] run_ready_loop.simps [of _ _ s2] run_next_eq)
qed

lemma spawned_two:
  "\<exists>s1 s2. spawn_unwrapped (task_one font) scheduler_new = Some s1 \<and> spawn_unwrapped (task_two font) s1 = Some s2 \<and>
     two_tasks font Ready Ready 0 s2"
proof -
  have n: "MAX_TASKS = Suc (Suc 62)" by (simp add: MAX_TASKS_def)
  obtain r1 s1 where s1: "spawn scheduler_new (task_one font) = (r1, s1)" by fastforce
  then have inv1: "scheduler_inv s1" by (rule spawn_inv [OF scheduler_new_inv])
  have t1: "sc_tasks s1 = (replicate MAX_TASKS None)[0 := Some \<lparr>tk_entry = task_one font, tk_state = Ready\<rparr>]" "sc_next s1 = 0"
    "r1 = Inr \<lparr>ti_index = 0, ti_generation = next_generation 0\<rparr>"
    using s1 by (auto simp: spawn_def scheduler_new_def n upt_rec [of 0] Option.is_none_def Let_def)
  obtain r2 s2 where s2: "spawn s1 (task_two font) = (r2, s2)" by fastforce
  then have inv2: "scheduler_inv s2" by (rule spawn_inv [OF inv1])
  have len: "length (sc_tasks s1) = MAX_TASKS" using inv1 by (simp add: scheduler_inv_def)
  have "find (\<lambda>i. Option.is_none (sc_tasks s1 ! i)) [0..<MAX_TASKS] = Some 1"
    unfolding t1 n by (simp add: upt_rec [of 0] upt_rec [of "Suc 0"] Option.is_none_def)
  then have t2: "sc_tasks s2 = (sc_tasks s1)[1 := Some \<lparr>tk_entry = task_two font, tk_state = Ready\<rparr>]" "sc_next s2 = 0"
    "\<exists>t. r2 = Inr t"
    using s2 t1(2) by (auto simp: spawn_def len Let_def)
  have "two_tasks font Ready Ready 0 s2"
    using inv2 t1 t2 by (auto simp: two_tasks_def nth_list_update MAX_TASKS_def)
  with s1 s2 t1(3) t2(3) show ?thesis by (auto simp: spawn_unwrapped_def)
qed

text \<open>What the console shows: completed lines and the line in progress.\<close>

definition console_shows :: "Framebuffer \<Rightarrow> RasterHeight \<Rightarrow> str list \<Rightarrow> str \<Rightarrow> console \<Rightarrow> bool" where
  "console_shows fb height ls cur c \<longleftrightarrow>
     (\<exists>w m. c = (Some w, m) \<and> kw_fb w = fb \<and> kw_font_size w = height \<and> kw_history w = ls \<and> current_line w = cur)"

lemma console_shows_kprint:
  assumes "console_shows fb h ls cur c"
  shows "console_shows fb h (ls @ fst (write_lines t ([], cur))) (snd (write_lines t ([], cur))) (kprint font t c)"
proof -
  obtain w m where w: "c = (Some w, m)" "kw_fb w = fb" "kw_font_size w = h" "kw_history w = ls" "current_line w = cur"
    using assms by (auto simp: console_shows_def)
  then have "console_after w [] cur c" by (simp add: console_after_def)
  from console_after_print [OF this, of t font] w show ?thesis by (auto simp: console_after_def console_shows_def)
qed

lemma console_shows_println:
  assumes "console_shows fb h ls cur c" and "10 \<notin> set t"
  shows "console_shows fb h (ls @ [cur @ t]) [] (kprintln font t c)"
proof -
  have "write_lines (t @ [10]) ([], cur) = ([cur @ t], [])"
    using write_lines_plain [OF assms(2), of "[]" cur] by (simp add: write_lines_def)
  then show ?thesis using console_shows_kprint [OF assms(1), of "t @ [10]" font] by (simp add: kprintln_def)
qed

lemma console_shows_fold:
  assumes "console_shows fb h ls [] c" and "\<forall>t \<in> set ts. 10 \<notin> set t"
  shows "console_shows fb h (ls @ ts) [] (fold (kprintln font) ts c)"
  using assms
proof (induction ts arbitrary: ls c)
  case (Cons t ts)
  from Cons.IH [OF console_shows_println [OF Cons.prems(1), of t font]] Cons.prems(2) show ?case by simp
qed simp

lemma console_shows_cursor:
  assumes "console_shows fb h ls cur c" and "font_w font h \<noteq> 0"
  shows "\<exists>c'. draw_cursor font c = Some c' \<and> console_shows fb h ls cur c'"
proof -
  obtain w m where w: "c = (Some w, m)" "kw_fb w = fb" "kw_font_size w = h" "kw_history w = ls" "current_line w = cur"
    using assms(1) by (auto simp: console_shows_def)
  with cursor_runs(2) [of font w m] assms(2) show ?thesis by (auto simp: console_shows_def)
qed

lemma startup_tasks_shows:
  assumes "sh_scheduler s = scheduler_new" and "sh_counts s = (1, 1)" and "console_shows fb h ls [] (sh_console s)"
  shows "\<exists>s1. startup_tasks font sb tr now s = Some s1 \<and> two_tasks font Ready Ready 2 (sh_scheduler s1) \<and> sh_counts s1 = (6, 6) \<and>
    console_shows fb h (ls @ startup_lines 1 6) [] (sh_console s1)"
proof -
  obtain a b where spawned: "spawn_unwrapped (task_one font) scheduler_new = Some a" "spawn_unwrapped (task_two font) a = Some b"
    "two_tasks font Ready Ready 0 b" using spawned_two by blast
  from run_ready_pairs [OF spawned(3), of 1 6 0 10 sb tr "sh_console s" now] obtain b1 where
    loop: "run_ready_loop sb tr b ((1, 1), sh_console s) now 10 0 =
      run_ready_loop sb tr b1 ((6, 6), fold (kprintln font) (startup_lines 1 6) (sh_console s)) now 10 10"
    "two_tasks font Ready Ready 2 b1" by auto
  then have "run_ready sb tr b (sh_counts s, sh_console s) now 10 =
      (Inr 10, b1, (6, 6), fold (kprintln font) (startup_lines 1 6) (sh_console s))"
    by (simp add: run_ready_def assms(2) run_ready_loop.simps [of _ _ b1])
  moreover have "console_shows fb h (ls @ startup_lines 1 6) [] (fold (kprintln font) (startup_lines 1 6) (sh_console s))"
    using assms(3) by (rule console_shows_fold) (simp add: startup_lines_clean)
  ultimately show ?thesis using spawned(1,2) loop(2) by (simp add: startup_tasks_def assms(1))
qed

text \<open>A turn of the loop prints four lines of each task, the first one behind the line in progress.\<close>

lemma run_tasks_shows:
  assumes "two_tasks font Ready Ready 2 (sh_scheduler s)" and "sh_counts s = (6, 6)" and "console_shows fb h ls cur (sh_console s)"
  shows "two_tasks font Ready Ready 2 (sh_scheduler (run_tasks font sb tr now s)) \<and> sh_counts (run_tasks font sb tr now s) = (10, 10) \<and>
    console_shows fb h (ls @ (cur @ hd (startup_lines 6 10)) # tl (startup_lines 6 10)) [] (sh_console (run_tasks font sb tr now s))"
proof -
  from run_ready_pairs [OF assms(1), of 6 10 0 8 sb tr "sh_console s" now] obtain b1 where
    loop: "run_ready_loop sb tr (sh_scheduler s) ((6, 6), sh_console s) now 8 0 =
      run_ready_loop sb tr b1 ((10, 10), fold (kprintln font) (startup_lines 6 10) (sh_console s)) now 8 8"
    "two_tasks font Ready Ready 2 b1" by auto
  have run: "run_ready sb tr (sh_scheduler s) (sh_counts s, sh_console s) now TASK_BUDGET =
      (Inr 8, b1, (10, 10), fold (kprintln font) (startup_lines 6 10) (sh_console s))"
    using loop(1) by (simp add: run_ready_def assms(2) TASK_BUDGET_def run_ready_loop.simps [of _ _ b1])
  obtain t ts where ts: "startup_lines 6 10 = t # ts" by (simp add: startup_lines_Suc)
  then have clean: "10 \<notin> set t" "\<forall>l \<in> set ts. 10 \<notin> set l" using startup_lines_clean [of _ 6 10] by auto
  have "console_shows fb h (ls @ (cur @ t) # ts) [] (fold (kprintln font) (startup_lines 6 10) (sh_console s))"
    using console_shows_fold [OF console_shows_println [OF assms(3) clean(1)] clean(2)] by (simp add: ts)
  then show ?thesis using loop(2) by (simp add: run_tasks_def run ts)
qed

lemma run_tasks_exits:
  assumes "two_tasks font Ready Ready 2 (sh_scheduler s)" and "sh_counts s = (10, 10)"
  shows "two_tasks font Finished Finished 2 (sh_scheduler (run_tasks font sb tr now s)) \<and>
    sh_console (run_tasks font sb tr now s) = sh_console s"
proof -
  from run_ready_exits [OF assms(1), of 0 8 "(sh_counts s, sh_console s)" "sh_console s" sb tr now] assms(2) obtain b1 where
    "run_ready sb tr (sh_scheduler s) (sh_counts s, sh_console s) now TASK_BUDGET = (Inr 2, b1, (11, 11), sh_console s)"
    "two_tasks font Finished Finished 2 b1" by (auto simp: run_ready_def TASK_BUDGET_def numeral_2_eq_2)
  then show ?thesis by (simp add: run_tasks_def)
qed

lemma shell_init_shows:
  assumes "sh_scheduler s = scheduler_new" and "sh_counts s = (1, 1)" and "console_shows fb h ls [] (sh_console s)"
    and "font_w font h \<noteq> 0"
  shows "\<exists>s1. shell_init io font sb tr now (bus, s) = Some (pic_enable_mouse io bus, s1) \<and> sh_line s1 = [] \<and>
    console_shows fb h (ls @ startup_lines 1 6) prompt (sh_console s1) \<and>
    (let s2 = run_tasks font sb tr now2 s1; s3 = run_tasks font sb tr now3 s2 in
      console_shows fb h (ls @ startup_lines 1 6 @ (prompt @ hd (startup_lines 6 10)) # tl (startup_lines 6 10)) [] (sh_console s2) \<and>
      sh_console s3 = sh_console s2 \<and> two_tasks font Finished Finished 2 (sh_scheduler s3))"
proof -
  let ?s = "s\<lparr>sh_console := console_clear_background (sh_console s)\<rparr>"
  have "console_shows fb h ls [] (sh_console ?s)" using assms(3) by (auto simp: console_shows_def console_clear_background_def)
  then obtain s0 where s0: "startup_tasks font sb tr now ?s = Some s0" "two_tasks font Ready Ready 2 (sh_scheduler s0)"
    "sh_counts s0 = (6, 6)" "console_shows fb h (ls @ startup_lines 1 6) [] (sh_console s0)"
    using startup_tasks_shows [of ?s fb h ls font sb tr now] assms(1,2) by auto
  have "write_lines prompt ([], []) = ([], prompt)" using write_lines_plain [OF prompt_clean, of "[]" "[]"] by simp
  then have "console_shows fb h (ls @ startup_lines 1 6) prompt (kprint font prompt (sh_console s0))"
    using console_shows_kprint [OF s0(4), of prompt font] by simp
  then obtain c where c: "draw_cursor font (kprint font prompt (sh_console s0)) = Some c"
    "console_shows fb h (ls @ startup_lines 1 6) prompt c"
    using console_shows_cursor [OF _ assms(4)] by blast
  let ?s1 = "s0\<lparr>sh_line := [], sh_mouse := (sh_mouse s0)\<lparr>mouse_x := 0, mouse_y := 0\<rparr>, sh_console := c\<rparr>"
  have "shell_init io font sb tr now (bus, s) = Some (pic_enable_mouse io bus, ?s1)"
    using s0(1) c(1) by (simp add: shell_init_def Let_def)
  moreover note run_tasks_shows [of font ?s1 fb h "ls @ startup_lines 1 6" prompt sb tr now2]
    and run_tasks_exits [of font "run_tasks font sb tr now2 ?s1" sb tr now3]
  ultimately show ?thesis using s0 c(2) by (intro exI [of _ ?s1]) (simp add: Let_def)
qed

text \<open>C29: the startup of the shell. From an empty scheduler, both tasks run five times, in turn, before the prompt is the line
  in progress and the mouse interrupt is enabled. In the first turn of the loop both run four more times, the first line
  behind the prompt, which becomes part of the log and is not printed again; in the second turn both exit and print nothing.\<close>

theorem startup_tasks_run:
  assumes "sh_scheduler s = scheduler_new" and "sh_counts s = (1, 1)" and "console_shows fb h ls [] (sh_console s)"
    and "font_w font h \<noteq> 0"
  shows "\<exists>s1. shell_init io font sb tr now (bus, s) = Some (pic_enable_mouse io bus, s1) \<and> sh_line s1 = [] \<and>
    console_shows fb h (ls @ startup_lines 1 6) prompt (sh_console s1) \<and>
    (let s2 = run_tasks font sb tr now2 s1; s3 = run_tasks font sb tr now3 s2 in
      console_shows fb h (ls @ startup_lines 1 6 @ (prompt @ hd (startup_lines 6 10)) # tl (startup_lines 6 10)) [] (sh_console s2) \<and>
      sh_console s3 = sh_console s2 \<and> two_tasks font Finished Finished 2 (sh_scheduler s3))"
  by (rule shell_init_shows [OF assms])

definition startup_shell :: "(unit, unit, unit) Shell" where
  "startup_shell = \<lparr>sh_console = (Some (console_init wide_screen), \<lambda>_. 0), sh_line = [],
     sh_mouse = \<lparr>mouse_x = 0, mouse_y = 0, mouse_cursor = initial_cursor\<rparr>,
     sh_keyboard = \<lparr>key_queue = \<lparr>kb_ring = None, kb_dropped = 0\<rparr>, key_decoder = (), key_ctrl_held = False\<rparr>,
     sh_mouse_queue = \<lparr>ms_ring = None, ms_dropped = 0\<rparr>, sh_packet = initial_packet_state, sh_counts = (1, 1),
     sh_scheduler = scheduler_new\<rparr>"

lemma startup_tasks_run_witness:
  "\<exists>s1. shell_init eager_controller plain_font (\<lambda>i. of_nat (16384 * i)) 4096 0 (\<lparr>bus_devices = (), bus_log = []\<rparr>, startup_shell) =
      Some (pic_enable_mouse eager_controller \<lparr>bus_devices = (), bus_log = []\<rparr>, s1) \<and>
    console_shows wide_screen Size16 (startup_lines 1 6) prompt (sh_console s1)"
proof -
  have "console_shows wide_screen Size16 [] [] (sh_console startup_shell)"
    by (simp add: startup_shell_def console_shows_def console_init_def)
  moreover have "font_w plain_font Size16 \<noteq> 0" by (simp add: plain_font_def font_w_def)
  ultimately show ?thesis
    using startup_tasks_run [of startup_shell wide_screen Size16 "[]" plain_font eager_controller "\<lambda>i. of_nat (16384 * i)" 4096 0
        "\<lparr>bus_devices = (), bus_log = []\<rparr>"]
    by (auto simp: startup_shell_def)
qed

end
