(* ===== verification/Probes.thy ===== *)
theory Probes
  imports Interrupts
begin

text \<open>
  The markers that the QEMU smoke-test builds write to the debug port, \<^verbatim>\<open>src/src/input_smoke.rs\<close>,
  \<^verbatim>\<open>src/src/timer_smoke.rs\<close> and \<^verbatim>\<open>src/src/fault_smoke.rs\<close>, with the queue operation and the handler that call them under
  their feature, and the string length shim of \<^verbatim>\<open>src/src/uefi_compat.rs\<close>. The smoke tests are release builds, where
  machine arithmetic wraps.
\<close>

section \<open>The debug port\<close>

definition DEBUG_PORT :: u16 where "DEBUG_PORT = 0xe9"

definition write_byte :: "'w Ports \<Rightarrow> u8 \<Rightarrow> 'w Bus \<Rightarrow> 'w Bus" where
  "write_byte io byte b = outb io byte DEBUG_PORT b"

definition hex_digit :: "u8 \<Rightarrow> u8" where
  "hex_digit n = of_char (''0123456789abcdef'' ! unat n)"

definition write_hex :: "'w Ports \<Rightarrow> u8 \<Rightarrow> 'w Bus \<Rightarrow> 'w Bus" where
  "write_hex io byte b =
     write_byte io (hex_digit (byte AND 0x0f)) (write_byte io (hex_digit (drop_bit 4 byte)) b)"

definition probe_trace :: "'w Ports \<Rightarrow> char \<Rightarrow> u8 \<Rightarrow> 'w Bus \<Rightarrow> 'w Bus" where
  "probe_trace io tag byte b = write_byte io 10 (write_hex io byte (write_byte io (of_char tag) b))"

definition marker :: "'w Ports \<Rightarrow> char \<Rightarrow> 'w Bus \<Rightarrow> 'w Bus" where
  "marker io c b = write_byte io 10 (write_byte io (of_char c) b)"

definition probe_ready :: "'w Ports \<Rightarrow> 'w Bus \<Rightarrow> 'w Bus" where
  "probe_ready io = marker io (CHR ''R'')"

definition keyboard_byte :: "'w Ports \<Rightarrow> u8 \<Rightarrow> 'w Bus \<Rightarrow> 'w Bus" where
  "keyboard_byte io = probe_trace io (CHR ''K'')"

definition keyboard_overflow :: "'w Ports \<Rightarrow> 'w Bus \<Rightarrow> 'w Bus" where
  "keyboard_overflow io = marker io (CHR ''D'')"

definition traced_mouse_byte :: "'w Ports \<Rightarrow> u8 \<Rightarrow> 'w Bus \<Rightarrow> 'w Bus" where
  "traced_mouse_byte io = probe_trace io (CHR ''M'')"

definition exception_entered :: "'w Ports \<Rightarrow> 'w Bus \<Rightarrow> 'w Bus" where
  "exception_entered io = marker io (CHR ''F'')"

section \<open>The input probe\<close>

text \<open>The static \<open>OVERFLOW_TRIGGERED\<close> is read only for the make code of \<^verbatim>\<open>B\<close>.\<close>

definition force_keyboard_overflow :: "u8 \<Rightarrow> bool \<Rightarrow> bool \<times> bool" where
  "force_keyboard_overflow byte triggered = (if byte = 0x30 then (\<not> triggered, True) else (False, triggered))"

text \<open>\<open>push_keyboard_scancode\<close> under the feature \<^verbatim>\<open>input-smoke\<close>: one push with its marker, and the burst.\<close>

definition probe_push ::
  "'w Ports \<Rightarrow> ('q, KeyboardScancode) Ring \<Rightarrow> KeyboardScancode \<Rightarrow> 'q KeyboardQueue \<times> 'w Bus \<Rightarrow> 'q KeyboardQueue \<times> 'w Bus" where
  "probe_push io rb code s =
     (let q = push_keyboard_scancode rb (fst s) code in
      (q, if kb_dropped q \<noteq> kb_dropped (fst s) then keyboard_overflow io (snd s) else snd s))"

definition push_keyboard_scancode_traced ::
  "'w Ports \<Rightarrow> ('q, KeyboardScancode) Ring \<Rightarrow> KeyboardScancode \<Rightarrow> bool \<times> 'q KeyboardQueue \<times> 'w Bus \<Rightarrow>
   bool \<times> 'q KeyboardQueue \<times> 'w Bus" where
  "push_keyboard_scancode_traced io rb code s =
     (let (triggered, q, b) = s; c = (case code of KeyboardScancode c \<Rightarrow> c); b = keyboard_byte io c b in
      if kb_ring q = None then (triggered, q, b)
      else let s = probe_push io rb code (q, b);
               (force, triggered) = force_keyboard_overflow c triggered
           in (triggered, if force then (probe_push io rb code ^^ RB_SIZE) s else s))"

definition push_mouse_byte_traced ::
  "'w Ports \<Rightarrow> ('q, MouseByte) Ring \<Rightarrow> MouseByte \<Rightarrow> 'q MouseQueue \<times> 'w Bus \<Rightarrow> 'q MouseQueue \<times> 'w Bus" where
  "push_mouse_byte_traced io rb code s =
     (push_mouse_byte rb (fst s) code, traced_mouse_byte io (case code of MouseByte c \<Rightarrow> c) (snd s))"

section \<open>The timer probe\<close>

record TimerProbe =
  ticks_seen :: u8
  probe_reported :: bool

definition timer_probe_tick :: "'w Ports \<Rightarrow> TimerProbe \<times> 'w Bus \<Rightarrow> TimerProbe \<times> 'w Bus" where
  "timer_probe_tick io s =
     (let (p, b) = s; seen = ticks_seen p; p = p\<lparr>ticks_seen := seen + 1\<rparr> in
      if seen + 1 < 10 then (p, b)
      else let reported = probe_reported p; p = p\<lparr>probe_reported := True\<rparr>
           in if reported then (p, b) else (p, marker io (CHR ''T'') b))"

text \<open>The timer handler under the feature \<^verbatim>\<open>timer-smoke\<close>: the probe runs between the count and the acknowledgement.\<close>

definition timer_handler_probed ::
  "'w Ports \<Rightarrow> TimerProbe \<times> ('w, 'q, 'm) Machine \<Rightarrow> TimerProbe \<times> ('w, 'q, 'm) Machine" where
  "timer_handler_probed io s =
     (let (p, m) = s; m = m\<lparr>mc_ticks := mc_ticks m + 1\<rparr>; (p, b) = timer_probe_tick io (p, mc_bus m)
      in (p, on_bus (pic_acknowledge io IrqTimer) (m\<lparr>mc_bus := b\<rparr>)))"

section \<open>The length of a UTF-16 string\<close>

definition load16 :: "(usize \<Rightarrow> u8) \<Rightarrow> usize \<Rightarrow> u16" where
  "load16 m a = word_cat (m (a + 1)) (m a)"

text \<open>A string without a terminator is read for ever: \<open>None\<close>.\<close>

partial_function (option) wcslen_loop :: "(usize \<Rightarrow> u8) \<Rightarrow> usize \<Rightarrow> usize \<Rightarrow> usize option" where
  "wcslen_loop m len string =
     (if load16 m string \<noteq> 0 then wcslen_loop m (len + 1) (string + 2) else Some len)"

definition wcslen :: "(usize \<Rightarrow> u8) \<Rightarrow> usize \<Rightarrow> usize option" where
  "wcslen m string = wcslen_loop m 0 string"

section \<open>What the probes show\<close>

lemma marker_log: "bus_log (marker io c b) = bus_log b @ writes [(DEBUG_PORT, of_char c), (DEBUG_PORT, 10)]"
  by (simp add: marker_def write_byte_def outb_log writes_def)

text \<open>The marker appears with the tenth tick and only once, however often the 8-bit counter wraps.\<close>

lemma timer_probe_ticks:
  fixes io :: "'w Ports"
  defines "run \<equiv> \<lambda>n b. (timer_probe_tick io ^^ n) (\<lparr>ticks_seen = 0, probe_reported = False\<rparr>, b)"
  shows "fst (run n b) = \<lparr>ticks_seen = of_nat n, probe_reported = (10 \<le> n)\<rparr> \<and>
    bus_log (snd (run n b)) = bus_log b @ (if 10 \<le> n then writes [(DEBUG_PORT, of_char (CHR ''T'')), (DEBUG_PORT, 10)] else [])"
proof (induction n)
  case 0
  then show ?case by (simp add: run_def)
next
  case (Suc n)
  have step: "run (Suc n) b = timer_probe_tick io (run n b)" by (simp add: run_def)
  have small: "(of_nat n + 1 :: u8) < 10 \<longleftrightarrow> Suc n < 10" if "\<not> 10 \<le> n"
  proof -
    have "unat (of_nat n + 1 :: u8) = Suc n" using that unat_of_nat [where 'a = 8, of "Suc n"] by (simp add: add.commute)
    then show ?thesis by (simp add: word_less_nat_alt)
  qed
  show ?case
    using Suc.IH small unfolding step
    by (cases "run n b") (auto simp: timer_probe_tick_def Let_def marker_log add.commute)
qed

text \<open>A burst of pushes fills the queue and counts the rest as dropped.\<close>

lemma probe_push_burst:
  assumes "ring_ok rb" and "kb_ring (fst s) = Some q" and "length (ring_items rb q) \<le> RB_SIZE"
  defines "room \<equiv> RB_SIZE - length (ring_items rb q)"
  shows "\<exists>q'. kb_ring (fst ((probe_push io rb code ^^ n) s)) = Some q' \<and>
    ring_items rb q' = ring_items rb q @ replicate (min n room) code \<and>
    kb_dropped (fst ((probe_push io rb code ^^ n) s)) = kb_dropped (fst s) + of_nat (n - room)"
proof (induction n)
  case 0
  then show ?case using assms(2) by simp
next
  case (Suc n)
  let ?s = "(probe_push io rb code ^^ n) s"
  obtain q' where q': "kb_ring (fst ?s) = Some q'" "ring_items rb q' = ring_items rb q @ replicate (min n room) code"
    "kb_dropped (fst ?s) = kb_dropped (fst s) + of_nat (n - room)" using Suc.IH by blast
  obtain ok q2 where push: "ring_push rb code q' = (ok, q2)" by fastforce
  have len: "length (ring_items rb q') < RB_SIZE \<longleftrightarrow> n < room" using q'(2) assms(3) by (auto simp: room_def)
  have at: "if n < room then ok \<and> ring_items rb q2 = ring_items rb q' @ [code] else \<not> ok \<and> ring_items rb q2 = ring_items rb q'"
    using ring_push_at [OF assms(1), of q' code] push len by (cases "n < room") simp_all
  have "kb_ring (fst (probe_push io rb code ?s)) = Some q2"
    "kb_dropped (fst (probe_push io rb code ?s)) = (if ok then kb_dropped (fst ?s) else kb_dropped (fst ?s) + 1)"
    using q'(1) push by (simp_all add: probe_push_def push_keyboard_scancode_def Let_def)
  then show ?case
    using at q'(2,3) by (cases "n < room") (auto simp: min_def Suc_diff_le add.commute replicate_append_same)
qed

text \<open>The first \<^verbatim>\<open>B\<close> leaves the queue full and loses at least one scancode.\<close>

lemma first_b_overflows:
  assumes "ring_ok rb" and "kb_ring q = Some r" and "length (ring_items rb r) \<le> RB_SIZE"
    and "push_keyboard_scancode_traced io rb (KeyboardScancode 0x30) (False, q, b) = (triggered, q', b')"
  shows "triggered \<and> (\<exists>r'. kb_ring q' = Some r' \<and> length (ring_items rb r') = RB_SIZE) \<and>
    kb_dropped q' = kb_dropped q + of_nat (Suc (length (ring_items rb r)))"
proof -
  let ?room = "RB_SIZE - length (ring_items rb r)"
  have "triggered" "(q', b') = (probe_push io rb (KeyboardScancode 0x30) ^^ Suc RB_SIZE) (q, keyboard_byte io 0x30 b)"
    using assms(2,4) by (auto simp: push_keyboard_scancode_traced_def force_keyboard_overflow_def Let_def funpow_swap1)
  moreover from this(2) have "fst ((probe_push io rb (KeyboardScancode 0x30) ^^ Suc RB_SIZE) (q, keyboard_byte io 0x30 b)) = q'"
    by (metis fst_conv)
  moreover have "Suc RB_SIZE - ?room = Suc (length (ring_items rb r))" "min (Suc RB_SIZE) ?room = ?room" using assms(3) by simp_all
  ultimately show ?thesis
    using probe_push_burst [OF assms(1), where s = "(q, keyboard_byte io 0x30 b)" and q = r and io = io and
        code = "KeyboardScancode 0x30" and n = "Suc RB_SIZE"] assms(2,3)
    by auto
qed

text \<open>The length of a terminated string.\<close>

lemma wcslen_terminated:
  assumes "load16 m (a + 2 * of_nat n) = 0" and "\<forall>i < n. load16 m (a + 2 * of_nat i) \<noteq> 0"
  shows "wcslen m a = Some (of_nat n)"
proof -
  have "wcslen_loop m len a = Some (len + of_nat n)" for len
    using assms
  proof (induction n arbitrary: len a)
    case 0
    then show ?case by (subst wcslen_loop.simps) simp
  next
    case (Suc n)
    have "load16 m (a + 2 + 2 * of_nat n) = 0" using Suc.prems(1) by (simp add: algebra_simps)
    moreover have "\<forall>i < n. load16 m (a + 2 + 2 * of_nat i) \<noteq> 0"
    proof (intro allI impI)
      fix i assume "i < n"
      then have "load16 m (a + 2 * of_nat (Suc i)) \<noteq> 0" using Suc.prems(2) by blast
      then show "load16 m (a + 2 + 2 * of_nat i) \<noteq> 0" by (simp add: algebra_simps)
    qed
    ultimately have "wcslen_loop m (len + 1) (a + 2) = Some (len + 1 + of_nat n)" by (rule Suc.IH)
    moreover have "load16 m a \<noteq> 0" using Suc.prems(2) [rule_format, of 0] by simp
    then have "wcslen_loop m len a = wcslen_loop m (len + 1) (a + 2)" by (subst wcslen_loop.simps) simp
    ultimately show ?case by (simp add: algebra_simps)
  qed
  then show ?thesis by (simp add: wcslen_def)
qed

end
