(* ===== verification/Profiler.thy ===== *)
theory Profiler
  imports Interrupts "HOL-Library.Monad_Syntax"
begin

text \<open>
  The call-tree profiler, \<^verbatim>\<open>src/src/profiling.rs\<close> on the target \<^verbatim>\<open>uefi\<close>. Its atomics are the fields of a
  record; the kernel has one core and the tree is only changed with interrupts disabled, so an operation is one step.
  A function name is the list of its bytes. \<open>None\<close> is an index out of range or a walk along siblings that does
  not end. The end of the theory models the shutdown, \<^verbatim>\<open>src/src/commands/shutdown.rs\<close>, which exports the tree.
\<close>

section \<open>The tree\<close>

definition NODE_CAPACITY :: nat where "NODE_CAPACITY = 16384"
definition ROOT :: u32 where "ROOT = 0"
definition NO_NODE :: u32 where "NO_NODE = - 1"

record Node =
  nd_name :: "u8 list"
  nd_parent :: u32
  nd_first_child :: u32
  nd_next_sibling :: u32
  nd_calls :: u64

definition EMPTY_NODE :: Node where
  "EMPTY_NODE = \<lparr>nd_name = [], nd_parent = NO_NODE, nd_first_child = NO_NODE, nd_next_sibling = NO_NODE, nd_calls = 0\<rparr>"

record Profiler =
  pr_nodes :: "Node list"
  pr_count :: usize
  pr_current :: u32
  pr_dropped :: usize
  pr_recording :: bool
  pr_interrupts :: bool

definition initial_profiler :: "bool \<Rightarrow> Profiler" where
  "initial_profiler interrupts =
     \<lparr>pr_nodes = replicate NODE_CAPACITY EMPTY_NODE, pr_count = 1, pr_current = ROOT, pr_dropped = 0,
      pr_recording = True, pr_interrupts = interrupts\<rparr>"

record ProfileGuard =
  gd_previous :: u32
  gd_active :: bool

definition restore_interrupts :: "bool \<Rightarrow> Profiler \<Rightarrow> Profiler" where
  "restore_interrupts were_enabled p = (if were_enabled then p\<lparr>pr_interrupts := True\<rparr> else p)"

section \<open>Recording\<close>

definition node_at :: "Node list \<Rightarrow> u32 \<Rightarrow> Node option" where
  "node_at nodes i = (if unat i < length nodes then Some (nodes ! unat i) else None)"

text \<open>The search for a child of the given name.\<close>

partial_function (option) find_child :: "Node list \<Rightarrow> u8 list \<Rightarrow> u32 \<Rightarrow> u32 option" where
  "find_child nodes name child =
     (if child = NO_NODE then Some child
      else case node_at nodes child of
             None \<Rightarrow> None
           | Some n \<Rightarrow> if nd_name n \<noteq> name then find_child nodes name (nd_next_sibling n) else Some child)"

text \<open>One more call of an existing node, and the new node at the first free index.\<close>

definition count_call :: "u32 \<Rightarrow> Profiler \<Rightarrow> Profiler" where
  "count_call child p =
     p\<lparr>pr_nodes := (pr_nodes p)[unat child := (pr_nodes p ! unat child)
         \<lparr>nd_calls := saturating_add (nd_calls (pr_nodes p ! unat child)) 1\<rparr>]\<rparr>"

definition add_node :: "u8 list \<Rightarrow> u32 \<Rightarrow> usize \<Rightarrow> Profiler \<Rightarrow> Profiler" where
  "add_node name parent index p =
     (let nodes = pr_nodes p;
          nodes = nodes[unat index := \<lparr>nd_name = name, nd_parent = parent, nd_first_child = NO_NODE,
            nd_next_sibling = nd_first_child (nodes ! unat parent), nd_calls = 1\<rparr>];
          nodes = nodes[unat parent := (nodes ! unat parent)\<lparr>nd_first_child := ucast index\<rparr>]
      in p\<lparr>pr_nodes := nodes, pr_count := index + 1\<rparr>)"

text \<open>The node for a call of \<open>name\<close> from the node \<open>parent\<close>.\<close>

definition enter_node :: "u8 list \<Rightarrow> u32 \<Rightarrow> Profiler \<Rightarrow> (u32 \<times> Profiler) option" where
  "enter_node name parent p =
     (if parent = NO_NODE then Some (NO_NODE, p)
      else do {
        parent_node \<leftarrow> node_at (pr_nodes p) parent;
        child \<leftarrow> find_child (pr_nodes p) name (nd_first_child parent_node);
        if child \<noteq> NO_NODE then Some (child, count_call child p)
        else let index = pr_count p in
             if unat index \<ge> NODE_CAPACITY then Some (NO_NODE, p\<lparr>pr_dropped := pr_dropped p + 1\<rparr>)
             else Some (ucast index, add_node name parent index p)
      })"

definition profile_enter :: "u8 list \<Rightarrow> Profiler \<Rightarrow> (ProfileGuard \<times> Profiler) option" where
  "profile_enter name p =
     (if \<not> pr_recording p then Some (\<lparr>gd_previous = ROOT, gd_active = False\<rparr>, p)
      else
        let interrupts_were_enabled = pr_interrupts p; p = p\<lparr>pr_interrupts := False\<rparr> in
        if \<not> pr_recording p
        then Some (\<lparr>gd_previous = ROOT, gd_active = False\<rparr>, restore_interrupts interrupts_were_enabled p)
        else do {
          let parent = pr_current p;
          (current, p) \<leftarrow> enter_node name parent p;
          let p = p\<lparr>pr_current := current\<rparr>;
          Some (\<lparr>gd_previous = parent, gd_active = True\<rparr>, restore_interrupts interrupts_were_enabled p)
        })"

definition suspend_recording :: "Profiler \<Rightarrow> ProfileGuard \<times> Profiler" where
  "suspend_recording p =
     (if \<not> pr_recording p then (\<lparr>gd_previous = ROOT, gd_active = False\<rparr>, p)
      else
        let interrupts_were_enabled = pr_interrupts p; p = p\<lparr>pr_interrupts := False\<rparr> in
        if \<not> pr_recording p
        then (\<lparr>gd_previous = ROOT, gd_active = False\<rparr>, restore_interrupts interrupts_were_enabled p)
        else let previous = pr_current p; p = p\<lparr>pr_current := NO_NODE\<rparr>
             in (\<lparr>gd_previous = previous, gd_active = True\<rparr>, restore_interrupts interrupts_were_enabled p))"

definition drop_guard :: "ProfileGuard \<Rightarrow> Profiler \<Rightarrow> Profiler" where
  "drop_guard g p =
     (if gd_active g
      then let interrupts_were_enabled = pr_interrupts p; p = p\<lparr>pr_interrupts := False\<rparr>;
               p = p\<lparr>pr_current := gd_previous g\<rparr>
           in restore_interrupts interrupts_were_enabled p
      else p)"

section \<open>Exporting\<close>

definition DEBUG_PORT :: u16 where "DEBUG_PORT = 0xe9"

definition write_bytes :: "'w Ports \<Rightarrow> u8 list \<Rightarrow> 'w Bus \<Rightarrow> 'w Bus" where
  "write_bytes io bytes b = foldl (\<lambda>b byte. outb io byte DEBUG_PORT b) b bytes"

text \<open>The loop of \<open>write_decimal\<close>; \<open>None\<close> when the buffer is too short.\<close>

function decimal_loop :: "u64 \<Rightarrow> u8 list \<Rightarrow> nat \<Rightarrow> (u8 list \<times> nat) option" where
  "decimal_loop value digits cursor =
     (case cursor of
        0 \<Rightarrow> None
      | Suc cursor \<Rightarrow>
         (let digits = digits[cursor := 48 + ucast (value mod 10)]; value = value div 10
          in if value = 0 then Some (digits, cursor) else decimal_loop value digits cursor))"
  by pat_completeness auto
termination by (relation "measure (\<lambda>(value, digits, cursor). cursor)") auto

declare decimal_loop.simps [simp del]

definition decimal_bytes :: "u64 \<Rightarrow> u8 list option" where
  "decimal_bytes value = map_option (\<lambda>(digits, cursor). drop cursor digits) (decimal_loop value (replicate 20 0) 20)"

definition write_decimal :: "'w Ports \<Rightarrow> u64 \<Rightarrow> 'w Bus \<Rightarrow> 'w Bus option" where
  "write_decimal io value b = map_option (\<lambda>digits. write_bytes io digits b) (decimal_bytes value)"

definition bytes_of :: "string \<Rightarrow> u8 list" where
  "bytes_of s = map of_char s"

definition dump_node :: "'w Ports \<Rightarrow> nat \<Rightarrow> Node \<Rightarrow> 'w Bus \<Rightarrow> 'w Bus option" where
  "dump_node io index node b =
     do {
       let b = write_bytes io (bytes_of ''N:'') b;
       b \<leftarrow> write_decimal io (of_nat index) b;
       let b = write_bytes io (bytes_of '' '') b;
       b \<leftarrow> write_decimal io (ucast (nd_parent node)) b;
       let b = write_bytes io (bytes_of '' '') b;
       b \<leftarrow> write_decimal io (nd_calls node) b;
       let b = write_bytes io (bytes_of '' '') b;
       let b = write_bytes io (nd_name node) b;
       Some (write_bytes io (bytes_of ''\<newline>'') b)
     }"

fun dump_nodes :: "'w Ports \<Rightarrow> (nat \<times> Node) list \<Rightarrow> 'w Bus \<Rightarrow> 'w Bus option" where
  "dump_nodes io [] b = Some b"
| "dump_nodes io ((index, node) # ns) b = do { b \<leftarrow> dump_node io index node b; dump_nodes io ns b }"

definition profile_dump :: "'w Ports \<Rightarrow> Profiler \<Rightarrow> 'w Bus \<Rightarrow> (Profiler \<times> 'w Bus) option" where
  "profile_dump io p b =
     do {
       let p = p\<lparr>pr_interrupts := False, pr_recording := False\<rparr>;
       let b = write_bytes io (bytes_of ''AGNOSTOS_PROFILE_V2\<newline>'') b;
       let count = min (unat (pr_count p)) NODE_CAPACITY;
       b \<leftarrow> dump_nodes io (drop 1 (take count (zip [0..<length (pr_nodes p)] (pr_nodes p)))) b;
       let dropped = pr_dropped p;
       b \<leftarrow> (if dropped > 0
         then do {
           let b = write_bytes io (bytes_of ''AGNOSTOS_PROFILE_DROPPED_PATHS='') b;
           b \<leftarrow> write_decimal io dropped b;
           Some (write_bytes io (bytes_of ''\<newline>'') b)
         }
         else Some b);
       Some (p, write_bytes io (bytes_of ''AGNOSTOS_PROFILE_END\<newline>'') b)
     }"

definition guest_ready :: "'w Ports \<Rightarrow> 'w Bus \<Rightarrow> 'w Bus" where
  "guest_ready io b = write_bytes io (bytes_of ''AGNOSTOS_PROFILE_READY\<newline>'') b"

section \<open>The shape of the tree\<close>

text \<open>Following the links from \<open>c\<close> one meets the nodes \<open>xs\<close>.\<close>

fun siblings :: "Node list \<Rightarrow> u32 \<Rightarrow> nat list \<Rightarrow> bool" where
  "siblings nodes c [] \<longleftrightarrow> c = NO_NODE"
| "siblings nodes c (x # xs) \<longleftrightarrow> c \<noteq> NO_NODE \<and> unat c = x \<and> x < length nodes \<and> siblings nodes (nd_next_sibling (nodes ! x)) xs"

abbreviation parent_of :: "Node list \<Rightarrow> nat \<Rightarrow> nat" where
  "parent_of nodes i \<equiv> unat (nd_parent (nodes ! i))"

definition children :: "Node list \<Rightarrow> nat \<Rightarrow> nat \<Rightarrow> nat list" where
  "children nodes n i = rev (filter (\<lambda>j. parent_of nodes j = i) [1..<n])"

text \<open>
  The first \<open>n\<close> nodes form a tree: parents come first, the children of a node, latest first, are what its
  links lead to, and no two of them have the same name.
\<close>

definition tree_ok :: "Node list \<Rightarrow> nat \<Rightarrow> bool" where
  "tree_ok nodes n \<longleftrightarrow> length nodes = NODE_CAPACITY \<and> 1 \<le> n \<and> n \<le> NODE_CAPACITY \<and>
     (\<forall>j \<in> {1..<n}. parent_of nodes j < j) \<and>
     (\<forall>i < n. siblings nodes (nd_first_child (nodes ! i)) (children nodes n i)) \<and>
     (\<forall>j \<in> {1..<n}. \<forall>k \<in> {1..<n}. parent_of nodes j = parent_of nodes k \<longrightarrow> nd_name (nodes ! j) = nd_name (nodes ! k) \<longrightarrow> j = k)"

definition profiler_inv :: "Profiler \<Rightarrow> bool" where
  "profiler_inv p \<longleftrightarrow> tree_ok (pr_nodes p) (unat (pr_count p)) \<and>
     (pr_current p = NO_NODE \<or> unat (pr_current p) < unat (pr_count p))"

lemma NO_NODE_index: "i < NODE_CAPACITY \<Longrightarrow> (of_nat i :: u32) \<noteq> NO_NODE \<and> unat (of_nat i :: u32) = i"
proof
  assume i: "i < NODE_CAPACITY"
  then show u: "unat (of_nat i :: u32) = i" by (simp add: NODE_CAPACITY_def unat_of_nat take_bit_nat_eq_self)
  have "unat NO_NODE = 2 ^ 32 - 1" by (simp add: NO_NODE_def unat_max_word)
  then show "(of_nat i :: u32) \<noteq> NO_NODE" using u i by (auto simp: NODE_CAPACITY_def)
qed

lemma find_child_run:
  "siblings nodes c xs \<Longrightarrow> find_child nodes name c =
     Some (case find (\<lambda>j. nd_name (nodes ! j) = name) xs of None \<Rightarrow> NO_NODE | Some j \<Rightarrow> of_nat j)"
proof (induction xs arbitrary: c)
  case Nil
  then show ?case by (subst find_child.simps) simp
next
  case (Cons x xs)
  then have c: "c \<noteq> NO_NODE" "unat c = x" "x < length nodes" "siblings nodes (nd_next_sibling (nodes ! x)) xs" by simp_all
  have "of_nat x = c" unfolding c(2) [symmetric] by simp
  then show ?case using c Cons.IH [OF c(4)] by (subst find_child.simps) (auto simp: node_at_def)
qed

lemma siblings_cong:
  assumes "\<And>x. x \<in> set xs \<Longrightarrow> nd_next_sibling (nodes' ! x) = nd_next_sibling (nodes ! x)" and "length nodes' = length nodes"
  shows "siblings nodes' c xs \<longleftrightarrow> siblings nodes c xs"
  using assms(1) by (induction xs arbitrary: c) (simp_all add: assms(2))

section \<open>Paths\<close>

function node_path :: "Node list \<Rightarrow> nat \<Rightarrow> u8 list list" where
  "node_path nodes i =
     (if i = 0 \<or> i \<le> parent_of nodes i then [] else node_path nodes (parent_of nodes i) @ [nd_name (nodes ! i)])"
  by pat_completeness auto
termination by (relation "measure snd") auto

declare node_path.simps [simp del]

lemma node_path_root [simp]: "node_path nodes 0 = []"
  by (simp add: node_path.simps)

lemma node_path_child:
  "tree_ok nodes n \<Longrightarrow> 1 \<le> i \<Longrightarrow> i < n \<Longrightarrow> node_path nodes i = node_path nodes (parent_of nodes i) @ [nd_name (nodes ! i)]"
  by (subst node_path.simps) (auto simp: tree_ok_def not_le)

lemma node_path_cong:
  assumes "\<And>j. j \<le> i \<Longrightarrow> nd_name (nodes' ! j) = nd_name (nodes ! j) \<and> nd_parent (nodes' ! j) = nd_parent (nodes ! j)"
  shows "node_path nodes' i = node_path nodes i"
  using assms
proof (induction i rule: less_induct)
  case (less i)
  show ?case
  proof (cases "i = 0 \<or> i \<le> parent_of nodes i")
    case True
    then show ?thesis using less.prems [of i] by (subst (1 2) node_path.simps) auto
  next
    case False
    then have "node_path nodes' (parent_of nodes i) = node_path nodes (parent_of nodes i)"
      using less.prems by (intro less.IH) auto
    then show ?thesis using False less.prems [of i] by (subst (1 2) node_path.simps) auto
  qed
qed

lemma node_path_inj:
  assumes "tree_ok nodes n" and "i < n" and "j < n" and "node_path nodes i = node_path nodes j"
  shows "i = j"
  using assms(2-4)
proof (induction i arbitrary: j rule: less_induct)
  case (less i)
  have p: "parent_of nodes k < k" if "1 \<le> k" "k < n" for k using assms(1) that by (simp add: tree_ok_def)
  show ?case
  proof (cases "i = 0 \<or> j = 0")
    case True
    then show ?thesis
      using less.prems node_path_child [OF assms(1), of i] node_path_child [OF assms(1), of j] by (cases "i = 0"; cases "j = 0") auto
  next
    case False
    then have i: "1 \<le> i" "1 \<le> j" by simp_all
    have eq: "node_path nodes (parent_of nodes i) = node_path nodes (parent_of nodes j)" "nd_name (nodes ! i) = nd_name (nodes ! j)"
      using less.prems node_path_child [OF assms(1) i(1)] node_path_child [OF assms(1) i(2)] by simp_all
    have "parent_of nodes i = parent_of nodes j"
      using less.IH [OF p [OF i(1)] _ _ eq(1)] p [OF i(1)] p [OF i(2)] less.prems(1,2) by simp
    then show ?thesis using assms(1) i less.prems(1,2) eq(2) by (simp add: tree_ok_def)
  qed
qed

section \<open>What the tree means\<close>

text \<open>The number of calls along each path, the paths that found no room, and the path of the running function.\<close>

record Calls =
  ca_counts :: "u8 list list \<rightharpoonup> u64"
  ca_dropped :: usize
  ca_current :: "u8 list list option"

definition calls_of :: "Profiler \<Rightarrow> Calls" where
  "calls_of p =
     \<lparr>ca_counts = map_of (map (\<lambda>i. (node_path (pr_nodes p) i, nd_calls (pr_nodes p ! i))) [1..<unat (pr_count p)]),
      ca_dropped = pr_dropped p,
      ca_current = (if pr_current p = NO_NODE then None else Some (node_path (pr_nodes p) (unat (pr_current p))))\<rparr>"

definition calls_enter :: "u8 list \<Rightarrow> Calls \<Rightarrow> Calls" where
  "calls_enter name s =
     (case ca_current s of
        None \<Rightarrow> s
      | Some path \<Rightarrow>
          let callee = path @ [name] in
          (case ca_counts s callee of
             Some k \<Rightarrow> s\<lparr>ca_counts := (ca_counts s)(callee \<mapsto> saturating_add k 1), ca_current := Some callee\<rparr>
           | None \<Rightarrow>
               if card (dom (ca_counts s)) < NODE_CAPACITY - 1
               then s\<lparr>ca_counts := (ca_counts s)(callee \<mapsto> 1), ca_current := Some callee\<rparr>
               else s\<lparr>ca_dropped := ca_dropped s + 1, ca_current := None\<rparr>))"

lemma paths_distinct:
  assumes "tree_ok nodes n"
  shows "distinct (map (node_path nodes) [1..<n])"
  unfolding distinct_map using assms by (auto intro!: inj_onI elim: node_path_inj)

lemma counts_lookup:
  assumes "tree_ok (pr_nodes p) (unat (pr_count p))" and "1 \<le> i" and "i < unat (pr_count p)"
  shows "ca_counts (calls_of p) (node_path (pr_nodes p) i) = Some (nd_calls (pr_nodes p ! i))"
  using assms(2,3) paths_distinct [OF assms(1)]
  by (auto simp: calls_of_def comp_def intro!: map_of_is_SomeI)

lemma counts_dom:
  "dom (ca_counts (calls_of p)) = node_path (pr_nodes p) ` {1..<unat (pr_count p)}"
  by (auto simp: calls_of_def dom_map_of_conv_image_fst image_image)

lemma counts_card:
  assumes "tree_ok (pr_nodes p) (unat (pr_count p))"
  shows "card (dom (ca_counts (calls_of p))) = unat (pr_count p) - 1"
proof -
  have "inj_on (node_path (pr_nodes p)) {1..<unat (pr_count p)}" using assms by (auto intro!: inj_onI elim: node_path_inj)
  then show ?thesis by (simp add: counts_dom card_image)
qed

section \<open>Entering a function\<close>

lemma children_member: "j \<in> set (children nodes n i) \<longleftrightarrow> 1 \<le> j \<and> j < n \<and> parent_of nodes j = i"
  by (auto simp: children_def)

lemma find_child_tree:
  assumes "tree_ok nodes n" and "i < n"
  shows "(\<exists>j. find_child nodes name (nd_first_child (nodes ! i)) = Some (of_nat j) \<and> 1 \<le> j \<and> j < n \<and>
      parent_of nodes j = i \<and> nd_name (nodes ! j) = name) \<or>
    (find_child nodes name (nd_first_child (nodes ! i)) = Some NO_NODE \<and>
      (\<forall>j. 1 \<le> j \<longrightarrow> j < n \<longrightarrow> parent_of nodes j = i \<longrightarrow> nd_name (nodes ! j) \<noteq> name))"
proof -
  have "siblings nodes (nd_first_child (nodes ! i)) (children nodes n i)" using assms by (simp add: tree_ok_def)
  note run = find_child_run [OF this, of name]
  show ?thesis
  proof (cases "find (\<lambda>j. nd_name (nodes ! j) = name) (children nodes n i)")
    case None
    from run [unfolded this option.case] None show ?thesis by (simp add: find_None_iff children_member)
  next
    case (Some j)
    then have "j \<in> set (children nodes n i)" "nd_name (nodes ! j) = name" by (auto simp: find_Some_iff)
    then show ?thesis using run [unfolded Some option.case] by (auto simp: children_member)
  qed
qed

lemma parent_less: "tree_ok nodes n \<Longrightarrow> 1 \<le> j \<Longrightarrow> j < n \<Longrightarrow> parent_of nodes j < j"
  by (simp add: tree_ok_def)

text \<open>Changing the number of calls changes nothing else.\<close>

lemma count_call_nodes:
  fixes nodes c v
  assumes "c < length nodes"
  defines "nodes' \<equiv> nodes[c := (nodes ! c)\<lparr>nd_calls := v\<rparr>]"
  shows "nd_name (nodes' ! j) = nd_name (nodes ! j)" "nd_parent (nodes' ! j) = nd_parent (nodes ! j)"
    "nd_first_child (nodes' ! j) = nd_first_child (nodes ! j)" "nd_next_sibling (nodes' ! j) = nd_next_sibling (nodes ! j)"
    "nd_calls (nodes' ! j) = (if j = c then v else nd_calls (nodes ! j))"
  using assms by (simp_all add: nth_list_update)

lemma count_call_tree:
  fixes nodes c v
  assumes "tree_ok nodes n" and "c < n"
  defines "nodes' \<equiv> nodes[c := (nodes ! c)\<lparr>nd_calls := v\<rparr>]"
  shows "tree_ok nodes' n" "node_path nodes' j = node_path nodes j"
proof -
  have c: "c < length nodes" using assms by (simp add: tree_ok_def)
  note f = count_call_nodes [OF c, of v, folded nodes'_def]
  have len: "length nodes' = length nodes" by (simp add: nodes'_def)
  have "siblings nodes' (nd_first_child (nodes' ! i)) (children nodes' n i) \<longleftrightarrow> siblings nodes (nd_first_child (nodes ! i)) (children nodes n i)" for i
    using siblings_cong [of _ nodes' nodes, OF f(4) len] by (simp add: f children_def)
  then show "tree_ok nodes' n" using assms(1) by (simp add: tree_ok_def f len)
  show "node_path nodes' j = node_path nodes j" by (rule node_path_cong) (simp add: f)
qed

text \<open>A new node at the end of the tree.\<close>

lemma add_node_tree:
  fixes nodes n i name
  assumes ok: "tree_ok nodes n" and n: "n < NODE_CAPACITY" and i: "i < n"
    and new: "\<forall>j. 1 \<le> j \<longrightarrow> j < n \<longrightarrow> parent_of nodes j = i \<longrightarrow> nd_name (nodes ! j) \<noteq> name"
  defines "node \<equiv> \<lparr>nd_name = name, nd_parent = of_nat i, nd_first_child = NO_NODE,
      nd_next_sibling = nd_first_child (nodes ! i), nd_calls = 1\<rparr>"
  defines "nodes' \<equiv> (nodes[n := node])[i := (nodes[n := node] ! i)\<lparr>nd_first_child := of_nat n\<rparr>]"
  shows "tree_ok nodes' (Suc n)" "j < n \<Longrightarrow> node_path nodes' j = node_path nodes j"
    "node_path nodes' n = node_path nodes i @ [name]"
    "j < n \<Longrightarrow> nd_calls (nodes' ! j) = nd_calls (nodes ! j)" "nd_calls (nodes' ! n) = 1"
proof -
  have len: "length nodes = NODE_CAPACITY" "1 \<le> n" and parents: "\<And>j. 1 \<le> j \<Longrightarrow> j < n \<Longrightarrow> parent_of nodes j < j"
    and links: "\<And>i. i < n \<Longrightarrow> siblings nodes (nd_first_child (nodes ! i)) (children nodes n i)"
    and names: "\<And>j k. j \<in> {1..<n} \<Longrightarrow> k \<in> {1..<n} \<Longrightarrow> parent_of nodes j = parent_of nodes k \<Longrightarrow>
      nd_name (nodes ! j) = nd_name (nodes ! k) \<Longrightarrow> j = k"
    using ok by (auto simp: tree_ok_def)
  have in_i: "unat (of_nat i :: u32) = i" and in_n: "(of_nat n :: u32) \<noteq> NO_NODE" "unat (of_nat n :: u32) = n"
    using NO_NODE_index i n by (auto intro: less_trans)
  have old: "nd_name (nodes' ! j) = nd_name (nodes ! j)" "nd_parent (nodes' ! j) = nd_parent (nodes ! j)"
    "nd_next_sibling (nodes' ! j) = nd_next_sibling (nodes ! j)" "nd_calls (nodes' ! j) = nd_calls (nodes ! j)"
    "nd_first_child (nodes' ! j) = (if j = i then of_nat n else nd_first_child (nodes ! j))" if "j < n" for j
    using that i n len by (auto simp: nodes'_def nth_list_update)
  have last: "nodes' ! n = node" using i n len by (simp add: nodes'_def)
  have len': "length nodes' = NODE_CAPACITY" using len by (simp add: nodes'_def)
  have parent': "parent_of nodes' n = i" by (simp add: last node_def in_i)
  have upto: "[1..<Suc n] = [1..<n] @ [n]" using len(2) by simp
  have "filter (\<lambda>j. parent_of nodes' j = k) [1..<n] = filter (\<lambda>j. parent_of nodes j = k) [1..<n]" for k
    by (rule filter_cong) (auto simp: old)
  then have ch: "children nodes' (Suc n) k = (if k = i then n # children nodes n i else children nodes n k)" for k
    unfolding children_def upto by (simp add: parent')
  have sib: "siblings nodes' c (children nodes n k) \<longleftrightarrow> siblings nodes c (children nodes n k)" for c k
    using len len' by (intro siblings_cong) (auto simp: children_member old)
  have none: "children nodes n n = []"
    using parents by (auto simp: children_def filter_empty_conv) (metis less_asym)
  have "siblings nodes' (nd_first_child (nodes' ! k)) (children nodes' (Suc n) k)" if "k < Suc n" for k
  proof (cases "k = n")
    case True
    then show ?thesis using i none by (simp add: ch last node_def)
  next
    case False
    then have k: "k < n" using that by simp
    show ?thesis
    proof (cases "k = i")
      case True
      then show ?thesis using k links [OF k] in_n n len' by (simp add: ch old last node_def sib)
    next
      case False
      then show ?thesis using k links [OF k] by (simp add: ch old sib)
    qed
  qed
  note sibs = this
  have par: "parent_of nodes' j < j" if "j \<in> {1..<Suc n}" for j
    using that parents [of j] i by (cases "j = n") (auto simp: parent' old)
  have uniq: "j = k" if h: "j \<in> {1..<Suc n}" "k \<in> {1..<Suc n}" "parent_of nodes' j = parent_of nodes' k"
    "nd_name (nodes' ! j) = nd_name (nodes' ! k)" for j k
  proof -
    have nm: "nd_name (nodes' ! n) = name" by (simp add: last node_def)
    consider "j = n" "k = n" | "j = n" "k < n" | "j < n" "k = n" | "j < n" "k < n" using h(1,2) by (auto simp: less_Suc_eq)
    then show ?thesis
    proof cases
      case 2
      then have "parent_of nodes k = i" "nd_name (nodes ! k) = name" using h(3,4) old [of k] parent' nm by simp_all
      then show ?thesis using new h(2) 2 by auto
    next
      case 3
      then have "parent_of nodes j = i" "nd_name (nodes ! j) = name" using h(3,4) old [of j] parent' nm by simp_all
      then show ?thesis using new h(1) 3 by auto
    next
      case 4
      then show ?thesis using names [of j k] h old [of j] old [of k] by simp
    qed simp
  qed
  show tree: "tree_ok nodes' (Suc n)"
    unfolding tree_ok_def
  proof (intro conjI ballI allI impI)
    show "length nodes' = NODE_CAPACITY" "1 \<le> Suc n" "Suc n \<le> NODE_CAPACITY" using len' n by simp_all
  qed (fact par sibs uniq)+
  show path: "node_path nodes' j = node_path nodes j" if "j < n" for j
    using that by (intro node_path_cong) (simp add: old)
  from node_path_child [OF tree, of n] show "node_path nodes' n = node_path nodes i @ [name]"
    using path [OF i] len(2) in_i by (simp add: last node_def)
  show "j < n \<Longrightarrow> nd_calls (nodes' ! j) = nd_calls (nodes ! j)" "nd_calls (nodes' ! n) = 1"
    by (simp_all add: old last node_def)
qed

text \<open>Entering a node refines the abstract step.\<close>

lemma calls_simps [simp]:
  "calls_of (p\<lparr>pr_interrupts := b\<rparr>) = calls_of p" "calls_of (restore_interrupts b p) = calls_of p"
  by (simp_all add: calls_of_def restore_interrupts_def)

lemma calls_eqI:
  assumes "tree_ok (pr_nodes p) (unat (pr_count p))"
    and "\<And>i. 1 \<le> i \<Longrightarrow> i < unat (pr_count p) \<Longrightarrow> m (node_path (pr_nodes p) i) = Some (nd_calls (pr_nodes p ! i))"
    and "dom m = node_path (pr_nodes p) ` {1..<unat (pr_count p)}"
  shows "ca_counts (calls_of p) = m"
proof
  fix x
  show "ca_counts (calls_of p) x = m x"
  proof (cases "x \<in> dom m")
    case True
    then obtain i where "x = node_path (pr_nodes p) i" "1 \<le> i" "i < unat (pr_count p)" using assms(3) by auto
    then show ?thesis using counts_lookup [OF assms(1)] assms(2) by simp
  next
    case False
    then have "x \<notin> dom (ca_counts (calls_of p))" using assms(3) counts_dom by simp
    then show ?thesis using False by (simp add: domIff)
  qed
qed

lemma calls_enter_counts:
  assumes "ca_current s = Some path" and "ca_counts s (path @ [name]) = Some k"
  shows "calls_enter name s = s\<lparr>ca_counts := (ca_counts s)(path @ [name] \<mapsto> saturating_add k 1), ca_current := Some (path @ [name])\<rparr>"
  using assms by (simp add: calls_enter_def Let_def)

lemma calls_of_update:
  "ca_counts (calls_of (p\<lparr>pr_current := c\<rparr>)) = ca_counts (calls_of p)"
  "ca_dropped (calls_of (p\<lparr>pr_current := c\<rparr>)) = ca_dropped (calls_of p)"
  "ca_current (calls_of (p\<lparr>pr_current := c\<rparr>)) = (if c = NO_NODE then None else Some (node_path (pr_nodes p) (unat c)))"
  by (simp_all add: calls_of_def)

text \<open>What entering the node \<open>c\<close> owes the abstract counts.\<close>

definition entered :: "u8 list \<Rightarrow> Profiler \<Rightarrow> u32 \<Rightarrow> Profiler \<Rightarrow> bool" where
  "entered name p c p' \<longleftrightarrow> profiler_inv (p'\<lparr>pr_current := c\<rparr>) \<and>
    calls_of (p'\<lparr>pr_current := c\<rparr>) = calls_enter name (calls_of p) \<and>
    pr_recording p' = pr_recording p \<and> pr_interrupts p' = pr_interrupts p \<and>
    (pr_current p = NO_NODE \<or> unat (pr_current p) < unat (pr_count p')) \<and> unat (pr_count p) \<le> unat (pr_count p') \<and>
    (\<forall>i < unat (pr_count p). node_path (pr_nodes p') i = node_path (pr_nodes p) i)"

lemma current_node:
  assumes inv: "profiler_inv p" and cur: "pr_current p \<noteq> NO_NODE"
  shows "tree_ok (pr_nodes p) (unat (pr_count p))" and "unat (pr_current p) < unat (pr_count p)"
    and "node_at (pr_nodes p) (pr_current p) = Some (pr_nodes p ! unat (pr_current p))"
    and "ca_current (calls_of p) = Some (node_path (pr_nodes p) (unat (pr_current p)))"
  using inv cur by (auto simp: profiler_inv_def node_at_def tree_ok_def calls_of_def)

text \<open>The child exists: its count goes up.\<close>

lemma enter_existing:
  assumes inv: "profiler_inv p" and cur: "pr_current p \<noteq> NO_NODE"
    and j: "find_child (pr_nodes p) name (nd_first_child (pr_nodes p ! unat (pr_current p))) = Some (of_nat j)" "1 \<le> j"
      "j < unat (pr_count p)" "parent_of (pr_nodes p) j = unat (pr_current p)" "nd_name (pr_nodes p ! j) = name"
  shows "\<exists>c p'. enter_node name (pr_current p) p = Some (c, p') \<and> entered name p c p'"
proof -
  let ?n = "unat (pr_count p)" let ?i = "unat (pr_current p)" let ?path = "node_path (pr_nodes p) ?i @ [name]"
  note current = current_node [OF inv cur]
  note ok = current(1) and i = current(2) and node = current(3) and cur_path = current(4)
  have len: "length (pr_nodes p) = NODE_CAPACITY" "?n \<le> NODE_CAPACITY" using ok by (simp_all add: tree_ok_def)
  have jn: "(of_nat j :: u32) \<noteq> NO_NODE" "unat (of_nat j :: u32) = j" using NO_NODE_index [of j] j(3) len(2) by simp_all
  let ?p = "count_call (of_nat j) p"
  have path: "node_path (pr_nodes p) j = ?path" using node_path_child [OF ok j(2,3)] j(4,5) by simp
  have nodes: "pr_nodes ?p = (pr_nodes p)[j := (pr_nodes p ! j)\<lparr>nd_calls := saturating_add (nd_calls (pr_nodes p ! j)) 1\<rparr>]"
    "pr_count ?p = pr_count p" "pr_dropped ?p = pr_dropped p" "pr_recording ?p = pr_recording p" "pr_interrupts ?p = pr_interrupts p"
    by (simp_all add: count_call_def jn)
  note t = count_call_tree [OF ok j(3), of "saturating_add (nd_calls (pr_nodes p ! j)) 1", folded nodes(1)]
  have jl: "j < length (pr_nodes p)" using j(3) len by simp
  have looked: "ca_counts (calls_of p) ?path = Some (nd_calls (pr_nodes p ! j))" using counts_lookup [OF ok j(2,3)] path by simp
  have "ca_counts (calls_of ?p) = (ca_counts (calls_of p))(?path \<mapsto> saturating_add (nd_calls (pr_nodes p ! j)) 1)"
  proof (rule calls_eqI)
    show "tree_ok (pr_nodes ?p) (unat (pr_count ?p))" using t(1) by (simp add: nodes(2))
    show "((ca_counts (calls_of p))(?path \<mapsto> saturating_add (nd_calls (pr_nodes p ! j)) 1)) (node_path (pr_nodes ?p) k) =
        Some (nd_calls (pr_nodes ?p ! k))" if "1 \<le> k" "k < unat (pr_count ?p)" for k
    proof -
      have kn: "k < ?n" using that(2) by (simp add: nodes(2))
      have "node_path (pr_nodes p) k = ?path \<longleftrightarrow> k = j" using node_path_inj [OF ok j(3) kn] path by auto
      then show ?thesis
        using counts_lookup [OF ok that(1) kn] count_call_nodes(5) [OF jl, of _ k] unfolding t(2) by (simp add: nodes(1))
    qed
    show "dom ((ca_counts (calls_of p))(?path \<mapsto> saturating_add (nd_calls (pr_nodes p ! j)) 1)) = node_path (pr_nodes ?p) ` {1..<unat (pr_count ?p)}"
      using imageI [of j "{1..<?n}" "node_path (pr_nodes p)"] j(2,3) path by (auto simp: t(2) nodes(2) counts_dom)
  qed
  then have "calls_of (?p\<lparr>pr_current := of_nat j\<rparr>) = calls_enter name (calls_of p)"
    unfolding calls_enter_counts [OF cur_path looked]
    by (intro Calls.equality) (simp_all add: calls_of_update jn t(2) path, simp_all add: calls_of_def nodes)
  moreover have "profiler_inv (?p\<lparr>pr_current := of_nat j\<rparr>)" using t(1) j(3) by (simp add: profiler_inv_def nodes(2) jn)
  moreover have "enter_node name (pr_current p) p = Some (of_nat j, ?p)" using cur node j(1) jn by (simp add: enter_node_def Let_def)
  ultimately show ?thesis unfolding entered_def using nodes(2,4,5) t(2) i by auto
qed

text \<open>No child has the name: no node has its path.\<close>

lemma path_is_new:
  assumes inv: "profiler_inv p" and cur: "pr_current p \<noteq> NO_NODE"
    and none: "\<forall>j. 1 \<le> j \<longrightarrow> j < unat (pr_count p) \<longrightarrow> parent_of (pr_nodes p) j = unat (pr_current p) \<longrightarrow> nd_name (pr_nodes p ! j) \<noteq> name"
  defines "path \<equiv> node_path (pr_nodes p) (unat (pr_current p)) @ [name]"
  shows "1 \<le> j \<Longrightarrow> j < unat (pr_count p) \<Longrightarrow> path \<noteq> node_path (pr_nodes p) j"
    and "ca_counts (calls_of p) path = None"
    and "card (dom (ca_counts (calls_of p))) < NODE_CAPACITY - 1 \<longleftrightarrow> unat (pr_count p) < NODE_CAPACITY"
proof -
  let ?n = "unat (pr_count p)" let ?i = "unat (pr_current p)" let ?path = "node_path (pr_nodes p) ?i @ [name]"
  note current = current_node [OF inv cur]
  note ok = current(1) and i = current(2)
  have fresh: "?path \<noteq> node_path (pr_nodes p) j" if "1 \<le> j" "j < ?n" for j
  proof
    assume "?path = node_path (pr_nodes p) j"
    then have eq: "node_path (pr_nodes p) (parent_of (pr_nodes p) j) = node_path (pr_nodes p) ?i" "nd_name (pr_nodes p ! j) = name"
      using node_path_child [OF ok that] by simp_all
    have "parent_of (pr_nodes p) j < ?n" using parent_less [OF ok that] that(2) by (rule less_trans)
    then have "parent_of (pr_nodes p) j = ?i" by (rule node_path_inj [OF ok _ i eq(1)])
    then show False using none that eq(2) by blast
  qed
  have "?path \<notin> dom (ca_counts (calls_of p))" unfolding counts_dom by (rule notI, elim imageE) (use fresh in \<open>force\<close>)
  then show "ca_counts (calls_of p) path = None" by (simp only: path_def domIff not_not)
  show "card (dom (ca_counts (calls_of p))) < NODE_CAPACITY - 1 \<longleftrightarrow> ?n < NODE_CAPACITY"
    using counts_card [OF ok] ok by (auto simp: tree_ok_def NODE_CAPACITY_def)
  show "1 \<le> j \<Longrightarrow> j < ?n \<Longrightarrow> path \<noteq> node_path (pr_nodes p) j" using fresh by (simp add: path_def)
qed

text \<open>A new node, and a call that is only counted as dropped when there is no room.\<close>

lemma enter_new:
  assumes inv: "profiler_inv p" and cur: "pr_current p \<noteq> NO_NODE"
    and none: "find_child (pr_nodes p) name (nd_first_child (pr_nodes p ! unat (pr_current p))) = Some NO_NODE"
      "\<forall>j. 1 \<le> j \<longrightarrow> j < unat (pr_count p) \<longrightarrow> parent_of (pr_nodes p) j = unat (pr_current p) \<longrightarrow> nd_name (pr_nodes p ! j) \<noteq> name"
    and True: "unat (pr_count p) < NODE_CAPACITY"
  shows "\<exists>c p'. enter_node name (pr_current p) p = Some (c, p') \<and> entered name p c p'"
proof -
  let ?n = "unat (pr_count p)" let ?i = "unat (pr_current p)" let ?path = "node_path (pr_nodes p) ?i @ [name]"
  note current = current_node [OF inv cur]
  note ok = current(1) and i = current(2) and node = current(3) and cur_path = current(4)
  note fresh = path_is_new(1) [OF inv cur none(2)] and looked = path_is_new(2) [OF inv cur none(2)] and room = path_is_new(3) [OF inv cur none(2)]
  let ?p = "add_node name (pr_current p) (pr_count p) p"
  have idx: "(ucast (pr_count p) :: u32) \<noteq> NO_NODE" "unat (ucast (pr_count p) :: u32) = ?n"
    using NO_NODE_index [OF True] by simp_all
  have cnt: "unat (pr_count ?p) = Suc ?n"
    using True by (simp add: add_node_def Let_def NODE_CAPACITY_def unat_add_exact)
  note a = add_node_tree [OF ok True i none(2)]
  have nodes: "pr_nodes ?p = ((pr_nodes p)[?n := \<lparr>nd_name = name, nd_parent = of_nat ?i, nd_first_child = NO_NODE,
      nd_next_sibling = nd_first_child (pr_nodes p ! ?i), nd_calls = 1\<rparr>])[?i := ((pr_nodes p)[?n := \<lparr>nd_name = name,
      nd_parent = of_nat ?i, nd_first_child = NO_NODE, nd_next_sibling = nd_first_child (pr_nodes p ! ?i), nd_calls = 1\<rparr>] ! ?i)
      \<lparr>nd_first_child := of_nat ?n\<rparr>]"
    by (simp add: add_node_def Let_def)
  note a = a [folded nodes]
  have same: "pr_dropped ?p = pr_dropped p" "pr_recording ?p = pr_recording p" "pr_interrupts ?p = pr_interrupts p"
    by (simp_all add: add_node_def Let_def)
  have "ca_counts (calls_of ?p) = (ca_counts (calls_of p))(?path \<mapsto> 1)"
  proof (rule calls_eqI)
    show "tree_ok (pr_nodes ?p) (unat (pr_count ?p))" using a(1) by (simp add: cnt)
    show "((ca_counts (calls_of p))(?path \<mapsto> 1)) (node_path (pr_nodes ?p) k) = Some (nd_calls (pr_nodes ?p ! k))"
      if "1 \<le> k" "k < unat (pr_count ?p)" for k
    proof (cases "k = ?n")
      case True
      then show ?thesis using a(3,5) by simp
    next
      case False
      then have k: "k < ?n" using that(2) cnt by simp
      then show ?thesis using fresh [OF that(1) k, symmetric] counts_lookup [OF ok that(1) k] a(2,4) [OF k] by simp
    qed
    have "node_path (pr_nodes ?p) ` {1..<Suc ?n} = insert ?path (node_path (pr_nodes p) ` {1..<?n})"
    proof -
      have "{1..<Suc ?n} = insert ?n {1..<?n}" using i by auto
      moreover have "node_path (pr_nodes ?p) ` {1..<?n} = node_path (pr_nodes p) ` {1..<?n}"
        using a(2) by (intro image_cong) auto
      ultimately show ?thesis using a(3) by simp
    qed
    then show "dom ((ca_counts (calls_of p))(?path \<mapsto> 1)) = node_path (pr_nodes ?p) ` {1..<unat (pr_count ?p)}"
      unfolding cnt by (simp add: counts_dom)
  qed
  moreover have "calls_enter name (calls_of p) = (calls_of p)\<lparr>ca_counts := (ca_counts (calls_of p))(?path \<mapsto> 1), ca_current := Some ?path\<rparr>"
    using cur_path looked room True by (simp add: calls_enter_def Let_def)
  ultimately have "calls_of (?p\<lparr>pr_current := ucast (pr_count p)\<rparr>) = calls_enter name (calls_of p)"
    by (intro Calls.equality) (simp_all add: calls_of_update idx a(3), simp_all add: calls_of_def same)
  moreover have "profiler_inv (?p\<lparr>pr_current := ucast (pr_count p)\<rparr>)" using a(1) by (simp add: profiler_inv_def cnt idx)
  moreover have "enter_node name (pr_current p) p = Some (ucast (pr_count p), ?p)"
    using cur node none(1) True by (simp add: enter_node_def Let_def)
  ultimately show ?thesis unfolding entered_def using same(2,3) cnt i a(2) by auto
qed

lemma enter_full:
  assumes inv: "profiler_inv p" and cur: "pr_current p \<noteq> NO_NODE"
    and none: "find_child (pr_nodes p) name (nd_first_child (pr_nodes p ! unat (pr_current p))) = Some NO_NODE"
      "\<forall>j. 1 \<le> j \<longrightarrow> j < unat (pr_count p) \<longrightarrow> parent_of (pr_nodes p) j = unat (pr_current p) \<longrightarrow> nd_name (pr_nodes p ! j) \<noteq> name"
    and full: "\<not> unat (pr_count p) < NODE_CAPACITY"
  shows "\<exists>c p'. enter_node name (pr_current p) p = Some (c, p') \<and> entered name p c p'"
proof -
  let ?n = "unat (pr_count p)" let ?i = "unat (pr_current p)" let ?path = "node_path (pr_nodes p) ?i @ [name]"
  note current = current_node [OF inv cur]
  note ok = current(1) and i = current(2) and node = current(3) and cur_path = current(4)
  note looked = path_is_new(2) [OF inv cur none(2)] and room = path_is_new(3) [OF inv cur none(2)]
  let ?p = "p\<lparr>pr_dropped := pr_dropped p + 1\<rparr>"
  have "calls_of (?p\<lparr>pr_current := NO_NODE\<rparr>) = calls_enter name (calls_of p)"
    using cur_path looked room full by (simp add: calls_enter_def Let_def) (simp add: calls_of_def)
  moreover have "profiler_inv (?p\<lparr>pr_current := NO_NODE\<rparr>)" using ok by (simp add: profiler_inv_def)
  moreover have "enter_node name (pr_current p) p = Some (NO_NODE, ?p)"
    using cur node none(1) full by (simp add: enter_node_def Let_def)
  ultimately show ?thesis unfolding entered_def using i by auto
qed

lemma enter_node_refines:
  assumes inv: "profiler_inv p"
  shows "\<exists>c p'. enter_node name (pr_current p) p = Some (c, p') \<and> profiler_inv (p'\<lparr>pr_current := c\<rparr>) \<and>
    calls_of (p'\<lparr>pr_current := c\<rparr>) = calls_enter name (calls_of p) \<and>
    pr_recording p' = pr_recording p \<and> pr_interrupts p' = pr_interrupts p \<and>
    (pr_current p = NO_NODE \<or> unat (pr_current p) < unat (pr_count p')) \<and> unat (pr_count p) \<le> unat (pr_count p') \<and>
    (\<forall>i < unat (pr_count p). node_path (pr_nodes p') i = node_path (pr_nodes p) i)"
proof -
  have "\<exists>c p'. enter_node name (pr_current p) p = Some (c, p') \<and> entered name p c p'"
  proof (cases "pr_current p = NO_NODE")
    case True
    have same: "p\<lparr>pr_current := NO_NODE\<rparr> = p" unfolding True [symmetric] by simp
    have "calls_enter name (calls_of p) = calls_of p" using True by (simp add: calls_enter_def calls_of_def)
    then show ?thesis using inv True by (simp add: entered_def enter_node_def same)
  next
    case False
    note current = current_node [OF inv False]
    from find_child_tree [OF current(1,2), of name] show ?thesis
      using enter_existing [OF inv False] enter_new [OF inv False] enter_full [OF inv False] by blast
  qed
  then show ?thesis by (simp only: entered_def)
qed

section \<open>Runs of instrumented functions\<close>

text \<open>
  What an instrumented kernel does: a call enters, makes its own calls and drops its guard; an interrupt of the timer
  suspends the recording while it is acknowledged.
\<close>

datatype Call = Call "u8 list" "Call list" | Interrupted "Call list"

fun run_call :: "Call \<Rightarrow> Profiler \<Rightarrow> Profiler option" and run_calls :: "Call list \<Rightarrow> Profiler \<Rightarrow> Profiler option" where
  "run_call (Call name body) p =
     do { (g, p) \<leftarrow> profile_enter name p; p \<leftarrow> run_calls body p; Some (drop_guard g p) }"
| "run_call (Interrupted body) p =
     do { let (g, p) = suspend_recording p; p \<leftarrow> run_calls body p; Some (drop_guard g p) }"
| "run_calls [] p = Some p"
| "run_calls (c # cs) p = do { p \<leftarrow> run_call c p; run_calls cs p }"

text \<open>The same on the counts.\<close>

fun count_call_tree :: "Call \<Rightarrow> Calls \<Rightarrow> Calls" and count_call_trees :: "Call list \<Rightarrow> Calls \<Rightarrow> Calls" where
  "count_call_tree (Call name body) s = (count_call_trees body (calls_enter name s))\<lparr>ca_current := ca_current s\<rparr>"
| "count_call_tree (Interrupted body) s = s"
| "count_call_trees [] s = s"
| "count_call_trees (c # cs) s = count_call_trees cs (count_call_tree c s)"

lemma count_suspended:
  "ca_current s = None \<Longrightarrow> count_call_tree c s = s" "ca_current s = None \<Longrightarrow> count_call_trees cs s = s"
proof (induction c s and cs s rule: count_call_tree_count_call_trees.induct)
  case (1 name body s)
  then have "calls_enter name s = s" by (simp add: calls_enter_def)
  moreover have "s\<lparr>ca_current := None\<rparr> = s" using 1(2) by (intro Calls.equality) simp_all
  ultimately show ?case using 1 by simp
qed simp_all

text \<open>A later state of the profiler: the running function and the flags are the same and the nodes have kept their paths.\<close>

definition later :: "Profiler \<Rightarrow> Profiler \<Rightarrow> bool" where
  "later p p' \<longleftrightarrow> pr_recording p' = pr_recording p \<and> pr_interrupts p' = pr_interrupts p \<and>
     unat (pr_count p) \<le> unat (pr_count p') \<and> (\<forall>i < unat (pr_count p). node_path (pr_nodes p') i = node_path (pr_nodes p) i)"

lemma later_trans: "later p q \<Longrightarrow> later q r \<Longrightarrow> later p r"
  by (auto simp: later_def)

lemma later_current [simp]: "later (p\<lparr>pr_current := c\<rparr>) q \<longleftrightarrow> later p q" "later p (q\<lparr>pr_current := c\<rparr>) \<longleftrightarrow> later p q"
  by (simp_all add: later_def)

lemma profile_enter_refines:
  assumes inv: "profiler_inv p" and rec: "pr_recording p"
  shows "\<exists>p'. profile_enter name p = Some (\<lparr>gd_previous = pr_current p, gd_active = True\<rparr>, p') \<and> profiler_inv p' \<and>
    calls_of p' = calls_enter name (calls_of p) \<and> later p p'"
proof -
  let ?q = "p\<lparr>pr_interrupts := False\<rparr>"
  have "profiler_inv ?q" using inv by (simp add: profiler_inv_def)
  from enter_node_refines [OF this, of name] obtain c q where q: "enter_node name (pr_current p) ?q = Some (c, q)"
    "profiler_inv (q\<lparr>pr_current := c\<rparr>)" "calls_of (q\<lparr>pr_current := c\<rparr>) = calls_enter name (calls_of p)"
    "pr_recording q = pr_recording p" "pr_interrupts q = False" "unat (pr_count p) \<le> unat (pr_count q)"
    "\<forall>i < unat (pr_count p). node_path (pr_nodes q) i = node_path (pr_nodes p) i" by auto
  let ?p = "restore_interrupts (pr_interrupts p) (q\<lparr>pr_current := c\<rparr>)"
  have "profile_enter name p = Some (\<lparr>gd_previous = pr_current p, gd_active = True\<rparr>, ?p)"
    using rec q(1) by (simp add: profile_enter_def Let_def)
  moreover have "profiler_inv ?p" using q(2) by (simp add: restore_interrupts_def profiler_inv_def)
  moreover have "calls_of ?p = calls_enter name (calls_of p)" using q(3) by simp
  moreover have "later p ?p" using q(4-7) by (auto simp: restore_interrupts_def later_def)
  ultimately show ?thesis by blast
qed

lemma drop_guard_active:
  "drop_guard \<lparr>gd_previous = c, gd_active = True\<rparr> p = p\<lparr>pr_current := c\<rparr>"
  by (cases "pr_interrupts p") (simp_all add: drop_guard_def restore_interrupts_def Let_def)

lemma suspend_recording_active:
  "pr_recording p \<Longrightarrow> suspend_recording p = (\<lparr>gd_previous = pr_current p, gd_active = True\<rparr>, p\<lparr>pr_current := NO_NODE\<rparr>)"
  by (cases "pr_interrupts p") (simp_all add: suspend_recording_def restore_interrupts_def Let_def)

text \<open>Going back to the caller.\<close>

lemma return_to_caller:
  assumes "profiler_inv p" and "profiler_inv q" and "later p q"
  shows "profiler_inv (q\<lparr>pr_current := pr_current p\<rparr>)"
    "calls_of (q\<lparr>pr_current := pr_current p\<rparr>) = (calls_of q)\<lparr>ca_current := ca_current (calls_of p)\<rparr>"
proof -
  show "profiler_inv (q\<lparr>pr_current := pr_current p\<rparr>)" using assms by (auto simp: profiler_inv_def later_def)
  have "pr_current p \<noteq> NO_NODE \<Longrightarrow> node_path (pr_nodes q) (unat (pr_current p)) = node_path (pr_nodes p) (unat (pr_current p))"
    using assms(1,3) by (auto simp: profiler_inv_def later_def)
  then show "calls_of (q\<lparr>pr_current := pr_current p\<rparr>) = (calls_of q)\<lparr>ca_current := ca_current (calls_of p)\<rparr>"
    by (simp add: calls_of_def)
qed

lemma run_calls_refines:
  "profiler_inv p \<Longrightarrow> pr_recording p \<Longrightarrow> \<exists>p'. run_call c p = Some p' \<and> profiler_inv p' \<and>
     calls_of p' = count_call_tree c (calls_of p) \<and> pr_current p' = pr_current p \<and> later p p'"
  "profiler_inv p \<Longrightarrow> pr_recording p \<Longrightarrow> \<exists>p'. run_calls cs p = Some p' \<and> profiler_inv p' \<and>
     calls_of p' = count_call_trees cs (calls_of p) \<and> pr_current p' = pr_current p \<and> later p p'"
proof (induction c p and cs p rule: run_call_run_calls.induct)
  case (1 name body p)
  from profile_enter_refines [OF 1(2,3), of name] obtain p1 where
    p1: "profile_enter name p = Some (\<lparr>gd_previous = pr_current p, gd_active = True\<rparr>, p1)" "profiler_inv p1"
      "calls_of p1 = calls_enter name (calls_of p)" "later p p1" by blast
  have "pr_recording p1" using p1(4) 1(3) by (simp add: later_def)
  with 1(1) [OF p1(1) refl p1(2)] obtain p2 where p2: "run_calls body p1 = Some p2" "profiler_inv p2"
    "calls_of p2 = count_call_trees body (calls_of p1)" "later p1 p2" by blast
  note l = later_trans [OF p1(4) p2(4)]
  note r = return_to_caller [OF 1(2) p2(2) l]
  have "run_call (Call name body) p = Some (p2\<lparr>pr_current := pr_current p\<rparr>)"
    using p1(1) p2(1) by (simp add: drop_guard_active)
  then show ?case using r l p1(3) p2(3) by simp
next
  case (2 body p)
  let ?p = "p\<lparr>pr_current := NO_NODE\<rparr>"
  have inv: "profiler_inv ?p" "pr_recording ?p" using 2(2,3) by (simp_all add: profiler_inv_def)
  note s = suspend_recording_active [OF 2(3)]
  from 2(1) [OF refl s [symmetric] inv] obtain p2 where p2: "run_calls body ?p = Some p2" "profiler_inv p2"
    "calls_of p2 = count_call_trees body (calls_of ?p)" "later ?p p2" by blast
  have l: "later p p2" using p2(4) by simp
  note r = return_to_caller [OF 2(2) p2(2) l]
  have "count_call_trees body (calls_of ?p) = calls_of ?p" by (rule count_suspended) (simp add: calls_of_def)
  then have "(calls_of p2)\<lparr>ca_current := ca_current (calls_of p)\<rparr> = calls_of p"
    using p2(3) by (simp add: calls_of_def)
  moreover have "run_call (Interrupted body) p = Some (p2\<lparr>pr_current := pr_current p\<rparr>)"
    using s p2(1) by (simp add: drop_guard_active)
  ultimately show ?case using r l by simp
next
  case (3 p)
  then show ?case by (simp add: later_def)
next
  case (4 c cs p)
  from 4(1) [OF 4(3,4)] obtain p1 where p1: "run_call c p = Some p1" "profiler_inv p1"
    "calls_of p1 = count_call_tree c (calls_of p)" "pr_current p1 = pr_current p" "later p p1" by blast
  have "pr_recording p1" using p1(5) 4(4) by (simp add: later_def)
  with 4(2) [OF p1(1,2)] obtain p2 where p2: "run_calls cs p1 = Some p2" "profiler_inv p2"
    "calls_of p2 = count_call_trees cs (calls_of p1)" "pr_current p2 = pr_current p1" "later p1 p2" by blast
  then show ?case using p1 later_trans [OF p1(5) p2(5)] by simp
qed

section \<open>Counting calls\<close>

text \<open>The paths of the calls in a run, in the order they are entered; nothing is counted during an interrupt.\<close>

fun call_paths :: "u8 list list \<Rightarrow> Call \<Rightarrow> u8 list list list" and run_paths :: "u8 list list \<Rightarrow> Call list \<Rightarrow> u8 list list list" where
  "call_paths path (Call name body) = (path @ [name]) # run_paths (path @ [name]) body"
| "call_paths path (Interrupted body) = []"
| "run_paths path [] = []"
| "run_paths path (c # cs) = call_paths path c @ run_paths path cs"

definition bump :: "u8 list list \<Rightarrow> (u8 list list \<rightharpoonup> u64) \<Rightarrow> (u8 list list \<rightharpoonup> u64)" where
  "bump path m = m(path \<mapsto> (case m path of None \<Rightarrow> 1 | Some k \<Rightarrow> saturating_add k 1))"

lemma dom_fold_bump: "dom (fold bump ps m) = dom m \<union> set ps"
  by (induction ps arbitrary: m) (auto simp: bump_def)

lemma finite_calls: "finite (dom (ca_counts (calls_of p)))"
  by (simp add: counts_dom)

lemma enter_bumps:
  assumes "ca_current s = Some path" and "finite (dom (ca_counts s))"
    and "card (insert (path @ [name]) (dom (ca_counts s))) \<le> NODE_CAPACITY - 1"
  shows "calls_enter name s = s\<lparr>ca_counts := bump (path @ [name]) (ca_counts s), ca_current := Some (path @ [name])\<rparr>"
proof (cases "ca_counts s (path @ [name])")
  case None
  then have "card (dom (ca_counts s)) < NODE_CAPACITY - 1" using assms(2,3) by (simp add: domIff)
  then show ?thesis using assms(1) None by (simp add: calls_enter_def Let_def bump_def)
next
  case (Some k)
  then show ?thesis using assms(1) by (simp add: calls_enter_def Let_def bump_def)
qed

lemma count_call_trees_bumps:
  "ca_current s = Some path \<Longrightarrow> finite (dom (ca_counts s)) \<Longrightarrow>
     card (dom (ca_counts s) \<union> set (call_paths path c)) \<le> NODE_CAPACITY - 1 \<Longrightarrow>
     count_call_tree c s = s\<lparr>ca_counts := fold bump (call_paths path c) (ca_counts s)\<rparr>"
  "ca_current s = Some path \<Longrightarrow> finite (dom (ca_counts s)) \<Longrightarrow>
     card (dom (ca_counts s) \<union> set (run_paths path cs)) \<le> NODE_CAPACITY - 1 \<Longrightarrow>
     count_call_trees cs s = s\<lparr>ca_counts := fold bump (run_paths path cs) (ca_counts s)\<rparr>"
proof (induction path c and path cs arbitrary: s and s rule: call_paths_run_paths.induct)
  case (1 path name body)
  let ?p = "path @ [name]"
  have "card (insert ?p (dom (ca_counts s))) \<le> card (dom (ca_counts s) \<union> set (call_paths path (Call name body)))"
    using 1(3) by (intro card_mono) auto
  with 1(4) have "card (insert ?p (dom (ca_counts s))) \<le> NODE_CAPACITY - 1" by simp
  note e = enter_bumps [OF 1(2,3) this]
  have "dom (bump ?p (ca_counts s)) = insert ?p (dom (ca_counts s))" by (auto simp: bump_def)
  then have "count_call_trees body (calls_enter name s) =
      (calls_enter name s)\<lparr>ca_counts := fold bump (run_paths ?p body) (bump ?p (ca_counts s))\<rparr>"
    using 1(1) [of "calls_enter name s"] 1(3,4) by (simp add: e)
  then show ?case using 1(2) by (simp add: e)
next
  case (4 path c cs)
  let ?s = "s\<lparr>ca_counts := fold bump (call_paths path c) (ca_counts s)\<rparr>"
  have "card (dom (ca_counts s) \<union> set (call_paths path c)) \<le> card (dom (ca_counts s) \<union> set (run_paths path (c # cs)))"
    using 4(4) by (intro card_mono) auto
  with 4(5) have "count_call_tree c s = ?s" using 4(1) [OF 4(3,4)] by simp
  moreover have "count_call_trees cs ?s = ?s\<lparr>ca_counts := fold bump (run_paths path cs) (ca_counts ?s)\<rparr>"
    using 4(2) [of ?s] 4(3-5) by (simp add: dom_fold_bump Un_assoc)
  ultimately show ?case by simp
qed simp_all

text \<open>The number of calls along a path, none when it is not in the tree.\<close>

definition calls_along :: "(u8 list list \<rightharpoonup> u64) \<Rightarrow> u8 list list \<Rightarrow> nat" where
  "calls_along m path = (case m path of None \<Rightarrow> 0 | Some k \<Rightarrow> unat k)"

lemma calls_along_fold:
  "calls_along (fold bump ps m) path = min (calls_along m path + count_list ps path) (2 ^ 64 - 1)"
proof (induction ps arbitrary: m)
  case Nil
  have "calls_along m path \<le> 2 ^ 64 - 1"
  proof (cases "m path")
    case (Some k)
    then show ?thesis using unat_bound [of k] by (simp add: calls_along_def)
  qed (simp add: calls_along_def)
  then show ?case by simp
next
  case (Cons q ps)
  have "calls_along (bump q m) path = (if q = path then min (calls_along m path + 1) (2 ^ 64 - 1) else calls_along m path)"
    by (auto simp: bump_def calls_along_def unat_saturating_add split: option.splits)
  then show ?case using Cons.IH [of "bump q m"] by auto
qed

text \<open>C33: whatever instrumented functions run, with interrupts of the timer between and inside them, every update of the tree
  succeeds, afterwards the caller is current again, and as long as the tree has room, the number of calls recorded along a
  path of functions has grown by exactly the number of times it was called along that path, up to the largest 64-bit number;
  acknowledging the timer leaves no trace.\<close>

theorem profile_counts_calls:
  assumes "profiler_inv p" and "pr_recording p" and "ca_current (calls_of p) = Some path"
    and "card (dom (ca_counts (calls_of p)) \<union> set (run_paths path cs)) < NODE_CAPACITY"
  shows "\<exists>p'. run_calls cs p = Some p' \<and> profiler_inv p' \<and> pr_current p' = pr_current p \<and> pr_recording p' \<and>
    pr_interrupts p' = pr_interrupts p \<and> pr_dropped p' = pr_dropped p \<and> ca_current (calls_of p') = Some path \<and>
    (\<forall>q. calls_along (ca_counts (calls_of p')) q =
       min (calls_along (ca_counts (calls_of p)) q + count_list (run_paths path cs) q) (2 ^ 64 - 1))"
proof -
  from run_calls_refines(2) [OF assms(1,2), of cs] obtain p' where p': "run_calls cs p = Some p'" "profiler_inv p'"
    "calls_of p' = count_call_trees cs (calls_of p)" "pr_current p' = pr_current p" "later p p'" by blast
  have "calls_of p' = (calls_of p)\<lparr>ca_counts := fold bump (run_paths path cs) (ca_counts (calls_of p))\<rparr>"
    using count_call_trees_bumps(2) [OF assms(3) finite_calls, of cs] assms(4) p'(3) by simp
  moreover from this have "pr_dropped p' = pr_dropped p" by (simp add: calls_of_def)
  ultimately show ?thesis using p' assms(2,3) by (simp add: later_def calls_along_fold)
qed

text \<open>C34: for every run, also when the tree is full, the tree means what the calls mean: a call along a known path adds one
  to its count, one along a new path adds the path while fewer than 16383 are known and is counted as dropped otherwise, and
  a function that was dropped hides the calls it makes.\<close>

theorem profile_tree_refines:
  assumes "profiler_inv p" and "pr_recording p"
  shows "\<exists>p'. run_calls cs p = Some p' \<and> profiler_inv p' \<and> calls_of p' = count_call_trees cs (calls_of p) \<and>
    pr_current p' = pr_current p"
  using run_calls_refines(2) [OF assms, of cs] by blast

text \<open>The profiler as it starts.\<close>

lemma initial_inv: "profiler_inv (initial_profiler b)" "ca_current (calls_of (initial_profiler b)) = Some []"
  "ca_counts (calls_of (initial_profiler b)) = Map.empty" "pr_recording (initial_profiler b)" "pr_dropped (initial_profiler b) = 0"
proof -
  have "nd_first_child (pr_nodes (initial_profiler b) ! 0) = NO_NODE"
    by (simp add: initial_profiler_def NODE_CAPACITY_def EMPTY_NODE_def)
  moreover have "(0 :: u32) \<noteq> NO_NODE" by (simp add: NO_NODE_def)
  ultimately show "profiler_inv (initial_profiler b)"
    by (simp add: profiler_inv_def tree_ok_def initial_profiler_def NODE_CAPACITY_def children_def ROOT_def)
  show "ca_current (calls_of (initial_profiler b)) = Some []"
    using \<open>0 \<noteq> NO_NODE\<close> by (simp add: calls_of_def initial_profiler_def ROOT_def)
qed (simp_all add: calls_of_def initial_profiler_def)

lemma profile_counts_calls_witness:
  "\<exists>p'. run_calls [Call [109] [Call [112] [], Interrupted [Call [97] []], Call [112] []], Call [112] []] (initial_profiler True) = Some p' \<and>
     calls_along (ca_counts (calls_of p')) [[109], [112]] = 2 \<and> calls_along (ca_counts (calls_of p')) [[112]] = 1 \<and>
     calls_along (ca_counts (calls_of p')) [[97]] = 0"
proof -
  let ?cs = "[Call [109] [Call [112] [], Interrupted [Call [97] []], Call [112] []], Call [112] []] :: Call list"
  have paths: "run_paths [] ?cs = [[[109]], [[109], [112]], [[109], [112]], [[112]]]" by simp
  have "card (dom (ca_counts (calls_of (initial_profiler True))) \<union> set (run_paths [] ?cs)) < NODE_CAPACITY"
    unfolding paths initial_inv(3) by (simp add: NODE_CAPACITY_def card_insert_if)
  from profile_counts_calls [OF initial_inv(1,4,2) this] obtain p' where "run_calls ?cs (initial_profiler True) = Some p'"
    "\<forall>q. calls_along (ca_counts (calls_of p')) q = min (calls_along Map.empty q + count_list (run_paths [] ?cs) q) (2 ^ 64 - 1)"
    unfolding initial_inv(3) by blast
  then show ?thesis unfolding paths by (auto simp: calls_along_def)
qed

lemma profile_tree_refines_witness:
  "\<exists>p'. run_calls [Call [109] []] (initial_profiler True) = Some p' \<and> ca_counts (calls_of p') = [[[109]] \<mapsto> 1]"
proof -
  from profile_tree_refines [OF initial_inv(1,4), of "[Call [109] []]" True] obtain p' where
    "run_calls [Call [109] []] (initial_profiler True) = Some p'"
    "calls_of p' = count_call_trees [Call [109] []] (calls_of (initial_profiler True))" by blast
  moreover have "ca_counts (count_call_trees [Call [109] []] (calls_of (initial_profiler True))) = [[[109]] \<mapsto> 1]"
    using enter_bumps [OF initial_inv(2) finite_calls, where name = "[109]"]
    by (simp add: initial_inv NODE_CAPACITY_def bump_def)
  ultimately show ?thesis by auto
qed

section \<open>Decimal numbers\<close>

lemma decimal_length: "n < 10 ^ k \<Longrightarrow> 1 \<le> k \<Longrightarrow> length (decimal n) \<le> k"
proof (induction n arbitrary: k rule: decimal.induct)
  case (1 n)
  show ?case
  proof (cases "n < 10")
    case True
    then show ?thesis using 1(3) by (subst decimal.simps) simp
  next
    case False
    then obtain j where k: "k = Suc j" and j: "1 \<le> j"
      using 1(2,3) by (cases k; cases "k - 1"; simp)
    have "n div 10 < 10 ^ j" using 1(2) by (simp add: k less_mult_imp_div_less mult.commute)
    then show ?thesis using False 1(1) [OF False _ j] by (subst decimal.simps) (simp add: k)
  qed
qed

lemma of_char_digit: "d < 10 \<Longrightarrow> (of_char (char_of (48 + d :: nat)) :: u8) = of_nat (48 + d)"
  by (subst of_nat_of_char [symmetric]) simp

lemma decimal_loop_digits:
  assumes "length (decimal (unat v)) \<le> cursor" and "cursor \<le> length digits"
  shows "\<exists>ds c. decimal_loop v digits cursor = Some (ds, c) \<and> drop c ds = bytes_of (decimal (unat v)) @ drop cursor digits"
  using assms
proof (induction cursor arbitrary: v digits)
  case 0
  then show ?case by (subst (asm) decimal.simps) (auto split: if_splits)
next
  case (Suc cursor)
  let ?ds = "digits[cursor := 48 + ucast (v mod 10)]"
  have drop: "drop cursor ?ds = (48 + ucast (v mod 10)) # drop (Suc cursor) digits"
    using Suc.prems(2) by (subst Cons_nth_drop_Suc [symmetric]) simp_all
  have digit: "(48 + ucast (v mod 10) :: u8) = of_char (char_of (48 + unat v mod 10 :: nat))"
  proof -
    have "(ucast (v mod 10) :: u8) = of_nat (unat (v mod 10))" by simp
    also have "unat (v mod 10) = unat v mod 10" by (simp add: unat_mod)
    finally show ?thesis by (subst of_char_digit) simp_all
  qed
  have zero: "v div 10 = 0 \<longleftrightarrow> unat v < 10"
    by (simp add: word_unat_eq_iff unat_div div_eq_0_iff)
  show ?case
  proof (cases "unat v < 10")
    case True
    then have "decimal_loop v digits (Suc cursor) = Some (?ds, cursor)"
      using zero by (subst decimal_loop.simps) (simp add: Let_def)
    moreover have "bytes_of (decimal (unat v)) = [48 + ucast (v mod 10)]"
      using True digit by (subst decimal.simps) (simp add: bytes_of_def)
    ultimately show ?thesis using drop by simp
  next
    case False
    then have dec: "decimal (unat v) = decimal (unat (v div 10)) @ [char_of (48 + unat v mod 10)]"
      by (subst decimal.simps) (simp add: unat_div)
    then have "length (decimal (unat (v div 10))) \<le> cursor" using Suc.prems(1) by simp
    then obtain ds c where ds: "decimal_loop (v div 10) ?ds cursor = Some (ds, c)"
      "drop c ds = bytes_of (decimal (unat (v div 10))) @ drop cursor ?ds"
      using Suc.IH [of "v div 10" ?ds] Suc.prems(2) by auto
    have "decimal_loop v digits (Suc cursor) = Some (ds, c)"
      using zero False ds(1) by (subst decimal_loop.simps) (simp add: Let_def)
    then show ?thesis using ds(2) drop dec digit by (simp add: bytes_of_def)
  qed
qed

lemma decimal_bytes_digits: "decimal_bytes v = Some (bytes_of (decimal (unat v)))"
proof -
  have "unat v < 2 ^ 64" using unat_bound [of v] by simp
  then have "length (decimal (unat v)) \<le> 20" by (intro decimal_length) simp_all
  from decimal_loop_digits [of v 20 "replicate 20 0"] this show ?thesis
    unfolding decimal_bytes_def by auto
qed

section \<open>The exported text\<close>

definition node_line :: "nat \<Rightarrow> Node \<Rightarrow> u8 list" where
  "node_line i node = bytes_of ''N:'' @ bytes_of (decimal i) @ [32] @ bytes_of (decimal (unat (nd_parent node))) @ [32] @
     bytes_of (decimal (unat (nd_calls node))) @ [32] @ nd_name node @ [10]"

definition dump_text :: "Profiler \<Rightarrow> u8 list" where
  "dump_text p = bytes_of ''AGNOSTOS_PROFILE_V2'' @ [10] @
     concat (map (\<lambda>i. node_line i (pr_nodes p ! i)) [1..<unat (pr_count p)]) @
     (if pr_dropped p = 0 then [] else bytes_of ''AGNOSTOS_PROFILE_DROPPED_PATHS='' @ bytes_of (decimal (unat (pr_dropped p))) @ [10]) @
     bytes_of ''AGNOSTOS_PROFILE_END'' @ [10]"

definition debug_writes :: "u8 list \<Rightarrow> PortEvent list" where
  "debug_writes bs = writes (map (Pair DEBUG_PORT) bs)"

lemma debug_writes_simps: "debug_writes [] = []" "debug_writes (b # bs) = writes [(DEBUG_PORT, b)] @ debug_writes bs"
  "debug_writes (xs @ ys) = debug_writes xs @ debug_writes ys"
  by (simp_all add: debug_writes_def writes_def)

lemma write_bytes_log: "bus_log (write_bytes io bytes b) = bus_log b @ debug_writes bytes"
  by (induction bytes arbitrary: b) (simp_all add: write_bytes_def debug_writes_simps outb_log)

lemma bytes_of_append: "bytes_of (xs @ ys) = bytes_of xs @ bytes_of ys"
  by (simp add: bytes_of_def)

lemma newline_byte: "bytes_of ''\<newline>'' = [10]" "bytes_of '' '' = [32]"
  by (simp_all add: bytes_of_def)

lemma dump_node_log:
  assumes "i < 2 ^ 64"
  shows "\<exists>b'. dump_node io i node b = Some b' \<and> bus_log b' = bus_log b @ debug_writes (node_line i node)"
proof -
  have "unat (of_nat i :: u64) = i" using assms by (simp add: unat_of_nat take_bit_nat_eq_self)
  moreover have "unat (ucast (nd_parent node) :: u64) = unat (nd_parent node)" 
    using unat_bound [of "nd_parent node"] by (simp add: unsigned_ucast_eq take_bit_nat_eq_self)
  ultimately show ?thesis
    by (simp add: dump_node_def write_decimal_def decimal_bytes_digits Let_def write_bytes_log node_line_def
        debug_writes_simps newline_byte)
qed

lemma dump_nodes_log:
  assumes "\<forall>(i, node) \<in> set ns. i < 2 ^ 64"
  shows "\<exists>b'. dump_nodes io ns b = Some b' \<and> bus_log b' = bus_log b @ debug_writes (concat (map (\<lambda>(i, node). node_line i node) ns))"
  using assms
proof (induction ns arbitrary: b)
  case Nil
  then show ?case by (simp add: debug_writes_simps)
next
  case (Cons x ns)
  obtain i node where x: "x = (i, node)" by fastforce
  obtain b1 where b1: "dump_node io i node b = Some b1" "bus_log b1 = bus_log b @ debug_writes (node_line i node)"
    using dump_node_log [of i io node b] Cons.prems by (auto simp: x)
  from Cons.IH [of b1] Cons.prems b1 show ?case by (auto simp: x debug_writes_simps)
qed

lemma profile_dump_log:
  assumes "profiler_inv p"
  shows "\<exists>p' b'. profile_dump io p b = Some (p', b') \<and> \<not> pr_recording p' \<and> bus_log b' = bus_log b @ debug_writes (dump_text p)"
proof -
  let ?n = "unat (pr_count p)"
  have ok: "length (pr_nodes p) = NODE_CAPACITY" "1 \<le> ?n" "?n \<le> NODE_CAPACITY"
    using assms by (simp_all add: profiler_inv_def tree_ok_def)
  let ?ns = "drop 1 (take (min ?n NODE_CAPACITY) (zip [0..<length (pr_nodes p)] (pr_nodes p)))"
  have ns: "?ns = map (\<lambda>i. (i, pr_nodes p ! i)) [1..<?n]"
    using ok by (intro nth_equalityI) auto
  have "\<forall>(i, node) \<in> set ?ns. i < 2 ^ 64" unfolding ns using ok(3) by (auto simp: NODE_CAPACITY_def)
  note d = dump_nodes_log [OF this, of io]
  have c: "concat (map (\<lambda>(i, node). node_line i node) ?ns) = concat (map (\<lambda>i. node_line i (pr_nodes p ! i)) [1..<?n])"
    unfolding ns by (simp add: comp_def)
  let ?b = "write_bytes io (bytes_of ''AGNOSTOS_PROFILE_V2\<newline>'') b"
  obtain b1 where b1: "dump_nodes io ?ns ?b = Some b1"
    "bus_log b1 = bus_log ?b @ debug_writes (concat (map (\<lambda>i. node_line i (pr_nodes p ! i)) [1..<?n]))"
    using d [of ?b] unfolding c by blast
  have nl: "bytes_of ''AGNOSTOS_PROFILE_V2\<newline>'' = bytes_of ''AGNOSTOS_PROFILE_V2'' @ [10]"
    "bytes_of ''AGNOSTOS_PROFILE_END\<newline>'' = bytes_of ''AGNOSTOS_PROFILE_END'' @ [10]"
    by (simp_all add: bytes_of_def)
  show ?thesis
    using b1 by (cases "pr_dropped p = 0")
      (simp_all add: profile_dump_def Let_def write_decimal_def decimal_bytes_digits write_bytes_log dump_text_def nl newline_byte
        debug_writes_simps bytes_of_append word_gt_0)
qed

text \<open>Reading the exported text: a line of a node gives its index, its parent, its calls and its name.\<close>

fun split_lines :: "u8 list \<Rightarrow> u8 list list" where
  "split_lines [] = []"
| "split_lines (c # cs) =
     (if c = 10 then [] # split_lines cs
      else case split_lines cs of [] \<Rightarrow> [[c]] | l # ls \<Rightarrow> (c # l) # ls)"

definition read_number :: "u8 list \<Rightarrow> nat" where
  "read_number = foldl (\<lambda>v d. 10 * v + (unat d - 48)) 0"

definition read_field :: "u8 list \<Rightarrow> nat \<times> u8 list" where
  "read_field bs = (read_number (takeWhile (\<lambda>c. c \<noteq> 32) bs), tl (dropWhile (\<lambda>c. c \<noteq> 32) bs))"

definition read_line :: "u8 list \<Rightarrow> (nat \<times> nat \<times> nat \<times> u8 list) option" where
  "read_line bs =
     (if take 2 bs = [78, 58]
      then let (i, bs) = read_field (drop 2 bs); (parent, bs) = read_field bs; (calls, name) = read_field bs
           in Some (i, parent, calls, name)
      else None)"

lemma split_lines_first: "10 \<notin> set l \<Longrightarrow> split_lines (l @ 10 # rest) = l # split_lines rest"
  by (induction l) auto

lemma decimal_byte: "x \<in> set (bytes_of (decimal n)) \<Longrightarrow> \<exists>d < 10. x = of_nat (48 + d)"
proof -
  assume "x \<in> set (bytes_of (decimal n))"
  then obtain c where c: "c \<in> set (decimal n)" "x = of_char c" by (auto simp: bytes_of_def)
  from decimal_digits [OF c(1)] obtain d where "d < 10" "c = char_of (48 + d :: nat)" by (auto simp: is_digit_def)
  then show ?thesis using c(2) of_char_digit [of d] by auto
qed

lemma decimal_no_blank: "(10 :: u8) \<notin> set (bytes_of (decimal n))" "(32 :: u8) \<notin> set (bytes_of (decimal n))"
proof -
  have "of_nat (48 + d) \<noteq> (k :: u8)" if "d < 10" "unat k < 48" for d k
  proof
    assume "of_nat (48 + d) = k"
    moreover have "unat (of_nat (48 + d) :: u8) = 48 + d"
      using that(1) by (simp only: unat_of_nat) (simp add: take_bit_nat_eq_self)
    ultimately show False using that(2) by simp
  qed
  from this [of _ 10] this [of _ 32] show "(10 :: u8) \<notin> set (bytes_of (decimal n))" "(32 :: u8) \<notin> set (bytes_of (decimal n))"
    by (auto dest!: decimal_byte)
qed

lemma read_number_decimal: "read_number (bytes_of (decimal n)) = n"
proof (induction n rule: decimal.induct)
  case (1 n)
  have digit: "unat (of_char (char_of (48 + d :: nat)) :: u8) = 48 + d" if "d < 10" for d
    unfolding of_char_digit [OF that] using that by (simp only: unat_of_nat) (simp add: take_bit_nat_eq_self)
  show ?case
  proof (cases "n < 10")
    case True
    then show ?thesis using digit by (subst decimal.simps) (simp add: bytes_of_def read_number_def)
  next
    case False
    then show ?thesis using 1 digit [of "n mod 10"]
      by (subst decimal.simps) (simp add: bytes_of_def read_number_def)
  qed
qed

lemma read_field_decimal: "read_field (bytes_of (decimal n) @ 32 # rest) = (n, rest)"
proof -
  have "\<forall>c \<in> set (bytes_of (decimal n)). c \<noteq> 32" using decimal_no_blank(2) by metis
  then have "takeWhile (\<lambda>c. c \<noteq> 32) (bytes_of (decimal n) @ 32 # rest) = bytes_of (decimal n)"
    "dropWhile (\<lambda>c. c \<noteq> 32) (bytes_of (decimal n) @ 32 # rest) = 32 # rest"
    by (simp_all add: takeWhile_append2 dropWhile_append2)
  then show ?thesis by (simp add: read_field_def read_number_decimal)
qed

lemma read_node_line:
  assumes "10 \<notin> set (nd_name node)"
  shows "List.map_filter read_line (split_lines (node_line i node @ rest)) =
    (i, unat (nd_parent node), unat (nd_calls node), nd_name node) # List.map_filter read_line (split_lines rest)"
proof -
  let ?l = "bytes_of ''N:'' @ bytes_of (decimal i) @ [32] @ bytes_of (decimal (unat (nd_parent node))) @ [32] @
     bytes_of (decimal (unat (nd_calls node))) @ [32] @ nd_name node"
  have n: "bytes_of ''N:'' = [78, 58]" by (simp add: bytes_of_def)
  have "10 \<notin> set ?l" using assms decimal_no_blank(1) by (simp add: n)
  then have "split_lines (node_line i node @ rest) = ?l # split_lines rest"
    using split_lines_first [of ?l rest] by (simp add: node_line_def)
  moreover have "read_line ?l = Some (i, unat (nd_parent node), unat (nd_calls node), nd_name node)"
    by (simp add: read_line_def n read_field_decimal)
  ultimately show ?thesis by (simp add: List.map_filter_simps)
qed

lemma read_other_line:
  assumes "10 \<notin> set l" and "hd l = 65" and "l \<noteq> []"
  shows "List.map_filter read_line (split_lines (l @ 10 # rest)) = List.map_filter read_line (split_lines rest)"
proof -
  have "read_line l = None" using assms(2,3) by (cases l) (simp_all add: read_line_def)
  then show ?thesis by (simp add: split_lines_first [OF assms(1)] List.map_filter_simps)
qed

lemma read_dump_text:
  assumes "\<forall>i \<in> {1..<unat (pr_count p)}. 10 \<notin> set (nd_name (pr_nodes p ! i))"
  shows "List.map_filter read_line (split_lines (dump_text p)) =
    map (\<lambda>i. (i, unat (nd_parent (pr_nodes p ! i)), unat (nd_calls (pr_nodes p ! i)), nd_name (pr_nodes p ! i))) [1..<unat (pr_count p)]"
proof -
  have a: "bytes_of ''AGNOSTOS_PROFILE_V2'' = [65, 71, 78, 79, 83, 84, 79, 83, 95, 80, 82, 79, 70, 73, 76, 69, 95, 86, 50]"
    "bytes_of ''AGNOSTOS_PROFILE_END'' = [65, 71, 78, 79, 83, 84, 79, 83, 95, 80, 82, 79, 70, 73, 76, 69, 95, 69, 78, 68]"
    "bytes_of ''AGNOSTOS_PROFILE_DROPPED_PATHS='' = [65, 71, 78, 79, 83, 84, 79, 83, 95, 80, 82, 79, 70, 73, 76, 69, 95,
       68, 82, 79, 80, 80, 69, 68, 95, 80, 65, 84, 72, 83, 61]"
    by (simp_all add: bytes_of_def)
  have "List.map_filter read_line (split_lines (bytes_of ''AGNOSTOS_PROFILE_END'' @ 10 # [])) = []"
    using read_other_line [of "bytes_of ''AGNOSTOS_PROFILE_END''" "[]"] by (simp add: a List.map_filter_simps)
  then have tail: "List.map_filter read_line (split_lines ((if pr_dropped p = 0 then []
       else bytes_of ''AGNOSTOS_PROFILE_DROPPED_PATHS='' @ bytes_of (decimal (unat (pr_dropped p))) @ [10]) @
     bytes_of ''AGNOSTOS_PROFILE_END'' @ [10])) = []"
    using read_other_line [of "bytes_of ''AGNOSTOS_PROFILE_DROPPED_PATHS='' @ bytes_of (decimal (unat (pr_dropped p)))"
        "bytes_of ''AGNOSTOS_PROFILE_END'' @ 10 # []"] decimal_no_blank(1)
    by (simp add: a)
  have nodes: "List.map_filter read_line (split_lines (concat (map (\<lambda>i. node_line i (pr_nodes p ! i)) xs) @ rest)) =
      map (\<lambda>i. (i, unat (nd_parent (pr_nodes p ! i)), unat (nd_calls (pr_nodes p ! i)), nd_name (pr_nodes p ! i))) xs @
      List.map_filter read_line (split_lines rest)"
    if "set xs \<subseteq> {1..<unat (pr_count p)}" for xs rest
    using that assms by (induction xs) (simp_all add: read_node_line)
  show ?thesis
    unfolding dump_text_def append_assoc
    using read_other_line [of "bytes_of ''AGNOSTOS_PROFILE_V2''"] nodes [of "[1..<unat (pr_count p)]"] tail
    by (simp add: a(1))
qed

text \<open>C36: exporting the tree always succeeds within the 20 digits of its buffer, stops the recording and only writes to the
  debug port; and reading the exported lines back gives every node of the tree with its index, its parent, its calls and its
  name, provided that no name contains a line break.\<close>

theorem profile_dump_roundtrip:
  assumes "profiler_inv p" and "\<forall>i \<in> {1..<unat (pr_count p)}. 10 \<notin> set (nd_name (pr_nodes p ! i))"
  shows "\<exists>p' b' bytes. profile_dump io p b = Some (p', b') \<and> \<not> pr_recording p' \<and> bus_log b' = bus_log b @ debug_writes bytes \<and>
    List.map_filter read_line (split_lines bytes) =
      map (\<lambda>i. (i, unat (nd_parent (pr_nodes p ! i)), unat (nd_calls (pr_nodes p ! i)), nd_name (pr_nodes p ! i))) [1..<unat (pr_count p)]"
  using profile_dump_log [OF assms(1), of io b] read_dump_text [OF assms(2)] by blast

lemma profile_dump_roundtrip_witness:
  "\<exists>p p' b' bytes. run_calls [Call [109] []] (initial_profiler True) = Some p \<and>
     profile_dump eager_controller p \<lparr>bus_devices = (), bus_log = []\<rparr> = Some (p', b') \<and> bus_log b' = debug_writes bytes \<and>
     List.map_filter read_line (split_lines bytes) = [(1, 0, 1, [109])]"
proof -
  let ?p = "initial_profiler True"
  define p where "p = restore_interrupts True ((add_node [109] 0 1 (?p\<lparr>pr_interrupts := False\<rparr>))\<lparr>pr_current := 1\<rparr>)"
  have first: "nd_first_child (pr_nodes ?p ! 0) = NO_NODE" "length (pr_nodes ?p) = NODE_CAPACITY" "pr_count ?p = 1"
    "pr_current ?p = 0" "pr_recording ?p" "pr_interrupts ?p" "(0 :: u32) \<noteq> NO_NODE"
    by (simp_all add: initial_profiler_def NODE_CAPACITY_def EMPTY_NODE_def ROOT_def NO_NODE_def)
  have "find_child (pr_nodes ?p) [109] NO_NODE = Some NO_NODE" by (subst find_child.simps) simp
  then have "profile_enter [109] ?p = Some (\<lparr>gd_previous = 0, gd_active = True\<rparr>, p)"
    using first by (simp add: profile_enter_def enter_node_def node_at_def NODE_CAPACITY_def Let_def p_def)
  then have run: "run_calls [Call [109] []] ?p = Some (p\<lparr>pr_current := 0\<rparr>)" by (simp add: drop_guard_active)
  obtain p' where "run_calls [Call [109] []] ?p = Some p'" "profiler_inv p'"
    using run_calls_refines(2) [OF initial_inv(1,4)] by blast
  then have inv: "profiler_inv (p\<lparr>pr_current := 0\<rparr>)" using run by simp
  have node: "unat (pr_count p) = 2" "nd_name (pr_nodes p ! 1) = [109]" "nd_parent (pr_nodes p ! 1) = 0" "nd_calls (pr_nodes p ! 1) = 1"
    using first by (simp_all add: p_def restore_interrupts_def add_node_def Let_def NODE_CAPACITY_def)
  have "{1..<2 :: nat} = {1}" "[1..<2] = [1 :: nat]" by (auto simp: upt_rec)
  then have "\<forall>i \<in> {1..<unat (pr_count (p\<lparr>pr_current := 0\<rparr>))}. 10 \<notin> set (nd_name (pr_nodes (p\<lparr>pr_current := 0\<rparr>) ! i))"
    using node by simp
  from profile_dump_roundtrip [OF inv this, of eager_controller "\<lparr>bus_devices = (), bus_log = []\<rparr>"] run
  show ?thesis using node \<open>[1..<2] = [1 :: nat]\<close> by (auto simp del: run_calls.simps)
qed

section \<open>Shutdown\<close>

definition QEMU_EXIT_PORT :: u16 where "QEMU_EXIT_PORT = 0xf4"
definition QEMU_SUCCESS :: u32 where "QEMU_SUCCESS = 0"

text \<open>\<open>exit_qemu\<close> up to the loop in which it halts: the tree is exported when profiling is on, then the exit code goes to the
  port. A 32-bit port write is the parameter \<open>write32\<close>.\<close>

definition exit_qemu :: "bool \<Rightarrow> (u16 \<Rightarrow> u32 \<Rightarrow> 'w Bus \<Rightarrow> 'w Bus) \<Rightarrow> 'w Ports \<Rightarrow> u32 \<Rightarrow> Profiler \<Rightarrow> 'w Bus \<Rightarrow> (Profiler \<times> 'w Bus) option" where
  "exit_qemu profiling write32 io code p b =
     do {
       (p, b) \<leftarrow> (if profiling then profile_dump io p b else Some (p, b));
       Some (p, write32 QEMU_EXIT_PORT code b)
     }"

section \<open>Guards in any order\<close>

text \<open>The operations of the profiler with the guards that are alive; a guard may be dropped out of turn.\<close>

datatype GuardOp = OpEnter "u8 list" | OpSuspend | OpDrop nat

fun guard_step :: "GuardOp \<Rightarrow> Profiler \<times> ProfileGuard list \<Rightarrow> (Profiler \<times> ProfileGuard list) option" where
  "guard_step (OpEnter name) (p, gs) = map_option (\<lambda>(g, p). (p, g # gs)) (profile_enter name p)"
| "guard_step OpSuspend (p, gs) = (let (g, p) = suspend_recording p in Some (p, g # gs))"
| "guard_step (OpDrop i) (p, gs) =
     (if i < length gs then Some (drop_guard (gs ! i) p, take i gs @ drop (Suc i) gs) else None)"

definition guard_ok :: "ProfileGuard \<Rightarrow> Profiler \<Rightarrow> bool" where
  "guard_ok g p \<longleftrightarrow> gd_active g \<longrightarrow> gd_previous g = NO_NODE \<or> unat (gd_previous g) < unat (pr_count p)"

definition well_typed :: "Profiler \<times> ProfileGuard list \<Rightarrow> bool" where
  "well_typed s \<longleftrightarrow> profiler_inv (fst s) \<and> (\<forall>g \<in> set (snd s). guard_ok g (fst s))"

lemma guard_ok_later: "guard_ok g p \<Longrightarrow> later p q \<Longrightarrow> guard_ok g q"
  by (auto simp: guard_ok_def later_def)

lemma guard_ok_current: "profiler_inv p \<Longrightarrow> guard_ok \<lparr>gd_previous = pr_current p, gd_active = True\<rparr> p"
  by (auto simp: guard_ok_def profiler_inv_def)

lemma drop_guard_typed: "profiler_inv p \<Longrightarrow> guard_ok g p \<Longrightarrow> profiler_inv (drop_guard g p) \<and> pr_count (drop_guard g p) = pr_count p"
  by (auto simp: drop_guard_def restore_interrupts_def profiler_inv_def guard_ok_def Let_def)

text \<open>C35: The profiler is well typed: whatever guards are alive and in whatever order they are dropped, recording or not, every
  operation returns without indexing outside of the nodes, keeps the tree in shape, and leaves every index that the profiler
  or a live guard holds within the nodes in use.\<close>

theorem profiler_well_typed:
  assumes "well_typed s" and "\<forall>i. op = OpDrop i \<longrightarrow> i < length (snd s)"
  shows "\<exists>s'. guard_step op s = Some s' \<and> well_typed s'"
proof -
  obtain p gs where s: "s = (p, gs)" by (cases s)
  have inv: "profiler_inv p" and guards: "\<forall>g \<in> set gs. guard_ok g p" using assms(1) by (auto simp: well_typed_def s)
  show ?thesis
  proof (cases op)
    case (OpEnter name)
    show ?thesis
    proof (cases "pr_recording p")
      case False
      then show ?thesis using inv guards by (simp add: s OpEnter profile_enter_def well_typed_def guard_ok_def)
    next
      case True
      then obtain p' where "profile_enter name p = Some (\<lparr>gd_previous = pr_current p, gd_active = True\<rparr>, p')" "profiler_inv p'" "later p p'"
        using profile_enter_refines [OF inv] by blast
      then show ?thesis using guards guard_ok_current [OF inv] by (auto simp: s OpEnter well_typed_def intro: guard_ok_later)
    qed
  next
    case OpSuspend
    show ?thesis
    proof (cases "pr_recording p")
      case False
      then show ?thesis using inv guards by (simp add: s OpSuspend suspend_recording_def well_typed_def guard_ok_def)
    next
      case True
      then show ?thesis using inv guards guard_ok_current [OF inv]
        by (auto simp: s OpSuspend suspend_recording_active well_typed_def guard_ok_def profiler_inv_def)
    qed
  next
    case (OpDrop i)
    then have "gs ! i \<in> set gs" "i < length gs" using assms(2) by (simp_all add: s)
    then show ?thesis using drop_guard_typed [OF inv, of "gs ! i"] guards
      by (auto simp: s OpDrop well_typed_def guard_ok_def dest: in_set_takeD in_set_dropD)
  qed
qed

lemma profiler_well_typed_witness:
  "\<exists>s'. guard_step (OpEnter [109]) (initial_profiler True, [\<lparr>gd_previous = ROOT, gd_active = True\<rparr>]) = Some s' \<and> well_typed s'"
  by (rule profiler_well_typed) (use initial_inv(1) [of True] in \<open>simp_all add: well_typed_def guard_ok_def initial_profiler_def ROOT_def\<close>)

end
