(* ===== verification/ProfileMacro.thy ===== *)
theory ProfileMacro
  imports Commands Timer "HOL-Library.Monad_Syntax"
begin

text \<open>
  The attribute macro of the profiler, \<^verbatim>\<open>src/profile-macro/src/lib.rs\<close>: the rewriting of a module's tokens that puts a
  profiling hook at the start of every function body, and of the paths in it that would otherwise be lost. Token trees are
  those of the compiler without spans and spacing. Printing and parsing tokens are the compiler's: the parameter \<open>Compiler\<close>
  has them, and whether a file exists; \<open>Build\<close> has the rest of the build the macro runs in. A path is its text, with the
  conventions of Unix. \<open>None\<close> stands for a panic.
\<close>

section \<open>Tokens\<close>

datatype Delimiter = Parenthesis | Brace | Bracket | Invisible

datatype TokenTree = Group Delimiter "TokenTree list" | Ident str | Punct nat | Literal str

record Compiler =
  cc_show :: "TokenTree list \<Rightarrow> str"
  cc_parse :: "str \<Rightarrow> TokenTree list option"
  cc_is_file :: "str \<Rightarrow> bool"
  cc_printable :: "nat \<Rightarrow> bool"

abbreviation ident :: "string \<Rightarrow> TokenTree" where "ident s \<equiv> Ident (lit s)"
abbreviation punct :: "char \<Rightarrow> TokenTree" where "punct c \<equiv> Punct (of_char c)"

definition get :: "'a list \<Rightarrow> nat \<Rightarrow> 'a option" where
  "get xs i = (if i < length xs then Some (xs ! i) else None)"

section \<open>Attributes\<close>

definition path_group :: "Compiler \<Rightarrow> TokenTree \<Rightarrow> bool" where
  "path_group c t = (case t of Group Bracket s \<Rightarrow> starts_with (cc_show c s) (lit ''path'') | _ \<Rightarrow> False)"

fun strip_path_attributes :: "Compiler \<Rightarrow> TokenTree list \<Rightarrow> TokenTree list" where
  "strip_path_attributes c (t # u # ts) =
     (if t = punct CHR ''#'' \<and> path_group c u then strip_path_attributes c ts
      else t # strip_path_attributes c (u # ts))"
| "strip_path_attributes c ts = ts"

text \<open>The index after the last semicolon or braced group before a token: where its item starts.\<close>

definition boundary :: "TokenTree \<Rightarrow> bool" where
  "boundary t = (case t of Punct p \<Rightarrow> p = of_char CHR '';'' | Group Brace _ \<Rightarrow> True | _ \<Rightarrow> False)"

definition item_start :: "TokenTree list \<Rightarrow> nat \<Rightarrow> nat" where
  "item_start tokens index = index - length (takeWhile (\<lambda>t. \<not> boundary t) (rev (take index tokens)))"

definition item_window :: "TokenTree list \<Rightarrow> nat \<Rightarrow> TokenTree list" where
  "item_window tokens index = drop (item_start tokens index) (take index tokens)"

section \<open>Functions\<close>

definition function_name :: "TokenTree list \<Rightarrow> nat \<Rightarrow> str option" where
  "function_name tokens index =
     (if get tokens index \<noteq> Some (ident ''fn'') then None
      else case get tokens (index + 1) of Some (Ident name) \<Rightarrow> Some name | _ \<Rightarrow> None)"

definition text_contains :: "str \<Rightarrow> str \<Rightarrow> bool" where
  "text_contains s part = (\<exists>i \<in> set [0..<Suc (length s)]. starts_with (drop i s) part)"

definition has_marker_before :: "Compiler \<Rightarrow> TokenTree list \<Rightarrow> nat \<Rightarrow> str \<Rightarrow> bool" where
  "has_marker_before c tokens index marker =
     list_ex (\<lambda>t. case t of Group Bracket s \<Rightarrow> text_contains (cc_show c s) marker | _ \<Rightarrow> False) (item_window tokens index)"

text \<open>The search for a body from the token after the name, as the distance to it.\<close>

fun body_offset :: "TokenTree list \<Rightarrow> nat \<Rightarrow> bool \<Rightarrow> nat option" where
  "body_offset [] angle_depth previous_was_minus = None"
| "body_offset (t # ts) angle_depth previous_was_minus =
     (let next = (\<lambda>depth. map_option Suc (body_offset ts depth (t = punct CHR ''-''))) in
      case t of
        Punct p \<Rightarrow>
          if p = of_char CHR '';'' then None
          else if p = of_char CHR ''<'' then next (angle_depth + 1)
          else if p = of_char CHR ''>'' then next (if previous_was_minus then angle_depth else angle_depth - 1)
          else next angle_depth
      | Group Brace _ \<Rightarrow> if angle_depth = 0 then Some 0 else next angle_depth
      | _ \<Rightarrow> next angle_depth)"

definition function_body_index :: "TokenTree list \<Rightarrow> nat \<Rightarrow> nat option" where
  "function_body_index tokens index = map_option (\<lambda>n. index + 2 + n) (body_offset (drop (index + 2) tokens) 0 False)"

definition is_const_function :: "TokenTree list \<Rightarrow> nat \<Rightarrow> bool" where
  "is_const_function tokens index = list_ex (\<lambda>t. t = ident ''const'') (item_window tokens index)"

definition scope_context :: "Compiler \<Rightarrow> TokenTree list \<Rightarrow> nat \<Rightarrow> str option" where
  "scope_context c tokens group_index =
     (let window = item_window tokens group_index in
      if list_ex (\<lambda>t. t = ident ''fn'') window then None
      else case dropWhile (\<lambda>t. \<not> (t = ident ''impl'' \<or> t = ident ''trait'')) window of
             [] \<Rightarrow> None
           | rest \<Rightarrow> Some (cc_show c rest))"

section \<open>Instrumenting a scope\<close>

text \<open>The Debug formatting of a string as a literal; which characters are printed as they are is a table of the library.\<close>

definition hex_digit :: "nat \<Rightarrow> nat" where
  "hex_digit d = (if d < 10 then of_char CHR ''0'' + d else of_char CHR ''a'' + (d - 10))"

fun hex_digits :: "nat \<Rightarrow> str" where
  "hex_digits n = (if n < 16 then [hex_digit n] else hex_digits (n div 16) @ [hex_digit (n mod 16)])"

declare hex_digits.simps [simp del]

definition escape_char :: "Compiler \<Rightarrow> nat \<Rightarrow> str" where
  "escape_char c x =
     (let back = of_char CHR 0x5C in
      if x = 0 then [back, of_char CHR ''0'']
      else if x = 9 then [back, of_char CHR ''t'']
      else if x = 10 then [back, of_char CHR ''n'']
      else if x = 13 then [back, of_char CHR ''r'']
      else if x = back \<or> x = of_char CHR ''\"'' then [back, x]
      else if cc_printable c x then [x]
      else [back, of_char CHR ''u'', of_char CHR ''{''] @ hex_digits x @ [of_char CHR ''}''])"

definition debug_string :: "Compiler \<Rightarrow> str \<Rightarrow> str" where
  "debug_string c s = [of_char CHR ''\"''] @ concat (map (escape_char c) s) @ [of_char CHR ''\"'']"

definition hook_text :: "Compiler \<Rightarrow> str \<Rightarrow> str" where
  "hook_text c identity =
     lit ''#[cfg(feature = \"profiling\")] let _profile_guard = crate::profiling::enter(concat!(module_path!(), \"::\", '' @
     debug_string c identity @ lit ''));''"

definition hook :: "Compiler \<Rightarrow> str \<Rightarrow> TokenTree list" where
  "hook c identity = (case cc_parse c (hook_text c identity) of Some h \<Rightarrow> h | None \<Rightarrow> [])"

definition identity :: "str option \<Rightarrow> str \<Rightarrow> str" where
  "identity context_of name = (case context_of of None \<Rightarrow> name | Some s \<Rightarrow> s @ lit ''::'' @ name)"

text \<open>One turn of the loop over the functions of a scope.\<close>

definition instrument_function :: "Compiler \<Rightarrow> str option \<Rightarrow> TokenTree list \<Rightarrow> nat \<Rightarrow> TokenTree list" where
  "instrument_function c context_of tokens index =
     (if has_marker_before c tokens index (lit ''not_profiled'') \<or> has_marker_before c tokens index (lit ''naked'')
         \<or> is_const_function tokens index
      then tokens
      else case function_name tokens index of
             None \<Rightarrow> tokens
           | Some name \<Rightarrow>
              (case function_body_index tokens index of
                 None \<Rightarrow> tokens
               | Some body_index \<Rightarrow>
                  (case tokens ! body_index of
                     Group _ original \<Rightarrow>
                       tokens[body_index := Group Brace (hook c (identity context_of name) @ original)]
                   | _ \<Rightarrow> tokens)))"

definition instrument_functions :: "Compiler \<Rightarrow> str option \<Rightarrow> TokenTree list \<Rightarrow> TokenTree list" where
  "instrument_functions c context_of tokens =
     foldl (instrument_function c context_of) tokens
       (rev (filter (\<lambda>index. function_name tokens index \<noteq> None) [0..<length tokens]))"

function transform_scope :: "Compiler \<Rightarrow> TokenTree list \<Rightarrow> str option \<Rightarrow> TokenTree list" where
  "transform_scope c stream context_of =
     instrument_functions c context_of
       (map (\<lambda>(index, token).
          case token of
            Group Brace s \<Rightarrow>
              Group Brace (transform_scope c s
                (case scope_context c stream index of Some inherited \<Rightarrow> Some inherited | None \<Rightarrow> context_of))
          | other \<Rightarrow> other) (zip [0..<length stream] stream))"
  by pat_completeness auto
termination
proof (relation "measure (\<lambda>(c, stream, x). size_list size stream)", simp)
  fix c stream context_of and z :: "nat \<times> TokenTree" and index token d s
  assume "z \<in> set (zip [0..<length stream] stream)" "(index, token) = z" "token = Group d s"
  then have "Group d s \<in> set stream" by (auto dest: set_zip_rightD)
  then have "size (Group d s) \<le> size_list size stream" by (rule size_list_estimation') simp
  then show "((c, s, case scope_context c stream index of Some inherited \<Rightarrow> Some inherited | None \<Rightarrow> context_of), c, stream, context_of)
      \<in> measure (\<lambda>(c, stream, x). size_list size stream)" by simp
qed

declare transform_scope.simps [simp del]

section \<open>Which hooks a scope gets\<close>

text \<open>The reference: each braced group gets the hooks of the functions it is the body of, in the order of the functions.\<close>

definition profiled_function :: "Compiler \<Rightarrow> TokenTree list \<Rightarrow> nat \<Rightarrow> bool" where
  "profiled_function c stream index \<longleftrightarrow>
     function_name stream index \<noteq> None \<and> \<not> has_marker_before c stream index (lit ''not_profiled'') \<and>
     \<not> has_marker_before c stream index (lit ''naked'') \<and> \<not> is_const_function stream index"

definition functions_with_body :: "Compiler \<Rightarrow> TokenTree list \<Rightarrow> nat list \<Rightarrow> nat \<Rightarrow> nat list" where
  "functions_with_body c stream indices b =
     filter (\<lambda>f. profiled_function c stream f \<and> function_body_index stream f = Some b) indices"

definition hooks_of :: "Compiler \<Rightarrow> str option \<Rightarrow> TokenTree list \<Rightarrow> nat list \<Rightarrow> nat \<Rightarrow> TokenTree list" where
  "hooks_of c context_of stream indices b =
     concat (map (\<lambda>f. hook c (identity context_of (the (function_name stream f)))) (functions_with_body c stream indices b))"

definition inner_context :: "Compiler \<Rightarrow> TokenTree list \<Rightarrow> nat \<Rightarrow> str option \<Rightarrow> str option" where
  "inner_context c stream index context_of =
     (case scope_context c stream index of Some inherited \<Rightarrow> Some inherited | None \<Rightarrow> context_of)"

definition body_of :: "TokenTree \<Rightarrow> TokenTree list" where
  "body_of t = (case t of Group _ s \<Rightarrow> s | _ \<Rightarrow> [])"

subsection \<open>Tokens that differ only inside braces\<close>

definition braced :: "TokenTree \<Rightarrow> bool" where
  "braced t \<longleftrightarrow> (case t of Group Brace _ \<Rightarrow> True | _ \<Rightarrow> False)"

definition same_shape :: "TokenTree \<Rightarrow> TokenTree \<Rightarrow> bool" where
  "same_shape t u \<longleftrightarrow> t = u \<or> braced t \<and> braced u"

lemma braced_Group [simp]: "braced (Group Brace s)" "braced (Group d s) \<longleftrightarrow> d = Brace"
  by (auto simp: braced_def split: Delimiter.splits)

lemma braced_other [simp]: "\<not> braced (Ident x)" "\<not> braced (Punct p)" "\<not> braced (Literal l)"
  by (simp_all add: braced_def)

lemma bracedE: "braced t \<Longrightarrow> (\<And>s. t = Group Brace s \<Longrightarrow> P) \<Longrightarrow> P"
  by (auto simp: braced_def split: TokenTree.splits Delimiter.splits)

lemma same_shape_refl [simp]: "same_shape t t" by (simp add: same_shape_def)

lemma same_shape_boundary: "same_shape t u \<Longrightarrow> boundary t = boundary u"
  by (auto simp: same_shape_def boundary_def elim!: bracedE)

lemma same_shape_Ident: "same_shape t u \<Longrightarrow> t = Ident x \<longleftrightarrow> u = Ident x"
  by (auto simp: same_shape_def)

lemma same_shape_Punct: "same_shape t u \<Longrightarrow> t = Punct x \<longleftrightarrow> u = Punct x"
  by (auto simp: same_shape_def)

lemma same_shape_no_boundary: "same_shape t u \<Longrightarrow> \<not> boundary t \<Longrightarrow> t = u"
  by (auto simp: same_shape_def boundary_def elim!: bracedE)

lemma takeWhile_shape:
  "list_all2 same_shape xs ys \<Longrightarrow> takeWhile (\<lambda>t. \<not> boundary t) xs = takeWhile (\<lambda>t. \<not> boundary t) ys"
  by (induction rule: list_all2_induct) (auto dest: same_shape_boundary same_shape_no_boundary)

lemma item_window_takeWhile:
  assumes "index \<le> length tokens"
  shows "item_window tokens index = rev (takeWhile (\<lambda>t. \<not> boundary t) (rev (take index tokens)))"
proof -
  define ts where "ts = take index tokens"
  define keep where "keep = takeWhile (\<lambda>t. \<not> boundary t) (rev ts)"
  obtain before where before: "rev ts = keep @ before" by (metis keep_def takeWhile_dropWhile_id)
  then have ts: "ts = rev before @ rev keep" by (metis rev_append rev_rev_ident)
  have "length ts = index" using assms by (simp add: ts_def)
  then have "index - length keep = length (rev before)" by (simp add: ts)
  then show ?thesis unfolding item_window_def item_start_def ts_def [symmetric] keep_def [symmetric] by (simp add: ts)
qed

lemma same_window:
  assumes "list_all2 same_shape xs ys" and "index \<le> length xs"
  shows "item_window xs index = item_window ys index"
proof -
  have "length ys = length xs" using assms(1) by (simp add: list_all2_lengthD)
  moreover have "list_all2 same_shape (rev (take index xs)) (rev (take index ys))"
    using assms(1) by (simp add: list_all2_takeI)
  ultimately show ?thesis using assms(2) by (simp add: item_window_takeWhile takeWhile_shape)
qed

lemma same_get:
  assumes "list_all2 same_shape xs ys"
  shows "rel_option same_shape (get xs i) (get ys i)"
  using assms by (auto simp: get_def list_all2_lengthD list_all2_nthD)

lemma same_function_name:
  assumes "list_all2 same_shape xs ys"
  shows "function_name xs i = function_name ys i"
  using same_get [OF assms, of i] same_get [OF assms, of "i + 1"]
  by (auto simp: function_name_def same_shape_def elim!: option.rel_cases bracedE)

lemma same_body_offset:
  "list_all2 same_shape xs ys \<Longrightarrow> body_offset xs depth dash = body_offset ys depth dash"
proof (induction arbitrary: depth dash rule: list_all2_induct)
  case (Cons x xs y ys)
  show ?case
  proof (cases "x = y")
    case True
    then show ?thesis using Cons.IH by (auto split: TokenTree.splits Delimiter.splits)
  next
    case False
    then show ?thesis using Cons by (auto simp: same_shape_def elim!: bracedE)
  qed
qed simp

lemma same_function_body:
  assumes "list_all2 same_shape xs ys"
  shows "function_body_index xs i = function_body_index ys i"
  using same_body_offset [OF list_all2_dropI [OF assms]] by (simp add: function_body_index_def)

lemma function_name_bound: "function_name tokens i = Some name \<Longrightarrow> i + 1 < length tokens"
  by (auto simp: function_name_def get_def split: if_splits option.splits)

lemma body_offset_braced:
  "body_offset ts depth dash = Some n \<Longrightarrow> n < length ts \<and> braced (ts ! n)"
  by (induction ts depth dash arbitrary: n rule: body_offset.induct)
    (auto simp: Let_def split: TokenTree.splits if_splits Delimiter.splits)

lemma function_body_braced:
  assumes "function_body_index tokens i = Some b" shows "b < length tokens" "braced (tokens ! b)"
  using assms by (auto simp: function_body_index_def dest!: body_offset_braced)

lemma same_profiled:
  assumes "list_all2 same_shape xs ys"
  shows "profiled_function c xs i = profiled_function c ys i"
proof (cases "function_name xs i")
  case None
  then show ?thesis using same_function_name [OF assms, of i] by (simp add: profiled_function_def)
next
  case (Some name)
  then have "i \<le> length xs" using function_name_bound by fastforce
  then show ?thesis using same_window [OF assms, of i] same_function_name [OF assms, of i]
    by (simp add: profiled_function_def has_marker_before_def is_const_function_def)
qed

subsection \<open>One scope\<close>

lemma instrument_function_step:
  "instrument_function c x tokens f =
     (case function_body_index tokens f of
        Some b \<Rightarrow> if profiled_function c tokens f
                  then tokens[b := Group Brace (hook c (identity x (the (function_name tokens f))) @ body_of (tokens ! b))]
                  else tokens
      | None \<Rightarrow> tokens)"
  by (auto simp: instrument_function_def profiled_function_def body_of_def dest: function_body_braced elim!: bracedE
      split: option.splits)

definition with_hooks :: "Compiler \<Rightarrow> str option \<Rightarrow> TokenTree list \<Rightarrow> nat list \<Rightarrow> TokenTree list" where
  "with_hooks c x tokens fs =
     map (\<lambda>i. if braced (tokens ! i) then Group Brace (hooks_of c x tokens fs i @ body_of (tokens ! i)) else tokens ! i)
       [0..<length tokens]"

lemma with_hooks_shape: "list_all2 same_shape tokens (with_hooks c x tokens fs)"
  by (auto simp: with_hooks_def list_all2_conv_all_nth same_shape_def)

lemma body_braced: "braced t \<Longrightarrow> Group Brace (body_of t) = t"
  by (auto simp: body_of_def elim: bracedE)

lemma with_hooks_Nil: "with_hooks c x tokens [] = tokens"
  by (rule nth_equalityI) (simp_all add: with_hooks_def hooks_of_def functions_with_body_def body_braced)

lemma instrument_with_hooks:
  "instrument_function c x (with_hooks c x tokens fs) f = with_hooks c x tokens (f # fs)"
proof -
  let ?t = "with_hooks c x tokens fs"
  note same = with_hooks_shape [of tokens c x fs]
  have body: "function_body_index ?t f = function_body_index tokens f" using same_function_body [OF same] by simp
  have profiled: "profiled_function c ?t f = profiled_function c tokens f" using same_profiled [OF same] by simp
  have name: "function_name ?t f = function_name tokens f" using same_function_name [OF same] by simp
  show ?thesis
  proof (cases "profiled_function c tokens f \<and> function_body_index tokens f \<noteq> None")
    case False
    then have skip: "functions_with_body c tokens (f # fs) b = functions_with_body c tokens fs b" for b
      by (auto simp: functions_with_body_def)
    have "instrument_function c x ?t f = ?t"
      using False by (auto simp: instrument_function_step body profiled split: option.splits)
    moreover have "with_hooks c x tokens (f # fs) = ?t" by (simp add: with_hooks_def hooks_of_def skip)
    ultimately show ?thesis by simp
  next
    case True
    then obtain b where b: "function_body_index tokens f = Some b" by auto
    note bound = function_body_braced [OF b]
    have other: "hooks_of c x tokens (f # fs) i = hooks_of c x tokens fs i" if "i \<noteq> b" for i
      using that b by (simp add: hooks_of_def functions_with_body_def)
    have this_body: "hooks_of c x tokens (f # fs) b = hook c (identity x (the (function_name tokens f))) @ hooks_of c x tokens fs b"
      using True b by (simp add: hooks_of_def functions_with_body_def)
    have at: "?t ! i = (if braced (tokens ! i) then Group Brace (hooks_of c x tokens fs i @ body_of (tokens ! i)) else tokens ! i)"
      if "i < length tokens" for i using that by (simp add: with_hooks_def)
    have len: "length ?t = length tokens" by (simp add: with_hooks_def)
    have "?t[b := Group Brace (hook c (identity x (the (function_name tokens f))) @ body_of (?t ! b))] = with_hooks c x tokens (f # fs)"
    proof (rule nth_equalityI)
      fix i assume "i < length (?t[b := Group Brace (hook c (identity x (the (function_name tokens f))) @ body_of (?t ! b))])"
      then have i: "i < length tokens" by (simp add: len)
      show "?t[b := Group Brace (hook c (identity x (the (function_name tokens f))) @ body_of (?t ! b))] ! i
          = with_hooks c x tokens (f # fs) ! i"
        using i bound by (cases "i = b") (simp_all add: len at nth_list_update this_body other body_of_def,
            simp_all add: with_hooks_def this_body other body_of_def)
    qed (simp add: with_hooks_def)
    then show ?thesis using True b by (simp add: instrument_function_step body profiled name)
  qed
qed

lemma foldl_with_hooks:
  "foldl (instrument_function c x) (with_hooks c x tokens fs) gs = with_hooks c x tokens (rev gs @ fs)"
  by (induction gs arbitrary: fs) (simp_all add: instrument_with_hooks)

lemma functions_with_body_named:
  "functions_with_body c tokens (filter (\<lambda>i. function_name tokens i \<noteq> None) fs) b = functions_with_body c tokens fs b"
  unfolding functions_with_body_def filter_filter by (rule filter_cong) (auto simp: profiled_function_def)

lemma instrument_functions_hooks:
  "instrument_functions c x tokens = with_hooks c x tokens [0..<length tokens]"
proof -
  have "instrument_functions c x tokens = with_hooks c x tokens (filter (\<lambda>i. function_name tokens i \<noteq> None) [0..<length tokens])"
    using foldl_with_hooks [of c x tokens "[]"] by (simp add: instrument_functions_def with_hooks_Nil)
  then show ?thesis by (simp only: with_hooks_def hooks_of_def functions_with_body_named)
qed

subsection \<open>All scopes\<close>

definition scope_bodies :: "Compiler \<Rightarrow> str option \<Rightarrow> TokenTree list \<Rightarrow> TokenTree list" where
  "scope_bodies c x stream =
     map (\<lambda>(i, t). case t of Group Brace s \<Rightarrow> Group Brace (transform_scope c s (inner_context c stream i x)) | _ \<Rightarrow> t)
       (zip [0..<length stream] stream)"

lemma transform_scope_bodies: "transform_scope c stream x = instrument_functions c x (scope_bodies c x stream)"
  by (subst transform_scope.simps) (simp add: scope_bodies_def inner_context_def case_prod_beta
      cong: TokenTree.case_cong Delimiter.case_cong)

lemma scope_bodies_shape: "list_all2 same_shape stream (scope_bodies c x stream)"
  by (auto simp: scope_bodies_def list_all2_conv_all_nth same_shape_def split: TokenTree.splits Delimiter.splits)

lemma same_hooks:
  assumes "list_all2 same_shape xs ys" shows "hooks_of c x xs fs b = hooks_of c x ys fs b"
  by (simp add: hooks_of_def functions_with_body_def same_profiled [OF assms] same_function_body [OF assms]
      same_function_name [OF assms])


section \<open>String literals\<close>

definition strip_prefix :: "str \<Rightarrow> str \<Rightarrow> str option" where
  "strip_prefix s part = (if starts_with s part then Some (drop (length part) s) else None)"

definition strip_suffix :: "str \<Rightarrow> str \<Rightarrow> str option" where
  "strip_suffix s part =
     (if length part \<le> length s \<and> drop (length s - length part) s = part then Some (take (length s - length part) s)
      else None)"

definition to_digit_16 :: "nat \<Rightarrow> nat option" where
  "to_digit_16 x =
     (if of_char CHR ''0'' \<le> x \<and> x \<le> of_char CHR ''9'' then Some (x - of_char CHR ''0'')
      else if of_char CHR ''a'' \<le> x \<and> x \<le> of_char CHR ''f'' then Some (x - of_char CHR ''a'' + 10)
      else if of_char CHR ''A'' \<le> x \<and> x \<le> of_char CHR ''F'' then Some (x - of_char CHR ''A'' + 10)
      else None)"

text \<open>\<open>u32::from_str_radix\<close> with radix 16: an optional plus sign, at least one digit, and no overflow.\<close>

definition digits_value :: "nat list \<Rightarrow> nat" where
  "digits_value ds = foldl (\<lambda>n d. n * 16 + d) 0 ds"

definition u32_from_hex :: "str \<Rightarrow> nat option" where
  "u32_from_hex s =
     (let digits = (case s of x # rest \<Rightarrow> if x = of_char CHR ''+'' \<and> rest \<noteq> [] then rest else s | [] \<Rightarrow> s) in
      if digits = [] then None
      else case those (map to_digit_16 digits) of
             None \<Rightarrow> None
           | Some ds \<Rightarrow> if digits_value ds < 2 ^ 32 then Some (digits_value ds) else None)"

definition scalar_value :: "nat \<Rightarrow> bool" where
  "scalar_value x \<longleftrightarrow> x < 0x110000 \<and> \<not> (0xD800 \<le> x \<and> x < 0xE000)"

definition char_from_u32 :: "nat \<Rightarrow> nat option" where
  "char_from_u32 x = (if scalar_value x then Some x else None)"

text \<open>The digits between the braces of \<open>\u\<close> with underscores dropped, and the rest after the closing brace.\<close>

fun braced_digits :: "str \<Rightarrow> (str \<times> str) option" where
  "braced_digits [] = None"
| "braced_digits (x # xs) =
     (if x = of_char CHR ''}'' then Some ([], xs)
      else if x = of_char CHR ''_'' then braced_digits xs
      else map_option (\<lambda>(digits, rest). (x # digits, rest)) (braced_digits xs))"

lemma braced_digits_shorter [termination_simp]: "braced_digits xs = Some (ds, rest) \<Longrightarrow> length rest < length xs"
  by (induction xs arbitrary: ds rest) (fastforce split: if_splits)+

lemma dropWhile_shorter [termination_simp]: "length (dropWhile P xs) < Suc (Suc (length xs))"
  using length_dropWhile_le [of P xs] by simp

text \<open>What follows a backslash: the character it denotes, if any, and the rest; and then the whole text.\<close>

definition escape_sequence :: "str \<Rightarrow> (str \<times> str) option" where
  "escape_sequence s =
     (case s of
        [] \<Rightarrow> None
      | e # rest \<Rightarrow>
         if e = of_char CHR 0x5C then Some ([e], rest)
         else if e = of_char CHR ''\"'' then Some ([e], rest)
         else if e = of_char CHR ''n'' then Some ([10], rest)
         else if e = of_char CHR ''r'' then Some ([13], rest)
         else if e = of_char CHR ''t'' then Some ([9], rest)
         else if e = of_char CHR ''0'' then Some ([0], rest)
         else if e = of_char CHR ''x'' then
           (case rest of
              high # low # rest' \<Rightarrow> do {
                h \<leftarrow> to_digit_16 high;
                l \<leftarrow> to_digit_16 low;
                x \<leftarrow> char_from_u32 (h * 16 + l);
                Some ([x], rest')
              }
            | _ \<Rightarrow> None)
         else if e = of_char CHR ''u'' then
           (case rest of
              brace # rest' \<Rightarrow>
                if brace \<noteq> of_char CHR ''{'' then None
                else do {
                  (digits, rest'') \<leftarrow> braced_digits rest';
                  n \<leftarrow> u32_from_hex digits;
                  x \<leftarrow> char_from_u32 n;
                  Some ([x], rest'')
                }
            | [] \<Rightarrow> None)
         else if e = 10 then Some ([], dropWhile is_whitespace rest)
         else None)"

lemma escape_sequence_shorter [termination_simp]:
  "escape_sequence s = Some (xs, rest) \<Longrightarrow> length rest < length s"
  using length_dropWhile_le [of is_whitespace "tl s"]
  by (auto simp: escape_sequence_def bind_eq_Some_conv split: list.splits if_splits dest!: braced_digits_shorter)

fun decode_chars :: "str \<Rightarrow> str option" where
  "decode_chars [] = Some []"
| "decode_chars (x # xs) =
     (if x \<noteq> of_char CHR 0x5C then map_option (Cons x) (decode_chars xs)
      else case escape_sequence xs of
             None \<Rightarrow> None
           | Some (decoded, rest) \<Rightarrow> map_option ((@) decoded) (decode_chars rest))"

definition decode_string_literal :: "str \<Rightarrow> str option" where
  "decode_string_literal literal =
     (let quote = of_char CHR ''\"'' in
      if starts_with literal (lit ''r'') then
        (case dropWhile (\<lambda>x. x \<noteq> quote) literal of
           [] \<Rightarrow> None
         | _ # rest \<Rightarrow> strip_suffix rest (quote # drop 1 (takeWhile (\<lambda>x. x \<noteq> quote) literal)))
      else do {
        rest \<leftarrow> strip_prefix literal [quote];
        inner \<leftarrow> strip_suffix rest [quote];
        decode_chars inner
      })"

subsection \<open>Printing and decoding\<close>

lemma those_snoc: "those xs = Some ys \<Longrightarrow> those (xs @ [Some y]) = Some (ys @ [y])"
  by (induction xs arbitrary: ys) (auto split: option.splits)

lemma to_digit_hex_digit: "d < 16 \<Longrightarrow> to_digit_16 (hex_digit d) = Some d"
  by (auto simp: to_digit_16_def hex_digit_def)

lemma hex_digit_plain: "d < 16 \<Longrightarrow> hex_digit d \<notin> {of_char CHR ''}'', of_char CHR ''_'', of_char CHR ''+''}"
  by (auto simp: hex_digit_def)

lemma hex_digits_decode:
  "\<exists>ds. those (map to_digit_16 (hex_digits n)) = Some ds \<and> digits_value ds = n"
proof (induction n rule: hex_digits.induct)
  case (1 n)
  show ?case
  proof (cases "n < 16")
    case True
    then show ?thesis by (simp add: hex_digits.simps [of n] to_digit_hex_digit digits_value_def)
  next
    case False
    obtain ds where "those (map to_digit_16 (hex_digits (n div 16))) = Some ds" "digits_value ds = n div 16"
      using 1 False by auto
    then show ?thesis using False those_snoc [of "map to_digit_16 (hex_digits (n div 16))" ds "n mod 16"]
      by (auto simp: hex_digits.simps [of n] to_digit_hex_digit digits_value_def)
  qed
qed

lemma hex_digits_plain:
  "x \<in> set (hex_digits n) \<Longrightarrow> x \<notin> {of_char CHR ''}'', of_char CHR ''_'', of_char CHR ''+''}"
proof (induction n rule: hex_digits.induct)
  case (1 n)
  then show ?case using hex_digit_plain [of n] hex_digit_plain [of "n mod 16"]
    by (auto simp: hex_digits.simps [of n] split: if_splits)
qed

lemma hex_digits_nonempty [simp]: "hex_digits n \<noteq> []"
  by (subst hex_digits.simps) simp

lemma u32_from_hex_digits: "n < 2 ^ 32 \<Longrightarrow> u32_from_hex (hex_digits n) = Some n"
  using hex_digits_decode [of n] hex_digits_plain [of "hd (hex_digits n)" n]
  by (cases "hex_digits n") (auto simp: u32_from_hex_def)

lemma braced_digits_append:
  "\<forall>x \<in> set ds. x \<notin> {of_char CHR ''}'', of_char CHR ''_'', of_char CHR ''+''} \<Longrightarrow>
   braced_digits (ds @ of_char CHR ''}'' # rest) = Some (ds, rest)"
  by (induction ds) auto

lemma escape_sequence_unicode:
  assumes "scalar_value x"
  shows "escape_sequence (of_char CHR ''u'' # of_char CHR ''{'' # hex_digits x @ of_char CHR ''}'' # t) = Some ([x], t)"
proof -
  have "u32_from_hex (hex_digits x) = Some x" using assms by (intro u32_from_hex_digits) (simp add: scalar_value_def)
  moreover have "braced_digits (hex_digits x @ of_char CHR ''}'' # t) = Some (hex_digits x, t)"
    using hex_digits_plain by (intro braced_digits_append) blast
  ultimately show ?thesis using assms by (simp add: escape_sequence_def char_from_u32_def)
qed

lemma append_single: "(@) [x] = (#) x"
  by (simp add: fun_eq_iff)

lemma decode_escape_char:
  assumes "scalar_value x"
  shows "decode_chars (escape_char c x @ t) = map_option (Cons x) (decode_chars t)"
  using escape_sequence_unicode [OF assms, of t]
  by (auto simp: escape_char_def Let_def escape_sequence_def [of "_ # t"] append_single)

lemma decode_escaped:
  "list_all scalar_value s \<Longrightarrow> decode_chars (concat (map (escape_char c) s)) = Some s"
  by (induction s) (simp_all add: decode_escape_char)

text \<open>A path printed into the generated source reads back as itself: decoding the Debug literal of a string of scalar values
  gives the string, whatever characters the library prints unescaped.\<close>

theorem debug_string_roundtrip:
  assumes "list_all scalar_value s"
  shows "decode_string_literal (debug_string c s) = Some s"
  using decode_escaped [OF assms, of c]
  by (simp add: decode_string_literal_def debug_string_def strip_prefix_def strip_suffix_def starts_with_def lit_def Let_def)

theorem debug_string_roundtrip_witness:
  "decode_string_literal (debug_string (| cc_show = \<lambda>_. [], cc_parse = \<lambda>_. None, cc_is_file = \<lambda>_. False,
       cc_printable = \<lambda>x. x < 0x7f |) [47, 92, 34, 10, 0x1F600]) = Some [47, 92, 34, 10, 0x1F600]"
  by (rule debug_string_roundtrip) (simp add: scalar_value_def)

section \<open>Paths\<close>

abbreviation slash :: nat where "slash \<equiv> of_char CHR ''/''"
abbreviation dot :: nat where "dot \<equiv> of_char CHR ''.''"

definition is_absolute :: "str \<Rightarrow> bool" where
  "is_absolute path = starts_with path [slash]"

definition path_join :: "str \<Rightarrow> str \<Rightarrow> str" where
  "path_join base path =
     (if is_absolute path then path
      else if base = [] \<or> last base = slash then base @ path
      else base @ [slash] @ path)"

text \<open>
  A path without trailing separators and trailing dot components, in reverse; the last component; and \<open>parent\<close>,
  \<open>file_name\<close> and \<open>file_stem\<close>.
\<close>

fun trim_components :: "str \<Rightarrow> str" where
  "trim_components [] = []"
| "trim_components [x] = [x]"
| "trim_components (x # y # rest) =
     (if x = slash then trim_components (y # rest)
      else if x = dot \<and> y = slash then trim_components (y # rest)
      else x # y # rest)"

definition file_name :: "str \<Rightarrow> str option" where
  "file_name path =
     (let component = rev (takeWhile (\<lambda>x. x \<noteq> slash) (trim_components (rev path))) in
      if component \<in> {[], [dot], [dot, dot]} then None else Some component)"

definition parent :: "str \<Rightarrow> str option" where
  "parent path =
     (let trimmed = trim_components (rev path) in
      if trimmed = [] \<or> trimmed = [slash] then None
      else Some (rev (trim_components (dropWhile (\<lambda>x. x \<noteq> slash) trimmed))))"

definition file_stem :: "str \<Rightarrow> str option" where
  "file_stem path =
     map_option (\<lambda>name.
       case dropWhile (\<lambda>x. x \<noteq> dot) (rev name) of
         [] \<Rightarrow> name
       | _ # before \<Rightarrow> if before = [] then name else rev before) (file_name path)"

section \<open>Include paths\<close>

definition is_include :: "TokenTree \<Rightarrow> TokenTree \<Rightarrow> bool" where
  "is_include t u \<longleftrightarrow>
     (t = ident ''include_str'' \<or> t = ident ''include_bytes'' \<or> t = ident ''include'') \<and> u = punct CHR ''!''"

definition include_text :: "Compiler \<Rightarrow> str \<Rightarrow> str \<Rightarrow> str" where
  "include_text c module_dir literal =
     lit ''concat!('' @ debug_string c module_dir @ lit '', \"/\", '' @ literal @ lit '')''"

definition include_argument :: "Compiler \<Rightarrow> str \<Rightarrow> TokenTree \<Rightarrow> TokenTree option" where
  "include_argument c module_dir t =
     (case t of
        Group delimiter (Literal literal # rest) \<Rightarrow>
          (case decode_string_literal literal of
             None \<Rightarrow> Some t
           | Some value \<Rightarrow>
               if is_absolute value then Some t
               else map_option (\<lambda>replacement. Group delimiter (replacement @ rest)) (cc_parse c (include_text c module_dir literal)))
      | _ \<Rightarrow> Some t)"

fun resolve_includes :: "Compiler \<Rightarrow> str \<Rightarrow> TokenTree list \<Rightarrow> TokenTree list option" where
  "resolve_includes c module_dir (t # u # v # ts) =
     (if is_include t u
      then do {
        v' \<leftarrow> include_argument c module_dir v;
        rest \<leftarrow> resolve_includes c module_dir ts;
        Some (t # u # v' # rest)
      }
      else map_option (Cons t) (resolve_includes c module_dir (u # v # ts)))"
| "resolve_includes c module_dir ts = Some ts"

function resolve_relative_include_paths :: "Compiler \<Rightarrow> TokenTree list \<Rightarrow> str \<Rightarrow> TokenTree list option" where
  "resolve_relative_include_paths c stream module_dir =
     do {
       tokens \<leftarrow> those (map (\<lambda>token.
         case token of
           Group delimiter s \<Rightarrow> map_option (Group delimiter) (resolve_relative_include_paths c s module_dir)
         | other \<Rightarrow> Some other) stream);
       resolve_includes c module_dir tokens
     }"
  by pat_completeness auto
termination
proof (relation "measure (\<lambda>(c, stream, d). size_list size stream)", simp)
  fix c stream module_dir and token d s
  assume "token \<in> set stream" "token = Group d s"
  then have "size (Group d s) \<le> size_list size stream" by (auto intro: size_list_estimation')
  then show "((c, s, module_dir), c, stream, module_dir) \<in> measure (\<lambda>(c, stream, d). size_list size stream)" by simp
qed

declare resolve_relative_include_paths.simps [simp del]

section \<open>Paths of child modules\<close>

definition is_literal :: "TokenTree \<Rightarrow> bool" where
  "is_literal t = (case t of Literal _ \<Rightarrow> True | _ \<Rightarrow> False)"

definition module_path_attribute :: "Compiler \<Rightarrow> str \<Rightarrow> TokenTree \<Rightarrow> TokenTree option" where
  "module_path_attribute c module_dir token =
     (case token of
        Group Bracket parts \<Rightarrow>
          (if get parts 0 \<noteq> Some (ident ''path'') then Some token
           else let literal_index = length (takeWhile (\<lambda>t. \<not> is_literal t) parts) in
                case get parts literal_index of
                  Some (Literal literal) \<Rightarrow>
                    (case decode_string_literal literal of
                       None \<Rightarrow> Some token
                     | Some path \<Rightarrow>
                         if is_absolute path then Some token
                         else (case cc_parse c (debug_string c (path_join module_dir path)) of
                                 Some (replacement # _) \<Rightarrow> Some (Group Bracket (parts[literal_index := replacement]))
                               | _ \<Rightarrow> None))
                | _ \<Rightarrow> Some token)
      | _ \<Rightarrow> Some token)"

definition resolve_relative_module_path :: "Compiler \<Rightarrow> TokenTree list \<Rightarrow> str \<Rightarrow> TokenTree list option" where
  "resolve_relative_module_path c tokens module_dir = those (map (module_path_attribute c module_dir) tokens)"

text \<open>The start of a module declaration, after inner attributes of the enclosing module.\<close>

fun inner_attributes :: "TokenTree list \<Rightarrow> nat" where
  "inner_attributes (t # u # v # ts) =
     (if t = punct CHR ''#'' \<and> u = punct CHR ''!'' \<and> (case v of Group Bracket _ \<Rightarrow> True | _ \<Rightarrow> False)
      then 3 + inner_attributes ts else 0)"
| "inner_attributes ts = 0"

definition declaration_start :: "TokenTree list \<Rightarrow> nat \<Rightarrow> nat" where
  "declaration_start tokens index = item_start tokens index + inner_attributes (item_window tokens index)"

definition child_module_path :: "Compiler \<Rightarrow> str \<Rightarrow> str \<Rightarrow> str" where
  "child_module_path c module_dir name =
     (let direct = path_join module_dir (name @ lit ''.rs'');
          nested = path_join (path_join module_dir name) (lit ''mod.rs'') in
      if cc_is_file c direct then direct else nested)"

definition path_attribute_text :: "Compiler \<Rightarrow> str \<Rightarrow> str" where
  "path_attribute_text c path = lit ''#[path = '' @ debug_string c path @ lit '']''"

definition resolve_declaration :: "Compiler \<Rightarrow> str \<Rightarrow> nat \<Rightarrow> TokenTree list \<Rightarrow> str \<Rightarrow> (nat \<times> TokenTree list) option" where
  "resolve_declaration c module_dir index tokens name =
     (let start = declaration_start tokens index;
          attributes = drop start (take index tokens) in
      if list_ex (path_group c) attributes then
        map_option (\<lambda>resolved. (index + 3, take start tokens @ resolved @ drop index tokens))
          (resolve_relative_module_path c attributes module_dir)
      else if cc_is_file c (child_module_path c module_dir name) then
        map_option (\<lambda>attribute. (index + 5, take start tokens @ attribute @ drop start tokens))
          (cc_parse c (path_attribute_text c (child_module_path c module_dir name)))
      else Some (index + 3, tokens))"

partial_function (option) resolve_modules :: "Compiler \<Rightarrow> str \<Rightarrow> nat \<Rightarrow> TokenTree list \<Rightarrow> TokenTree list option" where
  "resolve_modules c module_dir index tokens =
     (if length tokens \<le> index + 1 then Some tokens
      else if tokens ! index \<noteq> ident ''mod'' then resolve_modules c module_dir (index + 1) tokens
      else case tokens ! (index + 1) of
        Ident name \<Rightarrow>
          (case get tokens (index + 2) of
             None \<Rightarrow> resolve_modules c module_dir (index + 1) tokens
           | Some (Group delimiter s) \<Rightarrow>
               if delimiter = Brace then do {
                 nested \<leftarrow> resolve_modules c (path_join module_dir name) 0 s;
                 resolve_modules c module_dir (index + 3) (tokens[index + 2 := Group Brace nested])
               }
               else resolve_modules c module_dir (index + 3) tokens
           | Some next \<Rightarrow>
               if next \<noteq> punct CHR '';'' then resolve_modules c module_dir (index + 1) tokens
               else do {
                 (index', tokens') \<leftarrow> resolve_declaration c module_dir index tokens name;
                 resolve_modules c module_dir index' tokens'
               })
      | _ \<Rightarrow> resolve_modules c module_dir (index + 1) tokens)"

definition resolve_external_module_paths :: "Compiler \<Rightarrow> TokenTree list \<Rightarrow> str \<Rightarrow> TokenTree list option" where
  "resolve_external_module_paths c stream module_dir = resolve_modules c module_dir 0 stream"

subsection \<open>The scan over declarations ends\<close>

text \<open>What the compiler promises of the two texts that are parsed back.\<close>

definition parses_attributes :: "Compiler \<Rightarrow> bool" where
  "parses_attributes c \<longleftrightarrow> (\<forall>path. \<exists>s. cc_parse c (path_attribute_text c path) = Some [punct CHR ''#'', Group Bracket s])"

lemma those_Some: "(\<And>x. x \<in> set xs \<Longrightarrow> \<exists>y. f x = Some y) \<Longrightarrow> \<exists>ys. those (map f xs) = Some ys \<and> length ys = length xs"
  by (induction xs) (auto split: option.splits)

lemma inner_attributes_le: "inner_attributes ts \<le> length ts"
  by (induction ts rule: inner_attributes.induct) auto

lemma declaration_start_le:
  assumes "index \<le> length tokens" shows "declaration_start tokens index \<le> index"
proof -
  have "item_start tokens index \<le> index" by (simp add: item_start_def)
  moreover have "length (item_window tokens index) = index - item_start tokens index"
    using assms by (simp add: item_window_def)
  ultimately show ?thesis using inner_attributes_le [of "item_window tokens index"] by (simp add: declaration_start_def)
qed

lemma get_Some: "get xs i = Some x \<longleftrightarrow> i < length xs \<and> x = xs ! i"
  by (auto simp: get_def)

definition literals_parse :: "Compiler \<Rightarrow> bool" where
  "literals_parse c \<longleftrightarrow> (\<forall>s. \<exists>t ts. cc_parse c (debug_string c s) = Some (t # ts))"

lemma module_path_attribute_total:
  assumes "literals_parse c" shows "\<exists>t'. module_path_attribute c module_dir t = Some t'"
proof -
  have "\<exists>r. (case cc_parse c (debug_string c p) of Some (replacement # _) \<Rightarrow> Some (f replacement) | _ \<Rightarrow> None) = Some r"
    for p and f :: "TokenTree \<Rightarrow> TokenTree"
  proof -
    obtain u ts where "cc_parse c (debug_string c p) = Some (u # ts)" using assms unfolding literals_parse_def by blast
    then show ?thesis by simp
  qed
  then show ?thesis by (auto simp: module_path_attribute_def Let_def split: TokenTree.split Delimiter.split option.split)
qed

lemma resolve_declaration_total:
  assumes parse: "parses_attributes c" "literals_parse c" and "index + 2 < length tokens"
  shows "\<exists>index' tokens'. resolve_declaration c module_dir index tokens name = Some (index', tokens') \<and>
    drop index' tokens' = drop (index + 3) tokens"
proof -
  let ?start = "declaration_start tokens index"
  have start: "?start \<le> index" using assms(3) by (intro declaration_start_le) simp
  obtain resolved where resolved: "resolve_relative_module_path c (drop ?start (take index tokens)) module_dir = Some resolved"
      "length resolved = index - ?start"
    using those_Some [of "drop ?start (take index tokens)" "module_path_attribute c module_dir"]
      module_path_attribute_total [OF parse(2)] assms(3) by (auto simp: resolve_relative_module_path_def)
  obtain s where "cc_parse c (path_attribute_text c (child_module_path c module_dir name)) = Some [punct CHR ''#'', Group Bracket s]"
    using parse(1) by (auto simp: parses_attributes_def)
  moreover have "index + 5 - ?start = Suc (Suc (index + 3 - ?start))" using start by simp
  ultimately show ?thesis using resolved start assms(3)
    by (auto simp: resolve_declaration_def Let_def add.commute)
qed

lemma resolve_modules_total:
  assumes "parses_attributes c" and "literals_parse c"
  shows "\<exists>r. resolve_modules c module_dir index tokens = Some r"
proof (induction "size_list size (drop index tokens)" arbitrary: module_dir index tokens rule: less_induct)
  case less
  show ?case
  proof (cases "length tokens \<le> index + 1")
    case True
    then show ?thesis by (subst resolve_modules.simps) simp
  next
    case False
    then have split: "drop index tokens = tokens ! index # tokens ! (index + 1) # drop (index + 2) tokens"
      by (simp add: Cons_nth_drop_Suc)
    have next1: "\<exists>r. resolve_modules c d (index + 1) tokens = Some r" for d
      by (rule less) (use False in \<open>simp add: Cons_nth_drop_Suc [symmetric] split\<close>)
    show ?thesis
    proof (cases "get tokens (index + 2)")
      case None
      then show ?thesis using False next1 by (subst resolve_modules.simps) (simp split: TokenTree.split)
    next
      case (Some t)
      then have at: "index + 2 < length tokens" "t = tokens ! (index + 2)" by (auto simp: get_Some)
      then have split3: "drop index tokens = tokens ! index # tokens ! (index + 1) # t # drop (index + 3) tokens"
        using split Cons_nth_drop_Suc [of "index + 2" tokens] by (simp add: numeral_3_eq_3)
      have next3: "\<exists>r. resolve_modules c d index' tokens' = Some r" if "drop index' tokens' = drop (index + 3) tokens" for d index' tokens'
        by (rule less) (simp add: split3 that)
      have nested: "\<exists>r. resolve_modules c d 0 s = Some r" if "t = Group e s" for d e s
        by (rule less) (simp add: split3 that)
      show ?thesis
      proof (cases "tokens ! index = ident ''mod'' \<and> (\<exists>name. tokens ! (index + 1) = Ident name)")
        case False
        then show ?thesis using next1 \<open>\<not> length tokens \<le> index + 1\<close>
          by (subst resolve_modules.simps) (auto split: TokenTree.split)
      next
        case True
        then obtain name where name: "tokens ! index = ident ''mod''" "tokens ! (index + 1) = Ident name" by blast
        obtain index' tokens' where step: "resolve_declaration c module_dir index tokens name = Some (index', tokens')"
            "drop index' tokens' = drop (index + 3) tokens"
          using resolve_declaration_total [OF assms at(1)] by blast
        have "resolve_modules c module_dir index tokens =
            (case t of
               Group e s \<Rightarrow> if e = Brace then do {
                   nested \<leftarrow> resolve_modules c (path_join module_dir name) 0 s;
                   resolve_modules c module_dir (index + 3) (tokens[index + 2 := Group Brace nested])
                 }
                 else resolve_modules c module_dir (index + 3) tokens
             | _ \<Rightarrow> if t \<noteq> punct CHR '';'' then resolve_modules c module_dir (index + 1) tokens
                 else resolve_modules c module_dir index' tokens')"
          using \<open>\<not> length tokens \<le> index + 1\<close> name Some step(1)
          by (subst resolve_modules.simps) (auto split: TokenTree.split)
        note unfold = this
        show ?thesis
        proof (cases t)
          case (Group e s)
          obtain inner where "resolve_modules c (path_join module_dir name) 0 s = Some inner" using nested [OF Group] by blast
          moreover have "\<exists>r. resolve_modules c module_dir (index + 3) (tokens[index + 2 := Group Brace inner]) = Some r"
            by (rule next3) simp
          ultimately show ?thesis using next3 [OF refl, of module_dir] unfolding unfold by (simp add: Group)
        qed (use next1 [of module_dir] next3 [OF step(2), of module_dir] in \<open>simp_all add: unfold\<close>)
      qed
    qed
  qed
qed

text \<open>C39: Resolving the child modules of a module always returns, without a panic, whatever tokens its source has and whichever
  files exist: although path attributes are inserted into the list the loop scans, the loop never meets them again. The
  compiler is assumed to read \<open>#[path = \<dots>]\<close> as two tokens and a string literal as at least one.
\<close>

theorem module_resolution_ends:
  assumes "parses_attributes c" and "literals_parse c"
  shows "\<exists>r. resolve_external_module_paths c stream module_dir = Some r"
  using resolve_modules_total [OF assms] by (simp add: resolve_external_module_paths_def)

definition sample_compiler :: Compiler where
  "sample_compiler =
     (| cc_show = \<lambda>_. lit ''path'',
        cc_parse = \<lambda>s. Some (if starts_with s (lit ''#['') then [punct CHR ''#'', Group Bracket [Literal s]] else [Literal s]),
        cc_is_file = \<lambda>_. True, cc_printable = \<lambda>x. x < 0x7f |)"

lemma sample_compiler_parses: "parses_attributes sample_compiler" "literals_parse sample_compiler"
  by (simp_all add: parses_attributes_def literals_parse_def sample_compiler_def path_attribute_text_def starts_with_def lit_def)

theorem module_resolution_ends_witness:
  "\<exists>r. resolve_external_module_paths sample_compiler
     [ident ''mod'', ident ''a'', Group Brace [ident ''mod'', ident ''b'', punct CHR '';''], ident ''mod'', ident ''c'', punct CHR '';'']
     (lit ''/k'') = Some r"
  by (rule module_resolution_ends [OF sample_compiler_parses])

subsection \<open>Included files\<close>

text \<open>
  The files that the include macros of a stream name, at every depth, when the stream is in the directory \<open>base\<close>: the
  argument is a string literal or a \<open>concat!\<close> of string literals.
\<close>

fun concat_value :: "TokenTree list \<Rightarrow> str option" where
  "concat_value [Literal l] = decode_string_literal l"
| "concat_value (Literal l # u # ts) =
     (if u = punct CHR '','' then do { x \<leftarrow> decode_string_literal l; y \<leftarrow> concat_value ts; Some (x @ y) } else None)"
| "concat_value ts = None"

definition argument_path :: "TokenTree list \<Rightarrow> str option" where
  "argument_path ts =
     (case ts of
        Literal l # _ \<Rightarrow> decode_string_literal l
      | t # u # Group _ parts # _ \<Rightarrow> if t = ident ''concat'' \<and> u = punct CHR ''!'' then concat_value parts else None
      | _ \<Rightarrow> None)"

definition argument_file :: "str \<Rightarrow> TokenTree \<Rightarrow> str option" where
  "argument_file base t = (case t of Group _ ts \<Rightarrow> map_option (path_join base) (argument_path ts) | _ \<Rightarrow> None)"

fun include_arguments :: "TokenTree list \<Rightarrow> TokenTree list" where
  "include_arguments (t # u # v # ts) =
     (if is_include t u then v # include_arguments ts else include_arguments (u # v # ts))"
| "include_arguments ts = []"

function included :: "str \<Rightarrow> TokenTree list \<Rightarrow> str option list" where
  "included base stream =
     map (argument_file base) (include_arguments stream) @
     concat (map (\<lambda>t. case t of Group _ s \<Rightarrow> included base s | _ \<Rightarrow> []) stream)"
  by pat_completeness auto
termination
proof (relation "measure (\<lambda>(base, stream). size_list size stream)", simp)
  fix base stream and t d s
  assume "t \<in> set stream" "t = Group d s"
  then have "size (Group d s) \<le> size_list size stream" by (auto intro: size_list_estimation')
  then show "((base, s), base, stream) \<in> measure (\<lambda>(base, stream). size_list size stream)" by simp
qed

declare included.simps [simp del]

text \<open>Every include macro of the source has a literal for its path, and the compiler reads the text of its replacement.\<close>

inductive literal_includes :: "TokenTree list \<Rightarrow> bool" where
  "(\<forall>v \<in> set (include_arguments stream). \<exists>d l rest. v = Group d (Literal l # rest)) \<Longrightarrow>
   (\<forall>d s. Group d s \<in> set stream \<longrightarrow> literal_includes s) \<Longrightarrow> literal_includes stream"

definition parses_includes :: "Compiler \<Rightarrow> str \<Rightarrow> bool" where
  "parses_includes c dir \<longleftrightarrow>
     (\<forall>l. cc_parse c (include_text c dir l) =
        Some [ident ''concat'', punct CHR ''!'',
              Group Parenthesis [Literal (debug_string c dir), punct CHR '','', Literal (lit ''\"/\"''), punct CHR '','', Literal l]])"

definition inner_files :: "str \<Rightarrow> TokenTree \<Rightarrow> str option list" where
  "inner_files base t = (case t of Group _ s \<Rightarrow> included base s | _ \<Rightarrow> [])"

lemma included_inner: "included base stream = map (argument_file base) (include_arguments stream) @ concat (map (inner_files base) stream)"
  by (subst included.simps) (simp add: inner_files_def [abs_def])

definition head_literal :: "TokenTree list \<Rightarrow> str option" where
  "head_literal ts = (case ts of Literal l # _ \<Rightarrow> Some l | _ \<Rightarrow> None)"

definition resolved_token :: "str \<Rightarrow> str \<Rightarrow> TokenTree \<Rightarrow> TokenTree \<Rightarrow> bool" where
  "resolved_token base dir t u =
     (case t of
        Group d s \<Rightarrow> (\<exists>s'. u = Group d s' \<and> included base s' = included dir s \<and> head_literal s' = head_literal s)
      | _ \<Rightarrow> u = t)"

lemma head_literal_Some: "head_literal s = Some l \<longleftrightarrow> (\<exists>rest. s = Literal l # rest)"
  by (auto simp: head_literal_def split: list.splits TokenTree.splits)

lemma resolved_token_simps [simp]:
  "resolved_token base dir (Ident x) u \<longleftrightarrow> u = Ident x"
  "resolved_token base dir (Punct p) u \<longleftrightarrow> u = Punct p"
  "resolved_token base dir (Literal l) u \<longleftrightarrow> u = Literal l"
  "resolved_token base dir t (Ident x) \<longleftrightarrow> t = Ident x"
  "resolved_token base dir t (Punct p) \<longleftrightarrow> t = Punct p"
  "resolved_token base dir t (Literal l) \<longleftrightarrow> t = Literal l"
  by (auto simp: resolved_token_def split: TokenTree.splits)

lemma resolved_inner: "resolved_token base dir t u \<Longrightarrow> inner_files base u = inner_files dir t"
  by (auto simp: resolved_token_def inner_files_def split: TokenTree.splits)

lemma resolved_include:
  assumes "resolved_token base dir t t'" "resolved_token base dir u u'"
  shows "is_include t' u' = is_include t u"
  using assms by (cases t; cases u; auto simp: is_include_def resolved_token_def)

lemma argument_plain: "\<not> is_include t u \<Longrightarrow> include_arguments (t # u # ts) = include_arguments (u # ts)"
  by (cases ts) simp_all

lemma include_not_ident: "\<not> (\<exists>x. t = Ident x) \<Longrightarrow> include_arguments (t # ts) = include_arguments ts"
  by (cases ts; cases "tl ts") (auto simp: is_include_def)

lemma is_include_concat: "\<not> is_include (ident ''concat'') u"
  by (simp add: is_include_def lit_def)

lemma is_include_other: "\<not> is_include (Punct p) u" "\<not> is_include (Literal l) u" "\<not> is_include (Group d s) u"
  by (simp_all add: is_include_def)

text \<open>The replacement names the file of the source's directory, and hides no other include macro.\<close>

lemma include_argument_correct:
  assumes parse: "parses_includes c dir" and dir: "list_all scalar_value dir" "is_absolute dir" "last dir \<noteq> slash"
    and v: "resolved_token base dir v v'" "v = Group d (Literal l # rest)"
    and result: "include_argument c dir v' = Some v''"
  shows "argument_file base v'' = argument_file dir v" "inner_files base v'' = inner_files dir v" "\<exists>s. v'' = Group d s"
proof -
  obtain rest' where v': "v' = Group d (Literal l # rest')" and inner: "included base (Literal l # rest') = included dir (Literal l # rest)"
  proof -
    obtain s' where s': "v' = Group d s'" "included base s' = included dir (Literal l # rest)"
        "head_literal s' = head_literal (Literal l # rest)"
      using v by (auto simp: resolved_token_def)
    then have "head_literal s' = Some l" by (simp add: head_literal_def)
    then obtain rest' where "s' = Literal l # rest'" unfolding head_literal_Some by blast
    with s'(1,2) that show thesis by simp
  qed
  have arg: "argument_file b (Group d (Literal l # r)) = map_option (path_join b) (decode_string_literal l)" for b r
    by (simp add: argument_file_def argument_path_def)
  have "argument_file base v'' = argument_file dir v \<and> inner_files base v'' = inner_files dir v \<and> (\<exists>s. v'' = Group d s)"
  proof (cases "decode_string_literal l")
    case None
    then show ?thesis using result v' v(2) inner by (auto simp: include_argument_def arg inner_files_def)
  next
    case (Some path)
    show ?thesis
    proof (cases "is_absolute path")
      case True
      then show ?thesis using result v' v(2) inner Some by (auto simp: include_argument_def arg inner_files_def path_join_def)
    next
      case False
      have "dir \<noteq> []" using dir(2) by (auto simp: is_absolute_def starts_with_def)
      let ?parts = "[Literal (debug_string c dir), punct CHR '','', Literal (lit ''\"/\"''), punct CHR '','', Literal l]"
      have v'': "v'' = Group d (ident ''concat'' # punct CHR ''!'' # Group Parenthesis ?parts # rest')"
        using result v' Some False parse by (auto simp: include_argument_def parses_includes_def)
      have "decode_string_literal (lit ''\"/\"'') = Some [slash]" by code_simp
      then have "concat_value ?parts = Some (dir @ [slash] @ path)"
        using debug_string_roundtrip [OF dir(1), of c] Some by simp
      moreover have "is_absolute (dir @ [slash] @ path)" using dir(2) \<open>dir \<noteq> []\<close> by (cases dir) (auto simp: is_absolute_def starts_with_def)
      ultimately have "argument_file base v'' = Some (dir @ [slash] @ path)"
        by (simp add: v'' argument_file_def argument_path_def path_join_def)
      moreover have "argument_file dir v = Some (dir @ [slash] @ path)"
        using v(2) Some False dir(3) \<open>dir \<noteq> []\<close> by (simp add: arg path_join_def)
      moreover have "included base (ident ''concat'' # punct CHR ''!'' # Group Parenthesis ?parts # rest') = included base (Literal l # rest')"
        by (simp add: included_inner argument_plain is_include_concat include_not_ident inner_files_def is_include_other)
      ultimately show ?thesis using inner v(2) by (simp add: v'' inner_files_def)
    qed
  qed
  then show "argument_file base v'' = argument_file dir v" "inner_files base v'' = inner_files dir v" "\<exists>s. v'' = Group d s" by auto
qed

lemma resolved_includes:
  assumes parse: "parses_includes c dir" and dir: "list_all scalar_value dir" "is_absolute dir" "last dir \<noteq> slash"
  shows "list_all2 (resolved_token base dir) stream tokens \<Longrightarrow>
    \<forall>v \<in> set (include_arguments stream). \<exists>d l rest. v = Group d (Literal l # rest) \<Longrightarrow>
    resolve_includes c dir tokens = Some out \<Longrightarrow>
    map (argument_file base) (include_arguments out) = map (argument_file dir) (include_arguments stream) \<and>
    concat (map (inner_files base) out) = concat (map (inner_files dir) stream) \<and>
    take 1 out = take 1 tokens \<and> length out = length tokens"
proof (induction stream arbitrary: tokens out rule: include_arguments.induct)
  case (1 t u v ts)
  then obtain t' u' v' ts' where tokens: "tokens = t' # u' # v' # ts'" and same: "resolved_token base dir t t'"
      "resolved_token base dir u u'" "resolved_token base dir v v'" and rest: "list_all2 (resolved_token base dir) ts ts'"
    by (auto simp: list_all2_Cons1)
  show ?case
  proof (cases "is_include t u")
    case True
    then have include': "is_include t' u'" using resolved_include [OF same(1,2)] by simp
    then obtain v'' rest'' where v'': "include_argument c dir v' = Some v''" and rest'': "resolve_includes c dir ts' = Some rest''"
        and out: "out = t' # u' # v'' # rest''"
      using 1(5) by (auto simp: tokens bind_eq_Some_conv)
    obtain d l r where v: "v = Group d (Literal l # r)" using 1(4) True by auto
    note correct = include_argument_correct [OF parse dir same(3) v v'']
    have "\<forall>v \<in> set (include_arguments ts). \<exists>d l rest. v = Group d (Literal l # rest)" using 1(4) True by simp
    note IH = 1(1) [OF True rest this rest'']
    show ?thesis using True include' IH correct resolved_inner [OF same(1)] resolved_inner [OF same(2)] by (simp add: out tokens)
  next
    case False
    then have include': "\<not> is_include t' u'" using resolved_include [OF same(1,2)] by simp
    then obtain rest'' where rest'': "resolve_includes c dir (u' # v' # ts') = Some rest''" and out: "out = t' # rest''"
      using 1(5) by (auto simp: tokens)
    have "list_all2 (resolved_token base dir) (u # v # ts) (u' # v' # ts')" using same rest by simp
    moreover have "\<forall>v \<in> set (include_arguments (u # v # ts)). \<exists>d l rest. v = Group d (Literal l # rest)" using 1(4) False by simp
    ultimately have IH: "map (argument_file base) (include_arguments rest'') = map (argument_file dir) (include_arguments (u # v # ts)) \<and>
        concat (map (inner_files base) rest'') = concat (map (inner_files dir) (u # v # ts)) \<and>
        take 1 rest'' = take 1 (u' # v' # ts') \<and> length rest'' = length (u' # v' # ts')"
      using 1(2) [OF False] rest'' by blast
    then obtain w where w: "rest'' = u' # w" by (cases rest'') auto
    then have "include_arguments out = include_arguments rest''" using include' by (simp add: out argument_plain)
    then show ?thesis using False IH resolved_inner [OF same(1)] by (simp add: out tokens)
  qed
qed (auto simp: list_all2_Cons1 resolved_inner)

lemma those_list_all2: "those (map f xs) = Some ys \<Longrightarrow> list_all2 (\<lambda>x y. f x = Some y) xs ys"
  by (induction xs arbitrary: ys) (auto split: option.splits)

lemma resolved_stream:
  assumes parse: "parses_includes c dir" and dir: "list_all scalar_value dir" "is_absolute dir" "last dir \<noteq> slash"
  shows "literal_includes stream \<Longrightarrow> resolve_relative_include_paths c stream dir = Some out \<Longrightarrow>
    included base out = included dir stream \<and> head_literal out = head_literal stream"
proof (induction stream arbitrary: out rule: literal_includes.induct)
  case (1 stream)
  let ?f = "\<lambda>token. case token of Group d s \<Rightarrow> map_option (Group d) (resolve_relative_include_paths c s dir) | other \<Rightarrow> Some other"
  obtain tokens where tokens: "those (map ?f stream) = Some tokens" and out: "resolve_includes c dir tokens = Some out"
    using 1(3) by (subst (asm) resolve_relative_include_paths.simps) (auto simp: bind_eq_Some_conv)
  have "list_all2 (resolved_token base dir) stream tokens"
    unfolding list_all2_conv_all_nth
  proof (intro conjI allI impI)
    show "length stream = length tokens" using those_list_all2 [OF tokens] by (rule list_all2_lengthD)
    fix i assume i: "i < length stream"
    then have f: "?f (stream ! i) = Some (tokens ! i)" by (rule list_all2_nthD [OF those_list_all2 [OF tokens]])
    show "resolved_token base dir (stream ! i) (tokens ! i)"
    proof (cases "stream ! i")
      case (Group d s)
      then have "Group d s \<in> set stream" using i by (metis nth_mem)
      moreover obtain s' where "resolve_relative_include_paths c s dir = Some s'" "tokens ! i = Group d s'"
        using f by (auto simp: Group)
      ultimately show ?thesis using 1(2) by (auto simp: Group resolved_token_def)
    qed (use f in \<open>auto simp: resolved_token_def split: TokenTree.splits\<close>)
  qed
  note same = this
  note correct = resolved_includes [OF parse dir same 1(1) out]
  have "head_literal out = head_literal tokens" using correct by (cases out; cases tokens) (auto simp: head_literal_def)
  also have "head_literal tokens = head_literal stream"
    using same by (cases stream; cases tokens) (auto simp: head_literal_def resolved_token_def split: TokenTree.splits)
  finally show ?case using correct by (simp add: included_inner)
qed

lemma resolve_includes_total:
  assumes "parses_includes c dir" shows "\<exists>out. resolve_includes c dir tokens = Some out"
proof -
  have "\<exists>v'. include_argument c dir v = Some v'" for v
    using assms by (auto simp: include_argument_def parses_includes_def split: TokenTree.split list.split option.split)
  note argument = this
  show ?thesis
  proof (induction tokens rule: include_arguments.induct)
    case (1 t u v ts)
    obtain v' where "include_argument c dir v = Some v'" using argument by blast
    then show ?case using 1 by (cases "is_include t u") auto
  qed simp_all
qed

lemma resolve_paths_total:
  assumes "parses_includes c dir" shows "\<exists>out. resolve_relative_include_paths c stream dir = Some out"
proof (induction "size_list size stream" arbitrary: stream rule: less_induct)
  case less
  let ?f = "\<lambda>token. case token of Group d s \<Rightarrow> map_option (Group d) (resolve_relative_include_paths c s dir) | other \<Rightarrow> Some other"
  have "\<exists>u. ?f t = Some u" if "t \<in> set stream" for t
  proof (cases t)
    case (Group d s)
    then have "size (Group d s) \<le> size_list size stream" using that by (auto intro: size_list_estimation')
    then show ?thesis using less [of s] by (auto simp: Group)
  qed simp_all
  then obtain tokens where "those (map ?f stream) = Some tokens" using those_Some [of stream ?f] by blast
  then show ?case using resolve_includes_total [OF assms, of tokens]
    by (subst resolve_relative_include_paths.simps) simp
qed


definition include_compiler :: Compiler where
  "include_compiler =
     (| cc_show = \<lambda>_. [],
        cc_parse = \<lambda>s. Some [ident ''concat'', punct CHR ''!'', Group Parenthesis
          [Literal (lit ''\"/k\"''), punct CHR '','', Literal (lit ''\"/\"''), punct CHR '','',
           Literal (take (length s - 20) (drop 19 s))]],
        cc_is_file = \<lambda>_. False, cc_printable = \<lambda>x. x < 0x7f |)"

lemma include_compiler_parses: "parses_includes include_compiler (lit ''/k'')"
proof -
  have "debug_string include_compiler (lit ''/k'') = lit ''\"/k\"''"
    by (simp add: debug_string_def escape_char_def include_compiler_def lit_def)
  then show ?thesis by (simp add: parses_includes_def include_text_def) (simp add: include_compiler_def lit_def)
qed

definition include_sample :: "TokenTree list" where
  "include_sample =
     [Group Brace [ident ''include_str'', punct CHR ''!'', Group Parenthesis [Literal (lit ''\"a.txt\"'')]],
      ident ''include'', punct CHR ''!'', Group Parenthesis [Literal (lit ''\"/b.rs\"'')]]"

lemma include_sample_literal: "literal_includes include_sample"
proof -
  have leaf: "literal_includes [Literal l]" for l by (rule literal_includes.intros) simp_all
  have "literal_includes [ident ''include_str'', punct CHR ''!'', Group Parenthesis [Literal l]]" for l
    by (rule literal_includes.intros) (simp_all add: leaf is_include_def)
  then show ?thesis unfolding include_sample_def
    by (intro literal_includes.intros) (auto simp: leaf is_include_def lit_def)
qed


section \<open>The macro\<close>

text \<open>
  What the macro finds of the build it runs in: the manifest directory, reading a file (\<open>Inl\<close> the error), creating a
  directory and writing a file (\<open>Some\<close> the error), the compiler's message for a text it cannot read, and the process. It
  counts the modules it generates and has the files it wrote, last first.
\<close>

record Build =
  bd_manifest_dir :: "str option"
  bd_read :: "str \<Rightarrow> str + str"
  bd_create_dirs :: "str \<Rightarrow> str option"
  bd_write :: "str \<Rightarrow> str \<Rightarrow> str option"
  bd_lex_error :: "str \<Rightarrow> str"
  bd_process_id :: nat
  bd_generated_id :: u64
  bd_written :: "(str \<times> str) list"

definition not_profiled :: "TokenTree list \<Rightarrow> TokenTree list \<Rightarrow> TokenTree list" where
  "not_profiled attribute item = item"

definition compile_error :: "Compiler \<Rightarrow> str \<Rightarrow> TokenTree list option" where
  "compile_error c message = cc_parse c (lit ''compile_error!('' @ debug_string c message @ lit '');'')"

definition trim_quotes :: "str \<Rightarrow> str" where
  "trim_quotes s =
     (let quote = (\<lambda>x. x = of_char CHR ''\"'') in rev (dropWhile quote (rev (dropWhile quote s))))"

definition attribute_path :: "TokenTree list \<Rightarrow> str option" where
  "attribute_path attribute =
     (case dropWhile (\<lambda>t. \<not> is_literal t) attribute of
        Literal l # _ \<Rightarrow>
          if starts_with l [of_char CHR ''\"''] \<and> l \<noteq> [] \<and> last l = of_char CHR ''\"'' then Some (trim_quotes l) else None
      | _ \<Rightarrow> None)"

definition source_directory :: "str \<Rightarrow> str \<Rightarrow> str" where
  "source_directory manifest source_path = (case parent source_path of Some d \<Rightarrow> d | None \<Rightarrow> manifest)"

definition module_directory :: "str \<Rightarrow> str \<Rightarrow> str" where
  "module_directory manifest source_path =
     (if file_name source_path = Some (lit ''mod.rs'') then source_directory manifest source_path
      else path_join (source_directory manifest source_path)
             (case file_stem source_path of Some stem \<Rightarrow> stem | None \<Rightarrow> []))"

definition transform_module :: "Compiler \<Rightarrow> str \<Rightarrow> str \<Rightarrow> TokenTree list \<Rightarrow> TokenTree list option" where
  "transform_module c manifest source_path tokens =
     do {
       tokens \<leftarrow> resolve_external_module_paths c tokens (module_directory manifest source_path);
       tokens \<leftarrow> resolve_relative_include_paths c tokens (source_directory manifest source_path);
       Some (transform_scope c tokens None)
     }"

definition is_alphanumeric :: "nat \<Rightarrow> bool" where
  "is_alphanumeric x \<longleftrightarrow> 48 \<le> x \<and> x \<le> 57 \<or> 65 \<le> x \<and> x \<le> 90 \<or> 97 \<le> x \<and> x \<le> 122"

definition generated_name :: "str \<Rightarrow> str" where
  "generated_name relative_path = map (\<lambda>x. if is_alphanumeric x then x else of_char CHR ''_'') relative_path"

definition generated_file :: "str \<Rightarrow> nat \<Rightarrow> u64 \<Rightarrow> str" where
  "generated_file relative_path process_id generated_id =
     lit ''profiled_'' @ generated_name relative_path @ lit ''_'' @ lit (decimal process_id) @ lit ''_'' @
     lit (decimal (unat generated_id))"

text \<open>What is wrong with the item the attribute is on, if anything.\<close>

definition item_error :: "TokenTree list \<Rightarrow> string option" where
  "item_error output =
     (case dropWhile (\<lambda>t. t \<noteq> ident ''mod'') output of
        [] \<Rightarrow> Some ''#[profiled_module] must be applied to a module declaration''
      | _ # rest \<Rightarrow>
          (case get rest 0 of
             Some (Ident _) \<Rightarrow>
               if punct CHR '';'' \<in> set output then None
               else Some ''#[profiled_module] expects an out-of-line module declaration''
           | _ \<Rightarrow> Some ''could not read module name''))"

definition generate_module :: "Compiler \<Rightarrow> Build \<Rightarrow> str \<Rightarrow> str \<Rightarrow> TokenTree list \<Rightarrow> TokenTree list \<Rightarrow> (Build \<times> TokenTree list) option" where
  "generate_module c b manifest relative_path source_tokens output =
     (let out_dir = path_join manifest (lit ''target/profiled_modules'') in
      case bd_create_dirs b out_dir of
        Some error \<Rightarrow> map_option (Pair b) (compile_error c (lit ''cannot create generated module directory: '' @ error))
      | None \<Rightarrow>
          (let generated_path = path_join out_dir (generated_file relative_path (bd_process_id b) (bd_generated_id b));
               content = cc_show c source_tokens;
               b = b(|bd_generated_id := bd_generated_id b + 1|) in
           case bd_write b generated_path content of
             Some error \<Rightarrow> map_option (Pair b) (compile_error c (lit ''cannot write generated module source: '' @ error))
           | None \<Rightarrow>
               map_option (\<lambda>attribute. (b(|bd_written := (generated_path, content) # bd_written b|), attribute @ output))
                 (cc_parse c (path_attribute_text c generated_path))))"

definition profiled_module :: "Compiler \<Rightarrow> Build \<Rightarrow> TokenTree list \<Rightarrow> TokenTree list \<Rightarrow> (Build \<times> TokenTree list) option" where
  "profiled_module c b attribute item =
     (let fail = (\<lambda>message. map_option (Pair b) (compile_error c message)) in
      case attribute_path attribute of
        None \<Rightarrow> fail (lit ''expected a source path string, e.g. #[profiled_module(\"src/foo.rs\")]'')
      | Some relative_path \<Rightarrow>
      case bd_manifest_dir b of
        None \<Rightarrow> fail (lit ''CARGO_MANIFEST_DIR is unavailable'')
      | Some manifest \<Rightarrow>
      let source_path = path_join manifest relative_path in
      case bd_read b source_path of
        Inl error \<Rightarrow> fail (lit ''cannot read profiled module '' @ source_path @ lit '': '' @ error)
      | Inr source \<Rightarrow>
      case cc_parse c source of
        None \<Rightarrow> fail (lit ''cannot parse profiled module: '' @ bd_lex_error b source)
      | Some tokens \<Rightarrow>
      do {
        source_tokens \<leftarrow> transform_module c manifest source_path tokens;
        dependency \<leftarrow> cc_parse c (lit ''const _: &[u8] = include_bytes!('' @ debug_string c source_path @ lit '');'');
        (let output = strip_path_attributes c item in
         case item_error output of
           Some message \<Rightarrow> fail (lit message)
         | None \<Rightarrow> generate_module c b manifest relative_path (source_tokens @ dependency) output)
      })"

subsection \<open>What an expansion does\<close>

definition generated_path :: "Build \<Rightarrow> str \<Rightarrow> str \<Rightarrow> str" where
  "generated_path b manifest relative_path =
     path_join (path_join manifest (lit ''target/profiled_modules''))
       (generated_file relative_path (bd_process_id b) (bd_generated_id b))"

lemma generate_module_cases:
  assumes "generate_module c b manifest relative_path source_tokens output = Some (b', out)"
  shows "((b' = b \<or> b' = b(|bd_generated_id := bd_generated_id b + 1|)) \<and> (\<exists>message. compile_error c message = Some out)) \<or>
    (\<exists>attribute. cc_parse c (path_attribute_text c (generated_path b manifest relative_path)) = Some attribute \<and>
       out = attribute @ output \<and>
       b' = b(|bd_generated_id := bd_generated_id b + 1,
               bd_written := (generated_path b manifest relative_path, cc_show c source_tokens) # bd_written b|))"
  using assms unfolding generate_module_def Let_def generated_path_def [symmetric]
  by (auto split: option.splits)

lemma written_grows: "b \<noteq> b(|bd_generated_id := n, bd_written := x # bd_written b|)"
  by (metis Build.select_convs(8) Build.surjective Build.update_convs(7,8) not_Cons_self2)

text \<open>An expansion reports an error and writes nothing, or it writes one file and installs it: the file holds the source,
  with its child modules and includes resolved, its functions hooked, and a dependency on the source appended, and the item
  comes back behind the path of that file without its own path attributes.\<close>

theorem profiled_module_outcome:
  assumes "profiled_module c b attribute item = Some (b', out)"
  shows "(bd_written b' = bd_written b \<and> (\<exists>message. compile_error c message = Some out)) \<or>
    (\<exists>manifest relative_path source tokens source_tokens dependency path_attribute.
       attribute_path attribute = Some relative_path \<and> bd_manifest_dir b = Some manifest \<and>
       bd_read b (path_join manifest relative_path) = Inr source \<and> cc_parse c source = Some tokens \<and>
       transform_module c manifest (path_join manifest relative_path) tokens = Some source_tokens \<and>
       cc_parse c (lit ''const _: &[u8] = include_bytes!('' @ debug_string c (path_join manifest relative_path) @ lit '');'')
         = Some dependency \<and>
       cc_parse c (path_attribute_text c (generated_path b manifest relative_path)) = Some path_attribute \<and>
       out = path_attribute @ strip_path_attributes c item \<and> item_error (strip_path_attributes c item) = None \<and>
       bd_written b' = (generated_path b manifest relative_path, cc_show c (source_tokens @ dependency)) # bd_written b)"
  using assms unfolding profiled_module_def Let_def
  by (auto simp: bind_eq_Some_conv written_grows split: option.splits sum.splits dest!: generate_module_cases)

fun profiled_modules :: "Compiler \<Rightarrow> Build \<Rightarrow> (TokenTree list \<times> TokenTree list) list \<Rightarrow> Build option" where
  "profiled_modules c b [] = Some b"
| "profiled_modules c b ((attribute, item) # invocations) =
     do { (b', _) \<leftarrow> profiled_module c b attribute item; profiled_modules c b' invocations }"

lemma profiled_module_state:
  assumes "profiled_module c b attribute item = Some (b', out)"
  shows "b' = b \<or> b' = b(|bd_generated_id := bd_generated_id b + 1|) \<or>
    (\<exists>manifest relative_path content.
       b' = b(|bd_generated_id := bd_generated_id b + 1,
               bd_written := (generated_path b manifest relative_path, content) # bd_written b|))"
  using assms unfolding profiled_module_def Let_def
  by (auto simp: bind_eq_Some_conv split: option.splits sum.splits dest!: generate_module_cases)

text \<open>The number of an invocation is what follows the last underscore of the file it writes.\<close>

definition file_id :: "str \<Rightarrow> str" where
  "file_id path = rev (takeWhile (\<lambda>x. x \<noteq> of_char CHR ''_'') (rev path))"

lemma digit_not_underscore: "x \<in> set (lit (decimal n)) \<Longrightarrow> x \<noteq> of_char CHR ''_''"
  using decimal_digits by (fastforce simp: lit_def is_digit_def of_char_of)

lemma lit_inj: "lit s = lit t \<longleftrightarrow> s = t"
  by (simp add: lit_def inj_map_eq_map inj_def)

lemma path_join_suffix: "\<not> is_absolute p \<Longrightarrow> \<exists>front. path_join base p = front @ p"
  by (auto simp: path_join_def)

lemma file_id_generated: "file_id (generated_path b manifest relative_path) = lit (decimal (unat (bd_generated_id b)))"
proof -
  have "\<not> is_absolute (generated_file relative_path (bd_process_id b) (bd_generated_id b))"
    by (simp add: generated_file_def is_absolute_def starts_with_def lit_def)
  then obtain front where "generated_path b manifest relative_path = front @ generated_file relative_path (bd_process_id b) (bd_generated_id b)"
    using path_join_suffix unfolding generated_path_def by blast
  then obtain base where "generated_path b manifest relative_path = base @ lit ''_'' @ lit (decimal (unat (bd_generated_id b)))"
    using that by (simp add: generated_file_def)
  moreover have "takeWhile (\<lambda>x. x \<noteq> of_char CHR ''_'') (rev (lit (decimal n)) @ rev (lit ''_'') @ rest) = rev (lit (decimal n))"
    for n rest using digit_not_underscore [of _ n] by (subst takeWhile_append2) (auto simp: lit_def)
  ultimately show ?thesis by (simp add: file_id_def)
qed

definition numbered :: "Build \<Rightarrow> bool" where
  "numbered b \<longleftrightarrow> distinct (map fst (bd_written b)) \<and>
     (\<forall>path \<in> fst ` set (bd_written b). \<exists>n < unat (bd_generated_id b). file_id path = lit (decimal n))"

lemma numbered_step:
  assumes "numbered b" and "profiled_module c b attribute item = Some (b', out)" and "unat (bd_generated_id b) + 1 < 2 ^ 64"
  shows "numbered b'" and "unat (bd_generated_id b') \<le> unat (bd_generated_id b) + 1"
proof -
  have succ: "unat (bd_generated_id b + 1) = unat (bd_generated_id b) + 1"
    using assms(3) by (simp add: unat_word_ariths)
  have fresh: "generated_path b manifest relative_path \<notin> fst ` set (bd_written b)" for manifest relative_path
    using assms(1) by (fastforce simp: numbered_def file_id_generated lit_inj)
  show "numbered b'" using profiled_module_state [OF assms(2)] assms(1) fresh succ
    by (auto simp: numbered_def file_id_generated) (fastforce)+
  show "unat (bd_generated_id b') \<le> unat (bd_generated_id b) + 1" using profiled_module_state [OF assms(2)] succ by auto
qed

lemma numbered_run:
  "numbered b \<Longrightarrow> unat (bd_generated_id b) + length invocations < 2 ^ 64 \<Longrightarrow>
   profiled_modules c b invocations = Some b' \<Longrightarrow> numbered b'"
proof (induction c b invocations rule: profiled_modules.induct)
  case (2 c b attribute item invocations)
  then obtain b1 out where "profiled_module c b attribute item = Some (b1, out)" "profiled_modules c b1 invocations = Some b'"
    by (auto simp: bind_eq_Some_conv)
  then show ?case using 2 numbered_step [OF 2(2), of c attribute item b1 out] by auto
qed auto

text \<open>C40: The macros of one compilation never overwrite each other's generated file: the modules of a process, up to the
  wrap-around of the counter, are all written to different paths, also when they are made from the same source.\<close>

theorem generated_files_distinct:
  assumes "bd_written b = []" and "bd_generated_id b = 0" and "length invocations < 2 ^ 64"
    and "profiled_modules c b invocations = Some b'"
  shows "distinct (map fst (bd_written b'))"
  using numbered_run [of b invocations c b'] assms by (simp add: numbered_def)

definition sample_build :: Build where
  "sample_build =
     (| bd_manifest_dir = Some (lit ''/k''), bd_read = \<lambda>_. Inr (lit ''mod x''), bd_create_dirs = \<lambda>_. None,
        bd_write = \<lambda>_ _. None, bd_lex_error = \<lambda>_. [], bd_process_id = 7, bd_generated_id = 0, bd_written = [] |)"

definition sample_item :: "TokenTree list" where
  "sample_item = [ident ''mod'', ident ''a'', punct CHR '';'']"

lemma transform_literal: "transform_module c manifest path [Literal l] = Some [Literal l]"
  by (simp add: transform_module_def resolve_external_module_paths_def resolve_modules.simps [of _ _ 0]
      resolve_relative_include_paths.simps [of _ "[Literal l]"] transform_scope_bodies scope_bodies_def
      instrument_functions_def function_name_def get_def)

lemma sample_expansion:
  "\<exists>b' out. profiled_module sample_compiler (sample_build(|bd_generated_id := n, bd_written := w|)) [Literal (lit ''\"a.rs\"'')]
     sample_item = Some (b', out) \<and> length (bd_written b') = length w + 1 \<and> b' = sample_build(|bd_generated_id := n + 1, bd_written := bd_written b'|)"
proof -
  have path: "attribute_path [Literal (lit ''\"a.rs\"'')] = Some (lit ''a.rs'')"
    by (simp add: attribute_path_def is_literal_def starts_with_def lit_def trim_quotes_def Let_def)
  have literals: "cc_parse sample_compiler (lit ''mod x'') = Some [Literal (lit ''mod x'')]"
    "cc_parse sample_compiler (lit ''const _: &[u8] = include_bytes!('' @ t) = Some [Literal (lit ''const _: &[u8] = include_bytes!('' @ t)]" for t
    by (simp_all add: sample_compiler_def starts_with_def lit_def)
  have attr: "\<exists>a. cc_parse sample_compiler (path_attribute_text sample_compiler p) = Some a" for p
    using sample_compiler_parses(1) by (auto simp: parses_attributes_def)
  have strip: "strip_path_attributes sample_compiler sample_item = sample_item" "item_error sample_item = None"
    by (simp_all add: sample_item_def item_error_def get_def lit_def)
  show ?thesis
    using attr by (simp add: profiled_module_def path literals transform_literal strip generate_module_def sample_build_def Let_def)
qed

lemma sample_build_fresh: "sample_build(|bd_generated_id := 0, bd_written := []|) = sample_build"
  by (simp add: sample_build_def)

theorem profiled_module_outcome_witness:
  "\<exists>b' out path_attribute. profiled_module sample_compiler sample_build [Literal (lit ''\"a.rs\"'')] sample_item = Some (b', out) \<and>
     out = path_attribute @ strip_path_attributes sample_compiler sample_item"
proof -
  obtain b' out where run: "profiled_module sample_compiler sample_build [Literal (lit ''\"a.rs\"'')] sample_item = Some (b', out)"
      and "length (bd_written b') = 1"
    using sample_expansion [of "[]" 0] sample_build_fresh by auto
  then have "bd_written b' \<noteq> bd_written sample_build" by (auto simp: sample_build_def)
  then have "\<exists>path_attribute. out = path_attribute @ strip_path_attributes sample_compiler sample_item"
    using profiled_module_outcome [OF run] by blast
  with run show ?thesis by blast
qed

theorem generated_files_distinct_witness:
  "\<exists>b'. profiled_modules sample_compiler sample_build (replicate 2 ([Literal (lit ''\"a.rs\"'')], sample_item)) = Some b' \<and>
     length (bd_written b') = 2 \<and> distinct (map fst (bd_written b'))"
proof -
  obtain b1 out where one: "profiled_module sample_compiler sample_build [Literal (lit ''\"a.rs\"'')] sample_item = Some (b1, out)"
      and b1: "length (bd_written b1) = 1" "b1 = sample_build(|bd_generated_id := 1, bd_written := bd_written b1|)"
    using sample_expansion [of "[]" 0] sample_build_fresh by auto
  obtain b2 out' where two: "profiled_module sample_compiler b1 [Literal (lit ''\"a.rs\"'')] sample_item = Some (b2, out')"
      and b2: "length (bd_written b2) = 2"
    using sample_expansion [of "bd_written b1" 1] b1 by auto
  have run: "profiled_modules sample_compiler sample_build (replicate 2 ([Literal (lit ''\"a.rs\"'')], sample_item)) = Some b2"
    using one two by (simp add: numeral_2_eq_2)
  have "distinct (map fst (bd_written b2))"
    by (rule generated_files_distinct [OF _ _ _ run]) (simp_all add: sample_build_def)
  with run b2 show ?thesis by blast
qed

end
