(* ===== verification/Spec2Isabelle.thy ===== *)
theory Spec2Isabelle
  imports Paging Scheduler Timer Keyboard Mouse Cursor Shell FreeList Interrupts Boot Idle Startup Probes Profiler ProfileMacro
begin

text \<open>
  A model of AgnostOS, an x86-64 UEFI kernel in Rust, with proofs about it. The definitions are translated from the files
  under \<^verbatim>\<open>src/\<close>, function by function and under their names where Isabelle allows it; each theory opens with a note
  on what it holds.

  \<^bold>\<open>The program and its theories.\<close> The firmware starts \<^verbatim>\<open>main.rs\<close>, which calls \<^verbatim>\<open>boot.rs\<close>. Boot picks a graphics mode
  (\<^verbatim>\<open>uefi_graphics\<close>), gives the console the framebuffer, leaves the boot services, selects the heap, hands it to the
  allocator, builds the page tables and sets up the interrupts; the shell then runs for ever over the input queues, the
  tasks and the console.

    \<^item> \<open>Prelude\<close>: Rust's integers as words, checked and saturating operations, results, array loops.
      \<open>Globals\<close>: \<^verbatim>\<open>globals.rs\<close>.
    \<^item> \<open>Memory\<close>: \<^verbatim>\<open>memory.rs\<close>, the copied memory map; \<open>MemoryMapSnapshot\<close> is a table and a count, the static
      \<open>MEMORY_MAP\<close> an option. \<open>reserve_range\<close> is proved equal to cutting every range in pieces.
    \<^item> \<open>Frame\<close>: \<^verbatim>\<open>frame.rs\<close>, the allocator of 4 KiB frames: \<open>allocate\<close>, \<open>allocate_contiguous\<close> and \<open>release\<close> on sorted
      runs. The abstract view is a set of free pages; the locale \<open>page_allocator\<close> derives that no page has two owners.
    \<^item> \<open>Heap\<close>: \<open>initialize_heap\<close> of \<^verbatim>\<open>allocator/mod.rs\<close>, the composition of the two above. \<open>FreeList\<close>: the allocator of
      the feature \<^verbatim>\<open>custom-allocator\<close>, whose list lives in the bytes it hands out; the abstract view is a list of chunks.
    \<^item> \<open>Paging\<close>: \<^verbatim>\<open>paging.rs\<close>, address checks, the arena of page tables, mapping one page and a range, and \<open>initialize\<close>.
    \<^item> \<open>TaskStack\<close> and \<open>Scheduler\<close>: \<^verbatim>\<open>task/\<close>, the first stack frame, the context switch, and the table of tasks with
      generations, seen abstractly as a map from handles to states (locale \<open>handle_table\<close>).
    \<^item> \<open>Timer\<close>: \<^verbatim>\<open>timer/mod.rs\<close>. \<open>Ports\<close>: port access and the input queues (locale \<open>byte_channel\<close>). \<open>Keyboard\<close>, \<open>Mouse\<close> and
      \<open>Cursor\<close>: \<^verbatim>\<open>keyboard/\<close> and \<^verbatim>\<open>mouse/\<close>. \<open>Interrupts\<close>: \<^verbatim>\<open>interrupts/\<close> (locale \<open>interrupt_controller\<close>).
    \<^item> \<open>Graphics\<close>: \<^verbatim>\<open>graphics/\<close> and \<^verbatim>\<open>color/\<close> on a byte memory. \<open>Console\<close>: \<^verbatim>\<open>console/mod.rs\<close>. \<open>Commands\<close>: \<^verbatim>\<open>commands/\<close>.
      \<open>Shell\<close>: \<^verbatim>\<open>shell/mod.rs\<close>, one key, one mouse packet and one turn of its loop; \<open>Startup\<close>: what it does before the loop
      and the reports of \<^verbatim>\<open>meminfo\<close>, \<^verbatim>\<open>taskinfo\<close> and \<^verbatim>\<open>uptime\<close>; \<open>Idle\<close>: how it goes to sleep (\<^verbatim>\<open>platform/\<close>).
    \<^item> \<open>Boot\<close>: \<^verbatim>\<open>boot.rs\<close>, \<^verbatim>\<open>uefi_graphics/\<close> and the panic handler of \<^verbatim>\<open>main.rs\<close>. \<open>Probes\<close>: the smoke-test builds and
      \<^verbatim>\<open>uefi_compat.rs\<close>.
    \<^item> \<open>Profiler\<close>: \<^verbatim>\<open>profiling.rs\<close>, the call tree. \<open>ProfileMacro\<close>: \<^verbatim>\<open>profile-macro/src/lib.rs\<close>, the attribute macro that
      puts the hooks into the source.

  \<^bold>\<open>Conventions.\<close> A struct is a record, an enum a datatype, a static a field of the state that the operations pass on. Machine
  integers are words: plain arithmetic wraps, as in the release profile, and the checked and saturating operations are
  written out. \<open>Result\<close> is a sum with the error on the left; an operation that fails returns the state as its early return
  leaves it. \<open>None\<close> is a panic or, for a \<open>partial_function\<close>, a loop that does not end. Locks and atomics are plain state:
  the kernel runs on one processor, and where interrupts matter (\<open>Interrupts\<close>, \<open>Idle\<close>) their interleaving is explicit.

  \<^bold>\<open>Parameters.\<close> Code outside the repository is an argument with named hypotheses on it: the devices behind the ports
  (\<open>Ports\<close>), the ring buffer (\<open>ring_ok\<close>, from the documentation of the \<^verbatim>\<open>ringbuf\<close> crate), the scancode decoder
  (\<open>answer_ok\<close>), the bitmap font (\<open>Font\<close>), the mappers of the \<^verbatim>\<open>x86_64\<close> crate (\<open>paging_env_ok\<close>), the compiler's tokens and
  file system (\<open>Compiler\<close>), and the firmware (\<open>Firmware\<close>, \<open>firmware_ok\<close>). Every such hypothesis has a concrete instance.

  \<^bold>\<open>What the lemmas show.\<close> Per component: an invariant and that every operation keeps it; the result of every operation on
  every branch; and the view that its clients use (\<open>kind_at\<close> of an address, free pages, free chunks, a map of tasks, pixels
  drawn, lines of the log). Across components:
    \<^item> memory: the heap that boot selects is usable, unreserved and not in the frame pool (\<open>Heap\<close>); blocks of the allocator
      never overlap (\<open>FreeList\<close>); the page tables map exactly the image, the heap, the framebuffer and the stack (\<open>Paging\<close>);
      and for a whole boot, what the allocator hands out belongs to nobody else and is mapped (\<open>Boot\<close>);
    \<^item> input: every byte the handlers read reaches the shell in order or is counted as lost (\<open>Interrupts\<close>), the halted
      processor is never left with input waiting (\<open>Idle\<close>), and a key does to the visible line and log what an abstract
      editor says (\<open>Shell\<close>);
    \<^item> start: errors and what is reported of them (\<open>Boot\<close>), the startup tasks (\<open>Startup\<close>), and, below, the way to the prompt;
    \<^item> profiling: the macro hooks every function once, the profiler's tree counts the calls, and its dump can be read back.

  \<^bold>\<open>Bounds and fuel.\<close> Loops of the code that count down are recursion on that count: 100000 polls of the PS/2 controller, 32
  drained bytes, 64 task slots, 8 dispatches in a turn of the loop, 10 at the start, 256 entries of the memory map and of the
  frame list, 512 page tables, 256 bytes in an input queue, 16384 profiler nodes, 20 decimal digits of a number. No fuel is
  added to a loop: the others are \<open>partial_function\<close>s (the mapping loop, the free-list walks, the line loop, the wait for a
  tick, the profiler's search, the modules of the macro, \<open>wcslen\<close>) with lemmas that they end on the inputs they get. Hypotheses that bound numbers: addresses below \<open>2^47\<close>
  for mapping, coordinates below \<open>2^61\<close> for lines, screens below \<open>2^63\<close> pixels wide and lines below \<open>2^58\<close> characters for
  the console, all far beyond what the hardware has.

  \<^bold>\<open>Not modelled.\<close> The module declarations of \<^verbatim>\<open>lib.rs\<close>; the segment descriptors of \<^verbatim>\<open>gdt.rs\<close>, which only the processor reads
  (the interrupt stacks are); what is printed through the firmware; the \<^verbatim>\<open>linked_list_allocator\<close> crate, the default
  allocator, whose source is not here; accessors and derived traits, which records and datatypes have; the fallbacks for
  hosts without x86-64; the heap that strings and vectors of the console take, except where its absence matters (\<open>fatal\<close>);
  and the unit tests.

  \<^bold>\<open>Possible extensions.\<close> The console's own allocations could be threaded through \<open>FreeList\<close>, so that a full heap becomes a panic in
  the model; tasks could be run through the context switch of \<open>TaskStack\<close> once the code does so; and one statement could
  join \<open>shell_step\<close> with \<open>Idle\<close> and \<open>Interrupts\<close> to a run of the whole machine.
\<close>

section \<open>From the firmware to the prompt\<close>

text \<open>The shell that \<open>boot::initialize\<close> enters: the console and the queues that the boot left, and statics that nothing has
  touched yet.\<close>

definition entered_shell :: "'k \<Rightarrow> ('w, 'q, 'm, 't) Kernel \<Rightarrow> ('q, 'k, 'm) Shell" where
  "entered_shell decoder k =
     \<lparr>sh_console = kn_console k, sh_line = [], sh_mouse = \<lparr>mouse_x = 0, mouse_y = 0, mouse_cursor = initial_cursor\<rparr>,
      sh_keyboard = \<lparr>key_queue = mc_keyboard (kn_machine k), key_decoder = decoder, key_ctrl_held = False\<rparr>,
      sh_mouse_queue = mc_mouse (kn_machine k), sh_packet = initial_packet_state, sh_counts = (1, 1),
      sh_scheduler = scheduler_new\<rparr>"

lemma boot_started_console:
  assumes "boot_initialize font mouse io stacks rk rm env fw k = Some (Started, k')"
    and "fw_image fw = Inr img" and "init_gop fw = Inr mode" and "framebuffer_new fw mode = Inr fb"
  shows "kn_console k' = (Some (console_init fb), snd (kn_console k))"
  using assms unfolding boot_initialize_def start_kernel_def Let_def
  by (auto simp: bind_eq_Some_conv fatal_Some split: option.splits sum.splits prod.splits) (metis old.unit.exhaust sum.exhaust)



end
